(* ===== verification/Prelude.thy ===== *)
theory Prelude
  imports Main "HOL-Library.Word" "HOL-Library.Signed_Division"
begin

text \<open>
  Shared vocabulary of the development: names for the C integer types, the reading of C's
  casts and shifts on them, the collections of simplification rules the component theories
  extend, and the generic lemmas on words and lists that more than one component uses.

  \<^item> \<open>u8\<close>, \<open>u16\<close>, \<open>u32\<close>, \<open>u64\<close> are C's \<open>uint8_t\<close> to \<open>uint64_t\<close>. Arithmetic on them wraps,
    as C's unsigned arithmetic does; a cast between two widths is \<open>ucast\<close>.
  \<^item> C's \<open>int\<close> is modelled by HOL's \<^typ>\<open>int\<close> where the code never leaves the range of 32 bits;
    the cast \<open>(unsigned)x\<close> is \<open>c_unsigned\<close>.
  \<^item> C's \<open>/\<close> and \<open>%\<close> on signed operands truncate towards zero: \<open>sdiv\<close> and \<open>smod\<close> of
    HOL-Library.Signed_Division.
\<close>

unbundle bit_operations_syntax

type_synonym u8 = "8 word"
type_synonym u16 = "16 word"
type_synonym u32 = "32 word"
type_synonym u64 = "64 word"

named_theorems dev_defs \<open>definitions of device operations, to be unfolded together\<close>
named_theorems bit_facts \<open>facts on single bits of registers\<close>

definition c_unsigned :: "int \<Rightarrow> int" where
  "c_unsigned x = x mod 2 ^ 32"

lemma c_unsigned_nonneg [simp]: "0 \<le> x \<Longrightarrow> x < 2 ^ 32 \<Longrightarrow> c_unsigned x = x"
  by (simp add: c_unsigned_def)

text \<open>One bit of a register: C's \<open>1 << n\<close> at the width of the register.\<close>

abbreviation (input) bitmask :: "nat \<Rightarrow> 'a::len word" where
  "bitmask n \<equiv> 2 ^ n"

lemma bit_bitmask: "bit (bitmask n :: 'a::len word) m \<longleftrightarrow> m = n \<and> n < LENGTH('a)"
  by (auto simp: bit_simps)

lemma bit_set_mask [bit_facts]:
  "m < LENGTH('a) \<Longrightarrow> bit (w OR bitmask n :: 'a::len word) m \<longleftrightarrow> bit w m \<or> m = n"
  by (auto simp: bit_simps)

lemma bit_clear_mask [bit_facts]:
  "m < LENGTH('a) \<Longrightarrow> bit (w AND NOT (bitmask n) :: 'a::len word) m \<longleftrightarrow> bit w m \<and> m \<noteq> n"
  by (auto simp: bit_simps)

lemma masked_bit: "(m :: 'a::len word) AND bitmask n = 0 \<longleftrightarrow> \<not> bit m n"
  using bit_iff_and_push_bit_not_eq_0 [of m n] by simp

lemma bit_u8_less: "bit (m :: u8) n \<Longrightarrow> n < 8"
  by (auto dest: bit_imp_le_length)

lemma bit_clear_u8: "bit ((w :: u8) AND NOT (bitmask k)) n \<longleftrightarrow> bit w n \<and> n \<noteq> k"
  using bit_clear_mask [of n w k] by (auto simp: bit_and_iff dest: bit_u8_less)

text \<open>Words as naturals.\<close>

lemma unat_less_exp: "unat (w :: 'a::len word) < 2 ^ LENGTH('a)"
  by (fact unsigned_less)

lemma unat_ucast_up:
  "LENGTH('a) \<le> LENGTH('b) \<Longrightarrow> unat (ucast (w :: 'a::len word) :: 'b::len word) = unat w"
  by (simp add: unsigned_ucast_eq take_bit_nat_eq_self_iff order_less_le_trans [OF unsigned_less])

lemma unat_ucast_mod:
  "unat (ucast (w :: 'a::len word) :: 'b::len word) = unat w mod 2 ^ LENGTH('b)"
  by (simp add: unsigned_ucast_eq take_bit_eq_mod)

lemma unat_push_bit_mod:
  "unat (push_bit n (w :: 'a::len word)) = (unat w * 2 ^ n) mod 2 ^ LENGTH('a)"
  by (simp add: unsigned_push_bit_eq push_bit_eq_mult [of n "unat w"] take_bit_eq_mod)

lemma unat_drop_bit_div: "unat (drop_bit n (w :: 'a::len word)) = unat w div 2 ^ n"
  by (simp add: unat_drop_bit_eq drop_bit_eq_div [of n "unat w"] del: drop_bit_eq_div)

lemma unat_and_mask: "n \<le> LENGTH('a) \<Longrightarrow> unat ((w :: 'a::len word) AND mask n) = unat w mod 2 ^ n"
  by (simp add: unsigned_take_bit_eq flip: take_bit_eq_mask take_bit_eq_mod)

lemma unat_bounds:
  "unat (a :: u8) < 256" "unat (b :: u16) < 65536" "unat (c :: u32) < 4294967296"
  "unat (d :: u64) < 18446744073709551616"
  using unat_less_exp [of a] unat_less_exp [of b] unat_less_exp [of c] unat_less_exp [of d] by simp_all

lemma len_u64: "LENGTH(64) = 64"
  by simp

lemma unat_add_u64: "unat ((a :: u64) + b) = (unat a + unat b) mod 2 ^ 64"
  using unat_word_ariths(1) [of a b] by (simp only: len_u64)

lemma unat_mult_u64: "unat ((a :: u64) * b) = (unat a * unat b) mod 2 ^ 64"
  using unat_word_ariths(2) [of a b] by (simp only: len_u64)

text \<open>Carries: arithmetic on two-digit numbers to an arbitrary base.\<close>

lemma two_digit_mod:
  fixes a :: nat
  assumes "a < M"
  shows "(a + M * x) mod (M * M) = a + M * (x mod M)"
proof -
  have "(a + M * x) mod (M * M) = M * ((a + M * x) div M mod M) + (a + M * x) mod M"
    by (rule mod_mult2_eq)
  also have "(a + M * x) div M = x" using assms by simp
  also have "(a + M * x) mod M = a" using assms by simp
  finally show ?thesis by simp
qed

lemma mod_sum_carry:
  fixes a :: nat
  assumes "l < M" "a < M"
  shows "((l + a) mod M < a) = (M \<le> l + a)"
  using assms by (auto simp: le_mod_geq not_le mod_if)

lemma mod_sum_split:
  fixes a :: nat
  assumes "l < M" "a < M"
  shows "(l + a) mod M + (if M \<le> l + a then M else 0) = l + a"
  using assms by (auto simp: le_mod_geq)

lemma centred_mod:
  fixes k H :: int
  assumes "0 \<le> k" "k < 2 * H"
  shows "(k + H) mod (2 * H) - H = (if k < H then k else k - 2 * H)"
proof (cases "k < H")
  case True
  with assms show ?thesis by (simp add: mod_pos_pos_trivial)
next
  case False
  have "(k + H) mod (2 * H) = (k + H - 2 * H) mod (2 * H)"
    by (rule minus_mod_self2 [symmetric])
  also have "\<dots> = k - H" using assms False by (simp add: mod_pos_pos_trivial)
  finally show ?thesis using False by simp
qed

lemma centred_unique:
  fixes x y H :: int
  assumes "- H \<le> x" "x < H" "- H \<le> y" "y < H" "x mod (2 * H) = y mod (2 * H)"
  shows "x = y"
proof -
  have "(x + H) mod (2 * H) = (y + H) mod (2 * H)"
    using assms(5) by (rule mod_add_cong) simp
  with assms show ?thesis by (simp add: mod_pos_pos_trivial)
qed

lemma int_le_div_iff:
  fixes a b x :: int
  assumes "0 < b"
  shows "a \<le> x div b \<longleftrightarrow> a * b \<le> x"
proof
  assume "a \<le> x div b"
  then have "a * b \<le> x div b * b" using assms by (simp add: mult_right_mono)
  also have "\<dots> \<le> x" using div_mult_mod_eq [of x b] pos_mod_sign [OF assms, of x] by linarith
  finally show "a * b \<le> x" .
next
  assume "a * b \<le> x"
  then have "a * b div b \<le> x div b" using assms by (rule zdiv_mono1)
  with assms show "a \<le> x div b" by simp
qed

lemma int_div_less_iff: "0 < b \<Longrightarrow> x div b < a \<longleftrightarrow> x < a * (b :: int)"
  using int_le_div_iff [of b a x] by linarith

lemma uint_exp: "n < LENGTH('a) \<Longrightarrow> uint (2 ^ n :: 'a::len word) = 2 ^ n"
  by (simp add: uint_2p word_gt_0)

lemma sint_small: "uint (w :: u64) < 2 ^ 63 \<Longrightarrow> sint w = uint w"
  using signed_take_bit_int_eq_self [of 63 "uint w"] order_trans [OF _ uint_ge_0, of "- (2 ^ 63)" w]
  by (simp add: sint_uint)

end
