(* ===== verification/Host_Utils.thy ===== *)
theory Host_Utils
  imports Prelude
begin

text \<open>
  The integer helpers every timing device of the machine relies on: \<open>host-utils.c\<close> (the
  portable 64x64 to 128 bit multiplication, used where the host has no such instruction),
  the leading-zero count of \<open>host-utils.h\<close> in its portable form, and \<open>muldiv64\<close> of
  \<open>qemu-common.h\<close>, which scales clock values. A pair of \<open>uint64_t\<close> out parameters
  \<open>(*plow, *phigh)\<close> is a pair of words. The main facts: the two products are the exact
  unsigned and signed products, \<open>muldiv64\<close> is division of the exact product whenever the
  quotient fits (and its low 64 bits otherwise), and \<open>clz32\<close> counts leading zeros.
\<close>

section \<open>host-utils.c: 128-bit products from 64-bit words\<close>

definition add128 :: "u64 \<times> u64 \<Rightarrow> u64 \<Rightarrow> u64 \<Rightarrow> u64 \<times> u64" where
  "add128 p a b =
     (let plow = fst p + a;
          phigh = (if plow < a then snd p + 1 else snd p)
      in (plow, phigh + b))"

definition neg128 :: "u64 \<times> u64 \<Rightarrow> u64 \<times> u64" where
  "neg128 p = add128 (NOT (fst p), NOT (snd p)) 1 0"

definition mul64 :: "u64 \<Rightarrow> u64 \<Rightarrow> u64 \<times> u64" where
  "mul64 a b =
     (let a0 = ucast a :: u32; a1 = ucast (drop_bit 32 a) :: u32;
          b0 = ucast b :: u32; b1 = ucast (drop_bit 32 b) :: u32;
          v = (ucast a0 :: u64) * ucast b0;
          p = (v, 0);
          v = (ucast a0 :: u64) * ucast b1;
          p = add128 p (push_bit 32 v) (drop_bit 32 v);
          v = (ucast a1 :: u64) * ucast b0;
          p = add128 p (push_bit 32 v) (drop_bit 32 v);
          v = (ucast a1 :: u64) * ucast b1
      in (fst p, snd p + v))"

definition mulu64 :: "u64 \<Rightarrow> u64 \<Rightarrow> u64 \<times> u64" where
  "mulu64 a b = mul64 a b"

definition muls64 :: "u64 \<Rightarrow> u64 \<Rightarrow> u64 \<times> u64" where
  "muls64 a b =
     (let sa = (sint a < 0); a' = (if sa then - a else a);
          sb = (sint b < 0); b' = (if sb then - b else b);
          p = mul64 a' b'
      in if sa \<noteq> sb then neg128 p else p)"

section \<open>qemu-common.h: scaling with a 96-bit intermediate result\<close>

definition muldiv64 :: "u64 \<Rightarrow> u32 \<Rightarrow> u32 \<Rightarrow> u64" where
  "muldiv64 a b c =
     (let low = ucast a :: u32; high = ucast (drop_bit 32 a) :: u32;
          rl = (ucast low :: u64) * ucast b;
          rh = (ucast high :: u64) * ucast b;
          rh = rh + drop_bit 32 rl;
          res_high = ucast (rh div ucast c) :: u32;
          res_low = ucast ((push_bit 32 (rh mod ucast c) + (rl AND 0xffffffff)) div ucast c) :: u32
      in push_bit 32 (ucast res_high) OR ucast res_low)"


section \<open>host-utils.h: counting bits\<close>

definition clz32 :: "u32 \<Rightarrow> nat" where
  "clz32 val =
     (let (cnt, val) = (if val AND 0xFFFF0000 = 0 then (16, push_bit 16 val) else (0, val));
          (cnt, val) = (if val AND 0xFF000000 = 0 then (cnt + 8, push_bit 8 val) else (cnt, val));
          (cnt, val) = (if val AND 0xF0000000 = 0 then (cnt + 4, push_bit 4 val) else (cnt, val));
          (cnt, val) = (if val AND 0xC0000000 = 0 then (cnt + 2, push_bit 2 val) else (cnt, val));
          (cnt, val) = (if val AND 0x80000000 = 0 then (cnt + 1, push_bit 1 val) else (cnt, val))
      in if val AND 0x80000000 = 0 then cnt + 1 else cnt)"

section \<open>The value of a pair of words\<close>

definition val128 :: "u64 \<times> u64 \<Rightarrow> nat" where
  "val128 p = unat (fst p) + 2 ^ 64 * unat (snd p)"

definition sval128 :: "u64 \<times> u64 \<Rightarrow> int" where
  "sval128 p = uint (fst p) + 2 ^ 64 * sint (snd p)"

lemma val128_less: "val128 p < 2 ^ 128"
  using unat_bounds(4) [of "fst p"] unat_bounds(4) [of "snd p"] by (simp add: val128_def)

lemma val128_add_high:
  "val128 (l, h + v) = (val128 (l, h) + 2 ^ 64 * unat v) mod 2 ^ 128"
proof -
  have "unat l < 2 ^ 64" using unat_less_exp [of l] by simp
  then have "(unat l + 2 ^ 64 * (unat h + unat v)) mod (2 ^ 64 * 2 ^ 64)
        = unat l + 2 ^ 64 * ((unat h + unat v) mod 2 ^ 64)"
    by (rule two_digit_mod)
  moreover have "(2 :: nat) ^ 128 = 2 ^ 64 * 2 ^ 64"
    by simp
  ultimately show ?thesis
    by (simp only: val128_def unat_add_u64 fst_conv snd_conv distrib_left add.assoc)
qed

lemma val128_add128:
  "val128 (add128 p a b) = (val128 p + unat a + 2 ^ 64 * unat b) mod 2 ^ 128"
proof (cases p)
  case (Pair l h)
  have l: "unat l < 2 ^ 64" and a: "unat a < 2 ^ 64"
    using unat_less_exp [of l] unat_less_exp [of a] by simp_all
  have carry: "l + a < a \<longleftrightarrow> 2 ^ 64 \<le> unat l + unat a"
    using mod_sum_carry [OF l a] by (simp only: word_less_nat_alt unat_add_u64)
  define c :: u64 where "c = (if l + a < a then 1 else 0)"
  have sum: "unat (l + a) + 2 ^ 64 * unat c = unat l + unat a"
    using mod_sum_split [OF l a] carry
    by (cases "l + a < a") (simp_all add: c_def unat_add_u64)
  have "add128 p a b = (l + a, h + (c + b))"
    by (simp add: add128_def Pair c_def Let_def)
  then have "val128 (add128 p a b) = (val128 (l + a, h) + 2 ^ 64 * unat (c + b)) mod 2 ^ 128"
    by (simp only: val128_add_high)
  also have "\<dots> = val128 (l + a, h + c + b)"
    by (simp only: val128_add_high [symmetric] add.assoc)
  also have "\<dots> = ((val128 (l + a, h) + 2 ^ 64 * unat c) mod 2 ^ 128 + 2 ^ 64 * unat b) mod 2 ^ 128"
    by (simp only: val128_add_high)
  also have "\<dots> = (val128 (l + a, h) + 2 ^ 64 * unat c + 2 ^ 64 * unat b) mod 2 ^ 128"
    by (simp only: mod_add_left_eq)
  also have "val128 (l + a, h) + 2 ^ 64 * unat c = val128 p + unat a"
    using sum by (simp add: val128_def Pair)
  finally show ?thesis .
qed

section \<open>The products are exact\<close>

lemma shifted_digit:
  "unat (push_bit 32 (v :: u64)) + 2 ^ 64 * unat (drop_bit 32 v) = unat v * 2 ^ 32"
proof -
  have "unat (push_bit 32 v) = 2 ^ 32 * (unat v mod 2 ^ 32)"
    using two_digit_mod [of 0 "2 ^ 32" "unat v"] by (simp add: unat_push_bit_mod mult.commute)
  moreover have "unat (drop_bit 32 v) = unat v div 2 ^ 32"
    by (rule unat_drop_bit_div)
  moreover have "2 ^ 32 * (unat v mod 2 ^ 32) + 2 ^ 64 * (unat v div 2 ^ 32)
      = 2 ^ 32 * (2 ^ 32 * (unat v div 2 ^ 32) + unat v mod 2 ^ 32)"
    by (simp only: distrib_left) simp
  ultimately show ?thesis by (simp only: mult_div_mod_eq mult.commute)
qed

lemma val128_add_shifted:
  "val128 (add128 p (push_bit 32 v) (drop_bit 32 v)) = (val128 p + unat v * 2 ^ 32) mod 2 ^ 128"
  using shifted_digit [of v] by (simp only: val128_add128 add.assoc)

lemma unat_mult_u32:
  "unat ((ucast (x :: u32) :: u64) * ucast (y :: u32)) = unat x * unat y"
proof -
  have "unat x * unat y \<le> (2 ^ 32 - 1) * (2 ^ 32 - 1)"
    using unat_bounds(3) [of x] unat_bounds(3) [of y] by (intro mult_le_mono) simp_all
  then have "unat x * unat y < 2 ^ 64" by simp
  then show ?thesis by (simp add: unat_mult_u64 unat_ucast_up)
qed

lemma val128_mul64: "val128 (mul64 a b) = unat a * unat b"
proof -
  define a0 a1 b0 b1 :: u32 where
    digits: "a0 = ucast a" "a1 = ucast (drop_bit 32 a)" "b0 = ucast b" "b1 = ucast (drop_bit 32 b)"
  have low: "unat (ucast x :: u32) = unat x mod 2 ^ 32" for x :: u64
    by (simp add: unat_ucast_mod)
  have high: "unat (ucast (drop_bit 32 x) :: u32) = unat x div 2 ^ 32" for x :: u64
    using unat_bounds(4) [of x]
    by (simp only: unat_ucast_mod unat_drop_bit_div) (simp add: div_less_iff_less_mult)
  have split: "unat x = unat (ucast x :: u32) + 2 ^ 32 * unat (ucast (drop_bit 32 x) :: u32)" for x :: u64
    by (subst high, subst low) (simp only: mod_mult_div_eq)
  define P where "P = val128 (ucast a0 * ucast b0 :: u64, 0)"
  have "P = unat a0 * unat b0"
    by (simp add: P_def val128_def unat_mult_u32)
  then have "val128 (mul64 a b) =
      (((unat a0 * unat b0 + unat a0 * unat b1 * 2 ^ 32) mod 2 ^ 128 + unat a1 * unat b0 * 2 ^ 32) mod 2 ^ 128
        + 2 ^ 64 * (unat a1 * unat b1)) mod 2 ^ 128"
    unfolding mul64_def Let_def digits [symmetric] P_def
    by (simp only: val128_add_high prod.collapse val128_add_shifted unat_mult_u32)
  also have "\<dots> = (unat a0 * unat b0 + unat a0 * unat b1 * 2 ^ 32 + unat a1 * unat b0 * 2 ^ 32
        + 2 ^ 64 * (unat a1 * unat b1)) mod 2 ^ 128"
    by (simp only: mod_add_left_eq)
  also have "unat a0 * unat b0 + unat a0 * unat b1 * 2 ^ 32 + unat a1 * unat b0 * 2 ^ 32
        + 2 ^ 64 * (unat a1 * unat b1) = (unat a0 + 2 ^ 32 * unat a1) * (unat b0 + 2 ^ 32 * unat b1)"
    by (simp add: algebra_simps)
  also have "\<dots> = unat a * unat b"
    by (simp only: digits split [symmetric])
  also have "unat a * unat b < 2 ^ 128"
  proof -
    have "unat a * unat b \<le> (2 ^ 64 - 1) * (2 ^ 64 - 1)"
      using unat_bounds(4) [of a] unat_bounds(4) [of b] by (intro mult_le_mono) simp_all
    then show ?thesis by simp
  qed
  then have "(unat a * unat b) mod 2 ^ 128 = unat a * unat b" by (rule mod_less)
  finally show ?thesis .
qed

lemma mulu64_exact: "val128 (mulu64 a b) = unat a * unat b"
  by (simp add: mulu64_def val128_mul64)

lemma sint_u64: "sint (w :: u64) = (if unat w < 2 ^ 63 then int (unat w) else int (unat w) - 2 ^ 64)"
proof -
  have w: "0 \<le> uint w" "uint w < 2 * 2 ^ 63" using uint_lt2p [of w] by simp_all
  have "sint w = (uint w + 2 ^ 63) mod (2 * 2 ^ 63) - 2 ^ 63"
    by (simp add: sint_uint signed_take_bit_eq_take_bit_shift take_bit_eq_mod)
  also have "\<dots> = (if uint w < 2 ^ 63 then uint w else uint w - 2 * 2 ^ 63)"
    by (rule centred_mod [OF w])
  finally have "sint w = (if uint w < 2 ^ 63 then uint w else uint w - 2 * 2 ^ 63)" .
  moreover have "uint w = int (unat w)" by simp
  ultimately show ?thesis by (simp only: of_nat_less_numeral_power_cancel_iff) simp
qed

lemma sval128_val128:
  "sval128 p = (if val128 p < 2 ^ 127 then int (val128 p) else int (val128 p) - 2 ^ 128)"
  using unat_bounds(4) [of "fst p"]
  by (simp add: sval128_def val128_def sint_u64)

lemma sval128_range: "- (2 ^ 127) \<le> sval128 p" "sval128 p < 2 ^ 127"
  using val128_less [of p] by (auto simp: sval128_val128)

lemma sval128_cong: "sval128 p mod (2 * 2 ^ 127) = int (val128 p) mod (2 * 2 ^ 127)"
  by (simp add: sval128_val128)

lemma uint_not_u64: "uint (NOT (w :: u64)) = 2 ^ 64 - 1 - uint w"
proof -
  have "NOT w = - 1 - w" by (simp add: not_eq_complement)
  moreover have "w \<le> - 1" by (rule word_n1_ge)
  ultimately have "unat (NOT w) = unat (- 1 :: u64) - unat w"
    by (simp only: unat_sub)
  moreover have "unat (- 1 :: u64) = 2 ^ 64 - 1"
    by (simp add: unsigned_minus_1_eq_mask mask_eq_exp_minus_1)
  ultimately have "int (unat (NOT w)) = 2 ^ 64 - 1 - int (unat w)"
    using unat_bounds(4) [of w] by (simp del: of_nat_unat)
  then show ?thesis by simp
qed

lemma val128_neg128: "int (val128 (neg128 p)) mod (2 * 2 ^ 127) = - int (val128 p) mod (2 * 2 ^ 127)"
proof -
  have "int (val128 (NOT (fst p), NOT (snd p))) = 2 ^ 128 - 1 - int (val128 p)"
    by (simp add: val128_def uint_not_u64 algebra_simps)
  then have "int (val128 (NOT (fst p), NOT (snd p)) + unat (1 :: u64) + 2 ^ 64 * unat (0 :: u64))
      = - int (val128 p) + 2 * 2 ^ 127"
    by simp
  then have "int ((val128 (NOT (fst p), NOT (snd p)) + unat (1 :: u64) + 2 ^ 64 * unat (0 :: u64)) mod 2 ^ 128)
      = - int (val128 p) mod (2 * 2 ^ 127)"
    by (simp only: of_nat_mod) simp
  then show ?thesis
    by (simp only: neg128_def val128_add128) simp
qed

lemma uint_neg_u64:
  assumes "w \<noteq> 0"
  shows "uint (- (w :: u64)) = 2 ^ 64 - uint w"
proof -
  have "uint w mod 2 ^ 64 = uint w" using uint_lt2p [of w] by (intro mod_pos_pos_trivial) simp_all
  with assms show ?thesis by (simp add: uint_word_ariths zmod_zminus1_eq_if uint_0_iff)
qed

lemma sint_abs_u64:
  "int (unat (if sint (a :: u64) < 0 then - a else a)) = \<bar>sint a\<bar>"
proof (cases "unat a < 2 ^ 63")
  case True
  then show ?thesis by (simp add: sint_u64)
next
  case False
  then have "sint a = uint a - 2 ^ 64" by (simp add: sint_u64)
  moreover have "uint a < 2 ^ 64" using uint_lt2p [of a] by simp
  moreover have "a \<noteq> 0" using False by auto
  ultimately show ?thesis by (simp add: uint_neg_u64)
qed

lemma muls64_exact: "sval128 (muls64 a b) = sint a * sint b"
proof (rule centred_unique [where H = "2 ^ 127"])
  define P where "P = mul64 (if sint a < 0 then - a else a) (if sint b < 0 then - b else b)"
  have P: "int (val128 P) = \<bar>sint a\<bar> * \<bar>sint b\<bar>"
    by (simp only: P_def val128_mul64 of_nat_mult sint_abs_u64)
  have m: "muls64 a b = (if (sint a < 0) \<noteq> (sint b < 0) then neg128 P else P)"
    by (simp add: muls64_def P_def Let_def)
  show "sval128 (muls64 a b) mod (2 * 2 ^ 127) = (sint a * sint b) mod (2 * 2 ^ 127)"
  proof (cases "(sint a < 0) = (sint b < 0)")
    case True
    then have "\<bar>sint a\<bar> * \<bar>sint b\<bar> = sint a * sint b" by (auto simp: abs_if)
    with True P show ?thesis by (simp only: m sval128_cong if_False not_True_eq_False simp_thms)
  next
    case False
    then have "- (\<bar>sint a\<bar> * \<bar>sint b\<bar>) = sint a * sint b" by (auto simp: abs_if)
    with False P show ?thesis by (simp only: m sval128_cong val128_neg128 if_True simp_thms not_False_eq_True)
  qed
  have r: "\<bar>sint w\<bar> \<le> 2 ^ 63" for w :: u64
    using sint_greater_eq [of w] sint_less [of w] by (simp add: abs_if)
  have "\<bar>sint a * sint b\<bar> \<le> 2 ^ 63 * 2 ^ 63"
    by (simp only: abs_mult) (intro mult_mono r; simp)
  then show "- (2 ^ 127) \<le> sint a * sint b" "sint a * sint b < 2 ^ 127"
    by (simp_all add: abs_le_iff)
qed (rule sval128_range)+

section \<open>muldiv64 divides the exact product\<close>

lemma long_division:
  fixes h l c B :: nat
  assumes "0 < c" "l < B"
  shows "(h * B + l) div c = (h div c) * B + ((h mod c) * B + l) div c"
    and "((h mod c) * B + l) div c < B"
proof -
  have "h * B = (c * (h div c) + h mod c) * B" by simp
  then have "h * B + l = c * ((h div c) * B) + ((h mod c) * B + l)"
    by (simp only: distrib_right mult.assoc add.assoc)
  moreover have "(c * ((h div c) * B) + ((h mod c) * B + l)) div c
      = (h div c) * B + ((h mod c) * B + l) div c"
    using assms(1) by (intro div_mult_self4) simp
  ultimately show "(h * B + l) div c = (h div c) * B + ((h mod c) * B + l) div c"
    by (simp only:)
  have "Suc (h mod c) * B \<le> c * B" using assms(1) by (intro mult_le_mono1) (simp add: Suc_leI)
  with assms(2) have "(h mod c) * B + l < c * B" by simp
  then show "((h mod c) * B + l) div c < B"
    using assms(1) by (simp add: div_less_iff_less_mult mult.commute)
qed

lemma or_disjoint_halves:
  "unat (push_bit 32 (ucast (h :: u32) :: u64) OR ucast (l :: u32)) = unat h * 2 ^ 32 + unat l"
proof -
  have "push_bit 32 (ucast h :: u64) AND ucast l = 0"
    by (rule bit_word_eqI) (auto simp: bit_simps dest: bit_imp_le_length)
  then have eq: "push_bit 32 (ucast h :: u64) OR ucast l = push_bit 32 (ucast h) + ucast l"
    by (simp only: disjunctive_add_eq_or)
  have "unat h * 2 ^ 32 + unat l < 2 ^ 64"
    using unat_bounds(3) [of h] unat_bounds(3) [of l] by simp
  then show ?thesis unfolding eq
    by (simp add: unat_add_u64 unat_push_bit_mod unat_ucast_up)
qed

text \<open>The two partial products \<open>rl\<close> and \<open>rh\<close> of \<open>muldiv64\<close> hold the whole product.\<close>

lemma muldiv64_partial_products:
  fixes a :: u64 and b :: u32
  defines "rl \<equiv> (ucast (ucast a :: u32) :: u64) * ucast b"
  defines "rh \<equiv> (ucast (ucast (drop_bit 32 a) :: u32) :: u64) * ucast b + drop_bit 32 rl"
  shows "unat a * unat b = unat rh * 2 ^ 32 + unat rl mod 2 ^ 32"
proof -
  define L H :: nat where LH: "L = unat a mod 2 ^ 32" "H = unat a div 2 ^ 32"
  have H: "H < 2 ^ 32" using unat_bounds(4) [of a] by (simp add: LH div_less_iff_less_mult)
  have rl: "unat rl = L * unat b"
    by (simp add: rl_def unat_mult_u32 unat_ucast_mod LH)
  have high: "unat (ucast (drop_bit 32 a) :: u32) = H"
    using H by (simp only: unat_ucast_mod unat_drop_bit_div LH) simp
  have hb: "H * unat b \<le> (2 ^ 32 - 1) * (2 ^ 32 - 1)"
    using H unat_bounds(3) [of b] by (intro mult_le_mono) simp_all
  have "unat rl div 2 ^ 32 < 2 ^ 32" using unat_bounds(4) [of rl] by (simp add: div_less_iff_less_mult)
  with hb have "H * unat b + unat rl div 2 ^ 32 < 2 ^ 64" by simp
  then have rh: "unat rh = H * unat b + unat rl div 2 ^ 32"
    by (simp only: rh_def unat_add_u64 unat_mult_u32 high unat_drop_bit_div mod_less)
  have "unat a = H * 2 ^ 32 + L" unfolding LH by (rule div_mult_mod_eq [symmetric])
  then have "unat a * unat b = H * unat b * 2 ^ 32 + L * unat b"
    by (simp add: algebra_simps)
  also have "L * unat b = unat rl div 2 ^ 32 * 2 ^ 32 + unat rl mod 2 ^ 32"
    unfolding rl by (rule div_mult_mod_eq [symmetric])
  finally show ?thesis
    unfolding rh by (simp only: distrib_right add.assoc)
qed

text \<open>The low digit of the quotient: the shifted remainder never overflows 64 bits.\<close>

lemma muldiv64_low_digit:
  fixes rh rl :: u64 and c :: u32
  assumes "c \<noteq> 0"
  shows "unat (ucast ((push_bit 32 (rh mod ucast c) + (rl AND 0xffffffff)) div ucast c) :: u32)
       = (unat rh mod unat c * 2 ^ 32 + unat rl mod 2 ^ 32) div unat c" (is "_ = ?q")
proof -
  have c: "0 < unat c" "unat c < 2 ^ 32"
    using assms unat_bounds(3) [of c] by (simp_all add: unat_gt_0)
  have lo: "unat rl mod 2 ^ 32 < 2 ^ 32" by simp
  have q: "?q < 2 ^ 32" by (rule long_division(2) [OF c(1) lo])
  have uc: "unat (ucast c :: u64) = unat c" by (simp add: unat_ucast_up)
  have m: "unat (rh mod ucast c) = unat rh mod unat c" by (simp only: unat_mod uc)
  have "unat rh mod unat c < 2 ^ 32" using c by (meson mod_less_divisor less_trans)
  then have sum: "unat rh mod unat c * 2 ^ 32 + unat rl mod 2 ^ 32 < 2 ^ 64" using lo by simp
  have "(0xffffffff :: u64) = mask 32" by (simp add: mask_eq_exp_minus_1)
  then have "unat (rl AND 0xffffffff) = unat rl mod 2 ^ 32"
    using unat_and_mask [of 32 rl] by simp
  moreover have "unat (push_bit 32 (rh mod ucast c)) = unat rh mod unat c * 2 ^ 32"
    using sum by (simp add: unat_push_bit_mod m)
  ultimately show ?thesis
    using sum q
    by (simp only: unat_ucast_mod [of "_ div ucast c"] unat_div unat_add_u64 uc mod_less) simp
qed

lemma muldiv64_spec:
  assumes "c \<noteq> 0"
  shows "unat (muldiv64 a b c) = (unat a * unat b div unat c) mod 2 ^ 64"
proof -
  define rl rh :: u64 where
    r: "rl = ucast (ucast a :: u32) * ucast b"
       "rh = ucast (ucast (drop_bit 32 a) :: u32) * ucast b + drop_bit 32 rl"
  have c: "0 < unat c" using assms by (simp add: unat_gt_0)
  let ?q = "(unat rh mod unat c * 2 ^ 32 + unat rl mod 2 ^ 32) div unat c"
  have q: "?q < 2 ^ 32" by (rule long_division(2) [OF c]) simp
  have high: "unat (ucast (rh div ucast c) :: u32) = unat rh div unat c mod 2 ^ 32"
    by (simp add: unat_ucast_mod [of "rh div ucast c"] unat_div unat_ucast_up)
  have "unat (muldiv64 a b c) = (unat rh div unat c mod 2 ^ 32) * 2 ^ 32 + ?q"
    unfolding muldiv64_def Let_def r [symmetric] or_disjoint_halves muldiv64_low_digit [OF assms] high ..
  also have "\<dots> = (unat rh div unat c * 2 ^ 32 + ?q) mod (2 ^ 32 * 2 ^ 32)"
    using two_digit_mod [OF q, of "unat rh div unat c"] by (simp only: add.commute mult.commute)
  also have "unat rh div unat c * 2 ^ 32 + ?q = unat a * unat b div unat c"
    unfolding muldiv64_partial_products [of a b] r
    by (rule long_division(1) [OF c, symmetric]) simp
  finally show ?thesis by simp
qed

section \<open>clz32 counts leading zeros\<close>

text \<open>
  One halving step: if the top \<open>k\<close> bits are clear, shift them out and count them. Each step
  doubles the guaranteed number of significant bits.
\<close>

lemma clz32_test:
  assumes "n + k = 32"
  shows "((val :: u32) AND push_bit n (mask k) = 0) \<longleftrightarrow> unat val < 2 ^ n"
proof -
  have bits: "bit (val AND push_bit n (mask k)) m \<longleftrightarrow> bit val m \<and> n \<le> m" for m
    using assms bit_imp_le_length [of val m] by (auto simp: bit_simps)
  have "(val AND push_bit n (mask k) = 0) \<longleftrightarrow> (\<forall>m. \<not> (bit val m \<and> n \<le> m))"
    unfolding bits [symmetric] by (auto intro: bit_word_eqI)
  also have "\<dots> \<longleftrightarrow> (\<forall>m. \<not> bit (drop_bit n val) m)"
    by (metis bit_drop_bit_eq comp_apply le_add1 le_iff_add)
  also have "\<dots> \<longleftrightarrow> drop_bit n val = 0"
    by (auto intro: bit_word_eqI)
  also have "\<dots> \<longleftrightarrow> unat val div 2 ^ n = 0"
    by (simp only: word_unat_eq_iff [of "drop_bit _ _"] unat_drop_bit_div unat_0)
  finally show ?thesis by (simp add: div_eq_0_iff)
qed

definition clz_step :: "nat \<Rightarrow> nat \<times> u32 \<Rightarrow> nat \<times> u32" where
  "clz_step k cv =
     (if unat (snd cv) < 2 ^ (32 - k) then (fst cv + k, push_bit k (snd cv)) else cv)"

definition clz_inv :: "nat \<Rightarrow> nat \<Rightarrow> nat \<times> u32 \<Rightarrow> bool" where
  "clz_inv n lo cv \<longleftrightarrow> 2 ^ lo \<le> unat (snd cv) \<and> unat (snd cv) = n * 2 ^ fst cv \<and> fst cv \<le> lo"

lemma clz_step_inv:
  assumes "clz_inv n lo cv" "lo + 2 * k \<le> 32"
  shows "clz_inv n (lo + k) (clz_step k cv)"
proof (cases "unat (snd cv) < 2 ^ (32 - k)")
  case True
  then have "unat (snd cv) * 2 ^ k < 2 ^ (32 - k) * 2 ^ k" by simp
  also have "(2 :: nat) ^ (32 - k) * 2 ^ k = 2 ^ 32" using assms(2) by (simp flip: power_add)
  finally have "unat (push_bit k (snd cv)) = unat (snd cv) * 2 ^ k"
    by (simp add: unat_push_bit_mod)
  with True assms(1) show ?thesis by (simp add: clz_inv_def clz_step_def power_add)
next
  case False
  have "(2 :: nat) ^ (lo + k) \<le> 2 ^ (32 - k)" using assms(2) by (intro power_increasing) simp_all
  then have "2 ^ (lo + k) \<le> unat (snd cv)" using False by linarith
  with False assms(1) show ?thesis by (simp add: clz_inv_def clz_step_def)
qed

lemmas clz32_tests =
  clz32_test [of 16 16, simplified mask_eq_exp_minus_1, simplified]
  clz32_test [of 24 8, simplified mask_eq_exp_minus_1, simplified]
  clz32_test [of 28 4, simplified mask_eq_exp_minus_1, simplified]
  clz32_test [of 30 2, simplified mask_eq_exp_minus_1, simplified]
  clz32_test [of 31 1, simplified mask_eq_exp_minus_1, simplified]

lemma clz32_by_steps:
  "clz32 val =
     (let cv = clz_step 1 (clz_step 2 (clz_step 4 (clz_step 8 (clz_step 16 (0, val)))))
      in if unat (snd cv) < 2 ^ 31 then fst cv + 1 else fst cv)"
proof -
  have "(if v AND 0xFFFF0000 = 0 then (16, push_bit 16 v) else (0, v)) = clz_step 16 (0, v)"
    "(if v AND 0xFF000000 = 0 then (c + 8, push_bit 8 v) else (c, v)) = clz_step 8 (c, v)"
    "(if v AND 0xF0000000 = 0 then (c + 4, push_bit 4 v) else (c, v)) = clz_step 4 (c, v)"
    "(if v AND 0xC0000000 = 0 then (c + 2, push_bit 2 v) else (c, v)) = clz_step 2 (c, v)"
    "(if v AND 0x80000000 = 0 then (c + 1, push_bit 1 v) else (c, v)) = clz_step 1 (c, v)"
    "v AND 0x80000000 = 0 \<longleftrightarrow> unat v < 2 ^ 31" for c and v :: u32
    by (simp_all add: clz32_tests clz_step_def)
  note steps = this
  show ?thesis
    unfolding clz32_def Let_def steps(1-5) unfolding steps(6) by (simp only: split_def prod.collapse)
qed

text \<open>The count is right: a non-zero value has its highest bit at \<open>31 - clz32\<close>.\<close>

lemma clz32_zero: "clz32 0 = 32"
  by (simp add: clz32_def)

lemma clz32_bounds:
  assumes "val \<noteq> 0"
  shows "clz32 val \<le> 31 \<and> 2 ^ (31 - clz32 val) \<le> unat val \<and> unat val < 2 ^ (32 - clz32 val)"
proof -
  define cv where "cv = clz_step 1 (clz_step 2 (clz_step 4 (clz_step 8 (clz_step 16 (0, val)))))"
  have "clz_inv (unat val) 0 (0, val)"
    using assms by (simp add: clz_inv_def Suc_leI unat_gt_0)
  then have "clz_inv (unat val) (((((0 + 16) + 8) + 4) + 2) + 1) cv"
    unfolding cv_def by (intro clz_step_inv) simp_all
  then have inv: "2 ^ 31 \<le> unat val * 2 ^ fst cv" "unat (snd cv) = unat val * 2 ^ fst cv" "fst cv \<le> 31"
    by (auto simp: clz_inv_def)
  then have c: "clz32 val = fst cv"
    unfolding clz32_by_steps cv_def [symmetric] Let_def by simp
  have "2 ^ (31 - fst cv) * 2 ^ fst cv \<le> unat val * 2 ^ fst cv"
    using inv by (simp flip: power_add)
  moreover have "unat val * 2 ^ fst cv < 2 ^ (32 - fst cv) * 2 ^ fst cv"
    using inv unat_bounds(3) [of "snd cv"] by (simp flip: power_add)
  ultimately show ?thesis
    using inv(3) by (simp add: c)
qed

lemma unat_muldiv64:
  assumes "0 \<le> a" "a < 2 ^ 64" "c \<noteq> 0" "a * uint b div uint c < 2 ^ 64"
  shows "int (unat (muldiv64 (word_of_int a) b c)) = a * uint b div uint c"
proof -
  have "int (unat (word_of_int a :: u64)) = a"
    using assms(1,2) by (simp add: uint_word_of_int_eq take_bit_int_eq_self)
  then have "int (unat (muldiv64 (word_of_int a) b c)) = (a * uint b div uint c) mod 2 ^ 64"
    unfolding muldiv64_spec [OF assms(3)]
    by (simp only: of_nat_mod of_nat_div of_nat_mult uint_nat of_nat_power of_nat_numeral)
  moreover have "0 \<le> a * uint b div uint c"
    using assms(1) by (simp add: pos_imp_zdiv_nonneg_iff div_int_pos_iff)
  ultimately show ?thesis using assms(4) by simp
qed

section \<open>Properties\<close>

theorem wide_products_exact:
  "val128 (mulu64 a b) = unat a * unat b \<and> sval128 (muls64 a b) = sint a * sint b"
  by (simp add: mulu64_exact muls64_exact)

theorem muldiv64_exact:
  assumes "c \<noteq> 0" "unat a * unat b div unat c < 2 ^ 64"
  shows "unat (muldiv64 a b c) = unat a * unat b div unat c"
  using assms(2) by (simp add: muldiv64_spec [OF assms(1)])

theorem muldiv64_exact_witness: "unat (muldiv64 0x1000000000000000 1000 3000) = 0x1000000000000000 div 3"
  using muldiv64_exact [of 3000 "0x1000000000000000" 1000] by simp

end
