(* ===== verification/Memory.thy ===== *)
theory Memory
  imports Prelude
begin

text \<open>
  The byte-addressed memory that C code shares through pointers: a store from addresses to
  bytes, the region a pointer and a length denote, and \<open>memcpy\<close> and \<open>memset\<close> on it. Two
  buffers are apart when their regions do not overlap, which is what C demands of the operands
  of \<open>memcpy\<close>. The lemmas say what a region holds after a write to the same or to another one.
\<close>

type_synonym mem = "nat \<Rightarrow> u8"

definition region :: "mem \<Rightarrow> nat \<Rightarrow> nat \<Rightarrow> u8 list" where
  "region m a n = map m [a..<a + n]"

definition mem_write :: "mem \<Rightarrow> nat \<Rightarrow> u8 list \<Rightarrow> mem" where
  "mem_write m a bs = (\<lambda>x. if a \<le> x \<and> x < a + length bs then bs ! (x - a) else m x)"

definition memcpy :: "mem \<Rightarrow> nat \<Rightarrow> nat \<Rightarrow> nat \<Rightarrow> mem" where
  "memcpy m dst src n = mem_write m dst (region m src n)"

definition memset :: "mem \<Rightarrow> nat \<Rightarrow> u8 \<Rightarrow> nat \<Rightarrow> mem" where
  "memset m dst c n = mem_write m dst (replicate n c)"

definition apart :: "nat \<Rightarrow> nat \<Rightarrow> nat \<Rightarrow> nat \<Rightarrow> bool" where
  "apart a n b k \<longleftrightarrow> a + n \<le> b \<or> b + k \<le> a"

lemma length_region [simp]: "length (region m a n) = n"
  by (simp add: region_def)

lemma region_0 [simp]: "region m a 0 = []"
  by (simp add: region_def)

lemma nth_region [simp]: "i < n \<Longrightarrow> region m a n ! i = m (a + i)"
  by (simp add: region_def)

lemma region_add: "region m a (n + k) = region m a n @ region m (a + n) k"
  by (rule nth_equalityI) (auto simp: nth_append add.assoc)

lemma take_region: "take k (region m a n) = region m a (min k n)"
  by (rule nth_equalityI) simp_all

lemma drop_region: "drop k (region m a n) = region m (a + k) (n - k)"
  by (rule nth_equalityI) (simp_all add: add.assoc)

lemma mem_write_Nil [simp]: "mem_write m a [] = m"
  by (auto simp: mem_write_def fun_eq_iff)

lemma mem_write_append: "mem_write m a (xs @ ys) = mem_write (mem_write m a xs) (a + length xs) ys"
  by (auto simp: mem_write_def nth_append fun_eq_iff)

lemma region_write_same [simp]: "region (mem_write m a bs) a (length bs) = bs"
  by (rule nth_equalityI) (simp_all add: mem_write_def)

lemma region_write_apart [simp]:
  "apart a n b (length bs) \<Longrightarrow> region (mem_write m b bs) a n = region m a n"
  by (rule nth_equalityI) (auto simp: mem_write_def apart_def)

lemma region_write_prefix:
  "length bs \<le> n \<Longrightarrow> region (mem_write m a bs) a n = bs @ drop (length bs) (region m a n)"
  by (rule nth_equalityI) (auto simp: mem_write_def nth_append)

lemma apart_sym: "apart a n b k \<longleftrightarrow> apart b k a n"
  by (auto simp: apart_def)

lemma apart_shrink: "apart a n b k \<Longrightarrow> k' \<le> k \<Longrightarrow> apart a n b k'"
  by (auto simp: apart_def)

end
