(* ===== verification/Cutils.thy ===== *)
theory Cutils
  imports Host_Utils Memory "HOL-Library.Sublist"
begin

text \<open>
  The string and time utilities of \<open>cutils.c\<close>. A C array of \<open>char\<close> is a list of bytes; a
  string is the part of it before the first NUL (\<open>cstr\<close>). A read or a write outside the array
  has no defined result in C, so every operation that walks a pointer returns an option whose
  \<open>None\<close> is that undefined access; the theorems show it cannot happen on terminated strings and
  large enough buffers. \<open>mktimegm\<close> computes its day count times 86400 in \<open>int\<close>, so it is
  undefined (\<open>None\<close>) when that product leaves the 32-bit range.
\<close>

section \<open>Definitions\<close>

definition cstr :: "u8 list \<Rightarrow> u8 list" where
  "cstr s = takeWhile (\<lambda>c. c \<noteq> 0) s"

text \<open>\<open>pstrcpy\<close>: the loop of lines 36-41; \<open>q\<close> is the write position, \<open>lim\<close> is \<open>buf_size - 1\<close>.\<close>

definition put_char :: "u8 list \<Rightarrow> nat \<Rightarrow> u8 \<Rightarrow> u8 list option" where
  "put_char buf q c = (if q < length buf then Some (buf[q := c]) else None)"

fun pstrcpy_loop :: "u8 list \<Rightarrow> nat \<Rightarrow> nat \<Rightarrow> u8 list \<Rightarrow> u8 list option" where
  "pstrcpy_loop buf q lim [] = None"
| "pstrcpy_loop buf q lim (c # str) =
     (if c = 0 \<or> q \<ge> lim then put_char buf q 0
      else (case put_char buf q c of None \<Rightarrow> None | Some buf' \<Rightarrow> pstrcpy_loop buf' (q + 1) lim str))"

definition pstrcpy :: "u8 list \<Rightarrow> int \<Rightarrow> u8 list \<Rightarrow> u8 list option" where
  "pstrcpy buf buf_size str =
     (if buf_size \<le> 0 then Some buf else pstrcpy_loop buf 0 (nat (buf_size - 1)) str)"

fun c_strlen :: "u8 list \<Rightarrow> nat option" where
  "c_strlen [] = None"
| "c_strlen (c # s) = (if c = 0 then Some 0 else map_option Suc (c_strlen s))"

definition pstrcat :: "u8 list \<Rightarrow> int \<Rightarrow> u8 list \<Rightarrow> u8 list option" where
  "pstrcat buf buf_size s =
     (case c_strlen buf of None \<Rightarrow> None
      | Some len \<Rightarrow>
          if int len < buf_size
          then map_option (\<lambda>t. take len buf @ t) (pstrcpy (drop len buf) (buf_size - int len) s)
          else Some buf)"

text \<open>
  \<open>strstart\<close> and \<open>stristart\<close>: the inner option is the return value, \<open>Some p\<close> for 1 with
  \<open>*ptr = p\<close> and \<open>None\<close> for 0.
\<close>

fun strstart :: "u8 list \<Rightarrow> u8 list \<Rightarrow> u8 list option option" where
  "strstart p [] = None"
| "strstart p (c # q) =
     (if c = 0 then Some (Some p)
      else (case p of [] \<Rightarrow> None
            | d # p' \<Rightarrow> if d \<noteq> c then Some None else strstart p' q))"

definition qemu_toupper :: "u8 \<Rightarrow> u8" where
  "qemu_toupper c = (if 97 \<le> c \<and> c \<le> 122 then c - 32 else c)"

fun stristart :: "u8 list \<Rightarrow> u8 list \<Rightarrow> u8 list option option" where
  "stristart p [] = None"
| "stristart p (c # q) =
     (if c = 0 then Some (Some p)
      else (case p of [] \<Rightarrow> None
            | d # p' \<Rightarrow> if qemu_toupper d \<noteq> qemu_toupper c then Some None else stristart p' q))"

text \<open>\<open>qemu_strnlen\<close>: the list is the array from \<open>s[i]\<close> on.\<close>

fun qemu_strnlen_loop :: "u8 list \<Rightarrow> int \<Rightarrow> int \<Rightarrow> int option" where
  "qemu_strnlen_loop [] max_len i = (if i < max_len then None else Some i)"
| "qemu_strnlen_loop (c # s) max_len i =
     (if i < max_len
      then if c = 0 then Some i else qemu_strnlen_loop s max_len (i + 1)
      else Some i)"

definition qemu_strnlen :: "u8 list \<Rightarrow> int \<Rightarrow> int option" where
  "qemu_strnlen s max_len = qemu_strnlen_loop s max_len 0"

definition qemu_fls :: "u32 \<Rightarrow> nat" where
  "qemu_fls i = 32 - clz32 i"

text \<open>The fields of \<open>struct tm\<close> the machine uses.\<close>

record tm =
  tm_sec :: int
  tm_min :: int
  tm_hour :: int
  tm_mday :: int
  tm_mon :: int
  tm_year :: int
  tm_wday :: int

definition int_ok :: "int \<Rightarrow> bool" where
  "int_ok x \<longleftrightarrow> - (2 ^ 31) \<le> x \<and> x < 2 ^ 31"

definition mktimegm :: "tm \<Rightarrow> int option" where
  "mktimegm tm =
     (let y = tm_year tm + 1900; m = tm_mon tm + 1; d = tm_mday tm;
          (m, y) = (if m < 3 then (m + 12, y - 1) else (m, y));
          t = 86400 * (d + (153 * m - 457) sdiv 5 + 365 * y + y sdiv 4 - y sdiv 100
                       + y sdiv 400 - 719469)
      in if int_ok t then Some (t + (3600 * tm_hour tm + 60 * tm_min tm + tm_sec tm)) else None)"

section \<open>Strings\<close>

lemma cstr_Nil [simp]: "cstr [] = []"
  by (simp add: cstr_def)

lemma cstr_Cons [simp]: "cstr (c # s) = (if c = 0 then [] else c # cstr s)"
  by (simp add: cstr_def)

lemma cstr_append_nul [simp]: "0 \<notin> set xs \<Longrightarrow> cstr (xs @ 0 # ys) = xs"
  by (simp add: cstr_def takeWhile_append)

lemma zero_notin_cstr: "0 \<notin> set (cstr s)"
  by (auto simp: cstr_def dest: set_takeWhileD)

lemma c_strlen_eq: "0 \<in> set s \<Longrightarrow> c_strlen s = Some (length (cstr s))"
  by (induction s) auto

lemma cstr_eq_take: "cstr s = take (length (cstr s)) s"
  unfolding cstr_def by (metis takeWhile_eq_take)

lemma cstr_less: "0 \<in> set s \<Longrightarrow> length (cstr s) < length s"
  by (induction s) auto

text \<open>The loop of \<open>pstrcpy\<close> fills the buffer from position \<open>q\<close> on and terminates it.\<close>

lemma pstrcpy_loop_eq:
  assumes "0 \<in> set str" "q \<le> lim" "lim < length buf"
  shows "pstrcpy_loop buf q lim str =
    (let w = take (lim - q) (cstr str)
     in Some (take q buf @ w @ 0 # drop (q + length w + 1) buf))"
  using assms
proof (induction str arbitrary: buf q)
  case Nil
  then show ?case by simp
next
  case (Cons c str)
  show ?case
  proof (cases "c = 0 \<or> q \<ge> lim")
    case True
    with Cons.prems show ?thesis
      by (auto simp: put_char_def upd_conv_take_nth_drop)
  next
    case False
    then obtain k where k: "lim - q = Suc k" "lim - Suc q = k" by (metis Suc_diff_Suc not_le)
    have "pstrcpy_loop (buf[q := c]) (q + 1) lim str =
        (let w = take (lim - (q + 1)) (cstr str)
         in Some (take (q + 1) (buf[q := c]) @ w @ 0 # drop (q + 1 + length w + 1) (buf[q := c])))"
      using Cons.prems False by (intro Cons.IH) auto
    moreover have "take (q + 1) (buf[q := c]) = take q buf @ [c]"
      using Cons.prems by (simp add: take_Suc_conv_app_nth)
    ultimately show ?thesis
      using False Cons.prems k by (simp add: put_char_def Let_def)
  qed
qed

lemma pstrcpy_spec:
  assumes "0 \<in> set str" "0 < n" "n \<le> int (length buf)"
  shows "\<exists>buf'. pstrcpy buf n str = Some buf' \<and> length buf' = length buf
    \<and> cstr buf' = take (nat n - 1) (cstr str) \<and> drop (nat n) buf' = drop (nat n) buf"
proof -
  define w where "w = take (nat n - 1) (cstr str)"
  have n: "nat (n - 1) = nat n - 1" "nat n - 1 < length buf" using assms(2,3) by auto
  have w: "length w \<le> nat n - 1" "0 \<notin> set w"
    using zero_notin_cstr [of str] by (auto simp: w_def dest: in_set_takeD)
  have "pstrcpy buf n str = Some (w @ 0 # drop (length w + 1) buf)"
    using assms n by (simp add: pstrcpy_def pstrcpy_loop_eq w_def Let_def)
  moreover have "drop (nat n) (w @ 0 # drop (length w + 1) buf) = drop (nat n) buf"
  proof -
    have "length w < nat n" using w(1) assms(2) by linarith
    then obtain k where "nat n = Suc (length w + k)" using less_imp_Suc_add by blast
    then show ?thesis by (simp add: add.commute)
  qed
  ultimately show ?thesis using w n by (simp add: w_def)
qed

lemma cstr_append: "0 \<notin> set xs \<Longrightarrow> cstr (xs @ t) = xs @ cstr t"
  by (induction xs) auto

lemma pstrcat_spec:
  assumes "0 \<in> set str" "0 \<in> set buf" "int (length (cstr buf)) < n" "n \<le> int (length buf)"
  shows "\<exists>buf'. pstrcat buf n str = Some buf' \<and> length buf' = length buf
    \<and> cstr buf' = take (nat n - 1) (cstr buf @ cstr str) \<and> drop (nat n) buf' = drop (nat n) buf"
proof -
  let ?l = "length (cstr buf)"
  have "0 < n - int ?l" "n - int ?l \<le> int (length (drop ?l buf))" using assms(3,4) by auto
  from pstrcpy_spec [OF assms(1) this] obtain t where
    t: "pstrcpy (drop ?l buf) (n - int ?l) str = Some t" "length t = length buf - ?l"
       "cstr t = take (nat (n - int ?l) - 1) (cstr str)"
       "drop (nat (n - int ?l)) t = drop (nat (n - int ?l)) (drop ?l buf)"
    by auto
  have n: "nat (n - int ?l) = nat n - ?l" "?l < nat n" using assms(3) by auto
  have "pstrcat buf n str = Some (cstr buf @ t)"
    using assms(2,3) t(1) cstr_eq_take [of buf] by (simp add: pstrcat_def c_strlen_eq)
  moreover have "cstr (cstr buf @ t) = take (nat n - 1) (cstr buf @ cstr str)"
    using n t(3) by (simp add: cstr_append zero_notin_cstr)
  moreover have "drop (nat n) (cstr buf @ t) = drop (nat n) buf"
    using n t(4) by simp
  moreover have "length (cstr buf @ t) = length buf"
    using t(2) cstr_less [OF assms(2)] by simp
  ultimately show ?thesis by blast
qed

text \<open>Prefix tests, and the bounded length.\<close>

lemma strstart_spec:
  "0 \<in> set str \<Longrightarrow> 0 \<in> set val \<Longrightarrow>
   strstart str val =
     Some (if prefix (cstr val) (cstr str) then Some (drop (length (cstr val)) str) else None)"
proof (induction str val rule: strstart.induct)
  case (2 p c q)
  show ?case
  proof (cases "c = 0")
    case False
    with 2 show ?thesis by (cases p) auto
  qed simp
qed simp

lemma stristart_spec:
  "0 \<in> set str \<Longrightarrow> 0 \<in> set val \<Longrightarrow>
   stristart str val =
     Some (if prefix (map qemu_toupper (cstr val)) (map qemu_toupper (cstr str))
           then Some (drop (length (cstr val)) str) else None)"
proof (induction str val rule: stristart.induct)
  case (2 p c q)
  have up: "qemu_toupper d = 0 \<longleftrightarrow> d = 0" for d
    by (auto simp: qemu_toupper_def)
  show ?case
  proof (cases "c = 0")
    case False
    then have "qemu_toupper 0 \<noteq> qemu_toupper c" using up [of 0] up [of c] by auto
    with False 2 show ?thesis by (cases p) auto
  qed simp
qed simp

lemma qemu_strnlen_loop_spec:
  "max_len \<le> i + int (length s) \<or> 0 \<in> set s \<Longrightarrow>
   qemu_strnlen_loop s max_len i = Some (max i (min max_len (i + int (length (cstr s)))))"
  by (induction s max_len i rule: qemu_strnlen_loop.induct) auto

lemma qemu_strnlen_spec:
  "0 \<le> max_len \<Longrightarrow> max_len \<le> int (length s) \<or> 0 \<in> set s \<Longrightarrow>
   qemu_strnlen s max_len = Some (min max_len (int (length (cstr s))))"
  by (simp add: qemu_strnlen_def qemu_strnlen_loop_spec)

lemma qemu_fls_spec:
  "qemu_fls 0 = 0"
  "i \<noteq> 0 \<Longrightarrow> 2 ^ (qemu_fls i - 1) \<le> unat i \<and> unat i < 2 ^ qemu_fls i"
  using clz32_bounds [of i] by (auto simp: qemu_fls_def clz32_zero)

section \<open>Calendar time\<close>

text \<open>The civil calendar, as a reference: leap years, days of a month, days since 1 January 1970.\<close>

definition leap :: "int \<Rightarrow> bool" where
  "leap y \<longleftrightarrow> y mod 4 = 0 \<and> (y mod 100 \<noteq> 0 \<or> y mod 400 = 0)"

definition month_days :: "int \<Rightarrow> int \<Rightarrow> int" where
  "month_days y m =
     (if m = 1 then (if leap y then 29 else 28)
      else if m \<in> {3, 5, 8, 10} then 30 else 31)"

definition civil_days :: "int \<Rightarrow> int \<Rightarrow> int \<Rightarrow> int" where
  "civil_days y m d =
     (\<Sum>i \<in> {1970..<y}. if leap i then 366 else 365) + (\<Sum>i \<in> {0..<m}. month_days y i) + (d - 1)"

definition valid_tm :: "tm \<Rightarrow> bool" where
  "valid_tm t \<longleftrightarrow>
     0 \<le> tm_sec t \<and> tm_sec t < 60 \<and> 0 \<le> tm_min t \<and> tm_min t < 60 \<and> 0 \<le> tm_hour t \<and> tm_hour t < 24
     \<and> 0 \<le> tm_mon t \<and> tm_mon t < 12
     \<and> 1 \<le> tm_mday t \<and> tm_mday t \<le> month_days (tm_year t + 1900) (tm_mon t)"

definition leap_count :: "int \<Rightarrow> int" where
  "leap_count y = y div 4 - y div 100 + y div 400"

definition day_number :: "int \<Rightarrow> int \<Rightarrow> int \<Rightarrow> int" where
  "day_number y m d =
     (let (m, y) = (if m + 1 < 3 then (m + 1 + 12, y - 1) else (m + 1, y))
      in d + (153 * m - 457) div 5 + 365 * y + leap_count y - 719469)"

lemma sdiv_nonneg: "0 \<le> (a :: int) \<Longrightarrow> 0 < b \<Longrightarrow> a sdiv b = a div b"
  by (simp add: signed_divide_int_def sgn_if)

lemma smod_nonneg: "0 \<le> (a :: int) \<Longrightarrow> 0 < b \<Longrightarrow> a smod b = a mod b"
  by (simp add: signed_modulo_int_def sgn_if)

lemma div_pred:
  fixes y c :: int
  assumes "0 < c"
  shows "(y - 1) div c = y div c - (if y mod c = 0 then 1 else 0)"
proof (cases "y mod c = 0")
  case True
  then have "y - 1 = c * (y div c - 1) + (c - 1)"
    by (simp add: algebra_simps minus_mod_eq_mult_div [symmetric])
  then have "(y - 1) div c = y div c - 1"
    by (rule int_div_pos_eq) (use assms in auto)
  with True show ?thesis by simp
next
  case False
  then have "1 \<le> y mod c" using pos_mod_sign [OF assms, of y] by linarith
  moreover have "y mod c - 1 < c" using pos_mod_bound [OF assms, of y] by linarith
  moreover have "y - 1 = c * (y div c) + (y mod c - 1)" by simp
  ultimately have "(y - 1) div c = y div c" by (metis int_div_pos_eq diff_ge_0_iff_ge)
  with False show ?thesis by simp
qed

lemma leap_count_step: "leap_count y = leap_count (y - 1) + (if leap y then 1 else 0)"
proof -
  have "y mod 400 = 0 \<Longrightarrow> y mod 100 = 0" "y mod 100 = 0 \<Longrightarrow> y mod 4 = 0"
    by (auto simp: mod_eq_0_iff_dvd intro: dvd_trans [of _ 400] dvd_trans [of _ 100])
  then show ?thesis by (auto simp: leap_count_def div_pred leap_def)
qed

lemma day_number_month_step:
  assumes "0 \<le> m" "m < 11"
  shows "day_number y (m + 1) 1 = day_number y m 1 + month_days y m"
proof -
  have "m \<in> {0, 1, 2, 3, 4, 5, 6, 7, 8, 9, 10}" using assms by simp arith
  then show ?thesis
    using leap_count_step [of y] by (elim insertE emptyE) (simp_all add: day_number_def month_days_def)
qed

lemma day_number_year_step:
  "day_number (y + 1) 0 1 = day_number y 0 1 + (if leap y then 366 else 365)"
  using leap_count_step [of y] by (simp add: day_number_def)

lemma day_number_day: "day_number y m d = day_number y m 1 + (d - 1)"
  by (simp add: day_number_def)

lemma day_number_year_start:
  "1970 \<le> y \<Longrightarrow> day_number y 0 1 = (\<Sum>i \<in> {1970..<y}. if leap i then 366 else 365)"
proof (induction y rule: int_ge_induct)
  case base
  show ?case by (simp add: day_number_def leap_count_def)
next
  case (step y)
  then have "{1970..<y + 1} = insert y {1970..<y}" by auto
  then show ?case using step by (simp add: day_number_year_step)
qed

lemma day_number_month_start:
  assumes "k \<le> 11"
  shows "day_number y (int k) 1 = day_number y 0 1 + (\<Sum>i \<in> {0..<int k}. month_days y i)"
  using assms
proof (induction k)
  case (Suc k)
  then have "{0..<int (Suc k)} = insert (int k) {0..<int k}" by auto
  then show ?case
    using Suc day_number_month_step [of "int k" y] by (simp add: add.commute)
qed simp

lemma day_number_civil:
  assumes "1970 \<le> y" "0 \<le> m" "m < 12"
  shows "day_number y m d = civil_days y m d"
proof -
  obtain k where "m = int k" "k \<le> 11" using assms(2,3) by (intro that [of "nat m"]) auto
  then show ?thesis
    using assms day_number_month_start [of k y] day_number_year_start [of y] day_number_day [of y m d]
    by (simp add: civil_days_def)
qed

lemma mktimegm_day_number:
  assumes "1970 \<le> tm_year t + 1900" "0 \<le> tm_mon t" "tm_mon t < 12"
  shows "mktimegm t =
    (let n = 86400 * day_number (tm_year t + 1900) (tm_mon t) (tm_mday t)
     in if int_ok n then Some (n + 3600 * tm_hour t + 60 * tm_min t + tm_sec t) else None)"
proof -
  have "(153 * m - 457) sdiv 5 = (153 * m - 457) div 5" if "3 \<le> m" for m :: int
    using that by (intro sdiv_nonneg) simp_all
  then show ?thesis
    using assms by (simp add: mktimegm_def day_number_def leap_count_def Let_def sdiv_nonneg algebra_simps)
qed

lemma civil_days_2038: "civil_days 2038 0 1 = 24837"
  using day_number_civil [of 2038 0 1] by (simp add: day_number_def leap_count_def)

lemma year_days: "(\<Sum>i \<in> {0..<12}. month_days y i) = (if leap y then 366 else 365)"
proof -
  have "{0..<12 :: int} = {0, 1, 2, 3, 4, 5, 6, 7, 8, 9, 10, 11}" by auto arith
  then show ?thesis by (simp add: month_days_def)
qed

lemma civil_days_bounds:
  assumes "1970 \<le> y" "y < 2038" "0 \<le> m" "m < 12" "1 \<le> d" "d \<le> month_days y m"
  shows "0 \<le> civil_days y m d \<and> civil_days y m d < 24837"
proof -
  let ?Y = "\<lambda>y. \<Sum>i \<in> {1970..<y}. if leap i then 366 else 365 :: int"
  have md: "0 \<le> month_days y i" for i by (simp add: month_days_def)
  have "{0..<m + 1} = insert m {0..<m}" using assms(3) by auto
  then have "(\<Sum>i \<in> {0..<m}. month_days y i) + month_days y m = (\<Sum>i \<in> {0..<m + 1}. month_days y i)"
    by simp
  also have "\<dots> \<le> (\<Sum>i \<in> {0..<12}. month_days y i)"
    using assms(4) md by (intro sum_mono2) auto
  finally have months: "(\<Sum>i \<in> {0..<m}. month_days y i) + month_days y m \<le> (if leap y then 366 else 365)"
    by (simp only: year_days)
  have "{1970..<y + 1} = insert y {1970..<y}" using assms(1) by auto
  then have "?Y y + (if leap y then 366 else 365) = ?Y (y + 1)" by simp
  also have "?Y (y + 1) \<le> ?Y 2038" using assms(2) by (intro sum_mono2) auto
  also have "\<dots> = 24837" using civil_days_2038 by (simp add: civil_days_def)
  finally have years: "?Y y + (if leap y then 366 else 365) \<le> 24837" .
  have "0 \<le> ?Y y" "0 \<le> (\<Sum>i \<in> {0..<m}. month_days y i)"
    by (intro sum_nonneg; simp add: md)+
  with months years assms(5,6) show ?thesis unfolding civil_days_def by linarith
qed

lemma mktimegm_civil:
  assumes "valid_tm t" "1970 \<le> tm_year t + 1900" "tm_year t + 1900 < 2038"
  shows "mktimegm t =
    Some (86400 * civil_days (tm_year t + 1900) (tm_mon t) (tm_mday t)
          + 3600 * tm_hour t + 60 * tm_min t + tm_sec t)"
proof -
  have m: "0 \<le> tm_mon t" "tm_mon t < 12" using assms(1) by (simp_all add: valid_tm_def)
  have "0 \<le> civil_days (tm_year t + 1900) (tm_mon t) (tm_mday t)
      \<and> civil_days (tm_year t + 1900) (tm_mon t) (tm_mday t) < 24837"
    using assms by (intro civil_days_bounds) (simp_all add: valid_tm_def)
  then have "int_ok (86400 * civil_days (tm_year t + 1900) (tm_mon t) (tm_mday t))"
    by (simp add: int_ok_def)
  then show ?thesis
    using assms(2) m by (simp add: mktimegm_day_number day_number_civil Let_def)
qed

lemma mktimegm_overflow:
  assumes "valid_tm t" "1970 \<le> tm_year t + 1900"
    and "24856 \<le> civil_days (tm_year t + 1900) (tm_mon t) (tm_mday t)"
  shows "mktimegm t = None"
  using assms by (simp add: mktimegm_day_number day_number_civil valid_tm_def int_ok_def Let_def)

section \<open>Properties\<close>

theorem pstrcat_bounded:
  assumes "0 \<in> set str" "0 \<in> set buf" "int (length (cstr buf)) < n" "n \<le> int (length buf)"
  shows "\<exists>buf'. pstrcat buf n str = Some buf' \<and> length buf' = length buf
    \<and> cstr buf' = take (nat n - 1) (cstr buf @ cstr str) \<and> drop (nat n) buf' = drop (nat n) buf"
  using assms by (rule pstrcat_spec)

theorem pstrcat_bounded_witness:
  "\<exists>buf'. pstrcat [97, 0, 1, 1, 9] 4 [98, 99, 100, 0] = Some buf' \<and> cstr buf' = [97, 98, 99] \<and> drop 4 buf' = [9]"
  using pstrcat_bounded [of "[98, 99, 100, 0]" "[97, 0, 1, 1, 9]" 4] by auto

theorem mktimegm_counts_seconds:
  assumes "valid_tm t" "1970 \<le> tm_year t + 1900" "tm_year t + 1900 < 2038"
  shows "mktimegm t =
    Some (86400 * civil_days (tm_year t + 1900) (tm_mon t) (tm_mday t)
          + 3600 * tm_hour t + 60 * tm_min t + tm_sec t)"
  using assms by (rule mktimegm_civil)

theorem mktimegm_counts_seconds_witness:
  "mktimegm \<lparr>tm_sec = 7, tm_min = 0, tm_hour = 1, tm_mday = 2, tm_mon = 0, tm_year = 70, tm_wday = 5\<rparr> = Some 90007"
  using mktimegm_counts_seconds
    [of "\<lparr>tm_sec = 7, tm_min = 0, tm_hour = 1, tm_mday = 2, tm_mon = 0, tm_year = 70, tm_wday = 5\<rparr>"]
  by (simp add: valid_tm_def month_days_def civil_days_def)

end
