(* ===== verification/Iov.thy ===== *)
theory Iov
  imports Memory
begin

text \<open>
  Scatter/gather vectors: \<open>QEMUIOVector\<close> of \<open>cutils.c\<close> and the plain \<open>struct iovec\<close> helpers
  of \<open>iov.c\<close>. The valid part of the array (\<open>iov[0] .. iov[niov - 1]\<close>) is a list, so \<open>niov\<close>
  is its length; \<open>nalloc\<close> is the capacity, \<open>-1\<close> for a vector over an external array. Sizes are
  naturals: the total size of the regions of one vector is below the size of the address space,
  so the C sums do not wrap. A failing \<open>assert\<close> is the result \<open>None\<close>. What a vector denotes in
  a memory is the concatenation of its regions (\<open>iov_bytes\<close>), and each operation is characterised
  by its effect on that byte string.
\<close>

section \<open>Definitions\<close>

record iovec =
  iov_base :: nat
  iov_len :: nat

record QEMUIOVector =
  iov :: "iovec list"
  nalloc :: int
  size :: nat

definition niov :: "QEMUIOVector \<Rightarrow> nat" where
  "niov q = length (iov q)"

definition qemu_iovec_init :: "int \<Rightarrow> QEMUIOVector" where
  "qemu_iovec_init alloc_hint = \<lparr>iov = [], nalloc = alloc_hint, size = 0\<rparr>"

fun iov_size :: "iovec list \<Rightarrow> nat" where
  "iov_size [] = 0"
| "iov_size (v # vs) = iov_len v + iov_size vs"

definition qemu_iovec_init_external :: "iovec list \<Rightarrow> QEMUIOVector" where
  "qemu_iovec_init_external vs = \<lparr>iov = vs, nalloc = -1, size = fold (\<lambda>v n. n + iov_len v) vs 0\<rparr>"

definition qemu_iovec_add :: "QEMUIOVector \<Rightarrow> nat \<Rightarrow> nat \<Rightarrow> QEMUIOVector option" where
  "qemu_iovec_add q base len =
     (if nalloc q = -1 then None
      else let q = (if int (niov q) = nalloc q then q\<lparr>nalloc := 2 * nalloc q + 1\<rparr> else q)
           in Some (q\<lparr>iov := iov q @ [\<lparr>iov_base = base, iov_len = len\<rparr>], size := size q + len\<rparr>))"

text \<open>The loop of \<open>qemu_iovec_copy\<close> over the entries of \<open>src\<close> not yet visited.\<close>

fun qemu_iovec_copy_loop ::
  "QEMUIOVector \<Rightarrow> iovec list \<Rightarrow> nat \<Rightarrow> nat \<Rightarrow> nat \<Rightarrow> QEMUIOVector option" where
  "qemu_iovec_copy_loop dst [] skip done' sz = Some dst"
| "qemu_iovec_copy_loop dst (v # vs) skip done' sz =
     (if done' = sz then Some dst
      else if skip \<ge> iov_len v then qemu_iovec_copy_loop dst vs (skip - iov_len v) done' sz
      else let base = iov_base v + skip; len = iov_len v - skip
           in if done' + len > sz then qemu_iovec_add dst base (sz - done')
              else (case qemu_iovec_add dst base len of
                      None \<Rightarrow> None
                    | Some dst' \<Rightarrow> qemu_iovec_copy_loop dst' vs 0 (done' + len) sz))"

definition qemu_iovec_copy ::
  "QEMUIOVector \<Rightarrow> QEMUIOVector \<Rightarrow> nat \<Rightarrow> nat \<Rightarrow> QEMUIOVector option" where
  "qemu_iovec_copy dst src skip sz =
     (if nalloc dst = -1 then None else qemu_iovec_copy_loop dst (iov src) skip 0 sz)"

definition qemu_iovec_concat ::
  "QEMUIOVector \<Rightarrow> QEMUIOVector \<Rightarrow> nat \<Rightarrow> QEMUIOVector option" where
  "qemu_iovec_concat dst src sz = qemu_iovec_copy dst src 0 sz"

definition qemu_iovec_reset :: "QEMUIOVector \<Rightarrow> QEMUIOVector option" where
  "qemu_iovec_reset q = (if nalloc q = -1 then None else Some (q\<lparr>iov := [], size := 0\<rparr>))"

fun qemu_iovec_to_buffer_loop :: "mem \<Rightarrow> iovec list \<Rightarrow> nat \<Rightarrow> mem" where
  "qemu_iovec_to_buffer_loop m [] p = m"
| "qemu_iovec_to_buffer_loop m (v # vs) p =
     qemu_iovec_to_buffer_loop (memcpy m p (iov_base v) (iov_len v)) vs (p + iov_len v)"

definition qemu_iovec_to_buffer :: "mem \<Rightarrow> QEMUIOVector \<Rightarrow> nat \<Rightarrow> mem" where
  "qemu_iovec_to_buffer m q buf = qemu_iovec_to_buffer_loop m (iov q) buf"

fun qemu_iovec_from_buffer_loop :: "mem \<Rightarrow> iovec list \<Rightarrow> nat \<Rightarrow> nat \<Rightarrow> mem" where
  "qemu_iovec_from_buffer_loop m [] p count = m"
| "qemu_iovec_from_buffer_loop m (v # vs) p count =
     (if count = 0 then m
      else let copy = (if count > iov_len v then iov_len v else count)
           in qemu_iovec_from_buffer_loop (memcpy m (iov_base v) p copy) vs (p + copy) (count - copy))"

definition qemu_iovec_from_buffer :: "mem \<Rightarrow> QEMUIOVector \<Rightarrow> nat \<Rightarrow> nat \<Rightarrow> mem" where
  "qemu_iovec_from_buffer m q buf count = qemu_iovec_from_buffer_loop m (iov q) buf count"

fun qemu_iovec_memset_loop :: "mem \<Rightarrow> iovec list \<Rightarrow> u8 \<Rightarrow> nat \<Rightarrow> mem" where
  "qemu_iovec_memset_loop m [] c count = m"
| "qemu_iovec_memset_loop m (v # vs) c count =
     (if count = 0 then m
      else let n = min count (iov_len v)
           in qemu_iovec_memset_loop (memset m (iov_base v) c n) vs c (count - n))"

definition qemu_iovec_memset :: "mem \<Rightarrow> QEMUIOVector \<Rightarrow> u8 \<Rightarrow> nat \<Rightarrow> mem" where
  "qemu_iovec_memset m q c count = qemu_iovec_memset_loop m (iov q) c count"

fun qemu_iovec_memset_skip_loop :: "mem \<Rightarrow> iovec list \<Rightarrow> u8 \<Rightarrow> nat \<Rightarrow> nat \<Rightarrow> nat \<Rightarrow> mem" where
  "qemu_iovec_memset_skip_loop m [] c count skip done' = m"
| "qemu_iovec_memset_skip_loop m (v # vs) c count skip done' =
     (if done' = count then m
      else if skip \<ge> iov_len v then qemu_iovec_memset_skip_loop m vs c count (skip - iov_len v) done'
      else let base = iov_base v + skip; len = iov_len v - skip
           in if done' + len > count then memset m base c (count - done')
              else qemu_iovec_memset_skip_loop (memset m base c len) vs c count 0 (done' + len))"

definition qemu_iovec_memset_skip :: "mem \<Rightarrow> QEMUIOVector \<Rightarrow> u8 \<Rightarrow> nat \<Rightarrow> nat \<Rightarrow> mem" where
  "qemu_iovec_memset_skip m q c count skip = qemu_iovec_memset_skip_loop m (iov q) c count skip 0"

text \<open>\<open>iov.c\<close>: \<open>iov_from_buf\<close> and \<open>iov_to_buf\<close> also return how many bytes they moved.\<close>

fun iov_from_buf_loop :: "mem \<Rightarrow> iovec list \<Rightarrow> nat \<Rightarrow> nat \<Rightarrow> nat \<Rightarrow> mem \<times> nat" where
  "iov_from_buf_loop m [] buf sz offset = (m, offset)"
| "iov_from_buf_loop m (v # vs) buf sz offset =
     (if offset < sz
      then let len = min (iov_len v) (sz - offset)
           in iov_from_buf_loop (memcpy m (iov_base v) (buf + offset) len) vs buf sz (offset + len)
      else (m, offset))"

definition iov_from_buf :: "mem \<Rightarrow> iovec list \<Rightarrow> nat \<Rightarrow> nat \<Rightarrow> mem \<times> nat" where
  "iov_from_buf m vs buf sz = iov_from_buf_loop m vs buf sz 0"

fun iov_to_buf_loop ::
  "mem \<Rightarrow> iovec list \<Rightarrow> nat \<Rightarrow> nat \<Rightarrow> nat \<Rightarrow> nat \<Rightarrow> nat \<Rightarrow> mem \<times> nat" where
  "iov_to_buf_loop m [] ptr offset sz iov_off buf_off = (m, buf_off)"
| "iov_to_buf_loop m (v # vs) ptr offset sz iov_off buf_off =
     (if sz = 0 then (m, buf_off)
      else if offset < iov_off + iov_len v
      then let len = min (iov_off + iov_len v - offset) sz
           in iov_to_buf_loop (memcpy m (ptr + buf_off) (iov_base v + (offset - iov_off)) len) vs
                ptr (offset + len) (sz - len) (iov_off + iov_len v) (buf_off + len)
      else iov_to_buf_loop m vs ptr offset sz (iov_off + iov_len v) buf_off)"

definition iov_to_buf :: "mem \<Rightarrow> iovec list \<Rightarrow> nat \<Rightarrow> nat \<Rightarrow> nat \<Rightarrow> mem \<times> nat" where
  "iov_to_buf m vs buf offset sz = iov_to_buf_loop m vs buf offset sz 0 0"

section \<open>What a vector denotes\<close>

definition iov_bytes :: "mem \<Rightarrow> iovec list \<Rightarrow> u8 list" where
  "iov_bytes m vs = concat (map (\<lambda>v. region m (iov_base v) (iov_len v)) vs)"

definition qiov_wf :: "QEMUIOVector \<Rightarrow> bool" where
  "qiov_wf q \<longleftrightarrow> size q = iov_size (iov q) \<and> (nalloc q = -1 \<or> int (niov q) \<le> nalloc q)"

text \<open>The regions of a vector do not overlap; a buffer overlaps none of them.\<close>

fun iov_apart :: "iovec list \<Rightarrow> bool" where
  "iov_apart [] = True"
| "iov_apart (v # vs) =
     ((\<forall>w \<in> set vs. apart (iov_base v) (iov_len v) (iov_base w) (iov_len w)) \<and> iov_apart vs)"

definition buf_apart :: "nat \<Rightarrow> nat \<Rightarrow> iovec list \<Rightarrow> bool" where
  "buf_apart b n vs \<longleftrightarrow> (\<forall>v \<in> set vs. apart b n (iov_base v) (iov_len v))"

lemma iov_bytes_Nil [simp]: "iov_bytes m [] = []"
  by (simp add: iov_bytes_def)

lemma iov_bytes_Cons [simp]:
  "iov_bytes m (v # vs) = region m (iov_base v) (iov_len v) @ iov_bytes m vs"
  by (simp add: iov_bytes_def)

lemma iov_bytes_append [simp]: "iov_bytes m (vs @ ws) = iov_bytes m vs @ iov_bytes m ws"
  by (simp add: iov_bytes_def)

lemma length_iov_bytes [simp]: "length (iov_bytes m vs) = iov_size vs"
  by (induction vs) simp_all

lemma iov_size_append [simp]: "iov_size (vs @ ws) = iov_size vs + iov_size ws"
  by (induction vs) simp_all

lemma buf_apart_Cons [simp]:
  "buf_apart b n (v # vs) \<longleftrightarrow> apart b n (iov_base v) (iov_len v) \<and> buf_apart b n vs"
  by (simp add: buf_apart_def)

lemma buf_apart_Nil [simp]: "buf_apart b n []"
  by (simp add: buf_apart_def)

lemma buf_apart_mono: "buf_apart b n vs \<Longrightarrow> b \<le> b' \<Longrightarrow> b' + k \<le> b + n \<Longrightarrow> buf_apart b' k vs"
  by (fastforce simp: buf_apart_def apart_def)

lemma iov_bytes_write_apart [simp]:
  "buf_apart b (length bs) vs \<Longrightarrow> iov_bytes (mem_write m b bs) vs = iov_bytes m vs"
  by (induction vs) (auto simp: apart_sym)

lemma iov_apart_head: "iov_apart (v # vs) \<Longrightarrow> n \<le> iov_len v \<Longrightarrow> buf_apart (iov_base v) n vs"
  by (fastforce simp: buf_apart_def apart_def)

section \<open>Building vectors\<close>

lemma qiov_wf_init: "0 \<le> n \<Longrightarrow> qiov_wf (qemu_iovec_init n)"
  by (simp add: qiov_wf_def qemu_iovec_init_def niov_def)

lemma fold_iov_len: "fold (\<lambda>v n. n + iov_len v) vs k = k + iov_size vs"
  by (induction vs arbitrary: k) simp_all

lemma qiov_wf_init_external: "qiov_wf (qemu_iovec_init_external vs)"
  by (simp add: qiov_wf_def qemu_iovec_init_external_def fold_iov_len)

lemma qemu_iovec_add_spec:
  assumes "qiov_wf q" "nalloc q \<noteq> -1"
  obtains q' where "qemu_iovec_add q base len = Some q'" "qiov_wf q'" "nalloc q' \<noteq> -1"
    "iov q' = iov q @ [\<lparr>iov_base = base, iov_len = len\<rparr>]"
  using assms by (auto simp: qemu_iovec_add_def qiov_wf_def niov_def Let_def)

lemma qemu_iovec_copy_loop_spec:
  assumes "qiov_wf dst" "nalloc dst \<noteq> -1" "done' \<le> sz"
  shows "\<exists>dst' ws. qemu_iovec_copy_loop dst vs skip done' sz = Some dst' \<and> qiov_wf dst'
    \<and> nalloc dst' \<noteq> -1 \<and> iov dst' = iov dst @ ws
    \<and> (\<forall>m. iov_bytes m ws = take (sz - done') (drop skip (iov_bytes m vs)))"
  using assms
proof (induction dst vs skip done' sz rule: qemu_iovec_copy_loop.induct)
  case (1 dst skip done' sz)
  then show ?case by auto
next
  case (2 dst v vs skip done' sz)
  let ?base = "iov_base v + skip" and ?len = "iov_len v - skip"
  consider (stop) "done' = sz" | (skip) "done' \<noteq> sz" "skip \<ge> iov_len v"
    | (part) "done' \<noteq> sz" "skip < iov_len v" "done' + ?len > sz"
    | (whole) "done' \<noteq> sz" "skip < iov_len v" "done' + ?len \<le> sz"
    by linarith
  then show ?case
  proof cases
    case stop
    with "2.prems" show ?thesis by auto
  next
    case skip
    with "2.IH"(1) "2.prems" show ?thesis by (auto simp: drop_append)
  next
    case part
    obtain d where "qemu_iovec_add dst ?base (sz - done') = Some d" "qiov_wf d" "nalloc d \<noteq> -1"
      "iov d = iov dst @ [\<lparr>iov_base = ?base, iov_len = sz - done'\<rparr>]"
      by (rule qemu_iovec_add_spec [OF "2.prems"(1,2)])
    with part show ?thesis
      by (auto simp: Let_def drop_region take_region min_def)
  next
    case whole
    obtain d where d: "qemu_iovec_add dst ?base ?len = Some d" "qiov_wf d" "nalloc d \<noteq> -1"
      "iov d = iov dst @ [\<lparr>iov_base = ?base, iov_len = ?len\<rparr>]"
      by (rule qemu_iovec_add_spec [OF "2.prems"(1,2)])
    from "2.IH"(2) [of ?base ?len d] whole d obtain d' ws where
      "qemu_iovec_copy_loop d vs 0 (done' + ?len) sz = Some d'" "qiov_wf d'" "nalloc d' \<noteq> -1"
      "iov d' = iov d @ ws" "\<forall>m. iov_bytes m ws = take (sz - (done' + ?len)) (iov_bytes m vs)"
      by auto
    with whole d show ?thesis
      by (auto simp: Let_def drop_region intro!: exI [of _ "\<lparr>iov_base = ?base, iov_len = ?len\<rparr> # ws"])
  qed
qed

lemma qemu_iovec_copy_spec:
  assumes "qiov_wf dst" "nalloc dst \<noteq> -1"
  shows "\<exists>dst'. qemu_iovec_copy dst src skip sz = Some dst' \<and> qiov_wf dst'
    \<and> (\<forall>m. iov_bytes m (iov dst')
            = iov_bytes m (iov dst) @ take sz (drop skip (iov_bytes m (iov src))))"
proof -
  from qemu_iovec_copy_loop_spec [OF assms, of 0 sz "iov src" skip] obtain d ws where
    "qemu_iovec_copy_loop dst (iov src) skip 0 sz = Some d" "qiov_wf d" "iov d = iov dst @ ws"
    "\<forall>m. iov_bytes m ws = take sz (drop skip (iov_bytes m (iov src)))"
    by auto
  with assms show ?thesis by (simp add: qemu_iovec_copy_def)
qed

section \<open>Moving bytes between vectors and buffers\<close>

lemma qemu_iovec_to_buffer_loop_spec:
  "buf_apart p (iov_size vs) vs \<Longrightarrow> qemu_iovec_to_buffer_loop m vs p = mem_write m p (iov_bytes m vs)"
proof (induction m vs p rule: qemu_iovec_to_buffer_loop.induct)
  case (2 m v vs p)
  let ?bs = "region m (iov_base v) (iov_len v)"
  have "buf_apart (p + iov_len v) (iov_size vs) vs" "buf_apart p (length ?bs) vs"
    using "2.prems" by (auto elim!: buf_apart_mono)
  then show ?case
    using "2.IH" by (simp add: memcpy_def mem_write_append)
qed simp

text \<open>
  Writing the head of a list of apart regions: the rest of the vector does not notice.
\<close>

lemma iov_bytes_write_head:
  assumes "iov_apart (v # vs)" "length bs \<le> iov_len v"
  shows "iov_bytes (mem_write m (iov_base v) bs) (v # vs)
       = bs @ drop (length bs) (region m (iov_base v) (iov_len v)) @ iov_bytes m vs"
  using assms iov_apart_head [OF assms] by (simp add: region_write_prefix)

lemma iov_bytes_write_mid:
  assumes "iov_apart (v # vs)" "k + length bs \<le> iov_len v"
  shows "iov_bytes (mem_write m (iov_base v + k) bs) (v # vs)
       = take k (region m (iov_base v) (iov_len v)) @ bs
         @ drop (k + length bs) (region m (iov_base v) (iov_len v)) @ iov_bytes m vs"
proof -
  have "buf_apart (iov_base v) (iov_len v) vs" using iov_apart_head [OF assms(1)] by simp
  then have tail: "buf_apart (iov_base v + k) (length bs) vs"
    using assms(2) by (auto elim!: buf_apart_mono)
  have "region (mem_write m (iov_base v + k) bs) (iov_base v) (iov_len v)
      = take k (region m (iov_base v) (iov_len v)) @ bs @ drop (k + length bs) (region m (iov_base v) (iov_len v))"
    using assms(2) by (intro nth_equalityI) (auto simp: mem_write_def nth_append)
  with tail show ?thesis by simp
qed

lemma qemu_iovec_from_buffer_loop_frame:
  assumes "buf_apart b n vs"
  shows "region (qemu_iovec_from_buffer_loop m vs p count) b n = region m b n"
  using assms
  by (induction m vs p count rule: qemu_iovec_from_buffer_loop.induct)
     (auto simp: Let_def memcpy_def intro!: region_write_apart elim: apart_shrink)

lemma qemu_iovec_from_buffer_loop_spec:
  "iov_apart vs \<Longrightarrow> buf_apart p count vs \<Longrightarrow>
   iov_bytes (qemu_iovec_from_buffer_loop m vs p count) vs
     = region m p (min count (iov_size vs)) @ drop count (iov_bytes m vs)"
proof (induction m vs p count rule: qemu_iovec_from_buffer_loop.induct)
  case (2 m v vs p count)
  define copy where "copy = min count (iov_len v)"
  define m1 where "m1 = memcpy m (iov_base v) p copy"
  show ?case
  proof (cases "count = 0")
    case False
    have "(if count > iov_len v then iov_len v else count) = copy" by (simp add: copy_def)
    then have loop: "qemu_iovec_from_buffer_loop m (v # vs) p count
        = qemu_iovec_from_buffer_loop m1 vs (p + copy) (count - copy)"
      using False by (simp add: m1_def Let_def)
    have head: "buf_apart (iov_base v) (iov_len v) vs" "buf_apart (iov_base v) copy vs"
      using "2.prems"(1) by (auto intro!: iov_apart_head simp: copy_def)
    have buf: "buf_apart (p + copy) (count - copy) vs"
      using "2.prems"(2) by (auto elim!: buf_apart_mono simp: copy_def)
    have away: "region m1 (p + copy) n = region m (p + copy) n" if "copy + n \<le> count" for n
      using "2.prems"(2) that unfolding m1_def memcpy_def
      by (intro region_write_apart) (auto simp: apart_def copy_def)
    have "iov_bytes (qemu_iovec_from_buffer_loop m1 vs (p + copy) (count - copy)) vs
        = region m1 (p + copy) (min (count - copy) (iov_size vs)) @ drop (count - copy) (iov_bytes m1 vs)"
      using "2.IH" [OF False _] "2.prems" buf False unfolding m1_def copy_def
      by (simp add: min_def split: if_splits)
    moreover have "iov_bytes m1 vs = iov_bytes m vs"
      unfolding m1_def memcpy_def using head by simp
    moreover have "region (qemu_iovec_from_buffer_loop m1 vs (p + copy) (count - copy)) (iov_base v) (iov_len v)
        = region m p copy @ drop copy (region m (iov_base v) (iov_len v))"
      using qemu_iovec_from_buffer_loop_frame [OF head(1)]
      by (simp add: m1_def memcpy_def region_write_prefix copy_def)
    ultimately show ?thesis
      unfolding loop using away region_add [of m p copy "min (count - copy) (iov_size vs)"]
      by (auto simp: copy_def min_def)
  qed simp
qed simp

lemma qemu_iovec_memset_loop_frame:
  assumes "buf_apart b n vs"
  shows "region (qemu_iovec_memset_loop m vs c count) b n = region m b n"
  using assms
  by (induction m vs c count rule: qemu_iovec_memset_loop.induct)
     (auto simp: Let_def memset_def intro!: region_write_apart elim: apart_shrink)

lemma qemu_iovec_memset_loop_spec:
  "iov_apart vs \<Longrightarrow>
   iov_bytes (qemu_iovec_memset_loop m vs c count) vs
     = replicate (min count (iov_size vs)) c @ drop count (iov_bytes m vs)"
proof (induction m vs c count rule: qemu_iovec_memset_loop.induct)
  case (2 m v vs c count)
  define n where "n = min count (iov_len v)"
  define m1 where "m1 = memset m (iov_base v) c n"
  show ?case
  proof (cases "count = 0")
    case False
    then have loop: "qemu_iovec_memset_loop m (v # vs) c count = qemu_iovec_memset_loop m1 vs c (count - n)"
      by (simp add: m1_def n_def Let_def)
    have head: "buf_apart (iov_base v) (iov_len v) vs" "buf_apart (iov_base v) n vs"
      using "2.prems"(1) by (auto intro!: iov_apart_head simp: n_def)
    have "iov_bytes (qemu_iovec_memset_loop m1 vs c (count - n)) vs
        = replicate (min (count - n) (iov_size vs)) c @ drop (count - n) (iov_bytes m1 vs)"
      using "2.IH" [OF False] "2.prems" by (simp add: m1_def n_def)
    moreover have "iov_bytes m1 vs = iov_bytes m vs"
      unfolding m1_def memset_def using head by simp
    moreover have "region (qemu_iovec_memset_loop m1 vs c (count - n)) (iov_base v) (iov_len v)
        = replicate n c @ drop n (region m (iov_base v) (iov_len v))"
      using qemu_iovec_memset_loop_frame [OF head(1)]
      by (simp add: m1_def memset_def region_write_prefix n_def)
    ultimately show ?thesis
      unfolding loop by (auto simp: n_def min_def replicate_add [symmetric])
  qed simp
qed simp

lemma qemu_iovec_memset_skip_loop_frame:
  assumes "buf_apart b n vs"
  shows "region (qemu_iovec_memset_skip_loop m vs c count skip done') b n = region m b n"
  using assms
  by (induction m vs c count skip done' rule: qemu_iovec_memset_skip_loop.induct)
     (auto simp: Let_def memset_def apart_def intro!: region_write_apart)

lemma qemu_iovec_memset_skip_loop_spec:
  "iov_apart vs \<Longrightarrow> done' \<le> count \<Longrightarrow>
   iov_bytes (qemu_iovec_memset_skip_loop m vs c count skip done') vs
     = take skip (iov_bytes m vs) @ replicate (min (count - done') (iov_size vs - skip)) c
       @ drop (skip + (count - done')) (iov_bytes m vs)"
proof (induction m vs c count skip done' rule: qemu_iovec_memset_skip_loop.induct)
  case (2 m v vs c count skip done')
  let ?base = "iov_base v + skip" and ?len = "iov_len v - skip"
  have head: "buf_apart (iov_base v) (iov_len v) vs"
    using "2.prems"(1) by (auto intro!: iov_apart_head)
  consider (stop) "done' = count" | (skip) "done' \<noteq> count" "skip \<ge> iov_len v"
    | (part) "done' \<noteq> count" "skip < iov_len v" "done' + ?len > count"
    | (whole) "done' \<noteq> count" "skip < iov_len v" "done' + ?len \<le> count"
    by linarith
  then show ?case
  proof cases
    case stop
    then show ?thesis by (simp del: iov_bytes_Cons)
  next
    case skip
    with "2.IH"(1) "2.prems" qemu_iovec_memset_skip_loop_frame [OF head] show ?thesis
      by (simp add: add.commute)
  next
    case part
    then have "skip + length (replicate (count - done') c) \<le> iov_len v" by simp
    with part iov_bytes_write_mid [OF "2.prems"(1) this, of m] show ?thesis
      by (simp add: Let_def memset_def min_def)
  next
    case whole
    define m1 where "m1 = memset m ?base c ?len"
    have loop: "qemu_iovec_memset_skip_loop m (v # vs) c count skip done'
        = qemu_iovec_memset_skip_loop m1 vs c count 0 (done' + ?len)"
      using whole by (simp add: m1_def Let_def)
    have "skip + length (replicate ?len c) \<le> iov_len v" using whole by simp
    from iov_bytes_write_mid [OF "2.prems"(1) this, of m] whole
    have m1: "iov_bytes m1 (v # vs) = take skip (region m (iov_base v) (iov_len v)) @ replicate ?len c @ iov_bytes m vs"
      by (simp add: m1_def memset_def)
    let ?R = "take skip (region m (iov_base v) (iov_len v)) @ replicate ?len c"
    have "region m1 (iov_base v) (iov_len v) @ iov_bytes m1 vs = ?R @ iov_bytes m vs"
      using m1 by simp
    moreover have "length (region m1 (iov_base v) (iov_len v)) = length ?R"
      using whole by simp
    ultimately have split: "region m1 (iov_base v) (iov_len v) = ?R" "iov_bytes m1 vs = iov_bytes m vs"
      by (metis append_eq_append_conv)+
    have "iov_bytes (qemu_iovec_memset_skip_loop m1 vs c count 0 (done' + ?len)) vs
        = replicate (min (count - (done' + ?len)) (iov_size vs)) c @ drop (count - (done' + ?len)) (iov_bytes m1 vs)"
      using "2.IH"(2) [OF whole(1) _ refl refl] whole "2.prems" by (simp add: m1_def)
    with whole split qemu_iovec_memset_skip_loop_frame [OF head, of m1 c count 0 "done' + ?len"]
    show ?thesis unfolding loop
      by (auto simp: min_def replicate_add [symmetric] add.commute)
  qed
qed simp

lemma iov_from_buf_loop_eq:
  "offset \<le> sz \<Longrightarrow>
   iov_from_buf_loop m vs buf sz offset
     = (qemu_iovec_from_buffer_loop m vs (buf + offset) (sz - offset), offset + min (sz - offset) (iov_size vs))"
proof (induction m vs buf sz offset rule: iov_from_buf_loop.induct)
  case (2 m v vs buf sz offset)
  have "(if sz - offset > iov_len v then iov_len v else sz - offset) = min (iov_len v) (sz - offset)"
    by simp
  with 2 show ?case by (auto simp: Let_def add.assoc min_def)
qed simp

lemma iov_to_buf_loop_0: "iov_to_buf_loop m vs ptr offset 0 iov_off buf_off = (m, buf_off)"
  by (cases vs) simp_all

lemma iov_to_buf_loop_spec:
  assumes "buf_apart ptr (buf_off + min sz (iov_off + iov_size vs - offset)) vs" "iov_off \<le> offset"
  shows "iov_to_buf_loop m vs ptr offset sz iov_off buf_off =
    (mem_write m (ptr + buf_off) (take sz (drop (offset - iov_off) (iov_bytes m vs))),
     buf_off + min sz (iov_off + iov_size vs - offset))"
  using assms
proof (induction m vs ptr offset sz iov_off buf_off rule: iov_to_buf_loop.induct)
  case (2 m v vs ptr offset sz iov_off buf_off)
  consider (stop) "sz = 0" | (skip) "sz \<noteq> 0" "iov_off + iov_len v \<le> offset"
    | (copy) "sz \<noteq> 0" "offset < iov_off + iov_len v"
    by linarith
  then show ?case
  proof cases
    case skip
    then have "buf_apart ptr (buf_off + min sz (iov_off + iov_len v + iov_size vs - offset)) vs"
      using "2.prems"(1) by (simp add: add.assoc)
    with skip "2.IH"(2) show ?thesis by (simp add: add.assoc diff_diff_add)
  next
    case copy
    let ?k = "offset - iov_off" and ?rest = "iov_off + iov_len v - offset"
    define len where "len = min ?rest sz"
    define m1 where "m1 = memcpy m (ptr + buf_off) (iov_base v + ?k) len"
    have loop: "iov_to_buf_loop m (v # vs) ptr offset sz iov_off buf_off
        = iov_to_buf_loop m1 vs ptr (offset + len) (sz - len) (iov_off + iov_len v) (buf_off + len)"
      using copy by (simp add: len_def m1_def Let_def)
    have m1: "m1 = mem_write m (ptr + buf_off) (take len (drop ?k (region m (iov_base v) (iov_len v))))"
    proof -
      have "min len (iov_len v - ?k) = len" using "2.prems"(2) by (simp add: len_def)
      then show ?thesis by (simp add: m1_def memcpy_def drop_region take_region)
    qed
    show ?thesis
    proof (cases "sz \<le> ?rest")
      case True
      then show ?thesis
        unfolding loop using copy "2.prems"(2) m1 by (simp add: len_def iov_to_buf_loop_0)
    next
      case False
      then have len: "len = ?rest" "offset + len = iov_off + iov_len v" "len \<le> sz" "?k \<le> iov_len v"
        "iov_len v - ?k = len"
        using copy "2.prems"(2) by (auto simp: len_def)
      have total: "min sz (iov_off + iov_size (v # vs) - offset) = len + min (sz - len) (iov_size vs)"
        using False len copy by (simp add: min_def) linarith
      have "buf_apart ptr (buf_off + (len + min (sz - len) (iov_size vs))) vs"
        using "2.prems"(1) unfolding total by simp
      then have apart: "buf_apart ptr (buf_off + len + min (sz - len) (iov_size vs)) vs"
        "buf_apart (ptr + buf_off) len vs"
        by (auto simp: add.assoc elim!: buf_apart_mono)
      have "iov_bytes m1 vs = iov_bytes m vs"
        unfolding m1 using apart(2) len by simp
      moreover have "iov_to_buf_loop m1 vs ptr (offset + len) (sz - len) (iov_off + iov_len v) (buf_off + len)
          = (mem_write m1 (ptr + (buf_off + len)) (take (sz - len) (iov_bytes m1 vs)),
             buf_off + len + min (sz - len) (iov_size vs))"
        using "2.IH"(1) [OF copy, of len] apart(1) len by (simp add: m1_def len_def)
      moreover define D where "D = drop ?k (region m (iov_base v) (iov_len v))"
      moreover have D: "length D = len" using len by (simp add: D_def)
      moreover have "m1 = mem_write m (ptr + buf_off) D" using m1 D by (simp add: D_def)
      moreover have "take sz (drop ?k (iov_bytes m (v # vs))) = D @ take (sz - len) (iov_bytes m vs)"
        using len D by (simp add: D_def)
      ultimately show ?thesis
        unfolding loop total by (simp only: mem_write_append add.assoc)
    qed
  qed simp
qed simp

lemma iov_from_buf_spec:
  assumes "iov_apart vs" "buf_apart buf sz vs"
  shows "iov_bytes (fst (iov_from_buf m vs buf sz)) vs
           = region m buf (min sz (iov_size vs)) @ drop sz (iov_bytes m vs)"
    and "snd (iov_from_buf m vs buf sz) = min sz (iov_size vs)"
  using qemu_iovec_from_buffer_loop_spec [OF assms, of m]
  by (simp_all add: iov_from_buf_def iov_from_buf_loop_eq)

lemma iov_to_buf_spec:
  assumes "buf_apart buf (min sz (iov_size vs - offset)) vs"
  shows "iov_to_buf m vs buf offset sz =
    (mem_write m buf (take sz (drop offset (iov_bytes m vs))), min sz (iov_size vs - offset))"
  using iov_to_buf_loop_spec [of buf 0 sz 0 vs offset m] assms by (simp add: iov_to_buf_def)

section \<open>Properties\<close>

theorem qemu_iovec_copy_appends:
  assumes "qiov_wf dst" "nalloc dst \<noteq> -1"
  shows "\<exists>dst'. qemu_iovec_copy dst src skip sz = Some dst' \<and> qiov_wf dst'
    \<and> (\<forall>m. iov_bytes m (iov dst')
            = iov_bytes m (iov dst) @ take sz (drop skip (iov_bytes m (iov src))))"
  using assms by (rule qemu_iovec_copy_spec)

theorem qemu_iovec_copy_appends_witness:
  "\<exists>dst'. qemu_iovec_copy (qemu_iovec_init 1) (qemu_iovec_init_external [\<lparr>iov_base = 10, iov_len = 4\<rparr>]) 1 2 = Some dst'
    \<and> iov_bytes (\<lambda>i. of_nat i) (iov dst') = [11, 12]"
proof -
  have "nalloc (qemu_iovec_init 1) \<noteq> -1" by (simp add: qemu_iovec_init_def)
  from qemu_iovec_copy_appends [OF qiov_wf_init this, of "qemu_iovec_init_external [\<lparr>iov_base = 10, iov_len = 4\<rparr>]" 1 2]
  show ?thesis
    by (auto simp: qemu_iovec_init_def qemu_iovec_init_external_def region_def upt_rec)
qed

text \<open>C39: Scattering a buffer over disjoint regions and gathering it back returns the bytes that
  fitted, and both directions report that number.\<close>

theorem iov_scatter_gather_roundtrip:
  fixes m :: mem
  assumes "iov_apart vs" "buf_apart buf sz vs" "buf_apart buf2 (min sz (iov_size vs)) vs"
  defines "m1 \<equiv> fst (iov_from_buf m vs buf sz)"
  shows "snd (iov_from_buf m vs buf sz) = min sz (iov_size vs) \<and>
    iov_to_buf m1 vs buf2 0 sz = (mem_write m1 buf2 (region m buf (min sz (iov_size vs))), min sz (iov_size vs))"
  using iov_from_buf_spec [OF assms(1,2), of m] iov_to_buf_spec [of buf2 sz vs 0 m1] assms(3)
  by (cases "sz \<le> iov_size vs") (simp_all add: m1_def)

theorem iov_scatter_gather_roundtrip_witness:
  "snd (iov_to_buf (fst (iov_from_buf (\<lambda>i. of_nat i) [\<lparr>iov_base = 10, iov_len = 2\<rparr>, \<lparr>iov_base = 20, iov_len = 5\<rparr>] 40 3))
    [\<lparr>iov_base = 10, iov_len = 2\<rparr>, \<lparr>iov_base = 20, iov_len = 5\<rparr>] 60 0 3) = 3"
  using iov_scatter_gather_roundtrip [of "[\<lparr>iov_base = 10, iov_len = 2\<rparr>, \<lparr>iov_base = 20, iov_len = 5\<rparr>]" 40 3 60]
  by (simp add: apart_def buf_apart_def)

end
