(* ===== verification/Net_Checksum.thy ===== *)
theory Net_Checksum
  imports Prelude
begin

text \<open>
  The Internet checksum of \<open>net/checksum.c\<close>, as the network devices compute it for outgoing
  packets. A packet is the list of its bytes; an access beyond the end of the packet has no
  defined result, and the operation then returns \<open>None\<close>. The main fact is the receiver's view:
  the checksum that \<open>net_checksum_calculate\<close> stores makes the sum over the segment verify.
\<close>

section \<open>Definitions\<close>

definition PROTO_TCP :: nat where
  "PROTO_TCP = 6"

definition PROTO_UDP :: nat where
  "PROTO_UDP = 17"

text \<open>The list is the buffer from \<open>buf[i]\<close> on.\<close>

fun net_checksum_add_loop :: "nat \<Rightarrow> nat \<Rightarrow> u8 list \<Rightarrow> u32 \<Rightarrow> u32 option" where
  "net_checksum_add_loop i len [] acc = (if i < len then None else Some acc)"
| "net_checksum_add_loop i len (b # bs) acc =
     (if i < len
      then net_checksum_add_loop (Suc i) len bs
             (if odd i then acc + ucast b else acc + push_bit 8 (ucast b))
      else Some acc)"

definition net_checksum_add :: "nat \<Rightarrow> u8 list \<Rightarrow> u32 option" where
  "net_checksum_add len buf = net_checksum_add_loop 0 len buf 0"

function net_checksum_fold :: "u32 \<Rightarrow> u32" where
  "net_checksum_fold acc =
     (if drop_bit 16 acc \<noteq> 0 then net_checksum_fold ((acc AND 0xFFFF) + drop_bit 16 acc) else acc)"
  by pat_completeness auto

lemma fold_step:
  "unat ((s AND 0xFFFF) + drop_bit 16 s :: u32) = unat s mod 65536 + unat s div 65536"
proof -
  have "unat (s AND 0xFFFF) = unat s mod 65536"
    using unat_and_mask [of 16 s] by (simp add: mask_eq_exp_minus_1)
  moreover have "unat (drop_bit 16 s) = unat s div 65536"
    using unat_drop_bit_div [of 16 s] by simp
  moreover have "unat s div 65536 < 65536"
    using unat_bounds(3) [of s] by (simp add: div_less_iff_less_mult)
  ultimately show ?thesis
    by (simp add: unat_word_ariths)
qed

lemma fold_guard: "drop_bit 16 (s :: u32) \<noteq> 0 \<longleftrightarrow> 65536 \<le> unat s"
  by (simp only: word_unat_eq_iff [of "drop_bit _ _"] unat_drop_bit_div unat_0)
     (simp add: div_eq_0_iff not_less)

lemma fold_decreases:
  assumes "drop_bit 16 (s :: u32) \<noteq> 0"
  shows "unat ((s AND 0xFFFF) + drop_bit 16 s) < unat s" "0 < unat ((s AND 0xFFFF) + drop_bit 16 s)"
proof -
  have "65536 \<le> unat s" using assms by (simp only: fold_guard)
  then have "0 < unat s div 65536" by (simp add: div_greater_zero_iff)
  moreover have "unat s = unat s mod 65536 + 65536 * (unat s div 65536)" by simp
  ultimately show "unat ((s AND 0xFFFF) + drop_bit 16 s) < unat s" "0 < unat ((s AND 0xFFFF) + drop_bit 16 s)"
    unfolding fold_step by linarith+
qed

termination net_checksum_fold
  by (relation "measure unat") (rule wf_measure, simp only: in_measure, rule fold_decreases)

definition net_checksum_finish :: "u32 \<Rightarrow> u16" where
  "net_checksum_finish acc = NOT (ucast (net_checksum_fold acc))"

definition net_checksum_tcpudp :: "u16 \<Rightarrow> u16 \<Rightarrow> u8 list \<Rightarrow> u8 list \<Rightarrow> u16 option" where
  "net_checksum_tcpudp len proto addrs buf =
     (case net_checksum_add (unat len) buf of None \<Rightarrow> None
      | Some payload \<Rightarrow>
        (case net_checksum_add 8 addrs of None \<Rightarrow> None
         | Some ad \<Rightarrow>
             let acc = 0 + payload; acc = acc + ad; acc = acc + (ucast proto + ucast len)
             in Some (net_checksum_finish acc)))"

definition net_checksum_calculate :: "u8 list \<Rightarrow> int \<Rightarrow> u8 list option" where
  "net_checksum_calculate data len =
     (if length data < 15 then None
      else if data ! 14 AND 0xf0 \<noteq> 0x40 then Some data
      else if length data < 24 then None
      else
        let hlen = unat (data ! 14 AND 0x0f) * 4;
            plen = int (unat (data ! 16) * 256 + unat (data ! 17)) - int hlen;
            proto = unat (data ! 23)
        in case (if proto = PROTO_TCP then Some 16 else if proto = PROTO_UDP then Some 6 else None) of
             None \<Rightarrow> Some data
           | Some csum_offset \<Rightarrow>
               if plen < int csum_offset + 2 then Some data
               else
                 let p = 14 + hlen + csum_offset
                 in if length data \<le> p + 1 then None
                    else
                      let data = data[p := 0, p + 1 := 0]
                      in case net_checksum_tcpudp (of_int plen) (of_nat proto) (drop 26 data)
                                (drop (14 + hlen) data) of
                           None \<Rightarrow> None
                         | Some csum \<Rightarrow>
                             Some (data[p := ucast (drop_bit 8 csum), p + 1 := ucast (csum AND 0xff)]))"

section \<open>Sums of big-endian halfwords\<close>

text \<open>\<open>be_sum p bs\<close>: the sum of the bytes, those at even positions weighted by 256 (\<open>p\<close> is the
  parity of the first position).\<close>

fun be_sum :: "bool \<Rightarrow> u8 list \<Rightarrow> nat" where
  "be_sum p [] = 0"
| "be_sum p (b # bs) = (if p then unat b else 256 * unat b) + be_sum (\<not> p) bs"

lemma be_sum_append: "be_sum p (xs @ ys) = be_sum p xs + be_sum (p = even (length xs)) ys"
proof (induction xs arbitrary: p)
  case (Cons x xs)
  then show ?case by (cases p; cases "even (length xs)") simp_all
qed simp

lemma be_sum_bound: "be_sum False bs \<le> 32768 * length bs + 32512"
proof -
  have "be_sum False bs \<le> 32768 * length bs + 32512 \<and> be_sum True bs \<le> 32768 * length bs"
  proof (induction bs)
    case (Cons b bs)
    have "unat b \<le> 255" using unat_bounds(1) [of b] by simp
    with Cons show ?case by (simp; linarith)
  qed simp
  then show ?thesis by simp
qed

lemma net_checksum_add_loop_spec:
  "len \<le> i + length bs \<Longrightarrow>
   net_checksum_add_loop i len bs acc = Some (acc + of_nat (be_sum (odd i) (take (len - i) bs)))"
proof (induction i len bs acc rule: net_checksum_add_loop.induct)
  case (2 i len b bs acc)
  show ?case
  proof (cases "i < len")
    case True
    then obtain k where "len - i = Suc k" "len - Suc i = k" by (metis Suc_diff_Suc)
    with True 2 show ?thesis by (auto simp: push_bit_eq_mult)
  next
    case False
    then show ?thesis by simp
  qed
qed simp

lemma net_checksum_add_None: "i + length bs < len \<Longrightarrow> net_checksum_add_loop i len bs acc = None"
  by (induction i len bs acc rule: net_checksum_add_loop.induct) auto

lemma net_checksum_add_spec:
  "net_checksum_add len bs = (if len \<le> length bs then Some (of_nat (be_sum False (take len bs))) else None)"
  by (simp add: net_checksum_add_def net_checksum_add_loop_spec net_checksum_add_None)

section \<open>Folding keeps the value modulo 65535\<close>

declare net_checksum_fold.simps [simp del]

lemma net_checksum_fold_spec:
  "unat (net_checksum_fold s) < 65536 \<and> unat (net_checksum_fold s) mod 65535 = unat s mod 65535
   \<and> (net_checksum_fold s = 0 \<longleftrightarrow> s = 0)"
proof (induction s rule: net_checksum_fold.induct)
  case (1 s)
  let ?s' = "(s AND 0xFFFF) + drop_bit 16 s"
  show ?case
  proof (cases "drop_bit 16 s \<noteq> 0")
    case True
    then have "s \<noteq> 0" by auto
    have "?s' \<noteq> 0" using fold_decreases(2) [OF True] by (metis unat_0 less_irrefl)
    moreover have "unat ?s' mod 65535 = unat s mod 65535"
    proof -
      have "unat s = unat s mod 65536 + 65536 * (unat s div 65536)" by simp
      then have "unat s = unat ?s' + 65535 * (unat s div 65536)"
        unfolding fold_step by linarith
      then show ?thesis by (metis mod_mult_self2)
    qed
    ultimately show ?thesis
      using 1 True \<open>s \<noteq> 0\<close> by (subst (1 2 3) net_checksum_fold.simps) simp
  next
    case False
    then have "unat s < 65536" using fold_guard [of s] by linarith
    with False show ?thesis by (subst (1 2 3) net_checksum_fold.simps) simp
  qed
qed

lemma net_checksum_finish_spec:
  obtains v where "v < 65536" "v mod 65535 = unat s mod 65535" "v = 0 \<longleftrightarrow> s = 0"
    "unat (net_checksum_finish s) = 65535 - v"
proof -
  let ?f = "net_checksum_fold s"
  have f: "unat ?f < 65536" using net_checksum_fold_spec [of s] by simp
  then have u: "unat (ucast ?f :: u16) = unat ?f" by (simp add: unat_ucast_mod)
  have "NOT (ucast ?f :: u16) = - 1 - ucast ?f" by (simp add: not_eq_complement)
  moreover have "(ucast ?f :: u16) \<le> - 1" by (rule word_n1_ge)
  ultimately have "unat (net_checksum_finish s) = unat (- 1 :: u16) - unat ?f"
    by (simp only: net_checksum_finish_def unat_sub u)
  moreover have "unat (- 1 :: u16) = 65535" by (simp add: unsigned_minus_1_eq_mask mask_eq_exp_minus_1)
  ultimately show thesis
    using that [of "unat ?f"] net_checksum_fold_spec [of s] f by (auto simp: unat_eq_0)
qed

text \<open>Adding the finished checksum to the sum it was computed from makes the total verify.\<close>

lemma net_checksum_verifies:
  assumes "S + 65535 < 2 ^ 32"
  shows "net_checksum_finish (of_nat (S + unat (net_checksum_finish (of_nat S)))) = 0"
proof -
  let ?c = "unat (net_checksum_finish (of_nat S))"
  obtain v where v: "v < 65536" "v mod 65535 = unat (of_nat S :: u32) mod 65535" "v = 0 \<longleftrightarrow> (of_nat S :: u32) = 0"
    "?c = 65535 - v"
    by (rule net_checksum_finish_spec)
  have S: "unat (of_nat S :: u32) = S" using assms by (simp add: unat_of_nat)
  have c: "?c \<le> 65535" using v(4) by simp
  have T: "unat (of_nat (S + ?c) :: u32) = S + ?c"
    using assms c by (simp only: unat_of_nat) simp
  obtain w where w: "w < 65536" "w mod 65535 = unat (of_nat (S + ?c) :: u32) mod 65535"
    "w = 0 \<longleftrightarrow> (of_nat (S + ?c) :: u32) = 0" "unat (net_checksum_finish (of_nat (S + ?c))) = 65535 - w"
    by (rule net_checksum_finish_spec)
  have "(S + ?c) mod 65535 = (v + (65535 - v)) mod 65535"
    using v(2) S by (simp only: v(4)) (metis mod_add_left_eq)
  also have "\<dots> = 0" using v(1) by (cases "v = 65535") simp_all
  finally have "w mod 65535 = 0" using w(2) T by simp
  moreover have "w \<noteq> 0"
  proof -
    have "0 < S + ?c" using v S by (cases "S = 0") simp_all
    then show ?thesis using w(3) T by (metis less_irrefl unat_0)
  qed
  ultimately have "w = 65535" using w(1) by (cases "w < 65535") simp_all
  with w(4) show ?thesis by (simp add: unat_eq_0)
qed

lemma be_sum_update:
  "k < length xs \<Longrightarrow>
   be_sum p (xs[k := b]) + (if p = even k then 1 else 256) * unat (xs ! k)
     = be_sum p xs + (if p = even k then 1 else 256) * unat b"
proof (induction xs arbitrary: p k)
  case (Cons x xs)
  show ?case
  proof (cases k)
    case 0
    then show ?thesis by simp
  next
    case (Suc j)
    with Cons.prems Cons.IH [of j "\<not> p"] show ?thesis by (cases p; cases "even j") simp_all
  qed
qed simp

lemma be_sum_store:
  assumes "even k" "k + 1 < length xs" "xs ! k = 0" "xs ! (k + 1) = 0"
  shows "be_sum False (xs[k := h, k + 1 := l]) = be_sum False xs + (256 * unat h + unat l)"
proof -
  have "be_sum False (xs[k := h]) = be_sum False xs + 256 * unat h"
    using be_sum_update [of k xs False h] assms by simp
  moreover have "be_sum False (xs[k := h, k + 1 := l]) = be_sum False (xs[k := h]) + unat l"
    using be_sum_update [of "k + 1" "xs[k := h]" False l] assms by simp
  ultimately show ?thesis by simp
qed

lemma bytes_of_u16: "256 * unat (ucast (drop_bit 8 (c :: u16)) :: u8) + unat (ucast (c AND 0xff) :: u8) = unat c"
proof -
  have "unat (c AND 0xff) = unat c mod 256"
    using unat_and_mask [of 8 c] by (simp add: mask_eq_exp_minus_1)
  moreover have "unat (drop_bit 8 c) = unat c div 256" using unat_drop_bit_div [of 8 c] by simp
  moreover have "unat c div 256 < 256" using unat_bounds(2) [of c] by (simp add: div_less_iff_less_mult)
  ultimately show ?thesis by (simp add: unat_ucast_mod)
qed

section \<open>What the stored checksum means to a receiver\<close>

text \<open>
  A well-formed IPv4 packet in an Ethernet frame that carries TCP or UDP: the fields
  \<open>net_checksum_calculate\<close> reads are there, the header has at least its five words, and the
  whole segment of the IP total length is in the packet.
\<close>

definition ip_hlen :: "u8 list \<Rightarrow> nat" where
  "ip_hlen data = unat (data ! 14 AND 0x0f) * 4"

definition ip_plen :: "u8 list \<Rightarrow> nat" where
  "ip_plen data = unat (data ! 16) * 256 + unat (data ! 17) - ip_hlen data"

definition csum_pos :: "u8 list \<Rightarrow> nat" where
  "csum_pos data = (if unat (data ! 23) = PROTO_TCP then 16 else 6)"

definition tcpudp_packet :: "u8 list \<Rightarrow> bool" where
  "tcpudp_packet data \<longleftrightarrow>
     34 \<le> length data \<and> data ! 14 AND 0xf0 = 0x40 \<and> 20 \<le> ip_hlen data
     \<and> unat (data ! 23) \<in> {PROTO_TCP, PROTO_UDP}
     \<and> csum_pos data + 2 \<le> ip_plen data \<and> 14 + ip_hlen data + ip_plen data \<le> length data"

definition segment_check :: "u8 list \<Rightarrow> u16 option" where
  "segment_check data =
     net_checksum_tcpudp (of_nat (ip_plen data)) (of_nat (unat (data ! 23))) (drop 26 data)
       (drop (14 + ip_hlen data) data)"

lemma ip_plen_bound: "ip_plen data < 65536"
  using unat_bounds(1) [of "data ! 16"] unat_bounds(1) [of "data ! 17"]
  by (simp add: ip_plen_def)

lemma ucast_of_nat_u16: "n < 65536 \<Longrightarrow> (ucast (of_nat n :: u16) :: u32) = of_nat n"
  by (simp add: word_unat_eq_iff unat_ucast_up unat_of_nat)

lemma segment_check_sum:
  assumes "14 + ip_hlen data + ip_plen data \<le> length data" "34 \<le> length data"
  shows "segment_check data = Some (net_checksum_finish (of_nat
    (be_sum False (take (ip_plen data) (drop (14 + ip_hlen data) data))
     + be_sum False (take 8 (drop 26 data)) + unat (data ! 23) + ip_plen data)))"
proof -
  have len: "unat (of_nat (ip_plen data) :: u16) = ip_plen data"
    using ip_plen_bound [of data] by (simp add: unat_of_nat)
  have c: "(ucast (of_nat (ip_plen data) :: u16) :: u32) = of_nat (ip_plen data)"
    using ip_plen_bound [of data] by (rule ucast_of_nat_u16)
  have up: "(ucast (ucast (b :: u8) :: u16) :: u32) = ucast b" for b
    by (simp add: word_unat_eq_iff unat_ucast_up)
  have "ip_plen data \<le> length data - (14 + ip_hlen data)" "8 \<le> length data - 26"
    using assms by linarith+
  then show ?thesis
    by (simp add: segment_check_def net_checksum_tcpudp_def net_checksum_add_spec len c up Let_def add.assoc)
qed

text \<open>Fields outside the two checksum bytes survive a store there.\<close>

lemma header_update:
  assumes "34 \<le> p" "length data' = length data" "\<forall>i < 34. data' ! i = data ! i"
  shows "ip_hlen data' = ip_hlen data" "ip_plen data' = ip_plen data" "csum_pos data' = csum_pos data"
    "data' ! 23 = data ! 23"
  using assms(3) by (simp_all add: ip_hlen_def ip_plen_def csum_pos_def)

lemma net_checksum_calculate_eq:
  assumes "tcpudp_packet data"
  defines "p \<equiv> 14 + ip_hlen data + csum_pos data"
  defines "data0 \<equiv> data[p := 0, p + 1 := 0]"
  shows "net_checksum_calculate data len =
    (case segment_check data0 of None \<Rightarrow> None
     | Some csum \<Rightarrow> Some (data0[p := ucast (drop_bit 8 csum), p + 1 := ucast (csum AND 0xff)]))"
proof -
  have pos: "34 \<le> p" "p + 1 < length data" "csum_pos data + 2 \<le> ip_plen data" "34 \<le> length data"
    using assms(1) by (auto simp: tcpudp_packet_def p_def csum_pos_def)
  have same: "ip_hlen data0 = ip_hlen data" "ip_plen data0 = ip_plen data" "data0 ! 23 = data ! 23"
    using pos by (auto intro!: header_update [of p] simp: data0_def)
  have proto: "(if unat (data ! 23) = PROTO_TCP then Some 16
      else if unat (data ! 23) = PROTO_UDP then Some 6 else None) = Some (csum_pos data)"
    using assms(1) by (auto simp: tcpudp_packet_def csum_pos_def)
  have plen: "int (unat (data ! 16) * 256 + unat (data ! 17)) - int (ip_hlen data) = int (ip_plen data)"
    using pos(3) by (simp add: ip_plen_def)
  have "net_checksum_calculate data len =
    (case net_checksum_tcpudp (of_int (int (ip_plen data))) (of_nat (unat (data ! 23))) (drop 26 data0)
            (drop (14 + ip_hlen data) data0) of
       None \<Rightarrow> None
     | Some csum \<Rightarrow> Some (data0[p := ucast (drop_bit 8 csum), p + 1 := ucast (csum AND 0xff)]))"
    using assms(1) pos
    unfolding net_checksum_calculate_def plen ip_hlen_def [symmetric] Let_def proto option.case
      p_def [symmetric] data0_def [symmetric]
    by (simp add: tcpudp_packet_def)
  then show ?thesis by (simp add: segment_check_def same)
qed

lemma net_checksum_calculate_spec:
  assumes "tcpudp_packet data"
  shows "\<exists>data'. net_checksum_calculate data len = Some data' \<and> segment_check data' = Some 0
    \<and> length data' = length data
    \<and> (\<forall>i. i \<notin> {14 + ip_hlen data + csum_pos data, 14 + ip_hlen data + csum_pos data + 1}
            \<longrightarrow> data' ! i = data ! i)"
proof -
  define p where "p = 14 + ip_hlen data + csum_pos data"
  define data0 where "data0 = data[p := 0, p + 1 := 0]"
  define seg where "seg d = take (ip_plen data) (drop (14 + ip_hlen data) d)" for d :: "u8 list"
  define rest where "rest = be_sum False (take 8 (drop 26 data)) + unat (data ! 23) + ip_plen data"
  have pos: "34 \<le> p" "p + 1 < length data" "csum_pos data + 2 \<le> ip_plen data" "34 \<le> length data"
    "14 + ip_hlen data + ip_plen data \<le> length data" "even (csum_pos data)"
    using assms by (auto simp: tcpudp_packet_def p_def csum_pos_def)
  have sum: "segment_check d = Some (net_checksum_finish (of_nat (be_sum False (seg d) + rest)))"
    if "length d = length data" "\<forall>i < 34. d ! i = data ! i" for d
  proof -
    have "take 8 (drop 26 d) = take 8 (drop 26 data)"
      using that pos(4) by (intro nth_equalityI) auto
    then show ?thesis
      using segment_check_sum [of d] header_update [OF pos(1) that] that(1) pos(4,5)
      by (simp add: seg_def rest_def add.assoc)
  qed
  define csum where "csum = net_checksum_finish (of_nat (be_sum False (seg data0) + rest))"
  define data' where "data' = data0[p := ucast (drop_bit 8 csum), p + 1 := ucast (csum AND 0xff)]"
  have "segment_check data0 = Some csum"
    unfolding csum_def using pos by (intro sum) (auto simp: data0_def)
  then have calc: "net_checksum_calculate data len = Some data'"
    using net_checksum_calculate_eq [OF assms, of len] by (simp add: p_def data0_def data'_def)
  have "seg data' = (seg data0)[csum_pos data := ucast (drop_bit 8 csum), csum_pos data + 1 := ucast (csum AND 0xff)]"
    by (simp add: seg_def data'_def p_def drop_update_swap take_update_swap)
  moreover have "be_sum False ((seg data0)[csum_pos data := ucast (drop_bit 8 csum), csum_pos data + 1 := ucast (csum AND 0xff)])
      = be_sum False (seg data0) + unat csum"
    using pos be_sum_store [of "csum_pos data" "seg data0" "ucast (drop_bit 8 csum)" "ucast (csum AND 0xff)"]
    by (simp add: bytes_of_u16) (simp add: seg_def data0_def p_def)
  ultimately have stored: "be_sum False (seg data') = be_sum False (seg data0) + unat csum" by simp
  have "be_sum False (seg data0) + rest + 65535 < 2 ^ 32"
    using be_sum_bound [of "seg data0"] be_sum_bound [of "take 8 (drop 26 data)"] pos(4)
      ip_plen_bound [of data] unat_bounds(1) [of "data ! 23"]
    by (simp add: rest_def seg_def)
  from net_checksum_verifies [OF this]
  have "net_checksum_finish (of_nat (be_sum False (seg data0) + rest + unat csum)) = 0"
    by (simp only: csum_def [symmetric])
  moreover have "be_sum False (seg data0) + rest + unat csum = be_sum False (seg data') + rest"
    using stored by simp
  ultimately have "net_checksum_finish (of_nat (be_sum False (seg data') + rest)) = 0"
    by (simp only:)
  moreover have "segment_check data' = Some (net_checksum_finish (of_nat (be_sum False (seg data') + rest)))"
    using pos by (intro sum) (auto simp: data'_def data0_def)
  ultimately show ?thesis
    using calc by (auto simp: data'_def data0_def p_def)
qed

section \<open>Properties\<close>

text \<open>C35: For a well-formed TCP or UDP packet \<open>net_checksum_calculate\<close> succeeds,
  changes only the two checksum bytes, and the stored checksum verifies at a receiver.\<close>

theorem net_checksum_stored_verifies:
  assumes "tcpudp_packet data"
  shows "\<exists>data'. net_checksum_calculate data len = Some data' \<and> segment_check data' = Some 0
    \<and> length data' = length data
    \<and> (\<forall>i. i \<notin> {14 + ip_hlen data + csum_pos data, 14 + ip_hlen data + csum_pos data + 1}
            \<longrightarrow> data' ! i = data ! i)"
  using assms by (rule net_checksum_calculate_spec)

definition sample_udp :: "u8 list" where
  "sample_udp = replicate 14 0 @ [0x45, 0, 0, 28, 0, 0, 0, 0, 64, 17, 0, 0, 10, 0, 0, 1, 10, 0, 0, 2] @ [4, 0, 4, 1, 0, 8, 7, 7]"

theorem net_checksum_stored_verifies_witness:
  "\<exists>data'. net_checksum_calculate sample_udp 42 = Some data' \<and> segment_check data' = Some 0"
proof -
  have "tcpudp_packet sample_udp"
    by code_simp
  from net_checksum_stored_verifies [OF this, of 42] show ?thesis by blast
qed

end
