(* ===== verification/Machine.thy ===== *)
theory Machine
  imports Prelude
begin

text \<open>
  The interface every device model offers to the invariant proofs: initial states, a step
  relation with one rule per entry point of the device (a port access, a timer, an input line),
  and an invariant that holds initially and that every step keeps. The locale derives once that
  the invariant holds in every reachable state and along every run; each device theory interprets
  it on its own step relation.
\<close>

inductive reach :: "('s \<Rightarrow> bool) \<Rightarrow> ('s \<Rightarrow> 's \<Rightarrow> bool) \<Rightarrow> 's \<Rightarrow> bool" for init step where
  reach_init: "init s \<Longrightarrow> reach init step s"
| reach_step: "reach init step s \<Longrightarrow> step s t \<Longrightarrow> reach init step t"

fun run_of :: "('s \<Rightarrow> 's \<Rightarrow> bool) \<Rightarrow> 's \<Rightarrow> 's list \<Rightarrow> bool" where
  "run_of step s [] = True"
| "run_of step s (t # ts) = (step s t \<and> run_of step t ts)"

lemma reach_run: "reach init step s \<Longrightarrow> run_of step s ts \<Longrightarrow> t \<in> set ts \<Longrightarrow> reach init step t"
  by (induction ts arbitrary: s) (auto intro: reach_step)

locale device =
  fixes init :: "'s \<Rightarrow> bool" and step :: "'s \<Rightarrow> 's \<Rightarrow> bool" and inv :: "'s \<Rightarrow> bool"
  assumes init_inv: "init s \<Longrightarrow> inv s"
    and step_inv: "step s t \<Longrightarrow> inv s \<Longrightarrow> inv t"
begin

lemma reachable_inv: "reach init step s \<Longrightarrow> inv s"
  by (induction rule: reach.induct) (auto intro: init_inv step_inv)

lemma run_inv: "inv s \<Longrightarrow> run_of step s ts \<Longrightarrow> t \<in> set ts \<Longrightarrow> inv t"
  by (induction ts arbitrary: s) (auto intro: step_inv)

end

text \<open>The level of a line, from the sequence of values driven on it, newest first.\<close>

definition line_level :: "bool list \<Rightarrow> bool" where
  "line_level l \<longleftrightarrow> l \<noteq> [] \<and> hd l"

lemma line_level_simps [simp]: "line_level (b # l) = b" "line_level [] = False"
  by (simp_all add: line_level_def)

end
