(* ===== verification/I8259.thy ===== *)
theory I8259
  imports Machine
begin

text \<open>
  The pair of cascaded 8259 interrupt controllers, \<open>qemu/hw/i8259.c\<close>.

  \<^item> \<open>PicState\<close> and \<open>PicState2\<close> are the structs of the same names. The pointer \<open>PicState *\<close> a handler
    receives is the index of the controller in \<open>pics\<close> (0 the master, 1 the slave), which is what the
    code compares it with in \<open>pic_get_irq\<close>. The line \<open>parent_irq\<close> to the processor is the sequence
    of the levels written to it, the newest first: \<open>qemu_irq_raise\<close> and \<open>qemu_irq_lower\<close> are calls
    into the processor's handler.
  \<^item> The scan of \<open>get_priority\<close> has no bound of its own; it is a function with a termination proof
    whose measure is the distance to the next requested line.
  \<^item> An \<open>int\<close> result with \<open>-1\<close> for none is a \<^typ>\<open>nat option\<close>. \<open>hw_error\<close> ends the emulator: the
    handler returns \<^const>\<open>None\<close>.
  \<^item> The preprocessor's debug and statistics branches are off, and the target is x86, on which
    \<open>pic_update_irq\<close> never lowers the line.
\<close>

unbundle bit_operations_syntax

section \<open>State\<close>

record PicState =
  last_irr :: u8
  irr :: u8
  imr :: u8
  isr :: u8
  priority_add :: u8
  irq_base :: u8
  read_reg_select :: u8
  poll :: u8
  special_mask :: u8
  init_state :: u8
  auto_eoi :: u8
  rotate_on_auto_eoi :: u8
  special_fully_nested_mode :: u8
  init4 :: u8
  single_mode :: u8
  elcr :: u8
  elcr_mask :: u8

record PicState2 =
  pics :: "nat \<Rightarrow> PicState"
  parent_irq :: "bool list"

definition set_pic :: "PicState2 \<Rightarrow> nat \<Rightarrow> PicState \<Rightarrow> PicState2" where
  "set_pic s i p = s\<lparr>pics := (pics s)(i := p)\<rparr>"

definition qemu_irq_raise :: "PicState2 \<Rightarrow> PicState2" where
  "qemu_irq_raise s = s\<lparr>parent_irq := True # parent_irq s\<rparr>"

definition qemu_irq_lower :: "PicState2 \<Rightarrow> PicState2" where
  "qemu_irq_lower s = s\<lparr>parent_irq := False # parent_irq s\<rparr>"

section \<open>Operations\<close>

definition pic_set_irq1 :: "PicState \<Rightarrow> nat \<Rightarrow> bool \<Rightarrow> PicState" where
  "pic_set_irq1 s irq level =
    (let mask = bitmask irq in
     if elcr s AND mask \<noteq> 0
     then
       (if level
        then s\<lparr>irr := irr s OR mask, last_irr := last_irr s OR mask\<rparr>
        else s\<lparr>irr := irr s AND NOT mask, last_irr := last_irr s AND NOT mask\<rparr>)
     else
       (if level
        then
          (let s = (if last_irr s AND mask = 0 then s\<lparr>irr := irr s OR mask\<rparr> else s)
           in s\<lparr>last_irr := last_irr s OR mask\<rparr>)
        else s\<lparr>last_irr := last_irr s AND NOT mask\<rparr>))"

definition pic_line :: "PicState \<Rightarrow> nat \<Rightarrow> nat" where
  "pic_line s priority = (priority + unat (priority_add s)) mod 8"

lemma pic_line_less [simp]: "pic_line s p < 8"
  by (simp add: pic_line_def)

lemma pic_line_onto:
  assumes "n < 8"
  shows "\<exists>q. pic_line s (p + q) = n"
proof
  let ?a = "p + unat (priority_add s)"
  have "(?a + (n + 8 - ?a mod 8)) mod 8 = (?a mod 8 + (n + 8 - ?a mod 8)) mod 8"
    by (simp only: mod_add_left_eq)
  also have "\<dots> = n" using assms by simp
  finally show "pic_line s (p + (n + 8 - ?a mod 8)) = n"
    by (simp only: pic_line_def ac_simps)
qed

lemma requested_line:
  assumes "m \<noteq> (0 :: u8)"
  shows "\<exists>q. bit m (pic_line s (p + q))"
proof -
  obtain n where "bit m n" using assms by (metis bit_eqI bit_0_eq bot_apply bot_bool_def)
  moreover from this have "n < 8" by (auto dest: bit_imp_le_length)
  ultimately show ?thesis using pic_line_onto by metis
qed

function get_priority_loop :: "PicState \<Rightarrow> u8 \<Rightarrow> nat \<Rightarrow> nat" where
  "get_priority_loop s m priority =
    (if m \<noteq> 0 \<and> m AND bitmask (pic_line s priority) = 0
     then get_priority_loop s m (priority + 1)
     else priority)"
  by pat_completeness auto
termination
proof (relation "measure (\<lambda>(s, m, p). LEAST q. bit m (pic_line s (p + q)))")
  fix s p and m :: u8
  let ?d = "\<lambda>p. LEAST q. bit m (pic_line s (p + q))"
  assume a: "m \<noteq> 0 \<and> m AND bitmask (pic_line s p) = 0"
  then have found: "bit m (pic_line s (p + ?d p))"
    using LeastI_ex [OF requested_line] by blast
  have "?d p \<noteq> 0"
  proof
    assume "?d p = 0"
    with found have "bit m (pic_line s p)" by simp
    with a show False by (simp add: masked_bit)
  qed
  then obtain d where d: "?d p = Suc d" by (cases "?d p") auto
  with found have "bit m (pic_line s ((p + 1) + d))" by simp
  then have "?d (p + 1) \<le> d" by (rule Least_le)
  with d show "((s, m, p + 1), (s, m, p)) \<in> measure (\<lambda>(s, m, p). LEAST q. bit m (pic_line s (p + q)))"
    by simp
qed simp

declare get_priority_loop.simps [simp del]

definition get_priority :: "PicState \<Rightarrow> u8 \<Rightarrow> nat" where
  "get_priority s m = (if m = 0 then 8 else get_priority_loop s m 0)"

definition pic_in_service :: "nat \<Rightarrow> PicState \<Rightarrow> u8" where
  "pic_in_service i s =
    (let mask = isr s;
         mask = (if special_mask s \<noteq> 0 then mask AND NOT (imr s) else mask)
     in if special_fully_nested_mode s \<noteq> 0 \<and> i = 0 then mask AND NOT (bitmask 2) else mask)"

definition pic_get_irq :: "nat \<Rightarrow> PicState \<Rightarrow> nat option" where
  "pic_get_irq i s =
    (let mask = irr s AND NOT (imr s);
         priority = get_priority s mask
     in if priority = 8 then None
        else
          (let cur_priority = get_priority s (pic_in_service i s)
           in if priority < cur_priority then Some (pic_line s priority) else None))"

definition pic_update_irq :: "PicState2 \<Rightarrow> PicState2" where
  "pic_update_irq s =
    (let s = (case pic_get_irq 1 (pics s 1) of
                None \<Rightarrow> s
              | Some irq2 \<Rightarrow> set_pic s 0 (pic_set_irq1 (pic_set_irq1 (pics s 0) 2 True) 2 False))
     in case pic_get_irq 0 (pics s 0) of
          None \<Rightarrow> s
        | Some irq \<Rightarrow> qemu_irq_raise s)"

definition i8259_set_irq :: "PicState2 \<Rightarrow> nat \<Rightarrow> bool \<Rightarrow> PicState2" where
  "i8259_set_irq s irq level =
    pic_update_irq (set_pic s (irq div 8) (pic_set_irq1 (pics s (irq div 8)) (irq mod 8) level))"

definition pic_intack :: "PicState \<Rightarrow> nat \<Rightarrow> PicState" where
  "pic_intack s irq =
    (let s = (if auto_eoi s \<noteq> 0
              then (if rotate_on_auto_eoi s \<noteq> 0
                    then s\<lparr>priority_add := of_nat ((irq + 1) mod 8)\<rparr> else s)
              else s\<lparr>isr := isr s OR bitmask irq\<rparr>)
     in if elcr s AND bitmask irq = 0 then s\<lparr>irr := irr s AND NOT (bitmask irq)\<rparr> else s)"

definition pic_read_irq :: "PicState2 \<Rightarrow> PicState2 \<times> nat" where
  "pic_read_irq s =
    (let (s, intno) =
       (case pic_get_irq 0 (pics s 0) of
          Some irq \<Rightarrow>
            (let s = set_pic s 0 (pic_intack (pics s 0) irq) in
             if irq = 2
             then
               (case pic_get_irq 1 (pics s 1) of
                  Some irq2 \<Rightarrow>
                    (let s = set_pic s 1 (pic_intack (pics s 1) irq2)
                     in (s, unat (irq_base (pics s 1)) + irq2))
                | None \<Rightarrow> (s, unat (irq_base (pics s 1)) + 7))
             else (s, unat (irq_base (pics s 0)) + irq))
        | None \<Rightarrow> (s, unat (irq_base (pics s 0)) + 7))
     in (pic_update_irq s, intno))"

definition pic_reset :: "PicState \<Rightarrow> PicState" where
  "pic_reset s = s
    \<lparr>last_irr := 0, irr := 0, imr := 0, isr := 0, priority_add := 0, irq_base := 0,
     read_reg_select := 0, poll := 0, special_mask := 0, init_state := 0, auto_eoi := 0,
     rotate_on_auto_eoi := 0, special_fully_nested_mode := 0, init4 := 0, single_mode := 0\<rparr>"

text \<open>The three cases of \<open>pic_ioport_write\<close> on the command port, then the whole handler.\<close>

definition pic_write_icw1 :: "nat \<Rightarrow> u32 \<Rightarrow> PicState2 \<Rightarrow> PicState2 option" where
  "pic_write_icw1 i v s =
    (let s = qemu_irq_lower (set_pic s i (pic_reset (pics s i)));
         s = set_pic s i ((pics s i)
               \<lparr>init_state := 1, init4 := ucast (v AND 1), single_mode := ucast (v AND 2)\<rparr>)
     in if v AND 0x08 \<noteq> 0 then None else Some s)"

definition pic_write_ocw3 :: "u32 \<Rightarrow> PicState \<Rightarrow> PicState" where
  "pic_write_ocw3 v s =
    (let s = (if v AND 0x04 \<noteq> 0 then s\<lparr>poll := 1\<rparr> else s);
         s = (if v AND 0x02 \<noteq> 0 then s\<lparr>read_reg_select := ucast (v AND 1)\<rparr> else s)
     in if v AND 0x40 \<noteq> 0 then s\<lparr>special_mask := ucast (drop_bit 5 v AND 1)\<rparr> else s)"

definition pic_write_ocw2 :: "nat \<Rightarrow> u32 \<Rightarrow> PicState2 \<Rightarrow> PicState2" where
  "pic_write_ocw2 i v s =
    (let cmd = unat (drop_bit 5 v); p = pics s i; irq = unat (v AND 7) in
     if cmd = 0 \<or> cmd = 4
     then set_pic s i (p\<lparr>rotate_on_auto_eoi := of_nat (cmd div 4)\<rparr>)
     else if cmd = 1 \<or> cmd = 5
     then
       (let priority = get_priority p (isr p) in
        if priority \<noteq> 8
        then
          (let irq = pic_line p priority;
               p = p\<lparr>isr := isr p AND NOT (bitmask irq)\<rparr>;
               p = (if cmd = 5 then p\<lparr>priority_add := of_nat ((irq + 1) mod 8)\<rparr> else p)
           in pic_update_irq (set_pic s i p))
        else s)
     else if cmd = 3
     then pic_update_irq (set_pic s i (p\<lparr>isr := isr p AND NOT (bitmask irq)\<rparr>))
     else if cmd = 6
     then pic_update_irq (set_pic s i (p\<lparr>priority_add := ucast ((v + 1) AND 7)\<rparr>))
     else if cmd = 7
     then pic_update_irq (set_pic s i
            (p\<lparr>isr := isr p AND NOT (bitmask irq), priority_add := of_nat ((irq + 1) mod 8)\<rparr>))
     else s)"

definition pic_write_data :: "nat \<Rightarrow> u32 \<Rightarrow> PicState2 \<Rightarrow> PicState2" where
  "pic_write_data i v s =
    (let p = pics s i in
     if init_state p = 0 then pic_update_irq (set_pic s i (p\<lparr>imr := ucast v\<rparr>))
     else if init_state p = 1
     then set_pic s i (p\<lparr>irq_base := ucast (v AND 0xf8),
            init_state := (if single_mode p \<noteq> 0 then (if init4 p \<noteq> 0 then 3 else 0) else 2)\<rparr>)
     else if init_state p = 2
     then set_pic s i (p\<lparr>init_state := (if init4 p \<noteq> 0 then 3 else 0)\<rparr>)
     else if init_state p = 3
     then set_pic s i (p\<lparr>special_fully_nested_mode := ucast (drop_bit 4 v AND 1),
            auto_eoi := ucast (drop_bit 1 v AND 1), init_state := 0\<rparr>)
     else s)"

definition pic_ioport_write :: "nat \<Rightarrow> u32 \<Rightarrow> u32 \<Rightarrow> PicState2 \<Rightarrow> PicState2 option" where
  "pic_ioport_write i addr v s =
    (if addr AND 1 = 0
     then
       (if v AND 0x10 \<noteq> 0 then pic_write_icw1 i v s
        else if v AND 0x08 \<noteq> 0 then Some (set_pic s i (pic_write_ocw3 v (pics s i)))
        else Some (pic_write_ocw2 i v s))
     else Some (pic_write_data i v s))"

definition pic_poll_read :: "nat \<Rightarrow> u32 \<Rightarrow> PicState2 \<Rightarrow> PicState2 \<times> nat" where
  "pic_poll_read i addr1 s =
    (case pic_get_irq i (pics s i) of
       Some ret \<Rightarrow>
         (let s = (if drop_bit 7 addr1 \<noteq> 0
                   then set_pic s 0 ((pics s 0)\<lparr>isr := isr (pics s 0) AND NOT (bitmask 2),
                          irr := irr (pics s 0) AND NOT (bitmask 2)\<rparr>)
                   else s);
              s = set_pic s i ((pics s i)\<lparr>irr := irr (pics s i) AND NOT (bitmask ret),
                    isr := isr (pics s i) AND NOT (bitmask ret)\<rparr>)
          in (if drop_bit 7 addr1 \<noteq> 0 \<or> ret \<noteq> 2 then pic_update_irq s else s, ret))
     | None \<Rightarrow> (pic_update_irq s, 7))"

definition pic_ioport_read :: "nat \<Rightarrow> u32 \<Rightarrow> PicState2 \<Rightarrow> PicState2 \<times> nat" where
  "pic_ioport_read i addr1 s =
    (if poll (pics s i) \<noteq> 0
     then
       (let (s, ret) = pic_poll_read i addr1 s
        in (set_pic s i ((pics s i)\<lparr>poll := 0\<rparr>), ret))
     else
       (s, unat (if addr1 AND 1 = 0
                 then (if read_reg_select (pics s i) \<noteq> 0 then isr (pics s i) else irr (pics s i))
                 else imr (pics s i))))"

definition pic_intack_read :: "PicState2 \<Rightarrow> PicState2 \<times> nat" where
  "pic_intack_read s =
    (let (s, ret) = pic_poll_read 0 0x00 s;
         (s, ret) = (if ret = 2 then (let (s, r) = pic_poll_read 1 0x80 s in (s, r + 8)) else (s, ret))
     in (set_pic s 0 ((pics s 0)\<lparr>read_reg_select := 1\<rparr>), ret))"

definition elcr_ioport_write :: "nat \<Rightarrow> u32 \<Rightarrow> PicState2 \<Rightarrow> PicState2" where
  "elcr_ioport_write i v s =
    set_pic s i ((pics s i)\<lparr>elcr := ucast v AND elcr_mask (pics s i)\<rparr>)"

definition elcr_ioport_read :: "nat \<Rightarrow> PicState2 \<Rightarrow> u8" where
  "elcr_ioport_read i s = elcr (pics s i)"

text \<open>
  \<open>i8259_init\<close> clears the memory of the state (\<open>qemu_mallocz\<close>) and sets the masks of the
  edge/level registers. \<open>pic_init1\<close> registers the handlers at the ports: \<open>pic_outb\<close> and \<open>pic_inb\<close>
  are the resulting dispatch, with the bus's default for every other port: a write is lost and a
  read returns 0xff.
\<close>

definition pic_zero :: PicState where
  "pic_zero =
    \<lparr>last_irr = 0, irr = 0, imr = 0, isr = 0, priority_add = 0, irq_base = 0,
     read_reg_select = 0, poll = 0, special_mask = 0, init_state = 0, auto_eoi = 0,
     rotate_on_auto_eoi = 0, special_fully_nested_mode = 0, init4 = 0, single_mode = 0,
     elcr = 0, elcr_mask = 0\<rparr>"

definition i8259_init :: PicState2 where
  "i8259_init =
    \<lparr>pics = (\<lambda>_. pic_zero)(0 := pic_zero\<lparr>elcr_mask := 0xf8\<rparr>, 1 := pic_zero\<lparr>elcr_mask := 0xde\<rparr>),
     parent_irq = []\<rparr>"

definition pic_outb :: "u32 \<Rightarrow> u8 \<Rightarrow> PicState2 \<Rightarrow> PicState2 option" where
  "pic_outb port v s =
    (if port = 0x20 \<or> port = 0x21 then pic_ioport_write 0 port (ucast v) s
     else if port = 0xa0 \<or> port = 0xa1 then pic_ioport_write 1 port (ucast v) s
     else if port = 0x4d0 then Some (elcr_ioport_write 0 (ucast v) s)
     else if port = 0x4d1 then Some (elcr_ioport_write 1 (ucast v) s)
     else Some s)"

definition pic_inb :: "u32 \<Rightarrow> PicState2 \<Rightarrow> PicState2 \<times> nat" where
  "pic_inb port s =
    (if port = 0x20 \<or> port = 0x21 then pic_ioport_read 0 port s
     else if port = 0xa0 \<or> port = 0xa1 then pic_ioport_read 1 port s
     else if port = 0x4d0 then (s, unat (elcr_ioport_read 0 s))
     else if port = 0x4d1 then (s, unat (elcr_ioport_read 1 s))
     else (s, 0xff))"

section \<open>Priority resolution\<close>

text \<open>
  The rank of a line is its distance from the line of highest priority; \<open>pic_line\<close> and \<open>pic_rank\<close>
  are inverse to each other, so ranks order the eight lines totally.
\<close>

definition pic_rank :: "PicState \<Rightarrow> nat \<Rightarrow> nat" where
  "pic_rank s n = (n + 8 - unat (priority_add s) mod 8) mod 8"

lemma pic_rank_less [simp]: "pic_rank s n < 8"
  by (simp add: pic_rank_def)

lemma pic_line_rank [simp]:
  assumes "n < 8"
  shows "pic_line s (pic_rank s n) = n"
proof -
  let ?a = "unat (priority_add s)"
  have "pic_line s (pic_rank s n) = ((n + 8 - ?a mod 8) + ?a mod 8) mod 8"
    by (simp only: pic_line_def pic_rank_def mod_add_left_eq mod_add_right_eq)
  with assms show ?thesis by simp
qed

lemma pic_rank_line [simp]:
  assumes "q < 8"
  shows "pic_rank s (pic_line s q) = q"
proof -
  let ?a = "unat (priority_add s)"
  have "pic_rank s (pic_line s q) = ((q + ?a) mod 8 + (8 - ?a mod 8)) mod 8"
    by (simp add: pic_line_def pic_rank_def)
  also have "\<dots> = ((q + ?a mod 8) + (8 - ?a mod 8)) mod 8"
    by (simp only: mod_add_left_eq add.commute [of q] add.assoc)
  also have "\<dots> = q" using assms by simp
  finally show ?thesis .
qed

lemma pic_rank_inj: "m < 8 \<Longrightarrow> n < 8 \<Longrightarrow> pic_rank s m = pic_rank s n \<longleftrightarrow> m = n"
  by (metis pic_line_rank)

lemma get_priority_loop_spec:
  "m \<noteq> 0 \<Longrightarrow> bit m (pic_line s (get_priority_loop s m p)) \<and>
    (\<forall>q. p \<le> q \<and> q < get_priority_loop s m p \<longrightarrow> \<not> bit m (pic_line s q))"
proof (induction s m p rule: get_priority_loop.induct)
  case (1 s m p)
  show ?case
  proof (cases "bit m (pic_line s p)")
    case True
    then show ?thesis
      by (subst (1 2) get_priority_loop.simps) (auto simp: masked_bit)
  next
    case False
    with 1 show ?thesis
      by (subst (1 2) get_priority_loop.simps) (auto simp: masked_bit Suc_le_eq intro: le_neq_trans)
  qed
qed

lemma get_priority_bit: "m \<noteq> 0 \<Longrightarrow> bit m (pic_line s (get_priority s m))"
  using get_priority_loop_spec [of m s 0] by (simp add: get_priority_def)

lemma get_priority_min: "bit m n \<Longrightarrow> get_priority s m \<le> pic_rank s n"
  using get_priority_loop_spec [of m s 0] bit_u8_less [of m n]
  by (auto simp: get_priority_def not_le [symmetric] simp del: not_le)
    (metis linorder_not_le pic_line_rank zero_le)

lemma get_priority_less: "m \<noteq> 0 \<Longrightarrow> get_priority s m < 8"
  by (metis get_priority_bit get_priority_min order_le_less_trans pic_rank_less)

lemma get_priority_8 [simp]: "get_priority s m = 8 \<longleftrightarrow> m = 0"
  using get_priority_less [of m s] by (auto simp: get_priority_def)

lemma get_priority_ge: "p < get_priority s m \<longleftrightarrow> (p < 8 \<and> (\<forall>n. bit m n \<longrightarrow> p < pic_rank s n))"
proof (cases "m = 0")
  case True
  then show ?thesis by (auto simp: get_priority_def)
next
  case False
  then have b: "bit m (pic_line s (get_priority s m))" and l: "get_priority s m < 8"
    by (auto intro: get_priority_bit get_priority_less)
  show ?thesis
  proof
    assume "p < get_priority s m"
    with l show "p < 8 \<and> (\<forall>n. bit m n \<longrightarrow> p < pic_rank s n)"
      by (auto intro: order_less_le_trans get_priority_min)
  next
    assume "p < 8 \<and> (\<forall>n. bit m n \<longrightarrow> p < pic_rank s n)"
    with b have "p < pic_rank s (pic_line s (get_priority s m))" by blast
    with l show "p < get_priority s m" by simp
  qed
qed

lemma get_priority_unique:
  assumes "bit m n" "\<And>k. bit m k \<Longrightarrow> pic_rank s n \<le> pic_rank s k"
  shows "get_priority s m = pic_rank s n"
proof -
  have m: "m \<noteq> 0" using assms(1) by auto
  have "pic_rank s n \<le> pic_rank s (pic_line s (get_priority s m))"
    by (rule assms(2) [OF get_priority_bit [OF m]])
  with get_priority_less [OF m] get_priority_min [OF assms(1), of s] show ?thesis by simp
qed

definition pic_pending :: "PicState \<Rightarrow> u8" where
  "pic_pending s = irr s AND NOT (imr s)"

lemma pic_get_irq_Some:
  "pic_get_irq i s = Some n \<longleftrightarrow>
    bit (pic_pending s) n \<and> (\<forall>m. bit (pic_pending s) m \<longrightarrow> pic_rank s n \<le> pic_rank s m) \<and>
    (\<forall>m. bit (pic_in_service i s) m \<longrightarrow> pic_rank s n < pic_rank s m)"
    (is "?l \<longleftrightarrow> ?b \<and> ?first \<and> ?free")
proof
  assume ?l
  then have m: "pic_pending s \<noteq> 0" and n: "n = pic_line s (get_priority s (pic_pending s))"
    and less: "get_priority s (pic_pending s) < get_priority s (pic_in_service i s)"
    by (auto simp: pic_get_irq_def pic_pending_def Let_def split: if_splits)
  have rank: "pic_rank s n = get_priority s (pic_pending s)"
    using n get_priority_less [OF m] by simp
  show "?b \<and> ?first \<and> ?free"
    using get_priority_bit [OF m] n less unfolding rank
    by (auto intro: get_priority_min simp: get_priority_ge)
next
  assume r: "?b \<and> ?first \<and> ?free"
  then have p: "get_priority s (pic_pending s) = pic_rank s n"
    by (auto intro: get_priority_unique)
  moreover have "pic_rank s n < get_priority s (pic_in_service i s)"
    using r by (simp add: get_priority_ge)
  moreover have "n < 8" "pic_pending s \<noteq> 0" using r bit_u8_less by auto
  ultimately show ?l
    using pic_rank_less [of s n] by (simp add: pic_get_irq_def Let_def flip: pic_pending_def)
qed

lemma pic_get_irq_less: "pic_get_irq i s = Some n \<Longrightarrow> n < 8"
  by (auto simp: pic_get_irq_Some dest: bit_u8_less)

lemma pic_get_irq_None_iff:
  "pic_get_irq i s = None \<longleftrightarrow>
    (\<forall>n. bit (pic_pending s) n \<longrightarrow> (\<exists>m. bit (pic_in_service i s) m \<and> pic_rank s m \<le> pic_rank s n))"
proof (cases "pic_pending s = 0")
  case True
  then show ?thesis by (simp add: pic_get_irq_def get_priority_def flip: pic_pending_def)
next
  case False
  let ?n = "pic_line s (get_priority s (pic_pending s))"
  have first: "bit (pic_pending s) ?n" "pic_rank s ?n = get_priority s (pic_pending s)"
    using False get_priority_bit get_priority_less by auto
  have "pic_get_irq i s = None \<longleftrightarrow> \<not> get_priority s (pic_pending s) < get_priority s (pic_in_service i s)"
    using False by (simp add: pic_get_irq_def Let_def get_priority_def [of s 0] flip: pic_pending_def)
  also have "\<dots> \<longleftrightarrow> (\<exists>m. bit (pic_in_service i s) m \<and> pic_rank s m \<le> get_priority s (pic_pending s))"
    using get_priority_less [OF False, of s] by (auto simp: get_priority_ge not_less)
  finally show ?thesis
    using first by (metis get_priority_min order_trans)
qed

section \<open>Lines, acknowledgement and end of interrupt\<close>

lemma pics_set_pic [simp]: "pics (set_pic s i p) = (pics s)(i := p)"
  by (simp add: set_pic_def)

lemma parent_irq_set_pic [simp]: "parent_irq (set_pic s i p) = parent_irq s"
  by (simp add: set_pic_def)

lemma pics_raise_lower [simp]:
  "pics (qemu_irq_raise s) = pics s" "pics (qemu_irq_lower s) = pics s"
  "parent_irq (qemu_irq_raise s) = True # parent_irq s"
  "parent_irq (qemu_irq_lower s) = False # parent_irq s"
  by (simp_all add: qemu_irq_raise_def qemu_irq_lower_def)

lemma pic_set_irq1_irr:
  "irq < 8 \<Longrightarrow> bit (irr (pic_set_irq1 s irq level)) n \<longleftrightarrow>
    (if n = irq
     then (if bit (elcr s) irq then level else bit (irr s) irq \<or> level \<and> \<not> bit (last_irr s) irq)
     else bit (irr s) n)"
  by (auto simp: pic_set_irq1_def Let_def masked_bit bit_simps dest: bit_u8_less)

lemma pic_set_irq1_last_irr:
  "irq < 8 \<Longrightarrow> bit (last_irr (pic_set_irq1 s irq level)) n \<longleftrightarrow> (if n = irq then level else bit (last_irr s) n)"
  by (auto simp: pic_set_irq1_def Let_def masked_bit bit_simps dest: bit_u8_less)

lemma pic_set_irq1_frame [simp]:
  "imr (pic_set_irq1 s irq level) = imr s" "isr (pic_set_irq1 s irq level) = isr s"
  "priority_add (pic_set_irq1 s irq level) = priority_add s"
  "irq_base (pic_set_irq1 s irq level) = irq_base s"
  "init_state (pic_set_irq1 s irq level) = init_state s"
  "special_mask (pic_set_irq1 s irq level) = special_mask s"
  "auto_eoi (pic_set_irq1 s irq level) = auto_eoi s"
  "special_fully_nested_mode (pic_set_irq1 s irq level) = special_fully_nested_mode s"
  "elcr (pic_set_irq1 s irq level) = elcr s" "elcr_mask (pic_set_irq1 s irq level) = elcr_mask s"
  by (simp_all add: pic_set_irq1_def Let_def)

lemma pic_rank_cong: "priority_add s = priority_add t \<Longrightarrow> pic_rank s = pic_rank t"
  by (simp add: pic_rank_def fun_eq_iff)

lemma pic_in_service_cong:
  "isr s = isr t \<Longrightarrow> imr s = imr t \<Longrightarrow> special_mask s = special_mask t \<Longrightarrow>
    special_fully_nested_mode s = special_fully_nested_mode t \<Longrightarrow> pic_in_service i s = pic_in_service i t"
  by (simp add: pic_in_service_def Let_def)

text \<open>The effect of \<open>pic_update_irq\<close> on the controllers: the slave is untouched, the master may get
  the request of the cascade line.\<close>

definition pic_cascade :: "PicState \<Rightarrow> PicState" where
  "pic_cascade p = pic_set_irq1 (pic_set_irq1 p 2 True) 2 False"

lemma pic_cascade_frame [simp]:
  "imr (pic_cascade p) = imr p" "isr (pic_cascade p) = isr p"
  "priority_add (pic_cascade p) = priority_add p" "irq_base (pic_cascade p) = irq_base p"
  "init_state (pic_cascade p) = init_state p" "special_mask (pic_cascade p) = special_mask p"
  "auto_eoi (pic_cascade p) = auto_eoi p"
  "special_fully_nested_mode (pic_cascade p) = special_fully_nested_mode p"
  "elcr (pic_cascade p) = elcr p" "elcr_mask (pic_cascade p) = elcr_mask p"
  by (simp_all add: pic_cascade_def)

lemma pic_cascade_irr:
  "\<not> bit (elcr p) 2 \<Longrightarrow>
    bit (irr (pic_cascade p)) n \<longleftrightarrow> bit (irr p) n \<or> n = 2 \<and> \<not> bit (last_irr p) 2"
  by (auto simp: pic_cascade_def pic_set_irq1_irr pic_set_irq1_last_irr)

lemma pic_update_irq_pics:
  "pics (pic_update_irq s) =
    (if pic_get_irq 1 (pics s 1) = None then pics s else (pics s)(0 := pic_cascade (pics s 0)))"
  by (auto simp: pic_update_irq_def pic_cascade_def Let_def split: option.splits)

lemma pic_update_irq_slave [simp]: "pics (pic_update_irq s) (Suc 0) = pics s (Suc 0)"
  by (simp add: pic_update_irq_pics)

lemma pic_update_irq_parent:
  "parent_irq (pic_update_irq s) =
    (if pic_get_irq 0 (pics (pic_update_irq s) 0) = None then parent_irq s else True # parent_irq s)"
  by (auto simp: pic_update_irq_def Let_def split: option.splits)

lemma pic_update_irq_frame [simp]:
  "imr (pics (pic_update_irq s) i) = imr (pics s i)"
  "isr (pics (pic_update_irq s) i) = isr (pics s i)"
  "priority_add (pics (pic_update_irq s) i) = priority_add (pics s i)"
  "irq_base (pics (pic_update_irq s) i) = irq_base (pics s i)"
  "init_state (pics (pic_update_irq s) i) = init_state (pics s i)"
  "elcr (pics (pic_update_irq s) i) = elcr (pics s i)"
  "elcr_mask (pics (pic_update_irq s) i) = elcr_mask (pics s i)"
  by (simp_all add: pic_update_irq_pics)

text \<open>Acknowledging a line puts it in service, ahead of every line that was.\<close>

lemma pic_intack_isr: "auto_eoi p = 0 \<Longrightarrow> isr (pic_intack p n) = isr p OR bitmask n"
  by (simp add: pic_intack_def Let_def)

lemma pic_intack_frame [simp]:
  "imr (pic_intack p n) = imr p" "irq_base (pic_intack p n) = irq_base p"
  "init_state (pic_intack p n) = init_state p" "special_mask (pic_intack p n) = special_mask p"
  "auto_eoi (pic_intack p n) = auto_eoi p"
  "special_fully_nested_mode (pic_intack p n) = special_fully_nested_mode p"
  "elcr (pic_intack p n) = elcr p" "elcr_mask (pic_intack p n) = elcr_mask p"
  by (simp_all add: pic_intack_def Let_def)

lemma pic_intack_priority: "auto_eoi p = 0 \<Longrightarrow> priority_add (pic_intack p n) = priority_add p"
  by (simp add: pic_intack_def Let_def)

lemma pic_intack_irr:
  "n < 8 \<Longrightarrow> bit (irr (pic_intack p n)) m \<longleftrightarrow> bit (irr p) m \<and> (m \<noteq> n \<or> bit (elcr p) n)"
  by (auto simp: pic_intack_def Let_def masked_bit bit_simps dest: bit_u8_less)

text \<open>With normal nesting every line in service counts.\<close>

definition pic_nested :: "nat \<Rightarrow> PicState \<Rightarrow> bool" where
  "pic_nested i p \<longleftrightarrow> auto_eoi p = 0 \<and> special_mask p = 0 \<and>
    (special_fully_nested_mode p = 0 \<or> i \<noteq> 0)"

lemma pic_in_service_nested: "pic_nested i p \<Longrightarrow> pic_in_service i p = isr p"
  by (auto simp: pic_nested_def pic_in_service_def)

lemma pic_nested_intack: "pic_nested i p \<Longrightarrow> pic_nested i (pic_intack p n)"
  by (simp add: pic_nested_def)

lemma eoi_undoes_intack:
  assumes "pic_get_irq i p = Some n" "pic_nested i p"
  defines "q \<equiv> pic_intack p n"
  shows "get_priority q (isr q) = pic_rank p n" "isr q AND NOT (bitmask n) = isr p"
proof -
  have a: "auto_eoi p = 0" using assms(2) by (simp add: pic_nested_def)
  have rank: "pic_rank q = pic_rank p"
    using a by (auto simp: q_def pic_intack_priority intro: pic_rank_cong)
  have first: "bit (isr p) m \<Longrightarrow> pic_rank p n < pic_rank p m" for m
    using assms(1,2) by (simp add: pic_get_irq_Some pic_in_service_nested)
  have n: "n < 8" by (rule pic_get_irq_less [OF assms(1)])
  have isr: "isr q = isr p OR bitmask n" using a by (simp add: q_def pic_intack_isr)
  have "get_priority q (isr q) = pic_rank q n"
    using n first by (intro get_priority_unique) (auto simp: isr rank bit_simps dest: first)
  then show "get_priority q (isr q) = pic_rank p n" by (simp add: rank)
  have "\<not> bit (isr p) n" using first by blast
  then show "isr q AND NOT (bitmask n) = isr p"
    by (intro bit_word_eqI) (auto simp: isr bit_simps)
qed

section \<open>The controllers as a device\<close>

text \<open>Every way in which the rest of the machine enters the component.\<close>

datatype pic_event =
  Pic_line nat bool
| Pic_read_irq
| Pic_update
| Pic_outb u32 u8
| Pic_inb u32
| Pic_intack_read
| Pic_reset nat

fun pic_do :: "pic_event \<Rightarrow> PicState2 \<Rightarrow> PicState2 option" where
  "pic_do (Pic_line irq level) s = (if irq < 16 then Some (i8259_set_irq s irq level) else None)"
| "pic_do Pic_read_irq s = Some (fst (pic_read_irq s))"
| "pic_do Pic_update s = Some (pic_update_irq s)"
| "pic_do (Pic_outb port v) s = pic_outb port v s"
| "pic_do (Pic_inb port) s = Some (fst (pic_inb port s))"
| "pic_do Pic_intack_read s = Some (fst (pic_intack_read s))"
| "pic_do (Pic_reset i) s = (if i < 2 then Some (set_pic s i (pic_reset (pics s i))) else None)"

definition pic_step :: "PicState2 \<Rightarrow> PicState2 \<Rightarrow> bool" where
  "pic_step s t \<longleftrightarrow> (\<exists>e. pic_do e s = Some t)"

definition pic_inv :: "nat \<Rightarrow> PicState \<Rightarrow> bool" where
  "pic_inv i p \<longleftrightarrow> priority_add p < 8 \<and> init_state p \<le> 3 \<and> irq_base p AND 7 = 0 \<and>
    elcr_mask p = (if i = 0 then 0xf8 else 0xde) \<and> elcr p AND elcr_mask p = elcr p"

definition pic2_inv :: "PicState2 \<Rightarrow> bool" where
  "pic2_inv s \<longleftrightarrow> pic_inv 0 (pics s 0) \<and> pic_inv 1 (pics s 1)"

lemma pic2_inv_pics: "pic2_inv s \<longleftrightarrow> (\<forall>i < 2. pic_inv i (pics s i))"
  by (auto simp: pic2_inv_def less_2_cases_iff)

lemma pic2_invD: "pic2_inv s \<Longrightarrow> i < 2 \<Longrightarrow> pic_inv i (pics s i)"
  by (simp add: pic2_inv_pics)

lemma pic_inv_update [simp]:
  "pic_inv i (p\<lparr>last_irr := x\<rparr>) = pic_inv i p" "pic_inv i (p\<lparr>irr := x\<rparr>) = pic_inv i p"
  "pic_inv i (p\<lparr>imr := x\<rparr>) = pic_inv i p" "pic_inv i (p\<lparr>isr := x\<rparr>) = pic_inv i p"
  "pic_inv i (p\<lparr>read_reg_select := x\<rparr>) = pic_inv i p" "pic_inv i (p\<lparr>poll := x\<rparr>) = pic_inv i p"
  "pic_inv i (p\<lparr>special_mask := x\<rparr>) = pic_inv i p" "pic_inv i (p\<lparr>auto_eoi := x\<rparr>) = pic_inv i p"
  "pic_inv i (p\<lparr>rotate_on_auto_eoi := x\<rparr>) = pic_inv i p"
  "pic_inv i (p\<lparr>special_fully_nested_mode := x\<rparr>) = pic_inv i p"
  "pic_inv i (p\<lparr>init4 := x\<rparr>) = pic_inv i p" "pic_inv i (p\<lparr>single_mode := x\<rparr>) = pic_inv i p"
  by (simp_all add: pic_inv_def)

lemma pic_inv_register:
  "pic_inv i p \<Longrightarrow> x < 8 \<Longrightarrow> pic_inv i (p\<lparr>priority_add := x\<rparr>)"
  "pic_inv i p \<Longrightarrow> y \<le> 3 \<Longrightarrow> pic_inv i (p\<lparr>init_state := y\<rparr>)"
  "pic_inv i p \<Longrightarrow> z AND 7 = 0 \<Longrightarrow> pic_inv i (p\<lparr>irq_base := z\<rparr>)"
  "pic_inv i p \<Longrightarrow> pic_inv i (p\<lparr>elcr := e AND elcr_mask p\<rparr>)"
  by (auto simp: pic_inv_def and.assoc)

lemma pic_inv_cong:
  "pic_inv i p \<Longrightarrow> priority_add q = priority_add p \<Longrightarrow> init_state q = init_state p \<Longrightarrow>
    irq_base q = irq_base p \<Longrightarrow> elcr q = elcr p \<Longrightarrow> elcr_mask q = elcr_mask p \<Longrightarrow> pic_inv i q"
  by (auto simp: pic_inv_def)

lemma pic_inv_edge_cascade: "pic_inv 0 p \<Longrightarrow> \<not> bit (elcr p) 2"
proof -
  assume "pic_inv 0 p"
  then have "elcr p = elcr p AND 0xf8" by (auto simp: pic_inv_def)
  moreover have "\<not> bit (elcr p AND 0xf8) 2" by (simp add: bit_and_iff)
  ultimately show ?thesis by metis
qed

lemma pic_update_irq_inv: "pic2_inv s \<Longrightarrow> pic2_inv (pic_update_irq s)"
  using pic_inv_cong [of 0 "pics s 0" "pics (pic_update_irq s) 0"]
    pic_inv_cong [of 1 "pics s 1" "pics (pic_update_irq s) 1"] by (simp add: pic2_inv_def)

lemma set_pic_inv: "pic2_inv s \<Longrightarrow> pic_inv i p \<Longrightarrow> pic2_inv (set_pic s i p)"
  by (auto simp: pic2_inv_pics)

lemma rotated_priority: "(of_nat (n mod 8) :: u8) < 8"
  by (simp add: word_less_nat_alt unat_of_nat)

lemma masked_priority: "(ucast ((v :: u32) AND 7) :: u8) < 8"
proof -
  have "unat (v AND mask 3) = unat v mod 2 ^ 3" by (rule unat_and_mask) simp
  then have "unat (v AND 7) = unat v mod 8" by (simp add: mask_eq_exp_minus_1)
  then show ?thesis
    by (simp add: word_less_nat_alt unat_ucast_mod)
qed

lemma irq_base_aligned: "ucast ((v :: u32) AND 0xf8) AND (7 :: u8) = 0"
proof (rule bit_word_eqI)
  fix n :: nat
  assume "n < LENGTH(8)"
  then have "n \<in> {0, 1, 2, 3, 4, 5, 6, 7}" by auto
  then show "bit (ucast (v AND 0xf8) AND (7 :: u8)) n = bit (0 :: u8) n"
    by (auto simp: bit_simps)
qed

lemmas pic_inv_intros = pic_update_irq_inv set_pic_inv pic_inv_register rotated_priority
  masked_priority irq_base_aligned

lemma pic_set_irq1_inv: "pic_inv i p \<Longrightarrow> pic_inv i (pic_set_irq1 p irq level)"
  by (simp add: pic_set_irq1_def Let_def)

lemma i8259_set_irq_inv: "irq < 16 \<Longrightarrow> pic2_inv s \<Longrightarrow> pic2_inv (i8259_set_irq s irq level)"
  unfolding i8259_set_irq_def
  by (intro pic_inv_intros pic_set_irq1_inv pic2_invD) auto

lemma pic_intack_inv: "pic_inv i p \<Longrightarrow> pic_inv i (pic_intack p n)"
  by (auto simp: pic_intack_def Let_def intro!: pic_inv_intros)

lemma pic_reset_inv: "pic_inv i p \<Longrightarrow> pic_inv i (pic_reset p)"
  by (auto simp: pic_inv_def pic_reset_def)

lemma pic_read_irq_inv: "pic2_inv s \<Longrightarrow> pic2_inv (fst (pic_read_irq s))"
  by (auto simp: pic_read_irq_def Let_def split: option.splits
      intro!: pic_inv_intros pic_intack_inv pic2_invD)

lemma pic_write_icw1_inv:
  "pic_write_icw1 i v s = Some t \<Longrightarrow> i < 2 \<Longrightarrow> pic2_inv s \<Longrightarrow> pic2_inv t"
proof -
  assume t: "pic_write_icw1 i v s = Some t" and i: "i < 2" and s: "pic2_inv s"
  have "pic2_inv (qemu_irq_lower (set_pic s i (pic_reset (pics s i))))"
    using s i by (simp add: pic2_inv_pics pic_reset_inv)
  moreover have "pic_inv i ((pic_reset (pics s i))\<lparr>init_state := 1\<rparr>)"
    using s i by (auto intro!: pic_inv_intros pic_reset_inv pic2_invD)
  ultimately show ?thesis
    using t by (auto simp: pic_write_icw1_def Let_def intro!: set_pic_inv split: if_splits)
qed

lemma pic_write_ocw3_inv: "pic_inv i p \<Longrightarrow> pic_inv i (pic_write_ocw3 v p)"
  by (simp add: pic_write_ocw3_def Let_def)

lemma pic_write_ocw2_inv: "i < 2 \<Longrightarrow> pic2_inv s \<Longrightarrow> pic2_inv (pic_write_ocw2 i v s)"
  unfolding pic_write_ocw2_def Let_def
  by (auto intro!: pic_inv_intros pic2_invD)

lemma pic_write_data_inv: "i < 2 \<Longrightarrow> pic2_inv s \<Longrightarrow> pic2_inv (pic_write_data i v s)"
  unfolding pic_write_data_def Let_def
  by (auto intro!: pic_inv_intros pic2_invD)

lemma elcr_ioport_write_inv: "i < 2 \<Longrightarrow> pic2_inv s \<Longrightarrow> pic2_inv (elcr_ioport_write i v s)"
  unfolding elcr_ioport_write_def by (intro pic_inv_intros pic2_invD)

lemma pic_ioport_write_inv:
  "pic_ioport_write i port v s = Some t \<Longrightarrow> i < 2 \<Longrightarrow> pic2_inv s \<Longrightarrow> pic2_inv t"
  by (auto simp: pic_ioport_write_def
      intro: pic_write_icw1_inv pic_write_ocw2_inv pic_write_data_inv
        set_pic_inv pic_write_ocw3_inv pic2_invD split: if_splits)

lemma pic_outb_inv: "pic_outb port v s = Some t \<Longrightarrow> pic2_inv s \<Longrightarrow> pic2_inv t"
  by (auto simp: pic_outb_def elcr_ioport_write_inv split: if_splits dest: pic_ioport_write_inv)

lemma pic_poll_read_inv: "i < 2 \<Longrightarrow> pic2_inv s \<Longrightarrow> pic2_inv (fst (pic_poll_read i a s))"
  by (auto simp: pic_poll_read_def Let_def split: option.split intro!: pic_inv_intros pic2_invD)

lemma pic_ioport_read_inv: "i < 2 \<Longrightarrow> pic2_inv s \<Longrightarrow> pic2_inv (fst (pic_ioport_read i a s))"
  using pic_poll_read_inv [of i s a]
  by (auto simp: pic_ioport_read_def Let_def split: prod.splits intro!: pic_inv_intros pic2_invD)

lemma pic_inb_inv: "pic2_inv s \<Longrightarrow> pic2_inv (fst (pic_inb port s))"
  by (auto simp: pic_inb_def pic_ioport_read_inv)

lemma pic_intack_read_inv: "pic2_inv s \<Longrightarrow> pic2_inv (fst (pic_intack_read s))"
proof -
  assume s: "pic2_inv s"
  obtain u r where u: "pic_poll_read 0 0 s = (u, r)" by fastforce
  obtain w q where w: "pic_poll_read 1 0x80 u = (w, q)" by fastforce
  have "pic2_inv u" using pic_poll_read_inv [of 0 s 0] s u by simp
  moreover from this have "pic2_inv w" using pic_poll_read_inv [of 1 u "0x80"] w by simp
  ultimately show ?thesis
    using u w by (auto simp: pic_intack_read_def Let_def intro!: set_pic_inv pic2_invD)
qed

lemma pic_do_inv: "pic_do e s = Some t \<Longrightarrow> pic2_inv s \<Longrightarrow> pic2_inv t"
  by (cases e) (auto split: if_splits
      intro: i8259_set_irq_inv pic_read_irq_inv pic_update_irq_inv pic_outb_inv pic_inb_inv
        pic_intack_read_inv set_pic_inv pic_reset_inv pic2_invD)

interpretation pic: device "\<lambda>s. s = i8259_init" pic_step pic2_inv
proof
  show "pic2_inv s" if "s = i8259_init" for s
    using that by (simp add: i8259_init_def pic2_inv_def pic_inv_def pic_zero_def)
  show "pic2_inv t" if "pic_step s t" "pic2_inv s" for s t
    using that by (auto simp: pic_step_def intro: pic_do_inv)
qed

section \<open>Delivery of a request\<close>

lemma irr_zero_None: "irr p = 0 \<Longrightarrow> pic_get_irq i p = None"
  by (simp add: pic_get_irq_None_iff pic_pending_def)

lemma single_request:
  assumes "irr p = bitmask n" "n < 8" "\<not> bit (imr p) n" "isr p = 0"
  shows "pic_get_irq i p = Some n"
proof -
  have "bit (pic_pending p) m \<longleftrightarrow> m = n" for m
    using assms by (auto simp: pic_pending_def bit_simps)
  moreover have "pic_in_service i p = 0" using assms by (simp add: pic_in_service_def Let_def)
  ultimately show ?thesis by (simp add: pic_get_irq_Some)
qed

lemma pic_set_irq1_idle:
  assumes "irr p = 0" "last_irr p = 0" "n < 8"
  shows "irr (pic_set_irq1 p n True) = bitmask n"
  by (rule bit_word_eqI) (use assms in \<open>auto simp: pic_set_irq1_irr bit_simps\<close>)

lemma pic_cascade_idle:
  assumes "irr p = 0" "last_irr p = 0" "\<not> bit (elcr p) 2"
  shows "irr (pic_cascade p) = bitmask 2"
  by (rule bit_word_eqI) (use assms bit_bitmask [where n = 2 and 'a = 8] in \<open>auto simp: pic_cascade_irr\<close>)

lemma pic_intack_idle:
  assumes "irr p = bitmask n" "\<not> bit (elcr p) n" "n < 8"
  shows "irr (pic_intack p n) = 0"
  by (rule bit_word_eqI) (use assms in \<open>auto simp: pic_intack_irr bit_simps\<close>)

definition pic_idle :: "PicState \<Rightarrow> bool" where
  "pic_idle p \<longleftrightarrow> irr p = 0 \<and> last_irr p = 0 \<and> isr p = 0"

text \<open>The states just after the request: one line of the master, or a line of the slave together
  with the cascade line of the master.\<close>

lemma master_request:
  assumes "pic_idle (pics s 0)" "pic_idle (pics s 1)" "irq < 8" "\<not> bit (imr (pics s 0)) irq"
  defines "t \<equiv> i8259_set_irq s irq True"
  shows "pics t = (pics s)(0 := pic_set_irq1 (pics s 0) irq True)"
    and "parent_irq t = True # parent_irq s" and "pic_get_irq 0 (pics t 0) = Some irq"
proof -
  show p: "pics t = (pics s)(0 := pic_set_irq1 (pics s 0) irq True)"
    using assms by (simp add: i8259_set_irq_def pic_update_irq_pics pic_idle_def irr_zero_None)
  show g: "pic_get_irq 0 (pics t 0) = Some irq"
    using assms unfolding p by (simp add: single_request pic_set_irq1_idle pic_idle_def)
  then show "parent_irq t = True # parent_irq s"
    by (simp add: t_def i8259_set_irq_def pic_update_irq_parent)
qed

lemma slave_request:
  assumes "pic_idle (pics s 0)" "pic_idle (pics s 1)" "8 \<le> irq" "irq < 16"
    "\<not> bit (imr (pics s 0)) 2" "\<not> bit (imr (pics s 1)) (irq mod 8)" "\<not> bit (elcr (pics s 0)) 2"
  defines "t \<equiv> i8259_set_irq s irq True" and "p1 \<equiv> pic_set_irq1 (pics s 1) (irq mod 8) True"
  shows "pics t = (pics s)(1 := p1, 0 := pic_cascade (pics s 0))"
    and "parent_irq t = True # parent_irq s"
    and "pic_get_irq 0 (pics t 0) = Some 2" and "pic_get_irq 1 (pics t 1) = Some (irq mod 8)"
proof -
  have i: "irq div 8 = 1" using assms by auto
  have slave: "pic_get_irq 1 p1 = Some (irq mod 8)"
    using assms by (simp add: single_request pic_set_irq1_idle pic_idle_def)
  show p: "pics t = (pics s)(1 := p1, 0 := pic_cascade (pics s 0))"
    using slave by (simp add: t_def i8259_set_irq_def i pic_update_irq_pics p1_def)
  show g: "pic_get_irq 0 (pics t 0) = Some 2"
    using assms unfolding p by (simp add: single_request pic_cascade_idle pic_idle_def)
  then show "parent_irq t = True # parent_irq s"
    by (simp add: t_def i8259_set_irq_def pic_update_irq_parent)
  show "pic_get_irq 1 (pics t 1) = Some (irq mod 8)" using slave by (simp add: p)
qed

lemma master_delivery:
  assumes "pic_idle (pics s 0)" "pic_idle (pics s 1)" "irq < 8" "irq \<noteq> 2" "\<not> bit (imr (pics s 0)) irq"
  shows "pic_read_irq (i8259_set_irq s irq True) = (u, v) \<Longrightarrow>
    v = unat (irq_base (pics s 0)) + irq \<and>
    (\<not> bit (elcr (pics s 0)) irq \<longrightarrow> pic_get_irq 0 (pics u 0) = None)"
  using assms master_request [OF assms(1,2,3,5)]
  by (auto simp: pic_read_irq_def Let_def pic_update_irq_pics pic_idle_def irr_zero_None
      pic_intack_idle pic_set_irq1_idle)

lemma slave_delivery:
  assumes "pic_idle (pics s 0)" "pic_idle (pics s 1)" "8 \<le> irq" "irq < 16"
    "\<not> bit (imr (pics s 0)) 2" "\<not> bit (imr (pics s 1)) (irq mod 8)" "\<not> bit (elcr (pics s 0)) 2"
  shows "pic_read_irq (i8259_set_irq s irq True) = (u, v) \<Longrightarrow>
    v = unat (irq_base (pics s 1)) + irq mod 8 \<and>
    (\<not> bit (elcr (pics s 1)) (irq mod 8) \<longrightarrow> pic_get_irq 0 (pics u 0) = None)"
  using assms slave_request [OF assms]
  by (auto simp: pic_read_irq_def Let_def pic_update_irq_pics pic_idle_def irr_zero_None
      pic_intack_idle pic_set_irq1_idle pic_cascade_idle)

text \<open>C4: With both controllers idle, raising an unmasked line of the master (other than the
  cascade) or, with the cascade unmasked, of the slave raises the processor's line, and the
  acknowledge cycle \<open>pic_read_irq\<close> returns the vector programmed for exactly that
  line; for an edge-triggered line nothing is pending afterwards.\<close>

theorem pic_delivers_request:
  assumes "pic2_inv s" "pic_idle (pics s 0)" "pic_idle (pics s 1)" "irq < 16" "irq \<noteq> 2"
    and "\<not> bit (imr (pics s (irq div 8))) (irq mod 8)" "8 \<le> irq \<longrightarrow> \<not> bit (imr (pics s 0)) 2"
    and "pic_read_irq (i8259_set_irq s irq True) = (u, v)"
  shows "parent_irq (i8259_set_irq s irq True) = True # parent_irq s \<and>
    v = unat (irq_base (pics s (irq div 8))) + irq mod 8 \<and>
    (\<not> bit (elcr (pics s (irq div 8))) (irq mod 8) \<longrightarrow> pic_get_irq 0 (pics u 0) = None)"
proof (cases "irq < 8")
  case True
  with assms show ?thesis
    using master_delivery [of s irq u v] master_request(2) [of s irq] by simp
next
  case False
  moreover from this assms have "irq div 8 = 1" by auto
  moreover have "\<not> bit (elcr (pics s 0)) 2"
    using assms(1) by (simp add: pic2_inv_def pic_inv_edge_cascade)
  ultimately show ?thesis
    using assms slave_delivery [of s irq u v] slave_request(2) [of s irq] by simp
qed

theorem pic_delivers_request_witness:
  "snd (pic_read_irq (i8259_set_irq i8259_init 12 True)) = 4"
proof -
  obtain u v where uv: "pic_read_irq (i8259_set_irq i8259_init 12 True) = (u, v)" by fastforce
  have "pic2_inv i8259_init" by (rule pic.init_inv) simp
  with pic_delivers_request [OF _ _ _ _ _ _ _ uv] uv show ?thesis
    by (simp add: i8259_init_def pic_zero_def pic_idle_def)
qed

section \<open>End of interrupt, programming and pending edges\<close>

lemma get_priority_cong:
  assumes "priority_add p = priority_add q"
  shows "get_priority p m = get_priority q m" "pic_line p = pic_line q"
proof -
  have "k < get_priority p m \<longleftrightarrow> k < get_priority q m" for k
    using pic_rank_cong [OF assms] by (simp add: get_priority_ge)
  then show "get_priority p m = get_priority q m" by (metis linorder_neq_iff)
  show "pic_line p = pic_line q" using assms by (simp add: pic_line_def fun_eq_iff)
qed

text \<open>The non-specific end of interrupt, command 0x20, sent to a controller that has just acknowledged
  line \<open>n\<close> in state \<open>p\<close>.\<close>

lemma eoi_after_intack:
  assumes "pic_get_irq i p = Some n" "pic_nested i p"
    and "isr (pics s i) = isr (pic_intack p n)" "priority_add (pics s i) = priority_add p"
    and "pic_ioport_write i port 0x20 s = Some t" "port AND 1 = 0"
  shows "isr (pics t i) = isr p" "j \<noteq> i \<Longrightarrow> isr (pics t j) = isr (pics s j)"
    "priority_add (pics t j) = priority_add (pics s j)"
proof -
  let ?q = "pic_intack p n"
  have a: "auto_eoi p = 0" using assms(2) by (simp add: pic_nested_def)
  have n: "n < 8" by (rule pic_get_irq_less [OF assms(1)])
  have "get_priority (pics s i) (isr ?q) = get_priority ?q (isr ?q)"
    using assms(4) a by (intro get_priority_cong) (simp add: pic_intack_priority)
  then have prio: "get_priority (pics s i) (isr ?q) = pic_rank p n"
    using eoi_undoes_intack(1) [OF assms(1,2)] by simp
  moreover have "pic_line (pics s i) = pic_line p" using assms(4) by (rule get_priority_cong)
  ultimately have line: "pic_line (pics s i) (get_priority (pics s i) (isr ?q)) = n"
    using n by simp
  have ne: "isr ?q \<noteq> 0" using prio pic_rank_less [of p n] get_priority_8 by (metis less_irrefl)
  have t: "t = pic_update_irq (set_pic s i ((pics s i)\<lparr>isr := isr p\<rparr>))"
    using assms(3,5,6) ne line eoi_undoes_intack(2) [OF assms(1,2)]
    by (simp add: pic_ioport_write_def pic_write_ocw2_def Let_def)
  show "isr (pics t i) = isr p" "j \<noteq> i \<Longrightarrow> isr (pics t j) = isr (pics s j)"
    "priority_add (pics t j) = priority_add (pics s j)"
    by (simp_all add: t)
qed

lemma pic_outb_command:
  "pic_outb 0x20 v s = pic_ioport_write 0 0x20 (ucast v) s"
  "pic_outb 0xa0 v s = pic_ioport_write 1 0xa0 (ucast v) s"
  by (simp_all add: pic_outb_def)

theorem pic_eoi_restores:
  assumes "pic_get_irq 0 (pics s 0) = Some 2" "pic_get_irq 1 (pics s 1) = Some n"
    and "pic_nested 0 (pics s 0)" "pic_nested 1 (pics s 1)"
    and "pic_outb 0xa0 0x20 (fst (pic_read_irq s)) = Some t" "pic_outb 0x20 0x20 t = Some u"
  shows "isr (pics (fst (pic_read_irq s)) 0) = isr (pics s 0) OR bitmask 2 \<and>
    isr (pics (fst (pic_read_irq s)) 1) = isr (pics s 1) OR bitmask n \<and>
    isr (pics u 0) = isr (pics s 0) \<and> isr (pics u 1) = isr (pics s 1)"
proof -
  let ?r = "fst (pic_read_irq s)"
  have read: "?r = pic_update_irq (set_pic (set_pic s 0 (pic_intack (pics s 0) 2)) 1 (pic_intack (pics s 1) n))"
    using assms by (simp add: pic_read_irq_def Let_def)
  have a: "auto_eoi (pics s 0) = 0" "auto_eoi (pics s 1) = 0"
    using assms(3,4) by (simp_all add: pic_nested_def)
  have r: "isr (pics ?r 0) = isr (pic_intack (pics s 0) 2)" "isr (pics ?r 1) = isr (pic_intack (pics s 1) n)"
    "priority_add (pics ?r 0) = priority_add (pics s 0)" "priority_add (pics ?r 1) = priority_add (pics s 1)"
    using a by (simp_all add: read pic_intack_priority)
  have w1: "pic_ioport_write 1 0xa0 0x20 ?r = Some t" and w2: "pic_ioport_write 0 0x20 0x20 t = Some u"
    using assms(5,6) by (simp_all add: pic_outb_command)
  note slave = eoi_after_intack [OF assms(2,4) r(2,4) w1]
  have "isr (pics t 0) = isr (pic_intack (pics s 0) 2)" "priority_add (pics t 0) = priority_add (pics s 0)"
    using slave(2) [of 0] slave(3) [of 0] r by simp_all
  note master = eoi_after_intack [OF assms(1,3) this w2]
  show ?thesis
    using slave(1) master(1) master(2) [of 1] r a pic_intack_isr [of "pics s 0" 2] pic_intack_isr [of "pics s 1" n]
    by simp
qed

lemma i8259_init_fields:
  "auto_eoi (pics i8259_init k) = 0" "special_mask (pics i8259_init k) = 0"
  "special_fully_nested_mode (pics i8259_init k) = 0" "isr (pics i8259_init k) = 0"
  "imr (pics i8259_init k) = 0" "elcr (pics i8259_init k) = 0" "pic_idle (pics i8259_init k)"
  by (simp_all add: i8259_init_def pic_zero_def pic_idle_def)

theorem pic_eoi_restores_witness:
  "isr (pics (the (pic_outb 0x20 0x20 (the (pic_outb 0xa0 0x20
     (fst (pic_read_irq (i8259_set_irq i8259_init 12 True))))))) 0) = 0"
proof -
  let ?s = "i8259_set_irq i8259_init 12 True"
  note req = slave_request [of i8259_init 12, simplified i8259_init_fields, simplified]
  have "pic_nested 0 (pics ?s 0)" "pic_nested 1 (pics ?s 1)" "isr (pics ?s 0) = 0"
    by (simp_all add: req pic_nested_def i8259_init_fields)
  moreover obtain t where t: "pic_outb 0xa0 0x20 (fst (pic_read_irq ?s)) = Some t"
    by (simp add: pic_outb_def pic_ioport_write_def)
  moreover obtain u where u: "pic_outb 0x20 0x20 t = Some u"
    by (simp add: pic_outb_def pic_ioport_write_def)
  ultimately show ?thesis
    using pic_eoi_restores [of ?s 4 t u] req(3,4) by simp
qed

text \<open>A sequence of port writes, as a driver issues them; \<^const>\<open>None\<close> once one of them is refused.\<close>

fun pic_outbs :: "(u32 \<times> u8) list \<Rightarrow> PicState2 \<Rightarrow> PicState2 option" where
  "pic_outbs [] s = Some s"
| "pic_outbs ((port, v) # ws) s = (case pic_outb port v s of None \<Rightarrow> None | Some t \<Rightarrow> pic_outbs ws t)"

lemma ucast_u8_test: "ucast (v :: u8) AND (bitmask n :: u32) = 0 \<longleftrightarrow> \<not> bit v n"
  by (auto simp: masked_bit bit_simps dest: bit_u8_less)

lemma icw1_tests:
  "ucast (v :: u8) AND (1 :: u32) = 0 \<longleftrightarrow> \<not> bit v 0" "ucast v AND (2 :: u32) = 0 \<longleftrightarrow> \<not> bit v (Suc 0)"
  "ucast v AND (8 :: u32) = 0 \<longleftrightarrow> \<not> bit v 3" "ucast v AND (16 :: u32) = 0 \<longleftrightarrow> \<not> bit v 4"
  using ucast_u8_test [of v 0] ucast_u8_test [of v 1] ucast_u8_test [of v 3] ucast_u8_test [of v 4]
  by (simp_all only: power_0 power_one_right numeral_eq_Suc) simp_all

lemma ucast_back: "(ucast (ucast (v :: u8) AND (ucast (m :: u8) :: u32)) :: u8) = v AND m"
  by (rule bit_word_eqI) (auto simp: bit_simps)

lemma icw1_fields:
  assumes "bit (v :: u8) 0" "\<not> bit v (Suc 0)"
  shows "(ucast (ucast v AND (1 :: u32)) :: u8) = 1" "(ucast (ucast v AND (2 :: u32)) :: u8) = 0"
  using assms icw1_tests(1,2) [of v] by (auto simp: and_one_eq odd_iff_mod_2_eq_one bit_0)

lemma icw1_write:
  "bit (v :: u8) 4 \<Longrightarrow> \<not> bit v 3 \<Longrightarrow> \<not> bit v 1 \<Longrightarrow> bit v 0 \<Longrightarrow> port AND 1 = 0 \<Longrightarrow>
    pic_ioport_write i port (ucast v) s = Some (set_pic (qemu_irq_lower s) i
      ((pic_reset (pics s i))\<lparr>init_state := 1, init4 := 1, single_mode := 0\<rparr>))"
  by (simp add: pic_ioport_write_def pic_write_icw1_def icw1_tests icw1_fields Let_def set_pic_def
      qemu_irq_lower_def)

lemma icw_data_write:
  "init_state (pics s i) = 1 \<Longrightarrow> single_mode (pics s i) = 0 \<Longrightarrow>
    pic_write_data i w s = set_pic s i ((pics s i)\<lparr>irq_base := ucast (w AND 0xf8), init_state := 2\<rparr>)"
  "init_state (pics s i) = 2 \<Longrightarrow> init4 (pics s i) \<noteq> 0 \<Longrightarrow>
    pic_write_data i w s = set_pic s i ((pics s i)\<lparr>init_state := 3\<rparr>)"
  "init_state (pics s i) = 3 \<Longrightarrow>
    pic_write_data i w s = set_pic s i ((pics s i)\<lparr>special_fully_nested_mode := ucast (drop_bit 4 w AND 1),
      auto_eoi := ucast (drop_bit 1 w AND 1), init_state := 0\<rparr>)"
  by (simp_all add: pic_write_data_def Let_def)

lemma pic_ioport_write_data: "port AND 1 \<noteq> 0 \<Longrightarrow> pic_ioport_write i port w s = Some (pic_write_data i w s)"
  by (simp add: pic_ioport_write_def)

text \<open>The four initialisation words of controller \<open>i\<close> at ports \<open>p\<close> and \<open>p + 1\<close>, cascaded and with
  the fourth word announced.\<close>

theorem pic_init_sequence:
  assumes "(i, p) = (0, 0x20) \<or> (i, p) = (1, 0xa0)"
    and "bit v1 4" "\<not> bit v1 3" "\<not> bit v1 1" "bit v1 0"
  shows "\<exists>t. pic_outbs [(p, v1), (p + 1, v2), (p + 1, v3), (p + 1, v4)] s = Some t \<and>
    pics t = (pics s)(i := (pic_reset (pics s i))
      \<lparr>init4 := 1, single_mode := 0, irq_base := v2 AND 0xf8,
       special_fully_nested_mode := drop_bit 4 v4 AND 1, auto_eoi := drop_bit 1 v4 AND 1,
       init_state := 0\<rparr>)"
proof -
  have base: "(ucast (ucast v2 AND (0xf8 :: u32)) :: u8) = v2 AND 0xf8"
    using ucast_back [of v2 "0xf8"] by simp
  have field: "(ucast (drop_bit n (ucast v4 :: u32) AND 1) :: u8) = drop_bit n v4 AND 1" for n
    by (rule bit_word_eqI) (auto simp: bit_simps dest: bit_u8_less)
  show ?thesis
    using assms(1)
    by (elim disjE) (simp_all add: pic_outb_def pic_ioport_write_data icw1_write [OF assms(2-5)]
        icw_data_write base field pic_reset_def)
qed

theorem pic_init_sequence_witness:
  "\<exists>t. pic_outbs [(0xa0, 0x11), (0xa1, 0x70), (0xa1, 2), (0xa1, 1)] i8259_init = Some t \<and>
    irq_base (pics t 1) = 0x70"
proof -
  have b: "bit (0x11 :: u8) 4" "\<not> bit (0x11 :: u8) 3" "\<not> bit (0x11 :: u8) 1" "bit (0x11 :: u8) 0"
    by (simp_all add: bit_numeral_rec)
  show ?thesis
    using pic_init_sequence [of 1 "0xa0" "0x11" "0x70" 2 1 i8259_init] b by auto
qed

text \<open>Who may take a pending edge: the acknowledge cycle or a poll that reports the line, and the
  initialisation of the controller.\<close>

fun pic_polls :: "PicState2 \<Rightarrow> nat \<Rightarrow> nat \<Rightarrow> nat \<Rightarrow> bool" where
  "pic_polls s j i n = (case pic_get_irq j (pics s j) of None \<Rightarrow> False
    | Some m \<Rightarrow> i = j \<and> n = m \<or> j = 1 \<and> i = 0 \<and> n = 2)"

fun pic_takes :: "pic_event \<Rightarrow> PicState2 \<Rightarrow> nat \<Rightarrow> nat \<Rightarrow> bool" where
  "pic_takes Pic_read_irq s i n =
    (pic_get_irq 0 (pics s 0) = Some (if i = 0 then n else 2) \<and>
     (i \<noteq> 0 \<longrightarrow> pic_get_irq 1 (pics s 1) = Some n))"
| "pic_takes (Pic_inb port) s i n =
    ((port = 0x20 \<or> port = 0x21) \<and> poll (pics s 0) \<noteq> 0 \<and> pic_polls s 0 i n \<or>
     (port = 0xa0 \<or> port = 0xa1) \<and> poll (pics s 1) \<noteq> 0 \<and> pic_polls s 1 i n)"
| "pic_takes Pic_intack_read s i n =
    (pic_polls s 0 i n \<or> pic_polls (fst (pic_poll_read 0 0 s)) 1 i n)"
| "pic_takes (Pic_outb port v) s i n = (port = (if i = 0 then 0x20 else 0xa0) \<and> bit v 4)"
| "pic_takes (Pic_reset j) s i n = (i = j)"
| "pic_takes _ s i n = False"

lemma pic_update_irq_irr:
  "\<not> bit (elcr (pics s i)) n \<Longrightarrow> bit (irr (pics s i)) n \<Longrightarrow> bit (irr (pics (pic_update_irq s) i)) n"
  by (auto simp: pic_update_irq_pics pic_cascade_def pic_set_irq1_irr)

lemma pic_update_irq_keeps:
  "\<not> bit (elcr (pics s i)) n \<Longrightarrow> \<not> bit (irr (pics (pic_update_irq s) i)) n \<Longrightarrow> \<not> bit (irr (pics s i)) n"
  using pic_update_irq_irr by blast

lemma i8259_set_irq_keeps:
  assumes "\<not> bit (elcr (pics s i)) n" "bit (irr (pics s i)) n"
  shows "bit (irr (pics (i8259_set_irq s irq level) i)) n"
  unfolding i8259_set_irq_def
  by (rule pic_update_irq_irr) (use assms in \<open>auto simp: pic_set_irq1_irr\<close>)

lemma pic_intack_keeps:
  "bit (irr p) n \<Longrightarrow> \<not> bit (irr (pic_intack p m)) n \<Longrightarrow> m < 8 \<Longrightarrow> n = m"
  by (auto simp: pic_intack_irr)

lemma pic_read_irq_keeps:
  assumes "\<not> bit (elcr (pics s i)) n" "bit (irr (pics s i)) n"
    and "\<not> bit (irr (pics (fst (pic_read_irq s)) i)) n" "i < 2"
  shows "pic_takes Pic_read_irq s i n"
  using assms
  by (auto simp: pic_read_irq_def Let_def less_2_cases_iff split: option.splits if_splits
      dest!: pic_update_irq_keeps [rotated] dest: pic_intack_keeps pic_get_irq_less)

lemma pic_poll_read_keeps:
  assumes "\<not> bit (elcr (pics s i)) n" "bit (irr (pics s i)) n" "i < 2" "j = 1 \<or> drop_bit 7 a = 0"
    and "\<not> bit (irr (pics (fst (pic_poll_read j a s)) i)) n"
  shows "pic_polls s j i n"
proof (cases "pic_get_irq j (pics s j)")
  case None
  with assms(5) have "\<not> bit (irr (pics (pic_update_irq s) i)) n" by (simp add: pic_poll_read_def)
  with assms(1,2) show ?thesis using pic_update_irq_irr by blast
next
  case (Some m)
  have m: "m < 8" using Some by (rule pic_get_irq_less)
  define u where "u = (if drop_bit 7 a \<noteq> 0
    then set_pic s 0 ((pics s 0)\<lparr>isr := isr (pics s 0) AND NOT (bitmask 2), irr := irr (pics s 0) AND NOT (bitmask 2)\<rparr>)
    else s)"
  define v where "v = set_pic u j ((pics u j)\<lparr>irr := irr (pics u j) AND NOT (bitmask m),
    isr := isr (pics u j) AND NOT (bitmask m)\<rparr>)"
  have "fst (pic_poll_read j a s) = (if drop_bit 7 a \<noteq> 0 \<or> m \<noteq> 2 then pic_update_irq v else v)"
    using Some by (simp add: pic_poll_read_def Let_def u_def v_def)
  moreover have "elcr (pics v i) = elcr (pics s i)" by (simp add: u_def v_def)
  ultimately have "\<not> bit (irr (pics v i)) n"
    using assms(1,5) pic_update_irq_irr [of v i n] by (auto split: if_splits)
  moreover have "bit (irr (pics v i)) n \<longleftrightarrow> bit (irr (pics u i)) n \<and> \<not> (i = j \<and> n = m)"
    by (auto simp: v_def bit_clear_u8)
  moreover have "bit (irr (pics u i)) n \<longleftrightarrow> bit (irr (pics s i)) n \<and> \<not> (drop_bit 7 a \<noteq> 0 \<and> i = 0 \<and> n = 2)"
    using bit_clear_u8 [of "irr (pics s 0)" 2 n] by (auto simp: u_def)
  ultimately show ?thesis using Some assms(2,4) by auto
qed

lemma pic_ioport_read_keeps:
  assumes "\<not> bit (elcr (pics s i)) n" "bit (irr (pics s i)) n" "i < 2" "j = 1 \<or> drop_bit 7 a = 0"
    and "\<not> bit (irr (pics (fst (pic_ioport_read j a s)) i)) n"
  shows "poll (pics s j) \<noteq> 0 \<and> pic_polls s j i n"
proof -
  obtain t r where "pic_poll_read j a s = (t, r)" by fastforce
  with assms pic_poll_read_keeps [OF assms(1-4)] show ?thesis
    by (auto simp: pic_ioport_read_def split: if_splits)
qed

lemma pic_poll_read_elcr: "elcr (pics (fst (pic_poll_read j a s)) i) = elcr (pics s i)"
  by (auto simp: pic_poll_read_def Let_def split: option.splits)

lemma pic_intack_read_keeps:
  assumes "\<not> bit (elcr (pics s i)) n" "bit (irr (pics s i)) n" "i < 2"
    and "\<not> bit (irr (pics (fst (pic_intack_read s)) i)) n"
  shows "pic_takes Pic_intack_read s i n"
proof -
  obtain t r where t: "pic_poll_read 0 0 s = (t, r)" by fastforce
  obtain u q where u: "pic_poll_read 1 0x80 t = (u, q)" by fastforce
  have "pic_polls s 0 i n" if "\<not> bit (irr (pics t i)) n"
    using pic_poll_read_keeps [of s i n 0 0] assms that t by simp
  moreover have "pic_polls t 1 i n" if "bit (irr (pics t i)) n" "\<not> bit (irr (pics u i)) n"
    using pic_poll_read_keeps [of t i n 1 "0x80"] pic_poll_read_elcr [of 0 0 s i] assms that t u by simp
  ultimately show ?thesis
    using assms(4) t u by (auto simp: pic_intack_read_def split: if_splits)
qed

lemma pic_outb_keeps:
  assumes "\<not> bit (elcr (pics s i)) n" "bit (irr (pics s i)) n" "i < 2" "pic_outb port v s = Some t"
    and "\<not> bit (irr (pics t i)) n"
  shows "pic_takes (Pic_outb port v) s i n"
proof (rule ccontr)
  assume a: "\<not> ?thesis"
  have ocw2: "bit (irr (pics (pic_write_ocw2 j w s) i)) n" for j w
    using assms(1,2) by (auto simp: pic_write_ocw2_def Let_def intro!: pic_update_irq_irr)
  moreover have data: "bit (irr (pics (pic_write_data j w s) i)) n" for j w
    using assms(1,2) by (auto simp: pic_write_data_def Let_def intro!: pic_update_irq_irr)
  moreover have "irr (pic_write_ocw3 w p) = irr p" for w p
    by (simp add: pic_write_ocw3_def Let_def)
  moreover have "i = 0 \<or> i = 1" using assms(3) by auto
  ultimately show False
    using assms(2,4,5) a
    by (elim disjE) (auto simp: pic_outb_def pic_ioport_write_def pic_write_icw1_def
        elcr_ioport_write_def icw1_tests Let_def split: if_splits)
qed


lemma pic_inb_keeps:
  assumes "\<not> bit (elcr (pics s i)) n" "bit (irr (pics s i)) n" "i < 2"
    and "\<not> bit (irr (pics (fst (pic_inb port s)) i)) n"
  shows "pic_takes (Pic_inb port) s i n"
  using assms(4) pic_ioport_read_keeps [OF assms(1-3), of 0 port] pic_ioport_read_keeps [OF assms(1-3), of 1 port] assms(2)
  by (auto simp: pic_inb_def simp del: pic_polls.simps split: if_splits)

lemma pic_reset_keeps:
  assumes "bit (irr (pics s i)) n" "\<not> bit (irr (pics (set_pic s j (pic_reset (pics s j))) i)) n"
  shows "pic_takes (Pic_reset j) s i n"
  using assms by (auto split: if_splits)

text \<open>C13: A pending edge-triggered request stays pending through every event of the controllers,
  except an acknowledge or poll that reports that line and the initialisation of its controller.\<close>

theorem pic_edge_not_lost:
  assumes "pic_do e s = Some t" "i < 2" "bit (irr (pics s i)) n" "\<not> bit (elcr (pics s i)) n"
    and "\<not> pic_takes e s i n"
  shows "bit (irr (pics t i)) n"
proof (rule ccontr)
  assume "\<not> bit (irr (pics t i)) n"
  moreover note assms
  moreover note i8259_set_irq_keeps pic_update_irq_irr pic_read_irq_keeps [OF assms(4,3)]
    pic_inb_keeps [OF assms(4,3,2)] pic_intack_read_keeps [OF assms(4,3,2)]
    pic_outb_keeps [OF assms(4,3,2)] pic_reset_keeps [OF assms(3)]
  ultimately show False
    by (cases e) (auto simp del: pic_takes.simps split: if_splits)
qed

theorem pic_edge_not_lost_witness:
  "bit (irr (pics (i8259_set_irq (i8259_set_irq i8259_init 3 True) 3 False) 0)) 3"
proof -
  let ?s = "i8259_set_irq i8259_init 3 True"
  note req = master_request [of i8259_init 3, simplified i8259_init_fields, simplified]
  have "bit (irr (pics ?s 0)) 3" "\<not> bit (elcr (pics ?s 0)) 3"
    by (simp_all add: req pic_set_irq1_irr i8259_init_fields)
      (simp add: i8259_init_def pic_zero_def)
  then show ?thesis
    using pic_edge_not_lost [of "Pic_line 3 False" ?s "i8259_set_irq ?s 3 False" 0 3] by simp
qed

text \<open>C9: \<open>pic_get_irq\<close> returns line n exactly when n is requested and unmasked, no
  requested unmasked line ranks before it, and every line counted as in service ranks after it;
  it returns none exactly when every pending line is blocked by a line in service.\<close>

theorem pic_priority_resolution:
  "(pic_get_irq i p = Some n \<longleftrightarrow>
      bit (irr p AND NOT (imr p)) n \<and>
      (\<forall>m. bit (irr p AND NOT (imr p)) m \<longrightarrow> pic_rank p n \<le> pic_rank p m) \<and>
      (\<forall>m. bit (pic_in_service i p) m \<longrightarrow> pic_rank p n < pic_rank p m)) \<and>
   (pic_get_irq i p = None \<longleftrightarrow>
      (\<forall>n. bit (irr p AND NOT (imr p)) n \<longrightarrow>
        (\<exists>m. bit (pic_in_service i p) m \<and> pic_rank p m \<le> pic_rank p n)))"
  by (simp only: pic_get_irq_Some pic_get_irq_None_iff pic_pending_def simp_thms)

theorem pic_priority_resolution_witness:
  "pic_get_irq 0 (pic_zero\<lparr>irr := 0x88, imr := 0x08\<rparr>) = Some 7"
proof -
  have "bit (0x80 :: u8) m \<Longrightarrow> m = 7" for m
    using bit_bitmask [of 7 m, where 'a = 8] by simp
  then show ?thesis
    by (subst pic_priority_resolution [THEN conjunct1]) (auto simp: pic_zero_def pic_in_service_def)
qed

lemma irq_base_bound:
  assumes "pic_inv i p" "n < 8"
  shows "unat (irq_base p) + n < 256"
proof -
  have "unat (irq_base p AND mask 3) = unat (irq_base p) mod 2 ^ 3" by (rule unat_and_mask) simp
  with assms(1) have "unat (irq_base p) mod 8 = 0" by (simp add: pic_inv_def mask_eq_exp_minus_1)
  with unat_bounds(1) [of "irq_base p"] assms(2) show ?thesis by presburger
qed

lemma read_irq_vector: "pic2_inv s \<Longrightarrow> snd (pic_read_irq s) < 256"
  using irq_base_bound [of 0 "pics s 0"] irq_base_bound [of 1 "pics s 1"]
  by (auto simp: pic_read_irq_def Let_def pic2_inv_def split: option.splits dest: pic_get_irq_less)

theorem pic_reachable_vector:
  assumes "reach (\<lambda>s. s = i8259_init) pic_step s"
  shows "pic2_inv s \<and> snd (pic_read_irq s) < 256"
  using pic.reachable_inv [OF assms] by (simp add: read_irq_vector)

theorem pic_reachable_vector_witness:
  "snd (pic_read_irq (i8259_set_irq i8259_init 12 True)) < 256"
proof -
  have "pic_do (Pic_line 12 True) i8259_init = Some (i8259_set_irq i8259_init 12 True)" by simp
  then have "reach (\<lambda>s. s = i8259_init) pic_step (i8259_set_irq i8259_init 12 True)"
    by (intro reach_step [OF reach_init]) (auto simp: pic_step_def intro: exI [of _ "Pic_line 12 True"])
  from pic_reachable_vector [OF this] show ?thesis by simp
qed

end
