(* ===== verification/Mc146818rtc.thy ===== *)
theory Mc146818rtc
  imports Machine Cutils
begin

text \<open>
  The MC146818 real-time clock, \<open>qemu/hw/mc146818rtc.c\<close>.

  \<^item> \<open>RTCState\<close> is the struct of that name. The 128 bytes \<open>cmos_data\<close> are a function from addresses;
    every index the code uses is a constant below 14 or \<open>cmos_index\<close>, which stays below 128 (part of
    the invariant). A \<open>QEMUTimer\<close> is the time at which it is armed to fire, \<^const>\<open>None\<close> when it is not
    armed; \<open>qemu_mod_timer\<close> arms it, \<open>qemu_del_timer\<close> disarms it, and the timer is disarmed before its
    callback runs (\<open>qemu_run_timers\<close>). \<open>irq\<close> is the sequence of levels written to the interrupt line,
    newest first; \<open>sqw_irq\<close> likewise, \<^const>\<open>None\<close> when nothing is connected to it.
    \<open>rtc_changes\<close> is the sequence of monitor events sent by \<open>rtc_change_mon_event\<close>.
  \<^item> What the code asks of its surroundings is a record of type \<open>rtc_env\<close>: the clock
    \<open>qemu_get_clock (rtc_clock)\<close>, the option \<open>rtc_td_hack\<close>, the answer of \<open>apic_get_irq_delivered\<close>
    and the host's date (\<open>qemu_get_timedate\<close>). \<open>get_ticks_per_sec\<close> is the constant of \<open>qemu-timer.h\<close>.
  \<^item> The fields of \<open>struct tm\<close> and the times are integers; the machine's \<open>int64_t\<close> intermediate
    results of \<open>muldiv64\<close> are kept at their width.
\<close>

unbundle bit_operations_syntax

section \<open>State\<close>

abbreviation (input) RTC_SECONDS :: nat where "RTC_SECONDS \<equiv> 0"
abbreviation (input) RTC_SECONDS_ALARM :: nat where "RTC_SECONDS_ALARM \<equiv> 1"
abbreviation (input) RTC_MINUTES :: nat where "RTC_MINUTES \<equiv> 2"
abbreviation (input) RTC_MINUTES_ALARM :: nat where "RTC_MINUTES_ALARM \<equiv> 3"
abbreviation (input) RTC_HOURS :: nat where "RTC_HOURS \<equiv> 4"
abbreviation (input) RTC_HOURS_ALARM :: nat where "RTC_HOURS_ALARM \<equiv> 5"
abbreviation (input) RTC_DAY_OF_WEEK :: nat where "RTC_DAY_OF_WEEK \<equiv> 6"
abbreviation (input) RTC_DAY_OF_MONTH :: nat where "RTC_DAY_OF_MONTH \<equiv> 7"
abbreviation (input) RTC_MONTH :: nat where "RTC_MONTH \<equiv> 8"
abbreviation (input) RTC_YEAR :: nat where "RTC_YEAR \<equiv> 9"
abbreviation (input) RTC_REG_A :: nat where "RTC_REG_A \<equiv> 10"
abbreviation (input) RTC_REG_B :: nat where "RTC_REG_B \<equiv> 11"
abbreviation (input) RTC_REG_C :: nat where "RTC_REG_C \<equiv> 12"
abbreviation (input) RTC_REG_D :: nat where "RTC_REG_D \<equiv> 13"

abbreviation (input) REG_A_UIP :: "'a::len word" where "REG_A_UIP \<equiv> 0x80"
abbreviation (input) REG_B_SET :: "'a::len word" where "REG_B_SET \<equiv> 0x80"
abbreviation (input) REG_B_PIE :: "'a::len word" where "REG_B_PIE \<equiv> 0x40"
abbreviation (input) REG_B_AIE :: "'a::len word" where "REG_B_AIE \<equiv> 0x20"
abbreviation (input) REG_B_UIE :: "'a::len word" where "REG_B_UIE \<equiv> 0x10"
abbreviation (input) REG_B_SQWE :: "'a::len word" where "REG_B_SQWE \<equiv> 0x08"
abbreviation (input) REG_B_DM :: "'a::len word" where "REG_B_DM \<equiv> 0x04"
abbreviation (input) REG_B_24H :: "'a::len word" where "REG_B_24H \<equiv> 0x02"
abbreviation (input) REG_C_UF :: "'a::len word" where "REG_C_UF \<equiv> 0x10"
abbreviation (input) REG_C_IRQF :: "'a::len word" where "REG_C_IRQF \<equiv> 0x80"
abbreviation (input) RTC_REINJECT_ON_ACK_COUNT :: u16 where "RTC_REINJECT_ON_ACK_COUNT \<equiv> 20"

record RTCState =
  cmos_data :: "nat \<Rightarrow> u8"
  cmos_index :: u8
  current_tm :: tm
  base_year :: int
  irq :: "bool list"
  sqw_irq :: "bool list option"
  periodic_timer :: "int option"
  next_periodic_time :: int
  next_second_time :: int
  irq_reinject_on_ack_count :: u16
  irq_coalesced :: u32
  period :: u32
  coalesced_timer :: "int option"
  second_timer :: "int option"
  second_timer2 :: "int option"
  rtc_changes :: "tm list"

record rtc_env =
  rtc_clock :: int
  rtc_td_hack :: bool
  irq_delivered :: bool
  host_date :: tm

abbreviation (input) ticks_per_sec :: int where "ticks_per_sec \<equiv> 1000000000"

abbreviation set_cmos :: "nat \<Rightarrow> u8 \<Rightarrow> RTCState \<Rightarrow> RTCState" where
  "set_cmos i v s \<equiv> s\<lparr>cmos_data := (cmos_data s)(i := v)\<rparr>"

abbreviation raise_irq :: "RTCState \<Rightarrow> RTCState" where
  "raise_irq s \<equiv> s\<lparr>irq := True # irq s\<rparr>"

abbreviation lower_irq :: "RTCState \<Rightarrow> RTCState" where
  "lower_irq s \<equiv> s\<lparr>irq := False # irq s\<rparr>"

section \<open>Dates\<close>

definition rtc_to_bcd :: "RTCState \<Rightarrow> int \<Rightarrow> int" where
  "rtc_to_bcd s a =
    (if cmos_data s RTC_REG_B AND REG_B_DM \<noteq> 0 then a else push_bit 4 (a sdiv 10) OR (a smod 10))"

definition rtc_from_bcd :: "RTCState \<Rightarrow> int \<Rightarrow> int" where
  "rtc_from_bcd s a =
    (if cmos_data s RTC_REG_B AND REG_B_DM \<noteq> 0 then a else drop_bit 4 a * 10 + (a AND 0x0f))"

definition rtc_set_time :: "RTCState \<Rightarrow> RTCState" where
  "rtc_set_time s =
    (let from = (\<lambda>b :: u8. rtc_from_bcd s (uint b));
         hour = from (cmos_data s RTC_HOURS AND 0x7f);
         hour = (if cmos_data s RTC_REG_B AND REG_B_24H = 0 \<and> cmos_data s RTC_HOURS AND 0x80 \<noteq> 0
                 then hour + 12 else hour);
         tm = \<lparr>tm_sec = from (cmos_data s RTC_SECONDS), tm_min = from (cmos_data s RTC_MINUTES),
               tm_hour = hour, tm_mday = from (cmos_data s RTC_DAY_OF_MONTH),
               tm_mon = from (cmos_data s RTC_MONTH) - 1,
               tm_year = from (cmos_data s RTC_YEAR) + base_year s - 1900,
               tm_wday = from (cmos_data s RTC_DAY_OF_WEEK) - 1\<rparr>
     in s\<lparr>current_tm := tm, rtc_changes := tm # rtc_changes s\<rparr>)"

definition rtc_copy_date :: "RTCState \<Rightarrow> RTCState" where
  "rtc_copy_date s =
    (let tm = current_tm s; bcd = (\<lambda>a. word_of_int (rtc_to_bcd s a) :: u8);
         h = (if cmos_data s RTC_REG_B AND REG_B_24H \<noteq> 0 then bcd (tm_hour tm)
              else (let h = bcd (tm_hour tm smod 12)
                    in if tm_hour tm \<ge> 12 then h OR 0x80 else h));
         year = (tm_year tm - base_year s) smod 100;
         year = (if year < 0 then year + 100 else year)
     in s\<lparr>cmos_data := (cmos_data s)
           (RTC_SECONDS := bcd (tm_sec tm), RTC_MINUTES := bcd (tm_min tm), RTC_HOURS := h,
            RTC_DAY_OF_WEEK := bcd (tm_wday tm + 1), RTC_DAY_OF_MONTH := bcd (tm_mday tm),
            RTC_MONTH := bcd (tm_mon tm + 1), RTC_YEAR := bcd year)\<rparr>)"

definition get_days_in_month :: "int \<Rightarrow> int \<Rightarrow> int" where
  "get_days_in_month month year =
    (if c_unsigned month \<ge> 12 then 31
     else
       (let d = [31, 28, 31, 30, 31, 30, 31, 31, 30, 31, 30, 31] ! nat month
        in if month = 1 \<and> year smod 4 = 0 \<and> (year smod 100 \<noteq> 0 \<or> year smod 400 = 0)
           then d + 1 else d))"

definition rtc_next_day :: "tm \<Rightarrow> tm" where
  "rtc_next_day tm =
    (let tm = tm\<lparr>tm_wday := tm_wday tm + 1\<rparr>;
         tm = (if c_unsigned (tm_wday tm) \<ge> 7 then tm\<lparr>tm_wday := 0\<rparr> else tm);
         days_in_month = get_days_in_month (tm_mon tm) (tm_year tm + 1900);
         tm = tm\<lparr>tm_mday := tm_mday tm + 1\<rparr>
     in if tm_mday tm < 1 then tm\<lparr>tm_mday := 1\<rparr>
        else if tm_mday tm > days_in_month
        then
          (let tm = tm\<lparr>tm_mday := 1, tm_mon := tm_mon tm + 1\<rparr>
           in if tm_mon tm \<ge> 12 then tm\<lparr>tm_mon := 0, tm_year := tm_year tm + 1\<rparr> else tm)
        else tm)"

definition rtc_next_second :: "tm \<Rightarrow> tm" where
  "rtc_next_second tm =
    (let tm = tm\<lparr>tm_sec := tm_sec tm + 1\<rparr> in
     if c_unsigned (tm_sec tm) \<ge> 60
     then
       (let tm = tm\<lparr>tm_sec := 0, tm_min := tm_min tm + 1\<rparr> in
        if c_unsigned (tm_min tm) \<ge> 60
        then
          (let tm = tm\<lparr>tm_min := 0, tm_hour := tm_hour tm + 1\<rparr> in
           if c_unsigned (tm_hour tm) \<ge> 24 then rtc_next_day (tm\<lparr>tm_hour := 0\<rparr>) else tm)
        else tm)
     else tm)"

section \<open>Timers\<close>

definition rtc_coalesced_timer_update :: "rtc_env \<Rightarrow> RTCState \<Rightarrow> RTCState" where
  "rtc_coalesced_timer_update env s =
    (if irq_coalesced s = 0 then s\<lparr>coalesced_timer := None\<rparr>
     else
       (let c = min (irq_coalesced s) 7 + 1;
            next_clock = rtc_clock env + sint (muldiv64 (ucast (period s div c)) 1000000000 32768)
        in s\<lparr>coalesced_timer := Some next_clock\<rparr>))"

definition rtc_coalesced_timer :: "rtc_env \<Rightarrow> RTCState \<Rightarrow> RTCState" where
  "rtc_coalesced_timer env s =
    (let s = (if irq_coalesced s \<noteq> 0
              then
                (let s = raise_irq (set_cmos RTC_REG_C (cmos_data s RTC_REG_C OR 0xc0) s)
                 in if irq_delivered env then s\<lparr>irq_coalesced := irq_coalesced s - 1\<rparr> else s)
              else s)
     in rtc_coalesced_timer_update env s)"

definition rtc_timer_update :: "RTCState \<Rightarrow> int \<Rightarrow> RTCState" where
  "rtc_timer_update s current_time =
    (let period_code = unat (cmos_data s RTC_REG_A AND 0x0f) in
     if period_code \<noteq> 0 \<and>
        (cmos_data s RTC_REG_B AND REG_B_PIE \<noteq> 0 \<or>
         cmos_data s RTC_REG_B AND REG_B_SQWE \<noteq> 0 \<and> sqw_irq s \<noteq> None)
     then
       (let period_code = (if period_code \<le> 2 then period_code + 7 else period_code);
            p = push_bit (period_code - 1) 1 :: u32;
            s = (if p \<noteq> period s then s\<lparr>irq_coalesced := irq_coalesced s * period s div p\<rparr> else s);
            s = s\<lparr>period := p\<rparr>;
            cur_clock = sint (muldiv64 (word_of_int current_time) 32768 1000000000);
            next_irq_clock = (cur_clock AND NOT (uint p - 1)) + uint p;
            t = sint (muldiv64 (word_of_int next_irq_clock) 1000000000 32768 + 1)
        in s\<lparr>next_periodic_time := t, periodic_timer := Some t\<rparr>)
     else s\<lparr>irq_coalesced := 0, periodic_timer := None\<rparr>)"

definition rtc_periodic_timer :: "rtc_env \<Rightarrow> RTCState \<Rightarrow> RTCState" where
  "rtc_periodic_timer env s =
    (let s = rtc_timer_update s (next_periodic_time s);
         s = (if cmos_data s RTC_REG_B AND REG_B_PIE \<noteq> 0
              then
                (let s = set_cmos RTC_REG_C (cmos_data s RTC_REG_C OR 0xc0) s in
                 if rtc_td_hack env
                 then
                   (let s = (if irq_reinject_on_ack_count s \<ge> RTC_REINJECT_ON_ACK_COUNT
                             then s\<lparr>irq_reinject_on_ack_count := 0\<rparr> else s);
                        s = raise_irq s
                    in if \<not> irq_delivered env
                       then rtc_coalesced_timer_update env (s\<lparr>irq_coalesced := irq_coalesced s + 1\<rparr>)
                       else s)
                 else raise_irq s)
              else s)
     in if cmos_data s RTC_REG_B AND REG_B_SQWE \<noteq> 0
        then s\<lparr>sqw_irq := map_option ((#) True) (sqw_irq s)\<rparr> else s)"

definition rtc_update_second :: "RTCState \<Rightarrow> RTCState" where
  "rtc_update_second s =
    (if cmos_data s RTC_REG_A AND 0x70 \<noteq> 0x20
     then
       (let t = next_second_time s + ticks_per_sec
        in s\<lparr>next_second_time := t, second_timer := Some t\<rparr>)
     else
       (let s = s\<lparr>current_tm := rtc_next_second (current_tm s)\<rparr>;
            s = (if cmos_data s RTC_REG_B AND REG_B_SET = 0
                 then set_cmos RTC_REG_A (cmos_data s RTC_REG_A OR REG_A_UIP) s else s);
            delay = ticks_per_sec sdiv 100;
            delay = (if delay < 1 then 1 else delay)
        in s\<lparr>second_timer2 := Some (next_second_time s + delay)\<rparr>))"

definition rtc_alarm_matches :: "RTCState \<Rightarrow> bool" where
  "rtc_alarm_matches s \<longleftrightarrow>
    (cmos_data s RTC_SECONDS_ALARM AND 0xc0 = 0xc0 \<or>
     rtc_from_bcd s (uint (cmos_data s RTC_SECONDS_ALARM)) = tm_sec (current_tm s)) \<and>
    (cmos_data s RTC_MINUTES_ALARM AND 0xc0 = 0xc0 \<or>
     rtc_from_bcd s (uint (cmos_data s RTC_MINUTES_ALARM)) = tm_min (current_tm s)) \<and>
    (cmos_data s RTC_HOURS_ALARM AND 0xc0 = 0xc0 \<or>
     rtc_from_bcd s (uint (cmos_data s RTC_HOURS_ALARM)) = tm_hour (current_tm s))"

definition rtc_update_second2 :: "RTCState \<Rightarrow> RTCState" where
  "rtc_update_second2 s =
    (let s = (if cmos_data s RTC_REG_B AND REG_B_SET = 0 then rtc_copy_date s else s);
         s = (if cmos_data s RTC_REG_B AND REG_B_AIE \<noteq> 0 \<and> rtc_alarm_matches s
              then raise_irq (set_cmos RTC_REG_C (cmos_data s RTC_REG_C OR 0xa0) s) else s);
         s = set_cmos RTC_REG_C (cmos_data s RTC_REG_C OR REG_C_UF) s;
         s = (if cmos_data s RTC_REG_B AND REG_B_UIE \<noteq> 0
              then raise_irq (set_cmos RTC_REG_C (cmos_data s RTC_REG_C OR REG_C_IRQF) s) else s);
         s = set_cmos RTC_REG_A (cmos_data s RTC_REG_A AND NOT REG_A_UIP) s;
         t = next_second_time s + ticks_per_sec
     in s\<lparr>next_second_time := t, second_timer := Some t\<rparr>)"

section \<open>Ports\<close>

definition cmos_write_reg_b :: "rtc_env \<Rightarrow> u32 \<Rightarrow> RTCState \<Rightarrow> RTCState" where
  "cmos_write_reg_b env data s =
    (let (s, data) =
       (if data AND REG_B_SET \<noteq> 0
        then (set_cmos RTC_REG_A (cmos_data s RTC_REG_A AND NOT REG_A_UIP) s, data AND NOT REG_B_UIE)
        else (if cmos_data s RTC_REG_B AND REG_B_SET \<noteq> 0 then rtc_set_time s else s, data));
         changed = ((ucast (cmos_data s RTC_REG_B) XOR data) AND (REG_B_DM OR REG_B_24H) \<noteq> 0 \<and>
                    data AND REG_B_SET = 0);
         s = set_cmos RTC_REG_B (ucast data) s;
         s = (if changed then rtc_copy_date s else s)
     in rtc_timer_update s (rtc_clock env))"

definition cmos_ioport_write :: "rtc_env \<Rightarrow> u32 \<Rightarrow> u32 \<Rightarrow> RTCState \<Rightarrow> RTCState" where
  "cmos_ioport_write env addr data s =
    (if addr AND 1 = 0 then s\<lparr>cmos_index := ucast (data AND 0x7f)\<rparr>
     else
       (let i = unat (cmos_index s) in
        if i = RTC_SECONDS_ALARM \<or> i = RTC_MINUTES_ALARM \<or> i = RTC_HOURS_ALARM
        then set_cmos i (ucast data) s
        else if i = RTC_SECONDS \<or> i = RTC_MINUTES \<or> i = RTC_HOURS \<or> i = RTC_DAY_OF_WEEK \<or>
                i = RTC_DAY_OF_MONTH \<or> i = RTC_MONTH \<or> i = RTC_YEAR
        then
          (let s = set_cmos i (ucast data) s
           in if cmos_data s RTC_REG_B AND REG_B_SET = 0 then rtc_set_time s else s)
        else if i = RTC_REG_A
        then rtc_timer_update (set_cmos RTC_REG_A
               ((ucast data AND NOT REG_A_UIP) OR (cmos_data s RTC_REG_A AND REG_A_UIP)) s)
               (rtc_clock env)
        else if i = RTC_REG_B then cmos_write_reg_b env data s
        else if i = RTC_REG_C \<or> i = RTC_REG_D then s
        else set_cmos i (ucast data) s))"

definition cmos_ioport_read :: "rtc_env \<Rightarrow> u32 \<Rightarrow> RTCState \<Rightarrow> RTCState \<times> u8" where
  "cmos_ioport_read env addr s =
    (if addr AND 1 = 0 then (s, 0xff)
     else
       (let ret = cmos_data s (unat (cmos_index s)) in
        if unat (cmos_index s) = RTC_REG_C
        then
          (let s = lower_irq s in
           if irq_coalesced s \<noteq> 0 \<and> irq_reinject_on_ack_count s < RTC_REINJECT_ON_ACK_COUNT
           then
             (let s = s\<lparr>irq_reinject_on_ack_count := irq_reinject_on_ack_count s + 1\<rparr>;
                  s = raise_irq s;
                  s = (if irq_delivered env then s\<lparr>irq_coalesced := irq_coalesced s - 1\<rparr> else s)
              in (s, ret))
           else (set_cmos RTC_REG_C 0 s, ret))
        else (s, ret)))"

definition rtc_set_memory :: "int \<Rightarrow> int \<Rightarrow> RTCState \<Rightarrow> RTCState" where
  "rtc_set_memory addr v s =
    (if 0 \<le> addr \<and> addr \<le> 127 then set_cmos (nat addr) (word_of_int v) s else s)"

definition rtc_set_date :: "tm \<Rightarrow> RTCState \<Rightarrow> RTCState" where
  "rtc_set_date tm s = rtc_copy_date (s\<lparr>current_tm := tm\<rparr>)"

definition rtc_set_date_from_host :: "rtc_env \<Rightarrow> RTCState \<Rightarrow> RTCState" where
  "rtc_set_date_from_host env s =
    (let s = rtc_set_date (host_date env) s;
         v = rtc_to_bcd s ((tm_year (host_date env) sdiv 100) + 19)
     in rtc_set_memory 0x37 v (rtc_set_memory 0x32 v s))"

definition rtc_post_load :: "rtc_env \<Rightarrow> int \<Rightarrow> RTCState \<Rightarrow> RTCState" where
  "rtc_post_load env version_id s =
    (if version_id \<ge> 2 \<and> rtc_td_hack env then rtc_coalesced_timer_update env s else s)"

definition rtc_reset :: "rtc_env \<Rightarrow> RTCState \<Rightarrow> RTCState" where
  "rtc_reset env s =
    (let s = set_cmos RTC_REG_B (cmos_data s RTC_REG_B AND NOT (REG_B_PIE OR REG_B_AIE OR REG_B_SQWE)) s;
         s = set_cmos RTC_REG_C (cmos_data s RTC_REG_C AND NOT (0x10 OR 0x80 OR 0x40 OR 0x20)) s;
         s = lower_irq s
     in if rtc_td_hack env then s\<lparr>irq_coalesced := 0\<rparr> else s)"

text \<open>\<open>rtc_initfn\<close> on the zeroed memory of a new device.\<close>

definition rtc_zero :: "int \<Rightarrow> bool list option \<Rightarrow> RTCState" where
  "rtc_zero year sqw =
    \<lparr>cmos_data = (\<lambda>_. 0), cmos_index = 0,
     current_tm = \<lparr>tm_sec = 0, tm_min = 0, tm_hour = 0, tm_mday = 0, tm_mon = 0, tm_year = 0, tm_wday = 0\<rparr>,
     base_year = year, irq = [], sqw_irq = sqw, periodic_timer = None, next_periodic_time = 0,
     next_second_time = 0, irq_reinject_on_ack_count = 0, irq_coalesced = 0, period = 0,
     coalesced_timer = None, second_timer = None, second_timer2 = None, rtc_changes = []\<rparr>"

definition rtc_initfn :: "rtc_env \<Rightarrow> RTCState \<Rightarrow> RTCState" where
  "rtc_initfn env s =
    (let s = s\<lparr>cmos_data := (cmos_data s)
           (RTC_REG_A := 0x26, RTC_REG_B := 0x02, RTC_REG_C := 0x00, RTC_REG_D := 0x80)\<rparr>;
         s = rtc_set_date_from_host env s;
         t = rtc_clock env + (ticks_per_sec * 99) sdiv 100
     in s\<lparr>next_second_time := t, second_timer2 := Some t\<rparr>)"

section \<open>The calendar\<close>

text \<open>Seconds since 1 January 1970 of a date, and the day of the week it falls on (that day was a
  Thursday, day 4).\<close>

definition epoch :: "tm \<Rightarrow> int" where
  "epoch t = 86400 * civil_days (tm_year t + 1900) (tm_mon t) (tm_mday t)
    + 3600 * tm_hour t + 60 * tm_min t + tm_sec t"

definition weekday_ok :: "tm \<Rightarrow> bool" where
  "weekday_ok t \<longleftrightarrow> tm_wday t = (civil_days (tm_year t + 1900) (tm_mon t) (tm_mday t) + 4) mod 7"

lemma get_days_in_month_eq:
  assumes "0 \<le> m" "m < 12" "0 \<le> y"
  shows "get_days_in_month m y = month_days y m"
proof -
  have "m \<in> {0, 1, 2, 3, 4, 5, 6, 7, 8, 9, 10, 11}" using assms by simp arith
  then show ?thesis
    using assms(3) by (elim insertE emptyE)
      (simp_all add: get_days_in_month_def month_days_def leap_def smod_nonneg Let_def)
qed

lemma month_days_bounds: "28 \<le> month_days y m" "month_days y m \<le> 31"
  by (simp_all add: month_days_def)

lemma civil_next_month:
  assumes "1970 \<le> y" "0 \<le> m" "m < 11"
  shows "civil_days y (m + 1) 1 = civil_days y m (month_days y m) + 1"
  using assms day_number_month_step [of m y] day_number_day [of y m "month_days y m"]
  by (simp flip: day_number_civil)

lemma civil_next_year:
  assumes "1970 \<le> y"
  shows "civil_days (y + 1) 0 1 = civil_days y 11 31 + 1"
  using assms leap_count_step [of y]
  by (simp flip: day_number_civil add: day_number_def)

lemma civil_next_day: "civil_days y m (d + 1) = civil_days y m d + 1"
  by (simp add: civil_days_def)

lemma next_weekday:
  assumes "w = (c + 4) mod 7"
  shows "(if 7 \<le> c_unsigned (w + 1) then 0 else w + 1) = (c + 1 + 4) mod 7"
proof -
  have "0 \<le> w" "w < 7" using assms by simp_all
  moreover from this have "c_unsigned (w + 1) = w + 1" by simp
  ultimately show ?thesis using assms by (auto simp: mod_add_eq) presburger+
qed

lemma rtc_next_day_eq:
  assumes "valid_tm t" "1970 \<le> tm_year t + 1900" "weekday_ok t"
  defines "w \<equiv> (civil_days (tm_year t + 1900) (tm_mon t) (tm_mday t) + 1 + 4) mod 7"
  shows "rtc_next_day t =
    (if tm_mday t < month_days (tm_year t + 1900) (tm_mon t)
     then t\<lparr>tm_wday := w, tm_mday := tm_mday t + 1\<rparr>
     else if tm_mon t < 11 then t\<lparr>tm_wday := w, tm_mday := 1, tm_mon := tm_mon t + 1\<rparr>
     else t\<lparr>tm_wday := w, tm_mday := 1, tm_mon := 0, tm_year := tm_year t + 1\<rparr>)"
proof -
  have v: "0 \<le> tm_mon t" "tm_mon t < 12" "1 \<le> tm_mday t"
    using assms(1) by (simp_all add: valid_tm_def)
  have w: "(if 7 \<le> c_unsigned (tm_wday t + 1) then 0 else tm_wday t + 1) = w"
    unfolding w_def by (rule next_weekday) (use assms(3) in \<open>simp add: weekday_ok_def\<close>)
  show ?thesis
    unfolding w [symmetric] using v assms(2)
    by (cases "7 \<le> c_unsigned (tm_wday t + 1)") (simp_all add: rtc_next_day_def Let_def get_days_in_month_eq)
qed

lemma last_of_year: "month_days y 11 = 31"
  by (simp add: month_days_def)

lemma rtc_next_day_spec:
  assumes "valid_tm t" "1970 \<le> tm_year t + 1900" "weekday_ok t"
  defines "n \<equiv> rtc_next_day t"
  shows "valid_tm n \<and> 1970 \<le> tm_year n + 1900 \<and>
    civil_days (tm_year n + 1900) (tm_mon n) (tm_mday n) =
      civil_days (tm_year t + 1900) (tm_mon t) (tm_mday t) + 1 \<and>
    tm_wday n = (civil_days (tm_year t + 1900) (tm_mon t) (tm_mday t) + 1 + 4) mod 7 \<and>
    tm_hour n = tm_hour t \<and> tm_min n = tm_min t \<and> tm_sec n = tm_sec t"
proof -
  let ?y = "tm_year t + 1900"
  have v: "0 \<le> tm_mon t" "tm_mon t < 12" "1 \<le> tm_mday t" "tm_mday t \<le> month_days ?y (tm_mon t)"
    using assms(1) by (simp_all add: valid_tm_def)
  note eq = rtc_next_day_eq [OF assms(1-3), folded n_def]
  show ?thesis
  proof (cases "tm_mday t < month_days ?y (tm_mon t)")
    case True
    with eq assms(1,2) v show ?thesis by (simp add: valid_tm_def civil_next_day)
  next
    case False
    then have last: "tm_mday t = month_days ?y (tm_mon t)" using v by simp
    show ?thesis
    proof (cases "tm_mon t < 11")
      case True
      then have "civil_days ?y (tm_mon t + 1) 1 = civil_days ?y (tm_mon t) (tm_mday t) + 1"
        using assms(2) v last by (simp add: civil_next_month)
      with eq False True assms(1,2) v month_days_bounds(1) [of ?y "tm_mon t + 1"] show ?thesis
        by (simp add: valid_tm_def)
    next
      case False
      with v have m: "tm_mon t = 11" by simp
      then have "civil_days (?y + 1) 0 1 = civil_days ?y (tm_mon t) (tm_mday t) + 1"
        using assms(2) last by (simp only: civil_next_year last_of_year)
      then have "civil_days (tm_year t + 1 + 1900) 0 1 = civil_days ?y (tm_mon t) (tm_mday t) + 1"
        by (simp add: add.commute add.left_commute)
      with eq m last assms(1,2) month_days_bounds(1) [of "tm_year t + 1 + 1900" 0] show ?thesis
        by (simp add: valid_tm_def)
    qed
  qed
qed

lemma rtc_next_second_spec:
  assumes "valid_tm t" "1970 \<le> tm_year t + 1900" "weekday_ok t"
  defines "n \<equiv> rtc_next_second t"
  shows "valid_tm n \<and> weekday_ok n \<and> 1970 \<le> tm_year n + 1900 \<and> epoch n = epoch t + 1"
proof -
  have v: "0 \<le> tm_sec t" "tm_sec t < 60" "0 \<le> tm_min t" "tm_min t < 60" "0 \<le> tm_hour t" "tm_hour t < 24"
    using assms(1) by (simp_all add: valid_tm_def)
  then have c: "c_unsigned (tm_sec t + 1) = tm_sec t + 1" "c_unsigned (tm_min t + 1) = tm_min t + 1"
    "c_unsigned (tm_hour t + 1) = tm_hour t + 1" by simp_all
  let ?m = "t\<lparr>tm_sec := 0, tm_min := 0, tm_hour := 0\<rparr>"
  have "valid_tm ?m" "weekday_ok ?m" "1970 \<le> tm_year ?m + 1900"
    using assms(1-3) by (simp_all add: valid_tm_def weekday_ok_def)
  note day = rtc_next_day_spec [OF this(1,3,2)]
  show ?thesis
  proof (cases "tm_sec t + 1 = 60 \<and> tm_min t + 1 = 60 \<and> tm_hour t + 1 = 24")
    case True
    then have "n = rtc_next_day ?m" by (simp add: n_def rtc_next_second_def c Let_def)
    with day True show ?thesis by (simp add: epoch_def weekday_ok_def)
  next
    case False
    then show ?thesis
      using assms(1-3) v c
      by (auto simp: n_def rtc_next_second_def Let_def valid_tm_def weekday_ok_def epoch_def)
  qed
qed

section \<open>Registers and dates\<close>

definition bcd_digits :: "int \<Rightarrow> int" where
  "bcd_digits a = push_bit 4 (a sdiv 10) OR (a smod 10)"

lemma int_interval_cases:
  assumes "list_all P [0..k]" "0 \<le> a" "a \<le> k"
  shows "P (a :: int)"
  using assms by (auto simp: list_all_iff)

lemma bcd_table:
  "list_all (\<lambda>a. let b = uint (word_of_int (bcd_digits a) :: u8) in drop_bit 4 b * 10 + (b AND 0x0f) = a) [0..99]"
  "list_all (\<lambda>a. let b = word_of_int (bcd_digits a) :: u8 in (b OR 0x80) AND 0x7f = b \<and> b AND 0x7f = b \<and>
      b AND 0x80 = 0 \<and> (b OR 0x80) AND 0x80 \<noteq> 0) [0..23]"
  "list_all (\<lambda>a. let b = word_of_int a :: u8 in (b OR 0x80) AND 0x7f = b \<and> b AND 0x7f = b \<and>
      b AND 0x80 = 0 \<and> (b OR 0x80) AND 0x80 \<noteq> 0) [0..23]"
  by code_simp+

lemma bcd_roundtrip:
  assumes "0 \<le> a" "a < 100"
  shows "rtc_from_bcd s (uint (word_of_int (rtc_to_bcd s a) :: u8)) = a"
  using int_interval_cases [OF bcd_table(1), of a] assms
  by (auto simp: rtc_from_bcd_def rtc_to_bcd_def Let_def uint_word_of_int_eq take_bit_int_eq_self simp flip: bcd_digits_def)

lemma bcd_hour:
  fixes s :: RTCState
  assumes "0 \<le> a" "a < 24"
  defines "b \<equiv> word_of_int (rtc_to_bcd s a) :: u8"
  shows "(b OR 0x80) AND 0x7f = b" "b AND 0x7f = b" "b AND 0x80 = 0" "(b OR 0x80) AND 0x80 \<noteq> 0"
  using int_interval_cases [OF bcd_table(2), of a] int_interval_cases [OF bcd_table(3), of a] assms(1,2)
  by (auto simp: b_def rtc_to_bcd_def Let_def simp flip: bcd_digits_def)

lemma rtc_copy_date_frame [simp]:
  "current_tm (rtc_copy_date s) = current_tm s" "base_year (rtc_copy_date s) = base_year s"
  "10 \<le> i \<Longrightarrow> cmos_data (rtc_copy_date s) i = cmos_data s i"
  "irq (rtc_copy_date s) = irq s" "irq_coalesced (rtc_copy_date s) = irq_coalesced s"
  "irq_reinject_on_ack_count (rtc_copy_date s) = irq_reinject_on_ack_count s"
  "second_timer (rtc_copy_date s) = second_timer s" "second_timer2 (rtc_copy_date s) = second_timer2 s"
  "cmos_index (rtc_copy_date s) = cmos_index s" "next_second_time (rtc_copy_date s) = next_second_time s"
  by (simp_all add: rtc_copy_date_def Let_def)

lemma rtc_bcd_cong:
  "cmos_data s 11 = cmos_data t 11 \<Longrightarrow> rtc_from_bcd s = rtc_from_bcd t"
  "cmos_data s 11 = cmos_data t 11 \<Longrightarrow> rtc_to_bcd s = rtc_to_bcd t"
  by (simp_all add: rtc_from_bcd_def rtc_to_bcd_def fun_eq_iff)

lemma year_digits:
  assumes "b \<le> y + 1900" "y + 1900 < b + 100"
  shows "(let r = (y - b) smod 100 in if r < 0 then r + 100 else r) = y + 1900 - (b :: int)"
proof -
  define d where "d = y + 1900 - b"
  then have d: "0 \<le> d" "d < 100" "y - b = d - 1900" using assms by simp_all
  have "(y - b) smod 100 = - ((1900 - d) mod 100)"
    using d by (simp add: signed_modulo_int_def sgn_if)
  moreover have "(1900 - d) mod 100 = (if d = 0 then 0 else 100 - d)"
    using d mod_mult_self2 [of "100 - d" 100 18] by (simp add: zmod_zminus1_eq_if)
  ultimately show ?thesis using d by (simp add: Let_def)
qed

lemma hour_afternoon: "12 \<le> h \<Longrightarrow> h < 24 \<Longrightarrow> h mod 12 = h - (12 :: int)"
  using mod_pos_pos_trivial [of "h - 12" 12] by simp

lemma rtc_copy_date_registers:
  defines "bcd \<equiv> \<lambda>s a. word_of_int (rtc_to_bcd s a) :: u8"
  shows "cmos_data (rtc_copy_date s) 0 = bcd s (tm_sec (current_tm s))"
    "cmos_data (rtc_copy_date s) 2 = bcd s (tm_min (current_tm s))"
    "cmos_data (rtc_copy_date s) 4 =
      (if cmos_data s RTC_REG_B AND REG_B_24H \<noteq> 0 then bcd s (tm_hour (current_tm s))
       else if tm_hour (current_tm s) \<ge> 12 then bcd s (tm_hour (current_tm s) smod 12) OR 0x80
       else bcd s (tm_hour (current_tm s) smod 12))"
    "cmos_data (rtc_copy_date s) 6 = bcd s (tm_wday (current_tm s) + 1)"
    "cmos_data (rtc_copy_date s) 7 = bcd s (tm_mday (current_tm s))"
    "cmos_data (rtc_copy_date s) 8 = bcd s (tm_mon (current_tm s) + 1)"
    "cmos_data (rtc_copy_date s) 9 =
      bcd s (let r = (tm_year (current_tm s) - base_year s) smod 100 in if r < 0 then r + 100 else r)"
  by (simp_all add: rtc_copy_date_def Let_def bcd_def)

lemma rtc_date_registers:
  assumes "valid_tm (current_tm s)" "0 \<le> tm_wday (current_tm s)" "tm_wday (current_tm s) < 7"
    and "base_year s \<le> tm_year (current_tm s) + 1900" "tm_year (current_tm s) + 1900 < base_year s + 100"
  shows "current_tm (rtc_set_time (rtc_copy_date s)) = current_tm s"
proof -
  let ?t = "current_tm s" and ?u = "rtc_copy_date s"
  have from_eq: "rtc_from_bcd ?u = rtc_from_bcd s" by (rule rtc_bcd_cong) simp
  have v: "0 \<le> tm_sec ?t" "tm_sec ?t < 60" "0 \<le> tm_min ?t" "tm_min ?t < 60" "0 \<le> tm_hour ?t" "tm_hour ?t < 24"
    "0 \<le> tm_mon ?t" "tm_mon ?t < 12" "1 \<le> tm_mday ?t" "tm_mday ?t < 32"
    using assms(1) month_days_bounds(2) [of "tm_year ?t + 1900" "tm_mon ?t"] by (auto simp: valid_tm_def)
  have h: "tm_hour ?t smod 12 = tm_hour ?t mod 12" "(tm_hour ?t mod 12) < 24" "0 \<le> tm_hour ?t mod 12"
    "tm_hour ?t \<ge> 12 \<Longrightarrow> tm_hour ?t mod 12 = tm_hour ?t - 12" "tm_hour ?t < 12 \<Longrightarrow> tm_hour ?t mod 12 = tm_hour ?t"
    using v by (auto simp: smod_nonneg hour_afternoon)
  show ?thesis
    using v assms h
    by (intro tm.equality)
      (simp_all add: rtc_set_time_def from_eq Let_def rtc_copy_date_registers
        year_digits [unfolded Let_def] bcd_roundtrip bcd_hour)
qed

section \<open>The clock as a device\<close>

text \<open>
  The ways into the component: its two ports, its four timers (each only when armed and due), the
  reset, the restart of a saved machine, and the board's stores to the memory bytes above the
  registers.
\<close>

datatype rtc_event =
  Rtc_write u32 u32
| Rtc_read u32
| Rtc_periodic
| Rtc_coalesced
| Rtc_second
| Rtc_second2
| Rtc_reset
| Rtc_post_load int
| Rtc_set_memory int int
| Rtc_set_date tm

definition due :: "rtc_env \<Rightarrow> int option \<Rightarrow> bool" where
  "due env timer \<longleftrightarrow> (case timer of None \<Rightarrow> False | Some t \<Rightarrow> t \<le> rtc_clock env)"

fun rtc_do :: "rtc_env \<Rightarrow> rtc_event \<Rightarrow> RTCState \<Rightarrow> RTCState option" where
  "rtc_do env (Rtc_write addr data) s = Some (cmos_ioport_write env addr data s)"
| "rtc_do env (Rtc_read addr) s = Some (fst (cmos_ioport_read env addr s))"
| "rtc_do env Rtc_periodic s =
    (if due env (periodic_timer s) then Some (rtc_periodic_timer env (s\<lparr>periodic_timer := None\<rparr>)) else None)"
| "rtc_do env Rtc_coalesced s =
    (if due env (coalesced_timer s) then Some (rtc_coalesced_timer env (s\<lparr>coalesced_timer := None\<rparr>)) else None)"
| "rtc_do env Rtc_second s =
    (if due env (second_timer s) then Some (rtc_update_second (s\<lparr>second_timer := None\<rparr>)) else None)"
| "rtc_do env Rtc_second2 s =
    (if due env (second_timer2 s) then Some (rtc_update_second2 (s\<lparr>second_timer2 := None\<rparr>)) else None)"
| "rtc_do env Rtc_reset s = Some (rtc_reset env s)"
| "rtc_do env (Rtc_post_load v) s = Some (rtc_post_load env v s)"
| "rtc_do env (Rtc_set_memory addr v) s = (if 14 \<le> addr then Some (rtc_set_memory addr v s) else None)"
| "rtc_do env (Rtc_set_date tm) s = Some (rtc_set_date tm s)"

definition rtc_step :: "bool \<Rightarrow> RTCState \<Rightarrow> RTCState \<Rightarrow> bool" where
  "rtc_step td s t \<longleftrightarrow> (\<exists>env e. rtc_td_hack env = td \<and> rtc_do env e s = Some t)"

definition rtc_start :: "RTCState \<Rightarrow> bool" where
  "rtc_start s \<longleftrightarrow> (\<exists>env year sqw. s = rtc_initfn env (rtc_zero year sqw))"

text \<open>
  The invariant: the index is in range; exactly one of the two timers that drive the second is
  armed; the update-in-progress bit is up only while the second one is; the interrupt line is up
  exactly when the interrupt flag of register C is; and while lost ticks wait to be injected again
  on acknowledgement, that flag is up. \<open>td\<close> is the option \<open>rtc_td_hack\<close>, without which no ticks wait.
\<close>

definition rtc_inv :: "bool \<Rightarrow> RTCState \<Rightarrow> bool" where
  "rtc_inv td s \<longleftrightarrow> unat (cmos_index s) < 128 \<and>
    (second_timer s = None) \<noteq> (second_timer2 s = None) \<and>
    (bit (cmos_data s RTC_REG_A) 7 \<longrightarrow> second_timer2 s \<noteq> None) \<and>
    line_level (irq s) = bit (cmos_data s RTC_REG_C) 7 \<and>
    (irq_coalesced s \<noteq> 0 \<and> irq_reinject_on_ack_count s < 20 \<longrightarrow> bit (cmos_data s RTC_REG_C) 7) \<and>
    (\<not> td \<longrightarrow> irq_coalesced s = 0)"

lemma u8_tests [simp]:
  "bit ((w :: u8) OR 0xc0) 7" "bit (w OR 0xa0) 7" "bit (w OR 0x80) 7"
  "bit (w OR 0x10) 7 = bit w 7" "\<not> bit (w AND - 129) 7" "\<not> bit (w AND - 241) 7"
  by (simp_all add: bit_or_iff bit_and_iff)

lemma rtc_set_time_frame [simp]:
  "cmos_data (rtc_set_time s) = cmos_data s" "cmos_index (rtc_set_time s) = cmos_index s"
  "irq (rtc_set_time s) = irq s" "irq_coalesced (rtc_set_time s) = irq_coalesced s"
  "irq_reinject_on_ack_count (rtc_set_time s) = irq_reinject_on_ack_count s"
  "second_timer (rtc_set_time s) = second_timer s" "second_timer2 (rtc_set_time s) = second_timer2 s"
  by (simp_all add: rtc_set_time_def Let_def)

lemma rtc_timer_update_frame [simp]:
  "cmos_data (rtc_timer_update s c) = cmos_data s" "cmos_index (rtc_timer_update s c) = cmos_index s"
  "irq (rtc_timer_update s c) = irq s"
  "irq_reinject_on_ack_count (rtc_timer_update s c) = irq_reinject_on_ack_count s"
  "second_timer (rtc_timer_update s c) = second_timer s"
  "second_timer2 (rtc_timer_update s c) = second_timer2 s"
  "current_tm (rtc_timer_update s c) = current_tm s"
  by (simp_all add: rtc_timer_update_def Let_def)

lemma rtc_timer_update_coalesced:
  "irq_coalesced s = 0 \<Longrightarrow> irq_coalesced (rtc_timer_update s c) = 0"
  by (simp add: rtc_timer_update_def Let_def)

lemma rtc_coalesced_timer_update_frame [simp]:
  "cmos_data (rtc_coalesced_timer_update env s) = cmos_data s"
  "cmos_index (rtc_coalesced_timer_update env s) = cmos_index s"
  "irq (rtc_coalesced_timer_update env s) = irq s"
  "irq_coalesced (rtc_coalesced_timer_update env s) = irq_coalesced s"
  "irq_reinject_on_ack_count (rtc_coalesced_timer_update env s) = irq_reinject_on_ack_count s"
  "second_timer (rtc_coalesced_timer_update env s) = second_timer s"
  "second_timer2 (rtc_coalesced_timer_update env s) = second_timer2 s"
  by (simp_all add: rtc_coalesced_timer_update_def Let_def)

lemma rtc_timer_update_inv: "rtc_inv td s \<Longrightarrow> rtc_inv td (rtc_timer_update s c)"
  using rtc_timer_update_coalesced [of s c] by (auto simp: rtc_inv_def)

lemma rtc_copy_date_inv: "rtc_inv td s \<Longrightarrow> rtc_inv td (rtc_copy_date s)"
  by (simp add: rtc_inv_def)

lemma rtc_set_time_inv: "rtc_inv td s \<Longrightarrow> rtc_inv td (rtc_set_time s)"
  by (simp add: rtc_inv_def)

lemma set_cmos_inv: "rtc_inv td s \<Longrightarrow> i \<noteq> 10 \<Longrightarrow> i \<noteq> 12 \<Longrightarrow> rtc_inv td (set_cmos i v s)"
  by (simp add: rtc_inv_def)

lemma reg_a_inv: "rtc_inv td s \<Longrightarrow> (bit v 7 \<longrightarrow> bit (cmos_data s 10) 7) \<Longrightarrow> rtc_inv td (set_cmos 10 v s)"
  by (simp add: rtc_inv_def)

lemma uip_kept: "bit (((w :: u8) AND NOT 0x80) OR (v AND 0x80)) 7 = bit v 7"
  by (simp add: bit_or_iff bit_and_iff)

lemma cmos_write_reg_b_inv: "rtc_inv td s \<Longrightarrow> rtc_inv td (cmos_write_reg_b env data s)"
  unfolding cmos_write_reg_b_def Let_def
  by (auto intro!: rtc_timer_update_inv rtc_copy_date_inv split: if_splits) (auto simp: rtc_inv_def)

lemma cmos_index_bound: "unat (ucast ((d :: u32) AND 0x7f) :: u8) < 128"
proof -
  have "unat (d AND mask 7) = unat d mod 2 ^ 7" by (rule unat_and_mask) simp
  then show ?thesis by (simp add: unat_ucast_mod mask_eq_exp_minus_1)
qed

lemma cmos_ioport_write_inv: "rtc_inv td s \<Longrightarrow> rtc_inv td (cmos_ioport_write env addr data s)"
proof -
  assume s: "rtc_inv td s"
  have "rtc_inv td (s\<lparr>cmos_index := ucast (data AND 0x7f)\<rparr>)"
    using s cmos_index_bound [of data] by (simp add: rtc_inv_def)
  with s uip_kept show ?thesis
    unfolding cmos_ioport_write_def Let_def
    by (auto intro!: rtc_timer_update_inv set_cmos_inv rtc_set_time_inv cmos_write_reg_b_inv reg_a_inv)
qed

lemma cmos_ioport_read_inv: "rtc_inv td s \<Longrightarrow> rtc_inv td (fst (cmos_ioport_read env addr s))"
  by (auto simp: cmos_ioport_read_def Let_def rtc_inv_def)

lemma rtc_coalesced_timer_inv: "rtc_inv td s \<Longrightarrow> rtc_inv td (rtc_coalesced_timer env (s\<lparr>coalesced_timer := None\<rparr>))"
  by (auto simp: rtc_coalesced_timer_def Let_def rtc_inv_def)

lemma rtc_periodic_timer_inv:
  "rtc_inv td s \<Longrightarrow> rtc_td_hack env = td \<Longrightarrow> rtc_inv td (rtc_periodic_timer env (s\<lparr>periodic_timer := None\<rparr>))"
proof -
  assume "rtc_inv td s" and td: "rtc_td_hack env = td"
  then have "rtc_inv td (s\<lparr>periodic_timer := None\<rparr>)" by (simp add: rtc_inv_def)
  then have "rtc_inv td (rtc_timer_update (s\<lparr>periodic_timer := None\<rparr>) (next_periodic_time s))"
    by (rule rtc_timer_update_inv)
  then show ?thesis using td by (auto simp: rtc_periodic_timer_def Let_def rtc_inv_def)
qed

lemma rtc_update_second_inv:
  "rtc_inv td s \<Longrightarrow> second_timer s \<noteq> None \<Longrightarrow> rtc_inv td (rtc_update_second (s\<lparr>second_timer := None\<rparr>))"
  by (auto simp: rtc_update_second_def Let_def rtc_inv_def)

lemma rtc_update_second2_inv:
  "rtc_inv td s \<Longrightarrow> second_timer2 s \<noteq> None \<Longrightarrow> rtc_inv td (rtc_update_second2 (s\<lparr>second_timer2 := None\<rparr>))"
  by (auto simp: rtc_update_second2_def Let_def rtc_inv_def)

lemma rtc_reset_inv: "rtc_inv td s \<Longrightarrow> rtc_td_hack env = td \<Longrightarrow> rtc_inv td (rtc_reset env s)"
  by (auto simp: rtc_reset_def Let_def rtc_inv_def)

lemma rtc_post_load_inv: "rtc_inv td s \<Longrightarrow> rtc_inv td (rtc_post_load env v s)"
  by (simp add: rtc_post_load_def rtc_inv_def)

lemma rtc_set_date_inv: "rtc_inv td s \<Longrightarrow> rtc_inv td (rtc_set_date tm s)"
  by (simp add: rtc_set_date_def rtc_inv_def)

lemma rtc_set_memory_inv: "rtc_inv td s \<Longrightarrow> 14 \<le> addr \<Longrightarrow> rtc_inv td (rtc_set_memory addr v s)"
  by (auto simp: rtc_set_memory_def rtc_inv_def)

lemma rtc_do_inv: "rtc_do env e s = Some t \<Longrightarrow> rtc_td_hack env = td \<Longrightarrow> rtc_inv td s \<Longrightarrow> rtc_inv td t"
  by (cases e) (auto split: if_splits option.splits simp: due_def rtc_set_memory_inv
      intro!: cmos_ioport_write_inv cmos_ioport_read_inv rtc_periodic_timer_inv rtc_coalesced_timer_inv
        rtc_update_second_inv rtc_update_second2_inv rtc_reset_inv rtc_post_load_inv rtc_set_date_inv)

lemma rtc_start_inv: "rtc_start s \<Longrightarrow> rtc_inv td s"
  by (auto simp: rtc_start_def rtc_initfn_def rtc_zero_def rtc_set_date_from_host_def rtc_set_date_def
      rtc_set_memory_def Let_def rtc_inv_def)

interpretation rtc: device rtc_start "rtc_step td" "rtc_inv td" for td
  by unfold_locales (auto simp: rtc_step_def rtc_start_inv intro: rtc_do_inv)

section \<open>The periodic timer\<close>

definition rtc_rate :: "RTCState \<Rightarrow> nat" where
  "rtc_rate s = (let c = unat (cmos_data s RTC_REG_A AND 0x0f) in 2 ^ (if c \<le> 2 then c + 6 else c - 1))"

definition periodic_on :: "RTCState \<Rightarrow> bool" where
  "periodic_on s \<longleftrightarrow> cmos_data s RTC_REG_A AND 0x0f \<noteq> 0 \<and>
    (cmos_data s RTC_REG_B AND REG_B_PIE \<noteq> 0 \<or>
     cmos_data s RTC_REG_B AND REG_B_SQWE \<noteq> 0 \<and> sqw_irq s \<noteq> None)"

lemma next_multiple:
  assumes "0 \<le> (c :: int)"
  shows "(c AND NOT (2 ^ k - 1)) + 2 ^ k = (c div 2 ^ k + 1) * 2 ^ k"
proof -
  have "c AND NOT (mask k) = push_bit k (drop_bit k c)"
    by (rule bit_eqI) (auto simp: bit_simps)
  then have "c AND NOT (2 ^ k - 1) = c div 2 ^ k * 2 ^ k"
    by (simp add: mask_eq_exp_minus_1 push_bit_eq_mult drop_bit_eq_div)
  then show ?thesis by (simp add: algebra_simps)
qed

lemma next_tick_bounds:
  assumes "0 \<le> t" "0 < p"
  defines "k \<equiv> (t * 32768 div 1000000000 div p + 1) * (p :: int)"
  shows "t \<le> k * 1000000000 div 32768" "k * 1000000000 div 32768 \<le> t + p * 1000000000 div 32768 + 1"
proof -
  define c where "c = t * 32768 div 1000000000"
  have c: "c * 1000000000 \<le> t * 32768" "t * 32768 < (c + 1) * 1000000000"
    using mult_div_mod_eq [of 1000000000 "t * 32768"] pos_mod_bound [of "1000000000 :: int" "t * 32768"]
      pos_mod_sign [of "1000000000 :: int" "t * 32768"] by (auto simp: c_def)
  have "p * (c div p) + c mod p = c" "0 \<le> c mod p" "c mod p < p" using assms(2) by simp_all
  moreover have "k = p * (c div p) + p" by (simp add: k_def c_def algebra_simps)
  ultimately have k: "c + 1 \<le> k" "k \<le> c + p" by linarith+
  then show "t \<le> k * 1000000000 div 32768" using c(2) by (simp add: int_le_div_iff)
  define q where "q = p * 1000000000 div 32768"
  have "p * 1000000000 < (q + 1) * 32768"
    using int_div_less_iff [of 32768 "p * 1000000000" "q + 1"] by (simp add: q_def)
  moreover have "k * 1000000000 \<le> c * 1000000000 + p * 1000000000" using k(2) by simp
  ultimately have "k * 1000000000 < (t + q + 2) * 32768" using c(1) by simp
  then have "k * 1000000000 div 32768 < t + q + 2"
    by (subst int_div_less_iff) simp_all
  then show "k * 1000000000 div 32768 \<le> t + p * 1000000000 div 32768 + 1" by (simp add: q_def)
qed

lemma rtc_period_value:
  assumes "periodic_on s"
  defines "c \<equiv> unat (cmos_data s RTC_REG_A AND 0x0f)"
  shows "uint (push_bit ((if c \<le> 2 then c + 7 else c) - 1) 1 :: u32) = int (rtc_rate s)"
    and "rtc_rate s \<le> 2 ^ 14" "c \<noteq> 0"
proof -
  have "unat (cmos_data s RTC_REG_A AND mask 4) = unat (cmos_data s RTC_REG_A) mod 2 ^ 4"
    by (rule unat_and_mask) simp
  then have c: "c < 16" by (simp add: c_def mask_eq_exp_minus_1)
  show z: "c \<noteq> 0" using assms(1) by (simp add: c_def periodic_on_def unat_eq_0)
  define k where "k = (if c \<le> 2 then c + 6 else c - 1)"
  have k: "rtc_rate s = 2 ^ k" "(if c \<le> 2 then c + 7 else c) - 1 = k" "k \<le> 14"
    using c by (auto simp: k_def rtc_rate_def c_def Let_def)
  then show "uint (push_bit ((if c \<le> 2 then c + 7 else c) - 1) 1 :: u32) = int (rtc_rate s)"
    by (simp add: uint_exp)
  show "rtc_rate s \<le> 2 ^ 14" unfolding k(1) using k(3) by (intro power_increasing) simp_all
qed

lemma rtc_timer_update_next:
  assumes "periodic_on s" "0 \<le> t" "t < 2 ^ 62"
  defines "p \<equiv> int (rtc_rate s)"
  defines "k \<equiv> (t * 32768 div 1000000000 div p + 1) * p"
  shows "next_periodic_time (rtc_timer_update s t) = k * 1000000000 div 32768 + 1"
    "periodic_timer (rtc_timer_update s t) = Some (k * 1000000000 div 32768 + 1)"
proof -
  define c where "c = unat (cmos_data s RTC_REG_A AND 0x0f)"
  note rate = rtc_period_value [OF assms(1), folded c_def]
  have p: "0 < p" "p \<le> 2 ^ 14" using rate(2) by (simp_all add: p_def) (simp add: rtc_rate_def Let_def)
  have bounds: "t \<le> k * 1000000000 div 32768" "k * 1000000000 div 32768 \<le> t + p * 1000000000 div 32768 + 1"
    unfolding k_def by (rule next_tick_bounds [OF assms(2) p(1)])+
  have "p * 1000000000 div 32768 < 500000001" using p(2) by (simp add: int_div_less_iff)
  with bounds assms(3) have big: "k * 1000000000 div 32768 + 1 < 2 ^ 63" by simp
  have cur: "sint (muldiv64 (word_of_int t) 32768 1000000000) = t * 32768 div 1000000000"
  proof -
    have "t * 32768 div 1000000000 < 2 ^ 63" using assms(3) by (simp add: int_div_less_iff)
    then have "int (unat (muldiv64 (word_of_int t) 32768 1000000000)) = t * 32768 div 1000000000"
      using unat_muldiv64 [of t 1000000000 32768] assms(2,3) by simp
    then show ?thesis
      using \<open>t * 32768 div 1000000000 < 2 ^ 63\<close> sint_small [of "muldiv64 (word_of_int t) 32768 1000000000"]
      by simp
  qed
  obtain j where j: "p = 2 ^ j" by (auto simp: p_def rtc_rate_def Let_def)
  have "0 \<le> t * 32768 div 1000000000" using assms(2) by simp
  then have clock: "(t * 32768 div 1000000000 AND NOT (p - 1)) + p = k"
    unfolding k_def j by (rule next_multiple)
  have k: "0 \<le> k"
    unfolding k_def using p(1) assms(2) by (intro mult_nonneg_nonneg add_nonneg_nonneg) (simp_all add: pos_imp_zdiv_nonneg_iff)
  have "int (unat (muldiv64 (word_of_int k) 1000000000 32768)) = k * 1000000000 div 32768"
    using unat_muldiv64 [of k 32768 1000000000] k big by simp
  then have u: "uint (muldiv64 (word_of_int k) 1000000000 32768 + 1) = k * 1000000000 div 32768 + 1"
    using big k by (simp add: uint_word_ariths(1))
  have fire: "sint (muldiv64 (word_of_int k) 1000000000 32768 + 1) = k * 1000000000 div 32768 + 1"
    using sint_small [OF big [folded u]] u by simp
  define P :: u32 where "P = push_bit ((if c \<le> 2 then c + 7 else c) - 1) 1"
  have P: "uint P = p" using rate(1) by (simp add: P_def p_def)
  define N where "N = sint (muldiv64 (word_of_int
    ((sint (muldiv64 (word_of_int t) 32768 1000000000) AND NOT (uint P - 1)) + uint P)) 1000000000 32768 + 1)"
  have "N = k * 1000000000 div 32768 + 1" by (simp only: N_def P cur clock fire)
  moreover have "next_periodic_time (rtc_timer_update s t) = N" "periodic_timer (rtc_timer_update s t) = Some N"
    using assms(1) rate(3) unfolding rtc_timer_update_def N_def P_def periodic_on_def
    by (simp_all add: Let_def flip: c_def)
  ultimately show "next_periodic_time (rtc_timer_update s t) = k * 1000000000 div 32768 + 1"
    "periodic_timer (rtc_timer_update s t) = Some (k * 1000000000 div 32768 + 1)" by simp_all
qed

section \<open>Properties of the clock\<close>

text \<open>C38: When the periodic interrupt is on, the clock arms its timer strictly after the current
  time and at most one period (plus rounding) later.\<close>

theorem rtc_periodic_next_tick:
  assumes "periodic_on s" "0 \<le> t" "t < 2 ^ 62"
  shows "\<exists>n. periodic_timer (rtc_timer_update s t) = Some n \<and>
    next_periodic_time (rtc_timer_update s t) = n \<and>
    t < n \<and> n \<le> t + int (rtc_rate s) * 1000000000 div 32768 + 2"
proof -
  have "0 < int (rtc_rate s)" by (simp add: rtc_rate_def Let_def)
  note b = next_tick_bounds [OF assms(2) this]
  define n where "n = (t * 32768 div 1000000000 div int (rtc_rate s) + 1) * int (rtc_rate s) * 1000000000 div 32768"
  have "t < n + 1" "n + 1 \<le> t + int (rtc_rate s) * 1000000000 div 32768 + 2"
    using b [folded n_def] by linarith+
  with rtc_timer_update_next [OF assms, folded n_def] show ?thesis by blast
qed

definition sample_rtc :: RTCState where
  "sample_rtc = (rtc_zero 2000 None)\<lparr>cmos_data := (\<lambda>_. 0)(10 := 0x26, 11 := 0x42)\<rparr>"

theorem rtc_periodic_next_tick_witness:
  "\<exists>n. periodic_timer (rtc_timer_update sample_rtc 5000) = Some n \<and> 5000 < n"
proof -
  have "periodic_on sample_rtc" by (simp add: periodic_on_def sample_rtc_def)
  from rtc_periodic_next_tick [OF this, of 5000] show ?thesis by auto
qed

lemma rtc_next_second_year: "tm_year (rtc_next_second t) \<le> tm_year t + 1"
  by (simp add: rtc_next_second_def rtc_next_day_def Let_def)

lemma mktimegm_epoch:
  assumes "valid_tm t" "1970 \<le> tm_year t + 1900"
  shows "mktimegm t =
    (if civil_days (tm_year t + 1900) (tm_mon t) (tm_mday t) < 24856 then Some (epoch t) else None)"
proof -
  have m: "0 \<le> tm_mon t" "tm_mon t < 12" "1 \<le> tm_mday t" using assms(1) by (simp_all add: valid_tm_def)
  have "0 \<le> month_days y k" for y k by (simp add: month_days_def)
  then have "0 \<le> civil_days (tm_year t + 1900) (tm_mon t) (tm_mday t)"
    using m(3) unfolding civil_days_def by (intro add_nonneg_nonneg sum_nonneg) auto
  then have "int_ok (86400 * civil_days (tm_year t + 1900) (tm_mon t) (tm_mday t)) \<longleftrightarrow>
      civil_days (tm_year t + 1900) (tm_mon t) (tm_mday t) < 24856"
    by (auto simp: int_ok_def)
  then show ?thesis using assms m by (simp add: mktimegm_day_number day_number_civil epoch_def Let_def)
qed

text \<open>C5: One tick of the clock (\<open>rtc_next_second\<close>) turns every valid date from 1970 on
  into the valid date exactly one second later by the civil calendar and keeps its day of the
  week right: month ends, leap days and year ends included. \<open>mktimegm\<close> counts that
  second up to 19 January 2038; from the next day on it overflows.\<close>

theorem rtc_tick_advances_calendar:
  assumes "valid_tm t" "1970 \<le> tm_year t + 1900" "weekday_ok t"
  defines "n \<equiv> rtc_next_second t"
  shows "valid_tm n \<and> weekday_ok n \<and> epoch n = epoch t + 1 \<and>
    mktimegm n = (if civil_days (tm_year n + 1900) (tm_mon n) (tm_mday n) < 24856 then Some (epoch t + 1) else None)"
proof -
  note n = rtc_next_second_spec [OF assms(1-3), folded n_def]
  then have "mktimegm n =
      (if civil_days (tm_year n + 1900) (tm_mon n) (tm_mday n) < 24856 then Some (epoch n) else None)"
    by (intro mktimegm_epoch) simp_all
  with n show ?thesis by simp
qed

definition sample_tm :: tm where
  "sample_tm = \<lparr>tm_sec = 59, tm_min = 59, tm_hour = 23, tm_mday = 29, tm_mon = 1, tm_year = 100, tm_wday = 2\<rparr>"

lemma sample_tm_ok: "valid_tm sample_tm" "1970 \<le> tm_year sample_tm + 1900" "weekday_ok sample_tm"
proof -
  show "valid_tm sample_tm" by (simp add: valid_tm_def sample_tm_def month_days_def leap_def)
  show "1970 \<le> tm_year sample_tm + 1900" by (simp add: sample_tm_def)
  have "civil_days 2000 1 29 = 11016"
    by (simp add: day_number_def leap_count_def flip: day_number_civil)
  then show "weekday_ok sample_tm" by (simp add: weekday_ok_def sample_tm_def)
qed

theorem rtc_tick_advances_calendar_witness:
  "epoch (rtc_next_second sample_tm) = epoch sample_tm + 1"
  using rtc_tick_advances_calendar [OF sample_tm_ok] by simp

theorem rtc_date_roundtrip:
  assumes "valid_tm (current_tm s)" "0 \<le> tm_wday (current_tm s)" "tm_wday (current_tm s) < 7"
    and "base_year s \<le> tm_year (current_tm s) + 1900" "tm_year (current_tm s) + 1900 < base_year s + 100"
  shows "current_tm (rtc_set_time (rtc_copy_date s)) = current_tm s"
  using assms by (rule rtc_date_registers)

theorem rtc_date_roundtrip_witness:
  "current_tm (rtc_set_time (rtc_copy_date (sample_rtc\<lparr>current_tm := sample_tm\<rparr>))) = sample_tm"
  using rtc_date_roundtrip [of "sample_rtc\<lparr>current_tm := sample_tm\<rparr>"] sample_tm_ok(1)
  by (simp add: sample_rtc_def rtc_zero_def sample_tm_def)

text \<open>C24: In every reachable state of the clock the interrupt line is up exactly when the interrupt
  flag of register C is set, exactly one of the two timers that drive the second is armed, the
  update-in-progress bit is up only while the second of them is, and the index stays below 128.\<close>

theorem rtc_reachable_inv:
  assumes "reach rtc_start (rtc_step td) s"
  shows "line_level (irq s) = bit (cmos_data s RTC_REG_C) 7 \<and>
    (second_timer s = None) \<noteq> (second_timer2 s = None) \<and>
    (bit (cmos_data s RTC_REG_A) 7 \<longrightarrow> second_timer2 s \<noteq> None) \<and> unat (cmos_index s) < 128"
  using rtc.reachable_inv [OF assms] by (simp add: rtc_inv_def)

definition sample_env :: rtc_env where
  "sample_env = \<lparr>rtc_clock = 0, rtc_td_hack = False, irq_delivered = False, host_date = sample_tm\<rparr>"

theorem rtc_reachable_inv_witness:
  "second_timer2 (rtc_initfn sample_env (rtc_zero 2000 None)) \<noteq> None"
proof -
  have s: "second_timer (rtc_initfn sample_env (rtc_zero 2000 None)) = None"
    by (simp add: rtc_initfn_def rtc_set_date_from_host_def rtc_set_date_def rtc_set_memory_def Let_def)
      (simp add: rtc_zero_def)
  have "reach rtc_start (rtc_step False) (rtc_initfn sample_env (rtc_zero 2000 None))"
    by (rule reach_init) (auto simp: rtc_start_def)
  from rtc_reachable_inv [OF this] s show ?thesis by simp
qed

lemma rtc_set_time_cong:
  assumes "\<And>i. i < 10 \<or> i = 11 \<Longrightarrow> cmos_data s i = cmos_data t i" "base_year s = base_year t"
  shows "current_tm (rtc_set_time s) = current_tm (rtc_set_time t)"
proof -
  have "rtc_from_bcd s = rtc_from_bcd t" using assms(1) by (intro rtc_bcd_cong) simp
  then show ?thesis using assms by (simp add: rtc_set_time_def Let_def)
qed

lemma rtc_update_second2_frame:
  assumes "cmos_data s RTC_REG_B AND REG_B_SET = 0"
  shows "i < 10 \<or> i = 11 \<Longrightarrow> cmos_data (rtc_update_second2 s) i = cmos_data (rtc_copy_date s) i"
    "\<not> bit (cmos_data (rtc_update_second2 s) RTC_REG_A) 7" "bit (cmos_data (rtc_update_second2 s) RTC_REG_C) 4"
    "current_tm (rtc_update_second2 s) = current_tm s" "base_year (rtc_update_second2 s) = base_year s"
    "next_second_time (rtc_update_second2 s) = next_second_time s + 1000000000"
    "second_timer (rtc_update_second2 s) = Some (next_second_time s + 1000000000)"
  using assms by (auto simp: rtc_update_second2_def Let_def bit_or_iff)

lemma rtc_update_second_frame:
  assumes "cmos_data s RTC_REG_A AND 0x70 = 0x20" "cmos_data s RTC_REG_B AND REG_B_SET = 0"
  shows "current_tm (rtc_update_second s) = rtc_next_second (current_tm s)"
    "bit (cmos_data (rtc_update_second s) RTC_REG_A) 7"
    "cmos_data (rtc_update_second s) 11 = cmos_data s 11" "base_year (rtc_update_second s) = base_year s"
    "next_second_time (rtc_update_second s) = next_second_time s"
  using assms by (simp_all add: rtc_update_second_def Let_def)

text \<open>One whole second of the clock: the first timer's callback, then the second one's.\<close>

theorem rtc_second_visible:
  assumes "cmos_data s RTC_REG_A AND 0x70 = 0x20" "cmos_data s RTC_REG_B AND REG_B_SET = 0"
    and "valid_tm (current_tm s)" "weekday_ok (current_tm s)" "1970 \<le> tm_year (current_tm s) + 1900"
    and "base_year s \<le> tm_year (current_tm s) + 1900" "tm_year (current_tm s) + 1900 < base_year s + 99"
  defines "u \<equiv> rtc_update_second s"
  defines "v \<equiv> rtc_update_second2 u"
  shows "bit (cmos_data u RTC_REG_A) 7 \<and> \<not> bit (cmos_data v RTC_REG_A) 7 \<and>
    bit (cmos_data v RTC_REG_C) 4 \<and>
    next_second_time v = next_second_time s + 1000000000 \<and> second_timer v = Some (next_second_time v) \<and>
    current_tm v = rtc_next_second (current_tm s) \<and>
    current_tm (rtc_set_time v) = rtc_next_second (current_tm s)"
proof -
  note second = rtc_update_second_frame [OF assms(1,2), folded u_def]
  have "cmos_data u RTC_REG_B AND REG_B_SET = 0" using assms(2) second(3) by simp
  note second2 = rtc_update_second2_frame [OF this, folded v_def]
  have ok: "valid_tm (current_tm u)" "weekday_ok (current_tm u)" "tm_year (current_tm s) \<le> tm_year (current_tm u)"
    using rtc_next_second_spec [OF assms(3,5,4)] second(1)
    by (simp_all add: rtc_next_second_def rtc_next_day_def Let_def)
  have "0 \<le> tm_wday (current_tm u)" "tm_wday (current_tm u) < 7" using ok(2) by (simp_all add: weekday_ok_def)
  moreover have "tm_year (current_tm u) + 1900 < base_year u + 100" "base_year u \<le> tm_year (current_tm u) + 1900"
    using ok(3) second(1,4) assms(6,7) rtc_next_second_year [of "current_tm s"] by simp_all
  ultimately have "current_tm (rtc_set_time (rtc_copy_date u)) = current_tm u"
    using ok(1) by (intro rtc_date_registers)
  moreover have "current_tm (rtc_set_time v) = current_tm (rtc_set_time (rtc_copy_date u))"
    using second2(1,5) by (intro rtc_set_time_cong) simp_all
  ultimately show ?thesis using second second2 by simp
qed

theorem rtc_second_visible_witness:
  "current_tm (rtc_set_time (rtc_update_second2 (rtc_update_second (sample_rtc\<lparr>current_tm := sample_tm\<rparr>))))
    = rtc_next_second sample_tm"
  using rtc_second_visible [of "sample_rtc\<lparr>current_tm := sample_tm\<rparr>"] sample_tm_ok
  by (simp add: sample_rtc_def rtc_zero_def) (simp add: sample_tm_def)

text \<open>Reading register C acknowledges: it reports the flags, clears them and drops the line.\<close>

theorem rtc_read_c_acknowledges:
  assumes "cmos_index s = 12" "addr AND 1 \<noteq> 0" "irq_coalesced s = 0"
  shows "snd (cmos_ioport_read env addr s) = cmos_data s RTC_REG_C \<and>
    cmos_data (fst (cmos_ioport_read env addr s)) RTC_REG_C = 0 \<and>
    \<not> line_level (irq (fst (cmos_ioport_read env addr s))) \<and>
    (\<forall>i. i \<noteq> RTC_REG_C \<longrightarrow> cmos_data (fst (cmos_ioport_read env addr s)) i = cmos_data s i)"
  using assms by (simp add: cmos_ioport_read_def Let_def)

theorem rtc_read_c_acknowledges_witness:
  "snd (cmos_ioport_read sample_env 0x71 (sample_rtc\<lparr>cmos_index := 12\<rparr>)) = 0"
  using rtc_read_c_acknowledges [of "sample_rtc\<lparr>cmos_index := 12\<rparr>" "0x71"]
  by (simp add: sample_rtc_def rtc_zero_def)

text \<open>In 12-hour format the hours alarm is compared without separating its afternoon bit: an alarm
  with that bit set, and not the don't-care code, matches no time of day.\<close>

lemma rtc_alarm_pm_never:
  assumes "cmos_data s RTC_REG_B AND REG_B_24H = 0" "bit (cmos_data s RTC_HOURS_ALARM) 7"
    and "\<not> bit (cmos_data s RTC_HOURS_ALARM) 6" "valid_tm (current_tm s)"
  shows "\<not> rtc_alarm_matches s"
proof -
  let ?a = "cmos_data s RTC_HOURS_ALARM"
  have "bit (?a AND 0xc0) 6 \<noteq> bit (0xc0 :: u8) 6" using assms(3) by (simp add: bit_and_iff)
  then have "?a AND 0xc0 \<noteq> 0xc0" by metis
  moreover have "80 \<le> rtc_from_bcd s (uint ?a)"
  proof -
    have "odd (uint ?a div 2 ^ 7)" using assms(2) unfolding bit_iff_odd [symmetric] by (simp add: bit_uint_iff)
    then have "uint ?a div 128 \<noteq> 0" by auto
    then have "128 \<le> uint ?a" using uint_ge_0 [of ?a] by (simp add: zdiv_eq_0_iff)
    moreover from this have "8 \<le> drop_bit 4 (uint ?a)" by (simp add: drop_bit_eq_div int_le_div_iff)
    moreover have "0 \<le> uint ?a AND 0x0f" by simp
    ultimately have "128 \<le> uint ?a" "80 \<le> drop_bit 4 (uint ?a) * 10 + (uint ?a AND 0x0f)" by linarith+
    then show ?thesis unfolding rtc_from_bcd_def by simp
  qed
  moreover have "tm_hour (current_tm s) < 24" using assms(4) by (simp add: valid_tm_def)
  ultimately show ?thesis by (simp add: rtc_alarm_matches_def)
qed

end
