(* ===== verification/I8254.thy ===== *)
theory I8254
  imports Machine Host_Utils "HOL-Library.Monad_Syntax"
begin

text \<open>
  The 8254 interval timer, \<open>qemu/hw/i8254.c\<close>.

  \<^item> \<open>PITChannelState\<close> and \<open>PITState\<close> are the structs of the same names. \<open>irq_timer\<close> is \<^const>\<open>None\<close> for the
    null pointer of channels 1 and 2, otherwise the time at which the timer is armed, if it is.
    \<open>irq\<close> is the sequence of levels driven on the interrupt line, newest first.
  \<^item> \<open>now\<close> is \<open>qemu_get_clock (vm_clock)\<close>. Times are integers; the elapsed time and everything
    computed from it is \<open>uint64_t\<close>, as in the code.
  \<^item> The counter reload value divides in modes 2, 3 and (for the counter) 6 and 7. A division by a
    zero count would trap: the function returns \<^const>\<open>None\<close>, and the invariant shows that no
    reachable state does.
\<close>

unbundle bit_operations_syntax

abbreviation (input) PIT_FREQ :: u32 where "PIT_FREQ \<equiv> 1193182"
abbreviation (input) pit_ticks_per_sec :: u32 where "pit_ticks_per_sec \<equiv> 1000000000"
abbreviation (input) RW_STATE_LSB :: u8 where "RW_STATE_LSB \<equiv> 1"
abbreviation (input) RW_STATE_MSB :: u8 where "RW_STATE_MSB \<equiv> 2"
abbreviation (input) RW_STATE_WORD0 :: u8 where "RW_STATE_WORD0 \<equiv> 3"
abbreviation (input) RW_STATE_WORD1 :: u8 where "RW_STATE_WORD1 \<equiv> 4"

section \<open>State\<close>

record PITChannelState =
  count :: int
  latched_count :: u16
  count_latched :: u8
  status_latched :: u8
  status :: u8
  read_state :: u8
  write_state :: u8
  write_latch :: u8
  rw_mode :: u8
  mode :: u8
  bcd :: u8
  gate :: u8
  count_load_time :: int
  next_transition_time :: int
  irq_timer :: "int option option"
  irq :: "bool list"

record PITState =
  channels :: "nat \<Rightarrow> PITChannelState"

definition set_channel :: "PITState \<Rightarrow> nat \<Rightarrow> PITChannelState \<Rightarrow> PITState" where
  "set_channel pit i s = pit\<lparr>channels := (channels pit)(i := s)\<rparr>"

section \<open>Counting\<close>

definition pit_elapsed :: "PITChannelState \<Rightarrow> int \<Rightarrow> u64" where
  "pit_elapsed s t = muldiv64 (word_of_int (t - count_load_time s)) PIT_FREQ pit_ticks_per_sec"

definition pit_get_count :: "int \<Rightarrow> PITChannelState \<Rightarrow> int option" where
  "pit_get_count now s =
    (let d = pit_elapsed s now; n = word_of_int (count s) :: u64 in
     if mode s = 0 \<or> mode s = 1 \<or> mode s = 4 \<or> mode s = 5 then Some (uint ((n - d) AND 0xffff))
     else if n = 0 then None
     else if mode s = 3 then Some (uint (n - (2 * d) mod n))
     else Some (uint (n - d mod n)))"

text \<open>The output after \<open>d\<close> ticks, and \<open>pit_get_out1\<close> at a time.\<close>

definition pit_out_tick :: "u8 \<Rightarrow> u64 \<Rightarrow> u64 \<Rightarrow> bool option" where
  "pit_out_tick m n d =
    (if m = 1 then Some (d < n)
     else if m = 2 then (if n = 0 then None else Some (d mod n = 0 \<and> d \<noteq> 0))
     else if m = 3 then (if n = 0 then None else Some (d mod n < drop_bit 1 (n + 1)))
     else if m = 4 \<or> m = 5 then Some (d = n)
     else Some (d \<ge> n))"

definition pit_get_out1 :: "PITChannelState \<Rightarrow> int \<Rightarrow> bool option" where
  "pit_get_out1 s t = pit_out_tick (mode s) (word_of_int (count s)) (pit_elapsed s t)"

definition pit_get_out :: "PITState \<Rightarrow> nat \<Rightarrow> int \<Rightarrow> bool option" where
  "pit_get_out pit channel t = pit_get_out1 (channels pit channel) t"

text \<open>The tick at which the timer is to fire next: \<open>Some None\<close> when the code returns \<open>-1\<close>.\<close>

definition pit_next_tick :: "u8 \<Rightarrow> u64 \<Rightarrow> u64 \<Rightarrow> u64 option option" where
  "pit_next_tick m n d =
    (if m = 2
     then
       (if n = 0 then None
        else
          (let base = (d div n) * n
           in Some (Some (if d - base = 0 \<and> d \<noteq> 0 then base + n else base + n + 1))))
     else if m = 3
     then
       (if n = 0 then None
        else
          (let base = (d div n) * n; period2 = drop_bit 1 (n + 1)
           in Some (Some (if d - base < period2 then base + period2 else base + n))))
     else if m = 4 \<or> m = 5
     then Some (if d < n then Some n else if d = n then Some (n + 1) else None)
     else Some (if d < n then Some n else None))"

definition pit_get_next_transition_time :: "PITChannelState \<Rightarrow> int \<Rightarrow> int option" where
  "pit_get_next_transition_time s t =
    (case pit_next_tick (mode s) (word_of_int (count s)) (pit_elapsed s t) of
       None \<Rightarrow> None
     | Some None \<Rightarrow> Some (- 1)
     | Some (Some tick) \<Rightarrow>
         (let next_time = word_of_int (count_load_time s) + muldiv64 tick pit_ticks_per_sec PIT_FREQ;
              next_time = (if next_time \<le> word_of_int t then word_of_int t + 1 else next_time)
          in Some (sint next_time)))"

section \<open>The interrupt\<close>

definition pit_irq_timer_update :: "PITChannelState \<Rightarrow> int \<Rightarrow> PITChannelState option" where
  "pit_irq_timer_update s t =
    (case irq_timer s of
       None \<Rightarrow> Some s
     | Some _ \<Rightarrow> do {
         expire_time \<leftarrow> pit_get_next_transition_time s t;
         irq_level \<leftarrow> pit_get_out1 s t;
         Some (s\<lparr>irq := irq_level # irq s, next_transition_time := expire_time,
                 irq_timer := Some (if expire_time \<noteq> - 1 then Some expire_time else None)\<rparr>)
       })"

definition pit_irq_timer :: "PITChannelState \<Rightarrow> PITChannelState option" where
  "pit_irq_timer s = pit_irq_timer_update s (next_transition_time s)"

definition pit_load_count :: "int \<Rightarrow> PITChannelState \<Rightarrow> int \<Rightarrow> PITChannelState option" where
  "pit_load_count now s v =
    (let v = (if v = 0 then 0x10000 else v);
         s = s\<lparr>count_load_time := now, count := v\<rparr>
     in pit_irq_timer_update s (count_load_time s))"

definition pit_set_gate :: "int \<Rightarrow> PITState \<Rightarrow> nat \<Rightarrow> u8 \<Rightarrow> PITState option" where
  "pit_set_gate now pit channel v =
    (let s = channels pit channel in
     do {
       s \<leftarrow> (if (mode s = 1 \<or> mode s = 5 \<or> mode s = 2 \<or> mode s = 3) \<and> gate s < v
             then (let s = s\<lparr>count_load_time := now\<rparr> in pit_irq_timer_update s (count_load_time s))
             else Some s);
       Some (set_channel pit channel (s\<lparr>gate := v\<rparr>))
     })"

definition pit_get_gate :: "PITState \<Rightarrow> nat \<Rightarrow> u8" where
  "pit_get_gate pit channel = gate (channels pit channel)"

definition pit_get_initial_count :: "PITState \<Rightarrow> nat \<Rightarrow> int" where
  "pit_get_initial_count pit channel = count (channels pit channel)"

definition pit_get_mode :: "PITState \<Rightarrow> nat \<Rightarrow> u8" where
  "pit_get_mode pit channel = mode (channels pit channel)"

section \<open>Ports\<close>

definition pit_latch_count :: "int \<Rightarrow> PITChannelState \<Rightarrow> PITChannelState option" where
  "pit_latch_count now s =
    (if count_latched s = 0
     then do {
       c \<leftarrow> pit_get_count now s;
       Some (s\<lparr>latched_count := word_of_int c, count_latched := rw_mode s\<rparr>)
     }
     else Some s)"

definition pit_latch_status :: "int \<Rightarrow> PITChannelState \<Rightarrow> PITChannelState option" where
  "pit_latch_status now s = do {
     out \<leftarrow> pit_get_out1 s now;
     Some (s\<lparr>status := push_bit 7 (of_bool out) OR push_bit 4 (rw_mode s) OR push_bit 1 (mode s) OR bcd s,
             status_latched := 1\<rparr>)
   }"

definition pit_read_back :: "int \<Rightarrow> u8 \<Rightarrow> nat \<Rightarrow> PITState \<Rightarrow> PITState option" where
  "pit_read_back now v channel pit =
    (let s = channels pit channel in
     if v AND push_bit channel 2 \<noteq> 0
     then do {
       s \<leftarrow> (if v AND 0x20 = 0 then pit_latch_count now s else Some s);
       s \<leftarrow> (if v AND 0x10 = 0 \<and> status_latched s = 0 then pit_latch_status now s else Some s);
       Some (set_channel pit channel s)
     }
     else Some pit)"

definition pit_write_control :: "int \<Rightarrow> u8 \<Rightarrow> PITState \<Rightarrow> PITState option" where
  "pit_write_control now v pit =
    (let channel = unat (drop_bit 6 v) in
     if channel = 3
     then do {
       pit \<leftarrow> pit_read_back now v 0 pit;
       pit \<leftarrow> pit_read_back now v 1 pit;
       pit_read_back now v 2 pit
     }
     else
       (let s = channels pit channel; acc = drop_bit 4 v AND 3 in
        if acc = 0
        then do { s \<leftarrow> pit_latch_count now s; Some (set_channel pit channel s) }
        else Some (set_channel pit channel
               (s\<lparr>rw_mode := acc, read_state := acc, write_state := acc,
                  mode := drop_bit 1 v AND 7, bcd := v AND 1\<rparr>))))"

definition pit_write_counter :: "int \<Rightarrow> u8 \<Rightarrow> PITChannelState \<Rightarrow> PITChannelState option" where
  "pit_write_counter now v s =
    (if write_state s = RW_STATE_MSB then pit_load_count now s (uint v * 256)
     else if write_state s = RW_STATE_WORD0
     then Some (s\<lparr>write_latch := v, write_state := RW_STATE_WORD1\<rparr>)
     else if write_state s = RW_STATE_WORD1
     then do {
       s \<leftarrow> pit_load_count now s (uint (write_latch s) OR push_bit 8 (uint v));
       Some (s\<lparr>write_state := RW_STATE_WORD0\<rparr>)
     }
     else pit_load_count now s (uint v))"

definition pit_ioport_write :: "int \<Rightarrow> u32 \<Rightarrow> u8 \<Rightarrow> PITState \<Rightarrow> PITState option" where
  "pit_ioport_write now addr v pit =
    (let addr = addr AND 3 in
     if addr = 3 then pit_write_control now v pit
     else do {
       s \<leftarrow> pit_write_counter now v (channels pit (unat addr));
       Some (set_channel pit (unat addr) s)
     })"

definition pit_read_latched :: "PITChannelState \<Rightarrow> PITChannelState \<times> u8" where
  "pit_read_latched s =
    (if count_latched s = RW_STATE_MSB
     then (s\<lparr>count_latched := 0\<rparr>, ucast (drop_bit 8 (latched_count s)))
     else if count_latched s = RW_STATE_WORD0
     then (s\<lparr>count_latched := RW_STATE_MSB\<rparr>, ucast (latched_count s AND 0xff))
     else (s\<lparr>count_latched := 0\<rparr>, ucast (latched_count s AND 0xff)))"

definition pit_read_counter :: "int \<Rightarrow> PITChannelState \<Rightarrow> (PITChannelState \<times> u8) option" where
  "pit_read_counter now s = do {
     c \<leftarrow> pit_get_count now s;
     Some
       (if read_state s = RW_STATE_MSB then (s, word_of_int (drop_bit 8 c AND 0xff))
        else if read_state s = RW_STATE_WORD0 then (s\<lparr>read_state := RW_STATE_WORD1\<rparr>, word_of_int (c AND 0xff))
        else if read_state s = RW_STATE_WORD1
        then (s\<lparr>read_state := RW_STATE_WORD0\<rparr>, word_of_int (drop_bit 8 c AND 0xff))
        else (s, word_of_int (c AND 0xff)))
   }"

definition pit_ioport_read :: "int \<Rightarrow> u32 \<Rightarrow> PITState \<Rightarrow> (PITState \<times> u8) option" where
  "pit_ioport_read now addr pit =
    (let i = unat (addr AND 3); s = channels pit i in do {
       (s, ret) \<leftarrow>
         (if status_latched s \<noteq> 0 then Some (s\<lparr>status_latched := 0\<rparr>, status s)
          else if count_latched s \<noteq> 0 then Some (pit_read_latched s)
          else pit_read_counter now s);
       Some (set_channel pit i s, ret)
     })"

section \<open>Reset and wiring\<close>

definition pit_reset_channel :: "int \<Rightarrow> nat \<Rightarrow> PITState \<Rightarrow> PITState option" where
  "pit_reset_channel now i pit = do {
     s \<leftarrow> pit_load_count now ((channels pit i)\<lparr>mode := 3, gate := (if i \<noteq> 2 then 1 else 0)\<rparr>) 0;
     Some (set_channel pit i s)
   }"

definition pit_reset :: "int \<Rightarrow> PITState \<Rightarrow> PITState option" where
  "pit_reset now pit = do {
     pit \<leftarrow> pit_reset_channel now 0 pit;
     pit \<leftarrow> pit_reset_channel now 1 pit;
     pit_reset_channel now 2 pit
   }"

definition hpet_pit_disable :: "PITState \<Rightarrow> PITState" where
  "hpet_pit_disable pit =
    (let s = channels pit 0 in
     set_channel pit 0 (s\<lparr>irq_timer := map_option (\<lambda>_. None) (irq_timer s)\<rparr>))"

definition hpet_pit_enable :: "int \<Rightarrow> PITState \<Rightarrow> PITState option" where
  "hpet_pit_enable now pit = do {
     s \<leftarrow> pit_load_count now ((channels pit 0)\<lparr>mode := 3, gate := 1\<rparr>) 0;
     Some (set_channel pit 0 s)
   }"

definition pit_zero :: PITChannelState where
  "pit_zero =
    \<lparr>count = 0, latched_count = 0, count_latched = 0, status_latched = 0, status = 0, read_state = 0,
     write_state = 0, write_latch = 0, rw_mode = 0, mode = 0, bcd = 0, gate = 0, count_load_time = 0,
     next_transition_time = 0, irq_timer = None, irq = []\<rparr>"

definition pit_init :: PITState where
  "pit_init = \<lparr>channels = (\<lambda>_. pit_zero)(0 := pit_zero\<lparr>irq_timer := Some None\<rparr>)\<rparr>"

section \<open>Ticks and transitions\<close>

lemma pit_out_nat:
  "pit_out_tick m n d =
    (if m = 1 then Some (unat d < unat n)
     else if m = 2 then (if n = 0 then None else Some (unat d mod unat n = 0 \<and> unat d \<noteq> 0))
     else if m = 3 then (if n = 0 then None else Some (unat d mod unat n < unat (drop_bit 1 (n + 1))))
     else if m = 4 \<or> m = 5 then Some (unat d = unat n)
     else Some (unat n \<le> unat d))"
  by (simp add: pit_out_tick_def word_less_nat_alt word_le_nat_alt unat_mod word_unat_eq_iff)

lemma half_period:
  assumes "unat (n :: u64) \<le> 65536"
  shows "unat (drop_bit 1 (n + 1)) = (unat n + 1) div 2"
  using assms unat_drop_bit_div [of 1 "n + 1"] unat_add_u64 [of n 1] by simp

lemma square_wave:
  fixes N D E :: nat
  assumes "2 \<le> N"
  defines "P \<equiv> (N + 1) div 2" and "B \<equiv> D div N * N"
  shows "D mod N < P \<Longrightarrow> D \<le> E \<Longrightarrow> E < B + P \<Longrightarrow> E mod N < P" "\<not> (B + P) mod N < P"
    "\<not> D mod N < P \<Longrightarrow> D \<le> E \<Longrightarrow> E < B + N \<Longrightarrow> \<not> E mod N < P" "(B + N) mod N < P"
proof -
  have P: "0 < P" "P < N" using assms(1) by (auto simp: P_def)
  have D: "D = B + D mod N" by (simp add: B_def)
  have E: "E mod N = E - B" if "B \<le> E" "E < B + N"
  proof -
    have "E = B + (E - B)" using that by simp
    then have "E mod N = (E - B) mod N" by (metis B_def mod_mult_self3)
    with that show ?thesis by simp
  qed
  show "E mod N < P" if "D mod N < P" "D \<le> E" "E < B + P"
    using E that P D by linarith
  show "\<not> (B + P) mod N < P" using P by (simp add: B_def)
  show "\<not> E mod N < P" if "\<not> D mod N < P" "D \<le> E" "E < B + N"
    using E that P D by linarith
  show "(B + N) mod N < P" using P by (simp add: B_def)
qed

text \<open>The output does not change from tick \<open>d\<close> on, as long as \<open>I\<close> holds of the tick.\<close>

definition pit_constant :: "u8 \<Rightarrow> u64 \<Rightarrow> u64 \<Rightarrow> (u64 \<Rightarrow> bool) \<Rightarrow> bool" where
  "pit_constant m n d I \<longleftrightarrow> (\<forall>e. d \<le> e \<and> I e \<longrightarrow> pit_out_tick m n e = pit_out_tick m n d)"

lemma pit_next_tick_oneshot:
  assumes "m \<noteq> 2" "m \<noteq> 3" "0 < unat n" "unat n \<le> 65536"
  shows "case pit_next_tick m n d of None \<Rightarrow> False
    | Some None \<Rightarrow> pit_constant m n d (\<lambda>e. True)
    | Some (Some k) \<Rightarrow> d < k \<and> pit_out_tick m n k \<noteq> pit_out_tick m n d \<and> pit_constant m n d (\<lambda>e. e < k)"
proof -
  have "unat (n + 1) = unat n + 1" using assms(4) unat_add_u64 [of n 1] by simp
  with assms show ?thesis
    unfolding pit_next_tick_def pit_constant_def pit_out_nat
    by (auto simp: word_less_nat_alt word_le_nat_alt word_unat_eq_iff)
qed

lemma pit_next_tick_square:
  assumes "2 \<le> unat n" "unat n \<le> 65536" "unat d < 2 ^ 63"
  shows "case pit_next_tick 3 n d of Some (Some k) \<Rightarrow>
      d < k \<and> pit_out_tick 3 n k \<noteq> pit_out_tick 3 n d \<and> pit_constant 3 n d (\<lambda>e. e < k)
    | _ \<Rightarrow> False"
proof -
  let ?N = "unat n" and ?D = "unat d"
  define P where "P = (?N + 1) div 2"
  define B where "B = ?D div ?N * ?N"
  have n: "n \<noteq> 0" using assms(1) by auto
  have B: "B \<le> ?D" "?D - B = ?D mod ?N" "?D = B + ?D mod ?N"
    by (simp_all add: B_def minus_div_mult_eq_mod)
  have mod: "?D mod ?N < ?N" using assms(1) by simp
  have base: "unat (d div n * n) = B"
  proof -
    have "B < 2 ^ 64" using B(1) assms(3) by simp
    then show ?thesis by (simp add: unat_mult_u64 unat_div flip: B_def)
  qed
  have P: "unat (drop_bit 1 (n + 1)) = P" "0 < P" "P < ?N"
    using half_period [OF assms(2)] assms(1) by (auto simp: P_def)
  have rest: "unat (d - d div n * n) = ?D mod ?N"
    using base B by (simp add: unat_sub word_le_nat_alt)
  have sums: "unat (d div n * n + drop_bit 1 (n + 1)) = B + P" "unat (d div n * n + n) = B + ?N"
    using base P B(1) assms by (simp_all add: unat_add_u64)
  note wave = square_wave [OF assms(1), of ?D, folded P_def B_def]
  show ?thesis
  proof (cases "?D mod ?N < P")
    case True
    then show ?thesis
      using n wave(1) [OF True] wave(2) sums(1) B(3)
      by (simp add: pit_next_tick_def Let_def pit_constant_def pit_out_nat word_less_nat_alt
          word_le_nat_alt rest P(1) [unfolded One_nat_def])
  next
    case False
    then show ?thesis
      using n wave(3) [OF False] wave(4) sums(2) B(3) mod
      by (simp add: pit_next_tick_def Let_def pit_constant_def pit_out_nat word_less_nat_alt
          word_le_nat_alt rest P(1) [unfolded One_nat_def])
  qed
qed

section \<open>The timer as a device\<close>

datatype pit_event =
  Pit_write u32 u8
| Pit_read u32
| Pit_timer
| Pit_gate nat bool
| Pit_reset
| Pit_hpet_disable
| Pit_hpet_enable

text \<open>Which events can happen: the read handler is registered at three ports, a timer fires when it
  is due, a gate belongs to one of the three channels.\<close>

fun pit_enabled :: "int \<Rightarrow> pit_event \<Rightarrow> PITState \<Rightarrow> bool" where
  "pit_enabled now (Pit_read addr) pit = (addr AND 3 \<noteq> 3)"
| "pit_enabled now Pit_timer pit =
    (case irq_timer (channels pit 0) of Some (Some t) \<Rightarrow> t \<le> now | _ \<Rightarrow> False)"
| "pit_enabled now (Pit_gate channel v) pit = (channel < 3)"
| "pit_enabled now _ pit = True"

fun pit_do :: "int \<Rightarrow> pit_event \<Rightarrow> PITState \<Rightarrow> PITState option" where
  "pit_do now (Pit_write addr v) pit = pit_ioport_write now addr v pit"
| "pit_do now (Pit_read addr) pit = map_option fst (pit_ioport_read now addr pit)"
| "pit_do now Pit_timer pit = do {
     s \<leftarrow> pit_irq_timer ((channels pit 0)\<lparr>irq_timer := Some None\<rparr>);
     Some (set_channel pit 0 s)
   }"
| "pit_do now (Pit_gate channel v) pit = pit_set_gate now pit channel (of_bool v)"
| "pit_do now Pit_reset pit = pit_reset now pit"
| "pit_do now Pit_hpet_disable pit = Some (hpet_pit_disable pit)"
| "pit_do now Pit_hpet_enable pit = hpet_pit_enable now pit"

definition pit_step :: "PITState \<Rightarrow> PITState \<Rightarrow> bool" where
  "pit_step s t \<longleftrightarrow> (\<exists>now e. pit_enabled now e s \<and> pit_do now e s = Some t)"

definition pit_start :: "PITState \<Rightarrow> bool" where
  "pit_start s \<longleftrightarrow> (\<exists>now. pit_reset now pit_init = Some s)"

definition chan_inv :: "nat \<Rightarrow> PITChannelState \<Rightarrow> bool" where
  "chan_inv i s \<longleftrightarrow> 1 \<le> count s \<and> count s \<le> 65536 \<and> mode s \<le> 7 \<and> rw_mode s \<le> 3 \<and>
    read_state s \<le> 4 \<and> write_state s \<le> 4 \<and> count_latched s \<le> 3 \<and> gate s \<le> 1 \<and>
    (irq_timer s \<noteq> None \<longleftrightarrow> i = 0)"

definition pit_inv :: "PITState \<Rightarrow> bool" where
  "pit_inv pit \<longleftrightarrow> (\<forall>i < 3. chan_inv i (channels pit i))"

lemma count_word:
  assumes "1 \<le> count s" "count s \<le> 65536"
  shows "(word_of_int (count s) :: u64) \<noteq> 0" "uint (word_of_int (count s) :: u64) = count s"
proof -
  show u: "uint (word_of_int (count s) :: u64) = count s"
    using assms by (simp add: uint_word_of_int_eq take_bit_int_eq_self)
  show "(word_of_int (count s) :: u64) \<noteq> 0" using u assms(1) by auto
qed

text \<open>With a valid count nothing traps.\<close>

lemma pit_out_tick_defined: "n \<noteq> 0 \<Longrightarrow> \<exists>b. pit_out_tick m n d = Some b"
  by (simp add: pit_out_tick_def)

lemma pit_next_tick_defined: "n \<noteq> 0 \<Longrightarrow> \<exists>k. pit_next_tick m n d = Some k"
  by (simp add: pit_next_tick_def Let_def)

lemma pit_get_out1_defined: "1 \<le> count s \<Longrightarrow> count s \<le> 65536 \<Longrightarrow> \<exists>b. pit_get_out1 s t = Some b"
  using pit_out_tick_defined [OF count_word(1) [of s], of "mode s" "pit_elapsed s t"] by (simp add: pit_get_out1_def)

lemma pit_get_next_defined: "1 \<le> count s \<Longrightarrow> count s \<le> 65536 \<Longrightarrow> \<exists>e. pit_get_next_transition_time s t = Some e"
  using pit_next_tick_defined [OF count_word(1), of s "mode s" "pit_elapsed s t"]
  by (auto simp: pit_get_next_transition_time_def Let_def split: option.splits)

lemma pit_get_count_defined: "1 \<le> count s \<Longrightarrow> count s \<le> 65536 \<Longrightarrow> \<exists>c. pit_get_count now s = Some c"
  using count_word(1) [of s] by (simp add: pit_get_count_def Let_def)

text \<open>What a handler may change of a channel, and that it keeps the invariant.\<close>

lemma pit_irq_timer_update_ok:
  assumes "chan_inv i s"
  shows "\<exists>s'. pit_irq_timer_update s t = Some s' \<and> chan_inv i s' \<and>
    s' = s\<lparr>irq := irq s', next_transition_time := next_transition_time s', irq_timer := irq_timer s'\<rparr>"
proof (cases "irq_timer s")
  case None
  then show ?thesis using assms by (simp add: pit_irq_timer_update_def)
next
  case (Some x)
  have c: "1 \<le> count s" "count s \<le> 65536" using assms by (simp_all add: chan_inv_def)
  obtain e b where "pit_get_next_transition_time s t = Some e" "pit_get_out1 s t = Some b"
    using pit_get_next_defined [OF c] pit_get_out1_defined [OF c] by blast
  with Some assms show ?thesis by (simp add: pit_irq_timer_update_def chan_inv_def)
qed

lemma pit_load_count_ok:
  assumes "chan_inv i (s\<lparr>count := 1\<rparr>)" "0 \<le> v" "v \<le> 65535"
  shows "\<exists>s'. pit_load_count now s v = Some s' \<and> chan_inv i s' \<and>
    count s' = (if v = 0 then 65536 else v) \<and> count_load_time s' = now \<and> write_state s' = write_state s"
proof -
  let ?s = "s\<lparr>count_load_time := now, count := (if v = 0 then 65536 else v)\<rparr>"
  have "chan_inv i ?s" using assms by (auto simp: chan_inv_def)
  from pit_irq_timer_update_ok [OF this, of now] obtain s' where
    s': "pit_irq_timer_update ?s now = Some s'" "chan_inv i s'"
      "s' = ?s\<lparr>irq := irq s', next_transition_time := next_transition_time s', irq_timer := irq_timer s'\<rparr>"
    by blast
  have "count s' = (if v = 0 then 65536 else v)" "count_load_time s' = now" "write_state s' = write_state s"
    by (subst s'(3), simp)+
  with s'(1,2) show ?thesis by (simp add: pit_load_count_def)
qed

lemma pit_latch_count_ok: "chan_inv i s \<Longrightarrow> \<exists>s'. pit_latch_count now s = Some s' \<and> chan_inv i s'"
  using pit_get_count_defined [of s now]
  by (auto simp: pit_latch_count_def chan_inv_def)

lemma pit_latch_status_ok: "chan_inv i s \<Longrightarrow> \<exists>s'. pit_latch_status now s = Some s' \<and> chan_inv i s'"
  using pit_get_out1_defined [of s now]
  by (auto simp: pit_latch_status_def chan_inv_def)

lemma pit_inv_set: "pit_inv pit \<Longrightarrow> chan_inv i s \<Longrightarrow> pit_inv (set_channel pit i s)"
  by (simp add: pit_inv_def set_channel_def)

lemma pit_inv_channel: "pit_inv pit \<Longrightarrow> i < 3 \<Longrightarrow> chan_inv i (channels pit i)"
  by (simp add: pit_inv_def)

lemma channels_set [simp]: "channels (set_channel pit i s) = (channels pit)(i := s)"
  by (simp add: set_channel_def)

lemma pit_read_back_ok:
  assumes "pit_inv pit" "i < 3"
  shows "\<exists>pit'. pit_read_back now v i pit = Some pit' \<and> pit_inv pit'"
proof -
  have c: "chan_inv i (channels pit i)" using assms by (simp add: pit_inv_channel)
  obtain s where s: "(if v AND 0x20 = 0 then pit_latch_count now (channels pit i) else Some (channels pit i)) = Some s"
    "chan_inv i s" using pit_latch_count_ok [OF c, of now] c by (cases "v AND 0x20 = 0") auto
  obtain s' where s': "(if v AND 0x10 = 0 \<and> status_latched s = 0 then pit_latch_status now s else Some s) = Some s'"
    "chan_inv i s'" using pit_latch_status_ok [OF s(2), of now] s(2) by (cases "v AND 0x10 = 0 \<and> status_latched s = 0") auto
  show ?thesis
    using s s' assms(1) by (simp add: pit_read_back_def Let_def pit_inv_set)
qed

lemma byte_bounds: "(drop_bit 4 (v :: u8) AND 3) \<le> 3" "(drop_bit 1 v AND 7) \<le> 7" "unat (drop_bit 6 v) < 4"
proof -
  show "(drop_bit 4 v AND 3) \<le> 3" "(drop_bit 1 v AND 7) \<le> 7" by (rule word_and_le1)+
  show "unat (drop_bit 6 v) < 4" using unat_drop_bit_div [of 6 v] unat_bounds(1) [of v] by simp
qed

lemma pit_write_control_ok:
  assumes "pit_inv pit"
  shows "\<exists>pit'. pit_write_control now v pit = Some pit' \<and> pit_inv pit'"
proof (cases "unat (drop_bit 6 v) = 3")
  case True
  obtain p1 where p1: "pit_read_back now v 0 pit = Some p1" "pit_inv p1" using pit_read_back_ok [OF assms, of 0] by auto
  obtain p2 where p2: "pit_read_back now v 1 p1 = Some p2" "pit_inv p2" using pit_read_back_ok [OF p1(2), of 1] by auto
  obtain p3 where p3: "pit_read_back now v 2 p2 = Some p3" "pit_inv p3" using pit_read_back_ok [OF p2(2), of 2] by auto
  show ?thesis using True p1 p2 p3 by (simp add: pit_write_control_def Let_def)
next
  case False
  then have i: "unat (drop_bit 6 v) < 3" using byte_bounds(3) [of v] by simp
  note c = pit_inv_channel [OF assms i]
  obtain s where "pit_latch_count now (channels pit (unat (drop_bit 6 v))) = Some s" "chan_inv (unat (drop_bit 6 v)) s"
    using pit_latch_count_ok [OF c] by blast
  moreover have "chan_inv (unat (drop_bit 6 v)) ((channels pit (unat (drop_bit 6 v)))
      \<lparr>rw_mode := drop_bit 4 v AND 3, read_state := drop_bit 4 v AND 3, write_state := drop_bit 4 v AND 3,
       mode := drop_bit 1 v AND 7, bcd := v AND 1\<rparr>)"
    using c byte_bounds [of v] by (auto simp: chan_inv_def intro: order_trans)
  ultimately show ?thesis
    using False assms by (simp add: pit_write_control_def Let_def pit_inv_set)
qed

lemma word_count_bounds: "uint (l :: u8) OR push_bit 8 (uint (h :: u8)) = uint l + 256 * uint h"
proof -
  have "uint l AND push_bit 8 (uint h) = 0"
    by (rule bit_eqI) (auto simp: bit_simps dest: bit_u8_less)
  then show ?thesis by (simp add: disjunctive_add_eq_or [symmetric] push_bit_eq_mult)
qed

lemma uint_u8_bound: "uint (w :: u8) \<le> 255"
  using uint_bounded [of w] by simp

lemma pit_write_counter_ok:
  assumes "chan_inv i s"
  shows "\<exists>s'. pit_write_counter now v s = Some s' \<and> chan_inv i s'"
proof -
  have c: "chan_inv i (s\<lparr>count := 1\<rparr>)" using assms by (simp add: chan_inv_def)
  have b: "0 \<le> uint v" "uint v * 256 \<le> 65535" "uint v \<le> 65535"
    "0 \<le> uint (write_latch s) + 256 * uint v" "uint (write_latch s) + 256 * uint v \<le> 65535"
    using uint_u8_bound [of v] uint_u8_bound [of "write_latch s"] by auto
  have w: "chan_inv i (t\<lparr>write_state := x\<rparr>)" if "chan_inv i t" "x \<le> 4" for t x
    using that by (simp add: chan_inv_def)
  show ?thesis
    using pit_load_count_ok [OF c, of "uint v * 256" now] pit_load_count_ok [OF c, of "uint v" now]
      pit_load_count_ok [OF c, of "uint (write_latch s) + 256 * uint v" now] b assms w [of s] w
    by (auto simp: pit_write_counter_def word_count_bounds chan_inv_def)
qed

lemma pit_read_counter_ok:
  assumes "chan_inv i s"
  shows "\<exists>s' r. pit_read_counter now s = Some (s', r) \<and> chan_inv i s'"
proof -
  obtain c where "pit_get_count now s = Some c"
    using pit_get_count_defined [of s now] assms by (auto simp: chan_inv_def)
  then show ?thesis using assms by (auto simp: pit_read_counter_def chan_inv_def)
qed

lemma pit_read_latched_inv: "chan_inv i s \<Longrightarrow> chan_inv i (fst (pit_read_latched s))"
  by (simp add: pit_read_latched_def chan_inv_def)

lemma pit_ioport_read_ok:
  assumes "pit_inv pit" "addr AND 3 \<noteq> 3"
  shows "\<exists>pit' r. pit_ioport_read now addr pit = Some (pit', r) \<and> pit_inv pit'"
proof -
  define i where "i = unat (addr AND 3)"
  have "addr AND 3 \<le> 3" by (rule word_and_le1)
  with assms(2) have "i < 3"
    by (simp add: i_def word_le_nat_alt word_unat_eq_iff)
  note c = pit_inv_channel [OF assms(1) this]
  let ?s = "channels pit i"
  have "chan_inv i (?s\<lparr>status_latched := 0\<rparr>)" using c by (simp add: chan_inv_def)
  moreover obtain s1 r1 where "pit_read_latched ?s = (s1, r1)" "chan_inv i s1"
    using pit_read_latched_inv [OF c] by (cases "pit_read_latched ?s") auto
  moreover obtain s2 r2 where "pit_read_counter now ?s = Some (s2, r2)" "chan_inv i s2"
    using pit_read_counter_ok [OF c] by blast
  ultimately show ?thesis
    using assms(1) unfolding pit_ioport_read_def Let_def i_def [symmetric]
    by (cases "status_latched ?s \<noteq> 0"; cases "count_latched ?s \<noteq> 0") (auto intro: pit_inv_set)
qed

lemma pit_ioport_write_ok:
  assumes "pit_inv pit"
  shows "\<exists>pit'. pit_ioport_write now addr v pit = Some pit' \<and> pit_inv pit'"
proof (cases "addr AND 3 = 3")
  case True
  then show ?thesis using pit_write_control_ok [OF assms] by (simp add: pit_ioport_write_def)
next
  case False
  have "addr AND 3 \<le> 3" by (rule word_and_le1)
  with False have "unat (addr AND 3) < 3" by (simp add: word_le_nat_alt word_unat_eq_iff)
  from pit_write_counter_ok [OF pit_inv_channel [OF assms this], of now v] obtain s where
    "pit_write_counter now v (channels pit (unat (addr AND 3))) = Some s" "chan_inv (unat (addr AND 3)) s"
    by blast
  with False show ?thesis using pit_inv_set [OF assms] by (simp add: pit_ioport_write_def Let_def)
qed

lemma pit_reset_channel_ok:
  assumes "chan_inv i ((channels pit i)\<lparr>count := 1\<rparr>)"
  shows "\<exists>s. pit_reset_channel now i pit = Some (set_channel pit i s) \<and> chan_inv i s"
proof -
  have "chan_inv i ((channels pit i)\<lparr>mode := 3, gate := (if i \<noteq> 2 then 1 else 0), count := 1\<rparr>)"
    using assms by (simp add: chan_inv_def)
  from pit_load_count_ok [OF this, of 0 now] show ?thesis by (auto simp: pit_reset_channel_def)
qed

lemma pit_reset_ok:
  assumes "\<And>i. i < 3 \<Longrightarrow> chan_inv i ((channels pit i)\<lparr>count := 1\<rparr>)"
  shows "\<exists>pit'. pit_reset now pit = Some pit' \<and> pit_inv pit'"
proof -
  obtain a where a: "pit_reset_channel now 0 pit = Some (set_channel pit 0 a)" "chan_inv 0 a"
    using pit_reset_channel_ok [of 0 pit] assms by auto
  obtain b where b: "pit_reset_channel now 1 (set_channel pit 0 a) = Some (set_channel (set_channel pit 0 a) 1 b)"
    "chan_inv 1 b"
    using pit_reset_channel_ok [of 1 "set_channel pit 0 a"] assms [of 1] by auto
  obtain c where c: "pit_reset_channel now 2 (set_channel (set_channel pit 0 a) 1 b) =
      Some (set_channel (set_channel (set_channel pit 0 a) 1 b) 2 c)" "chan_inv 2 c"
    using pit_reset_channel_ok [of 2 "set_channel (set_channel pit 0 a) 1 b"] assms [of 2] by auto
  have "pit_inv (set_channel (set_channel (set_channel pit 0 a) 1 b) 2 c)"
  proof -
    have "i = 0 \<or> i = 1 \<or> i = 2" if "i < 3" for i :: nat using that by arith
    then show ?thesis using a(2) b(2) c(2) by (fastforce simp: pit_inv_def)
  qed
  then show ?thesis using a b c by (simp add: pit_reset_def)
qed

lemma pit_count_inv: "chan_inv i s \<Longrightarrow> chan_inv i (s\<lparr>count := 1\<rparr>)"
  by (simp add: chan_inv_def)

lemma pit_set_gate_ok:
  assumes "pit_inv pit" "i < 3"
  shows "\<exists>pit'. pit_set_gate now pit i (of_bool v) = Some pit' \<and> pit_inv pit'"
proof -
  let ?s = "channels pit i" and ?v = "of_bool v :: u8"
  note c = pit_inv_channel [OF assms]
  have "chan_inv i (?s\<lparr>count_load_time := now\<rparr>)" using c by (simp add: chan_inv_def)
  from pit_irq_timer_update_ok [OF this, of now] obtain s where
    s: "pit_irq_timer_update (?s\<lparr>count_load_time := now\<rparr>) now = Some s" "chan_inv i s" by blast
  have g: "chan_inv i (t\<lparr>gate := w\<rparr>)" if "chan_inv i t" "w \<le> 1" for t w using that by (simp add: chan_inv_def)
  show ?thesis
    using s c assms(1) by (auto simp: pit_set_gate_def Let_def intro!: pit_inv_set g)
qed

lemma pit_do_ok:
  assumes "pit_inv s" "pit_enabled now e s"
  shows "\<exists>t. pit_do now e s = Some t \<and> pit_inv t"
proof (cases e)
  case (Pit_read addr)
  then show ?thesis using pit_ioport_read_ok [OF assms(1), of addr now] assms(2) by auto
next
  case Pit_timer
  have "chan_inv 0 ((channels s 0)\<lparr>irq_timer := Some None\<rparr>)"
    using pit_inv_channel [OF assms(1), of 0] by (simp add: chan_inv_def)
  from pit_irq_timer_update_ok [OF this, of "next_transition_time (channels s 0)"] obtain c where
    "pit_irq_timer ((channels s 0)\<lparr>irq_timer := Some None\<rparr>) = Some c" "chan_inv 0 c"
    by (auto simp: pit_irq_timer_def)
  with Pit_timer show ?thesis using pit_inv_set [OF assms(1), of 0] by simp
next
  case Pit_hpet_disable
  have "chan_inv 0 ((channels s 0)\<lparr>irq_timer := map_option (\<lambda>_. None) (irq_timer (channels s 0))\<rparr>)"
    using pit_inv_channel [OF assms(1), of 0] by (simp add: chan_inv_def)
  with Pit_hpet_disable show ?thesis using pit_inv_set [OF assms(1)] by (simp add: hpet_pit_disable_def Let_def)
next
  case Pit_hpet_enable
  have "chan_inv 0 ((channels s 0)\<lparr>mode := 3, gate := 1, count := 1\<rparr>)"
    using pit_inv_channel [OF assms(1), of 0] by (simp add: chan_inv_def)
  from pit_load_count_ok [OF this, of 0 now] obtain c where
    "pit_load_count now ((channels s 0)\<lparr>mode := 3, gate := 1\<rparr>) 0 = Some c" "chan_inv 0 c" by auto
  with Pit_hpet_enable show ?thesis
    using pit_inv_set [OF assms(1)] by (simp add: hpet_pit_enable_def)
next
  case Pit_reset
  then show ?thesis
    using pit_reset_ok [of s now] pit_count_inv [OF pit_inv_channel [OF assms(1)]] by simp
next
  case (Pit_gate i v)
  then show ?thesis using pit_set_gate_ok [OF assms(1), of i now v] assms(2) by simp
next
  case (Pit_write addr v)
  then show ?thesis using pit_ioport_write_ok [OF assms(1)] by simp
qed

lemma pit_init_ok: "\<exists>s. pit_reset now pit_init = Some s \<and> pit_inv s"
  by (rule pit_reset_ok) (auto simp: pit_init_def pit_zero_def chan_inv_def)

interpretation pit: device pit_start pit_step pit_inv
proof
  show "pit_inv s" if "pit_start s" for s
    using that pit_init_ok by (auto simp: pit_start_def) (metis option.inject)
  show "pit_inv t" if "pit_step s t" "pit_inv s" for s t
    using that pit_do_ok by (auto simp: pit_step_def) (metis option.inject)
qed

section \<open>Properties of the timer\<close>

text \<open>C26: From reset on, no event of the interval timer divides by zero: every enabled event has a
  result, and each count stays between 1 and 65536.\<close>

theorem pit_never_traps:
  assumes "reach pit_start pit_step s" "pit_enabled now e s"
  shows "pit_do now e s \<noteq> None \<and>
    (\<forall>i < 3. 1 \<le> count (channels s i) \<and> count (channels s i) \<le> 65536)"
  using pit.reachable_inv [OF assms(1)] pit_do_ok [OF _ assms(2)]
  by (auto simp: pit_inv_def chan_inv_def)

theorem pit_never_traps_witness:
  "\<exists>s. pit_reset 0 pit_init = Some s \<and> pit_do 5000000 (Pit_read 0x40) s \<noteq> None"
proof -
  obtain s where s: "pit_reset 0 pit_init = Some s" using pit_init_ok by blast
  then have "reach pit_start pit_step s" by (intro reach_init) (auto simp: pit_start_def)
  then have "pit_do 5000000 (Pit_read 0x40) s \<noteq> None"
    using pit_never_traps [of s 5000000 "Pit_read 0x40"] by simp
  with s show ?thesis by blast
qed

lemma pit_square_one:
  "pit_constant 3 1 d (\<lambda>e. True)" "pit_next_tick 3 1 d = Some (Some (d + 1))"
proof -
  have "(d :: u64) div 1 * 1 = d" "(e :: u64) mod 1 = 0" for e by (simp_all add: word_arith_nat_div word_arith_nat_mod)
  then show "pit_constant 3 1 d (\<lambda>e. True)" "pit_next_tick 3 1 d = Some (Some (d + 1))"
    by (simp_all add: pit_constant_def pit_out_tick_def pit_next_tick_def Let_def)
qed

text \<open>C27: In every mode but 2, the tick at which the interval timer arms its timer is the next one
  at which the channel's output changes; it arms none exactly when the output never changes
  again. The exception is a square wave (mode 3) with count 1: its output never changes, and the
  timer is armed for every tick.\<close>

theorem pit_next_tick_exact:
  assumes "m \<noteq> 2" "0 < unat n" "unat n \<le> 65536" "unat d < 2 ^ 63"
  shows "if m = 3 \<and> n = 1 then pit_constant m n d (\<lambda>e. True) \<and> pit_next_tick m n d = Some (Some (d + 1))
    else case pit_next_tick m n d of None \<Rightarrow> False
    | Some None \<Rightarrow> pit_constant m n d (\<lambda>e. True)
    | Some (Some k) \<Rightarrow> d < k \<and> pit_out_tick m n k \<noteq> pit_out_tick m n d \<and> pit_constant m n d (\<lambda>e. e < k)"
proof (cases "m = 3 \<and> n = 1")
  case True
  then show ?thesis using pit_square_one by simp
next
  case False
  have "n = 1 \<longleftrightarrow> unat n = 1" by (simp add: word_unat_eq_iff)
  then have "m = 3 \<longrightarrow> 2 \<le> unat n" using False assms(2) by linarith
  then show ?thesis
    using False pit_next_tick_square [of n d] pit_next_tick_oneshot [of m n d] assms
    by (cases "m = 3") (auto split: option.splits)
qed

theorem pit_next_tick_exact_witness:
  "\<exists>k. pit_next_tick 3 1000 1700 = Some (Some k) \<and> pit_out_tick 3 1000 k \<noteq> pit_out_tick 3 1000 1700"
proof -
  have "pit_next_tick 3 1000 1700 = Some (Some 2000)" by code_simp
  with pit_next_tick_exact [of 3 1000 1700] show ?thesis by simp
qed

text \<open>In mode 2 the tick the code computes is not a transition: at the pulse it skips the falling
  edge, elsewhere it lands one tick after the pulse.\<close>

lemma pit_mode2_no_transition:
  "pit_next_tick 2 1000 0 = Some (Some 1001)" "pit_out_tick 2 1000 0 = Some False"
  "pit_out_tick 2 1000 1000 = Some True" "pit_out_tick 2 1000 1001 = Some False"
  by code_simp+

theorem pit_programs_count:
  assumes "pit_inv pit" "i < 3" "unat (drop_bit 6 v) = i" "drop_bit 4 v AND 3 = 3"
  shows "\<exists>p1 p2 p3. pit_ioport_write t1 3 v pit = Some p1 \<and>
    pit_ioport_write t2 (of_nat i) lo p1 = Some p2 \<and> pit_ioport_write t3 (of_nat i) hi p2 = Some p3 \<and>
    count (channels p3 i) = (let c = uint lo + 256 * uint hi in if c = 0 then 65536 else c) \<and>
    count_load_time (channels p3 i) = t3 \<and> write_state (channels p3 i) = RW_STATE_WORD0"
proof -
  have a: "of_nat i AND (3 :: u32) = of_nat i" "unat (of_nat i :: u32) = i" "(of_nat i :: u32) \<noteq> 3"
  proof -
    have "i = 0 \<or> i = 1 \<or> i = 2" using assms(2) by arith
    then show "of_nat i AND (3 :: u32) = of_nat i" "unat (of_nat i :: u32) = i" "(of_nat i :: u32) \<noteq> 3"
      by auto
  qed
  define s where "s = (channels pit i)\<lparr>rw_mode := 3, read_state := 3, write_state := 3,
    mode := drop_bit 1 v AND 7, bcd := v AND 1\<rparr>"
  have p1: "pit_ioport_write t1 3 v pit = Some (set_channel pit i s)"
    using assms(2-4) by (simp add: pit_ioport_write_def pit_write_control_def Let_def s_def)
  define s2 where "s2 = s\<lparr>write_latch := lo, write_state := RW_STATE_WORD1\<rparr>"
  have p2: "pit_ioport_write t2 (of_nat i) lo (set_channel pit i s) = Some (set_channel (set_channel pit i s) i s2)"
    using a by (simp add: pit_ioport_write_def pit_write_counter_def Let_def s2_def) (simp add: s_def)
  have "chan_inv i (s2\<lparr>count := 1\<rparr>)"
    using pit_inv_channel [OF assms(1,2)] byte_bounds(2) [of v] by (auto simp: chan_inv_def s_def s2_def)
  from pit_load_count_ok [OF this, of "uint lo + 256 * uint hi" t3] obtain s3 where
    s3: "pit_load_count t3 s2 (uint lo + 256 * uint hi) = Some s3"
      "count s3 = (if uint lo + 256 * uint hi = 0 then 65536 else uint lo + 256 * uint hi)" "count_load_time s3 = t3"
    using uint_u8_bound [of lo] uint_u8_bound [of hi] by auto
  have "write_state s2 = 4" "write_latch s2 = lo" by (simp_all add: s2_def)
  then have "pit_ioport_write t3 (of_nat i) hi (set_channel (set_channel pit i s) i s2) =
      Some (set_channel (set_channel (set_channel pit i s) i s2) i (s3\<lparr>write_state := RW_STATE_WORD0\<rparr>))"
    using a s3(1) by (simp add: pit_ioport_write_def pit_write_counter_def Let_def word_count_bounds)
  with p1 p2 s3(2,3) show ?thesis by (simp add: Let_def)
qed

theorem pit_programs_count_witness:
  "\<exists>s p1 p2 p3. pit_reset 0 pit_init = Some s \<and> pit_ioport_write 1 3 0x34 s = Some p1 \<and>
    pit_ioport_write 2 0 0x9c p1 = Some p2 \<and> pit_ioport_write 3 0 0x2e p2 = Some p3 \<and> count (channels p3 0) = 11932"
proof -
  obtain s where s: "pit_reset 0 pit_init = Some s" "pit_inv s" using pit_init_ok by blast
  from pit_programs_count [OF s(2), of 0 "0x34" 1 2 "0x9c" 3 "0x2e"] s(1) show ?thesis by auto
qed

theorem pit_count_range:
  assumes "chan_inv i s" "pit_get_count now s = Some c"
  shows "(if mode s \<in> {0, 1, 4, 5} then c = (count s - uint (pit_elapsed s now)) mod 65536
          else 1 \<le> c \<and> c \<le> count s)"
proof -
  have b: "1 \<le> count s" "count s \<le> 65536" using assms(1) by (simp_all add: chan_inv_def)
  define n where "n = (word_of_int (count s) :: u64)"
  have n: "n \<noteq> 0" "uint n = count s" unfolding n_def by (rule count_word [OF b])+
  have low: "uint ((n - d) AND 0xffff) = (count s - uint d) mod 65536" for d
  proof -
    have "uint ((n - d) AND mask 16) = uint (n - d) mod 2 ^ 16"
      by (simp only: unsigned_take_bit_eq flip: take_bit_eq_mask take_bit_eq_mod)
    also have "uint (n - d) mod 2 ^ 16 = (count s - uint d) mod 2 ^ 64 mod 2 ^ 16"
      using n(2) by (simp add: uint_word_ariths(2))
    also have "\<dots> = (count s - uint d) mod 2 ^ 16"
      by (rule mod_mod_cancel) (simp add: le_imp_power_dvd)
    finally show ?thesis by (simp add: mask_eq_exp_minus_1)
  qed
  have range: "1 \<le> uint (n - d mod n)" "uint (n - d mod n) \<le> count s" for d
  proof -
    have "uint (d mod n) = uint d mod uint n" by (rule uint_mod)
    moreover have "uint d mod uint n < uint n" "0 \<le> uint d mod uint n"
      using n(2) b(1) by (simp_all add: pos_mod_bound)
    moreover have "uint (n - d mod n) = uint n - uint (d mod n)"
      using calculation by (intro uint_minus_simple_alt [THEN iffD1]) (simp add: word_le_def)
    ultimately show "1 \<le> uint (n - d mod n)" "uint (n - d mod n) \<le> count s" using n(2) by simp_all
  qed
  show ?thesis
    using assms(2) n(1) low range by (auto simp: pit_get_count_def Let_def n_def [symmetric] split: if_splits)
qed

theorem pit_count_range_witness:
  "\<exists>c. pit_get_count 2000000 (pit_zero\<lparr>count := 1000, mode := 2\<rparr>) = Some c \<and> 1 \<le> c \<and> c \<le> 1000"
proof -
  let ?s = "pit_zero\<lparr>count := 1000, mode := 2\<rparr>"
  have "chan_inv 1 ?s" by (simp add: chan_inv_def pit_zero_def)
  moreover obtain c where "pit_get_count 2000000 ?s = Some c"
    using pit_get_count_defined [of ?s 2000000] by (auto simp: pit_zero_def)
  ultimately show ?thesis using pit_count_range [of 1 ?s 2000000 c] by (simp add: pit_zero_def)
qed

text \<open>A latched count is what the next two reads return, whenever they come.\<close>

theorem pit_latch_holds:
  assumes "pit_inv pit" "i < 3" "rw_mode (channels pit i) = 3" "count_latched (channels pit i) = 0"
    and "status_latched (channels pit i) = 0" "v = push_bit 6 (of_nat i)"
  shows "\<exists>c p1 p2 p3. pit_get_count t0 (channels pit i) = Some c \<and>
    pit_ioport_write t0 3 v pit = Some p1 \<and>
    pit_ioport_read t1 (of_nat i) p1 = Some (p2, word_of_int c) \<and>
    pit_ioport_read t2 (of_nat i) p2 = Some (p3, ucast (drop_bit 8 (word_of_int c :: u16))) \<and>
    count_latched (channels p3 i) = 0"
proof -
  have i: "i = 0 \<or> i = 1 \<or> i = 2" using assms(2) by arith
  then have a: "unat (of_nat i AND (3 :: u32)) = i" by auto
  have v: "unat (drop_bit 6 v) = i" "drop_bit 4 v AND 3 = 0" using i assms(6) by auto
  let ?s = "channels pit i"
  obtain c where c: "pit_get_count t0 ?s = Some c"
    using pit_get_count_defined [of ?s t0] pit_inv_channel [OF assms(1,2)] by (auto simp: chan_inv_def)
  let ?s1 = "?s\<lparr>latched_count := word_of_int c, count_latched := 3\<rparr>"
  have p1: "pit_ioport_write t0 3 v pit = Some (set_channel pit i ?s1)"
    using v assms(2-4) c by (simp add: pit_ioport_write_def pit_write_control_def Let_def pit_latch_count_def)
  have "(0xff :: u16) = mask 8" by (simp add: mask_eq_exp_minus_1)
  then have "bit (0xff :: u16) n" if "n < 8" for n using that by (simp only: bit_mask_iff) simp
  then have "ucast (word_of_int c AND (0xff :: u16)) = (word_of_int c :: u8)"
    by (intro bit_word_eqI) (auto simp: bit_simps)
  then have p2: "pit_ioport_read t1 (of_nat i) (set_channel pit i ?s1) =
      Some (set_channel (set_channel pit i ?s1) i (?s1\<lparr>count_latched := 2\<rparr>), word_of_int c)"
    using a assms(5) by (simp add: pit_ioport_read_def Let_def pit_read_latched_def)
  have "pit_ioport_read t2 (of_nat i) (set_channel (set_channel pit i ?s1) i (?s1\<lparr>count_latched := 2\<rparr>)) =
      Some (set_channel (set_channel (set_channel pit i ?s1) i (?s1\<lparr>count_latched := 2\<rparr>)) i
        (?s1\<lparr>count_latched := 0\<rparr>), ucast (drop_bit 8 (word_of_int c :: u16)))"
    using a assms(5) by (simp add: pit_ioport_read_def Let_def pit_read_latched_def)
  with c p1 p2 show ?thesis by simp
qed

definition sample_pit :: PITState where
  "sample_pit = \<lparr>channels = (\<lambda>i. pit_zero\<lparr>count := 1000, mode := 2, rw_mode := 3,
      irq_timer := (if i = 0 then Some None else None)\<rparr>)\<rparr>"

theorem pit_latch_holds_witness:
  "\<exists>c p1 p2. pit_ioport_write 700 3 0 sample_pit = Some p1 \<and>
    pit_ioport_read 900 0 p1 = Some (p2, word_of_int c)"
proof -
  have "pit_inv sample_pit" by (simp add: sample_pit_def pit_inv_def chan_inv_def pit_zero_def)
  moreover have "rw_mode (channels sample_pit 0) = 3" "count_latched (channels sample_pit 0) = 0"
    "status_latched (channels sample_pit 0) = 0" by (simp_all add: sample_pit_def pit_zero_def)
  ultimately show ?thesis using pit_latch_holds [of sample_pit 0 0 700 900 1000] by auto
qed

text \<open>In the periodic modes the timer of channel 0 is always armed again, for a later time.\<close>

lemma unat_base_le: "unat (d div n * n :: u64) \<le> unat d"
proof -
  have "unat d div unat n * unat n \<le> unat d" by simp
  moreover have "unat d < 2 ^ 64" using unat_bounds(4) [of d] by simp
  ultimately have "unat d div unat n * unat n < 2 ^ 64" by (rule order_le_less_trans)
  then show ?thesis by (simp add: unat_mult_u64 unat_div)
qed

lemma periodic_tick_bound:
  assumes "m = 2 \<or> m = 3" "n \<noteq> 0" "unat n \<le> 65536" "unat d < 2 ^ 63"
  shows "\<exists>k. pit_next_tick m n d = Some (Some k) \<and> unat k \<le> unat d + 65537"
proof -
  note base = unat_base_le [of d n]
  have half: "unat (drop_bit 1 (n + 1)) \<le> 65536" using half_period [OF assms(3)] assms(3) by simp
  have "unat (d div n * n + n) \<le> unat d + 65536" "unat (d div n * n + n + 1) \<le> unat d + 65537"
    "unat (d div n * n + drop_bit 1 (n + 1)) \<le> unat d + 65536"
    using base half assms(3,4) by (simp_all add: unat_add_u64)
  then show ?thesis using assms(1,2) by (auto simp: pit_next_tick_def Let_def)
qed

lemma pit_next_time_bounds:
  assumes "chan_inv 0 s" "mode s = 2 \<or> mode s = 3" "0 \<le> count_load_time s" "count_load_time s \<le> t" "t < 2 ^ 62"
  shows "\<exists>e. pit_get_next_transition_time s t = Some e \<and> t < e \<and> e \<le> t + 60000000"
proof -
  let ?L = "count_load_time s" and ?n = "word_of_int (count s) :: u64"
  have b: "1 \<le> count s" "count s \<le> 65536" using assms(1) by (simp_all add: chan_inv_def)
  define d where "d = (t - ?L) * 1193182 div 1000000000"
  have d: "0 \<le> d" "d * 1000000000 \<le> (t - ?L) * 1193182" "d < 2 ^ 62"
    using assms(3-5) by (auto simp: d_def int_div_less_iff simp flip: int_le_div_iff)
  have ud: "int (unat (pit_elapsed s t)) = d"
    unfolding pit_elapsed_def d_def using unat_muldiv64 [of "t - ?L" 1000000000 1193182] d(3) assms(3-5)
    by (simp add: d_def)
  then have "int (unat (pit_elapsed s t)) < int (2 ^ 63)" using d(3) by simp
  then have "unat (pit_elapsed s t) < 2 ^ 63" by (simp only: of_nat_less_iff)
  moreover have "unat ?n \<le> 65536" using count_word(2) [OF b] b(2) by (metis nat_le_iff of_nat_numeral uint_nat unat_eq_nat_uint)
  ultimately obtain k where k: "pit_next_tick (mode s) ?n (pit_elapsed s t) = Some (Some k)"
    "unat k \<le> unat (pit_elapsed s t) + 65537"
    using periodic_tick_bound assms(2) count_word(1) [OF b] by blast
  define M where "M = uint k * 1000000000 div 1193182"
  have "int (unat k) \<le> d + 65537" using k(2) ud by linarith
  then have uk: "0 \<le> uint k" "uint k \<le> d + 65537" by simp_all
  then have "uint k * 1000000000 \<le> d * 1000000000 + 65537 * 1000000000" by simp
  then have "uint k * 1000000000 < (t - ?L + 60000000) * 1193182" using d(2) by simp
  then have M: "0 \<le> M" "M < t - ?L + 60000000" unfolding M_def by (simp_all add: int_div_less_iff pos_imp_zdiv_nonneg_iff)
  have uM: "uint (muldiv64 k 1000000000 1193182) = M"
    using unat_muldiv64 [of "uint k" 1193182 1000000000] uk d(3) M assms(3-5) by (simp add: M_def)
  define N where "N = (word_of_int ?L + muldiv64 k 1000000000 1193182 :: u64)"
  have N: "uint N = ?L + M"
    unfolding N_def using M assms(3-5) by (simp add: uint_word_ariths(1) uM uint_word_of_int_eq take_bit_int_eq_self)
  define E where "E = (if N \<le> word_of_int t then word_of_int t + 1 else N)"
  have t: "uint (word_of_int t :: u64) = t" using assms(3-5) by (simp add: uint_word_of_int_eq take_bit_int_eq_self)
  have E: "uint E = (if ?L + M \<le> t then t + 1 else ?L + M)"
    unfolding E_def using N t assms(3-5) by (simp add: word_le_def uint_word_ariths(1))
  then have bounds: "t < uint E" "uint E \<le> t + 60000000" using M by auto
  then have "sint E = uint E" using assms(5) by (intro sint_small) simp
  moreover have "pit_get_next_transition_time s t = Some (sint E)"
    using k(1) by (simp add: pit_get_next_transition_time_def E_def N_def Let_def)
  ultimately show ?thesis using bounds by simp
qed

theorem pit_periodic_rearms:
  assumes "chan_inv 0 s" "mode s = 2 \<or> mode s = 3" "0 \<le> count_load_time s" "count_load_time s \<le> t" "t < 2 ^ 62"
  shows "\<exists>s' e. pit_irq_timer_update s t = Some s' \<and> irq_timer s' = Some (Some e) \<and>
    next_transition_time s' = e \<and> t < e \<and> e \<le> t + 60000000"
proof -
  obtain e where e: "pit_get_next_transition_time s t = Some e" "t < e" "e \<le> t + 60000000"
    using pit_next_time_bounds [OF assms] by blast
  obtain b where "pit_get_out1 s t = Some b"
    using pit_get_out1_defined [of s t] assms(1) by (auto simp: chan_inv_def)
  moreover obtain x where "irq_timer s = Some x" using assms(1) by (auto simp: chan_inv_def)
  ultimately show ?thesis
    using e assms(3,4) by (simp add: pit_irq_timer_update_def)
qed

theorem pit_periodic_rearms_witness:
  "\<exists>s' e. pit_irq_timer_update (channels sample_pit 0) 777777 = Some s' \<and> irq_timer s' = Some (Some e) \<and> 777777 < e"
proof -
  have "chan_inv 0 (channels sample_pit 0)" "mode (channels sample_pit 0) = 2"
    "count_load_time (channels sample_pit 0) = 0"
    by (simp_all add: sample_pit_def chan_inv_def pit_zero_def)
  then show ?thesis using pit_periodic_rearms [of "channels sample_pit 0" 777777] by auto
qed

end
