(* ===== verification/Byte_Fifo.thy ===== *)
theory Byte_Fifo
  imports Prelude
begin

text \<open>
  Byte queues of bounded capacity, the interface the keyboard, the mouse and the serial port have to
  the buffers between them and the guest. The locale \<open>byte_fifo\<close> states what a queue promises while it
  has room; \<open>dropping_fifo\<close> adds what happens when it is full. The lemmas on sequences of operations
  are proved once here. Both devices implement the queue as an array used as a ring, whose contents
  are the function \<open>ring\<close>.
\<close>

section \<open>Rings\<close>

definition ring :: "'a list \<Rightarrow> nat \<Rightarrow> nat \<Rightarrow> 'a list" where
  "ring xs r n = map (\<lambda>i. xs ! ((r + i) mod length xs)) [0..<n]"

lemma length_ring [simp]: "length (ring xs r n) = n"
  by (simp add: ring_def)

lemma ring_0 [simp]: "ring xs r 0 = []"
  by (simp add: ring_def)

lemma ring_put:
  assumes "n < length xs" "w = (r + n) mod length xs"
  shows "ring (xs[w := b]) r (Suc n) = ring xs r n @ [b]"
proof -
  have neq: "(r + n) mod length xs \<noteq> (r + i) mod length xs" if "i < n" for i
  proof
    assume "(r + n) mod length xs = (r + i) mod length xs"
    then have "length xs dvd n - i"
      using that mod_eq_dvd_iff_nat [of "r + i" "r + n" "length xs"] by simp
    with assms(1) that show False by (auto dest: dvd_imp_le)
  qed
  have less: "(r + i) mod length xs < length xs" for i using assms(1) by (intro mod_less_divisor) auto
  show ?thesis
    unfolding assms(2) by (simp add: ring_def nth_list_update neq less)
qed

lemma ring_get:
  assumes "r < length xs" "0 < n"
  shows "ring xs r n = xs ! r # ring xs ((r + 1) mod length xs) (n - 1)"
proof -
  obtain k where n: "n = Suc k" using assms(2) by (cases n) auto
  have "(r + Suc i) mod length xs = ((r + 1) mod length xs + i) mod length xs" for i
    by (simp add: mod_add_left_eq)
  then show ?thesis
    using assms(1) unfolding n ring_def
    by (simp add: upt_conv_Cons map_Suc_upt [symmetric] mod_add_left_eq del: upt_Suc)
qed

text \<open>The pointers of a ring of \<open>cap\<close> places after one place is added or taken.\<close>

lemma ring_write_pointer:
  fixes r cap n w :: nat
  assumes "0 < cap" "w = (r + n) mod cap"
  shows "(if w + 1 = cap then 0 else w + 1) = (r + Suc n) mod cap"
  using assms by (simp add: mod_Suc)

lemma ring_read_pointer:
  fixes r cap n :: nat
  assumes "r < cap" "0 < n"
  defines "r' \<equiv> if r + 1 = cap then 0 else r + 1"
  shows "r' < cap" "r' = (r + 1) mod cap" "(r' + (n - 1)) mod cap = (r + n) mod cap"
proof -
  show "r' < cap" "r' = (r + 1) mod cap" using assms by auto
  show "(r' + (n - 1)) mod cap = (r + n) mod cap"
  proof (cases "r + 1 = cap")
    case True
    then have "r + n = (n - 1) + cap" using assms(2) by simp
    then have "(r + n) mod cap = (n - 1) mod cap" by (simp only: mod_add_self2)
    then show ?thesis using True by (simp add: r'_def)
  next
    case False
    then show ?thesis using assms(2) by (simp add: r'_def)
  qed
qed

section \<open>Queues\<close>

locale byte_fifo =
  fixes inv :: "'q \<Rightarrow> bool" and contents :: "'q \<Rightarrow> u8 list" and cap :: nat
    and put :: "u8 \<Rightarrow> 'q \<Rightarrow> 'q" and get :: "'q \<Rightarrow> u8 \<times> 'q"
  assumes bounded: "inv q \<Longrightarrow> length (contents q) \<le> cap"
    and put_room: "inv q \<Longrightarrow> length (contents q) < cap \<Longrightarrow> inv (put b q) \<and> contents (put b q) = contents q @ [b]"
    and get_first: "inv q \<Longrightarrow> contents q \<noteq> [] \<Longrightarrow>
      inv (snd (get q)) \<and> contents q = fst (get q) # contents (snd (get q))"
begin

primrec get_many :: "nat \<Rightarrow> 'q \<Rightarrow> u8 list \<times> 'q" where
  "get_many 0 q = ([], q)"
| "get_many (Suc n) q = (let (b, q') = get q; (bs, q'') = get_many n q' in (b # bs, q''))"

lemma put_many:
  "inv q \<Longrightarrow> length (contents q) + length bs \<le> cap \<Longrightarrow>
    inv (fold put bs q) \<and> contents (fold put bs q) = contents q @ bs"
proof (induction bs arbitrary: q)
  case (Cons b bs)
  then have "inv (put b q)" "contents (put b q) = contents q @ [b]" using put_room by auto
  with Cons show ?case by simp
qed simp

lemma get_many_take:
  "inv q \<Longrightarrow> n \<le> length (contents q) \<Longrightarrow>
    fst (get_many n q) = take n (contents q) \<and> inv (snd (get_many n q)) \<and>
    contents (snd (get_many n q)) = drop n (contents q)"
proof (induction n arbitrary: q)
  case (Suc n)
  obtain b q' where g: "get q = (b, q')" by fastforce
  have "contents q \<noteq> []" using Suc.prems(2) by auto
  with get_first [of q] Suc.prems(1) g have q: "inv q'" "contents q = b # contents q'" by auto
  with Suc.IH [of q'] Suc.prems(2) g show ?case by (simp add: split_beta)
qed simp

lemma first_in_first_out:
  assumes "inv q" "length (contents q) + length bs \<le> cap"
  shows "fst (get_many (length (contents q) + length bs) (fold put bs q)) = contents q @ bs"
  using put_many [OF assms] get_many_take [of "fold put bs q" "length (contents q) + length bs"] by simp

end

locale dropping_fifo = byte_fifo +
  assumes put_full: "inv q \<Longrightarrow> length (contents q) = cap \<Longrightarrow> inv (put b q) \<and> contents (put b q) = contents q"
begin

lemma put_any: "inv q \<Longrightarrow> inv (put b q) \<and> contents (put b q) = take cap (contents q @ [b])"
  using bounded [of q] put_room [of q b] put_full [of q b] by (cases "length (contents q) = cap") auto

lemma put_any_many: "inv q \<Longrightarrow> inv (fold put bs q) \<and> contents (fold put bs q) = take cap (contents q @ bs)"
proof (induction bs arbitrary: q)
  case Nil
  then show ?case using bounded by simp
next
  case (Cons b bs)
  have "take cap (take cap (contents q @ [b]) @ bs) = take cap (contents q @ b # bs)"
    using bounded [OF Cons.prems] by (cases "length (contents q) = cap") auto
  with Cons put_any [of q b] show ?case by simp
qed

lemma dropping_order:
  assumes "inv q"
  shows "fst (get_many (min cap (length (contents q) + length bs)) (fold put bs q)) = take cap (contents q @ bs)"
proof -
  let ?q = "fold put bs q"
  have q: "inv ?q" "contents ?q = take cap (contents q @ bs)" using put_any_many [OF assms] by blast+
  then have "length (contents ?q) = min cap (length (contents q) + length bs)" by (simp add: min.commute)
  moreover have "fst (get_many (length (contents ?q)) ?q) = contents ?q"
    using get_many_take [OF q(1), of "length (contents ?q)"] by simp
  ultimately show ?thesis using q(2) by metis
qed

end

end
