(* ===== verification/Ps2.thy ===== *)
theory Ps2
  imports Machine Byte_Fifo
begin

text \<open>
  The PS/2 keyboard and mouse, \<open>qemu/hw/ps2.c\<close>.

  \<^item> \<open>PS2Queue\<close>, \<open>PS2State\<close>, \<open>PS2KbdState\<close> and \<open>PS2MouseState\<close> are the structs of the same names; the
    array of the queue is a list of 256 bytes. The callback \<open>update_irq\<close> is the sequence of its
    arguments, newest first; so is \<open>kbd_put_ledstate\<close> of the display (\<open>ledstates\<close>).
  \<^item> \<open>ps2_queue\<close> takes the byte it stores. The deltas of the mouse are integers.
  \<^item> The loop of \<open>ps2_mouse_event\<close> has no bound of its own; it is a function whose termination is
    proved by the distance left to report.
\<close>

unbundle bit_operations_syntax

abbreviation (input) PS2_QUEUE_SIZE :: nat where "PS2_QUEUE_SIZE \<equiv> 256"

section \<open>State\<close>

record PS2Queue =
  qdata :: "u8 list"
  rptr :: nat
  wptr :: nat
  count :: nat

record PS2State =
  queue :: PS2Queue
  write_cmd :: int
  update_irq :: "bool list"

record PS2KbdState =
  kbd_common :: PS2State
  scan_enabled :: bool
  translate :: bool
  scancode_set :: int
  ledstates :: "int list"

record PS2MouseState =
  mouse_common :: PS2State
  mouse_status :: u8
  mouse_resolution :: u8
  mouse_sample_rate :: u8
  mouse_wrap :: bool
  mouse_type :: u8
  mouse_detect_state :: u8
  mouse_dx :: int
  mouse_dy :: int
  mouse_dz :: int
  mouse_buttons :: u8

definition ps2_raw_keycode :: "u8 list" where
  "ps2_raw_keycode =
    [0, 118, 22, 30, 38, 37, 46, 54, 61, 62, 70, 69, 78, 85, 102, 13,
     21, 29, 36, 45, 44, 53, 60, 67, 68, 77, 84, 91, 90, 20, 28, 27,
     35, 43, 52, 51, 59, 66, 75, 76, 82, 14, 18, 93, 26, 34, 33, 42,
     50, 49, 58, 65, 73, 74, 89, 124, 17, 41, 88, 5, 6, 4, 12, 3,
     11, 2, 10, 1, 9, 119, 126, 108, 117, 125, 123, 107, 115, 116, 121, 105,
     114, 122, 112, 113, 127, 96, 97, 120, 7, 15, 23, 31, 39, 47, 55, 63,
     71, 79, 86, 94, 8, 16, 24, 32, 40, 48, 56, 64, 72, 80, 87, 111,
     19, 25, 57, 81, 83, 92, 95, 98, 99, 100, 101, 103, 104, 106, 109, 110]"

section \<open>The queue\<close>

definition ps2_queue :: "u8 \<Rightarrow> PS2State \<Rightarrow> PS2State" where
  "ps2_queue b s =
    (let q = queue s in
     if count q \<ge> PS2_QUEUE_SIZE then s
     else
       (let q = q\<lparr>qdata := (qdata q)[wptr q := b]\<rparr>;
            q = q\<lparr>wptr := (if wptr q + 1 = PS2_QUEUE_SIZE then 0 else wptr q + 1)\<rparr>;
            q = q\<lparr>count := count q + 1\<rparr>
        in s\<lparr>queue := q, update_irq := True # update_irq s\<rparr>))"

definition ps2_read_data :: "PS2State \<Rightarrow> u8 \<times> PS2State" where
  "ps2_read_data s =
    (let q = queue s in
     if count q = 0
     then (qdata q ! (if rptr q = 0 then PS2_QUEUE_SIZE - 1 else rptr q - 1), s)
     else
       (let v = qdata q ! rptr q;
            q = q\<lparr>rptr := (if rptr q + 1 = PS2_QUEUE_SIZE then 0 else rptr q + 1)\<rparr>;
            q = q\<lparr>count := count q - 1\<rparr>
        in (v, s\<lparr>queue := q, update_irq := (count q \<noteq> 0) # False # update_irq s\<rparr>)))"

definition ps2_common_reset :: "PS2State \<Rightarrow> PS2State" where
  "ps2_common_reset s =
    s\<lparr>write_cmd := - 1, queue := (queue s)\<lparr>rptr := 0, wptr := 0, count := 0\<rparr>,
      update_irq := False # update_irq s\<rparr>"

section \<open>Keyboard\<close>

definition kbd_queue :: "u8 \<Rightarrow> PS2KbdState \<Rightarrow> PS2KbdState" where
  "kbd_queue b s = s\<lparr>kbd_common := ps2_queue b (kbd_common s)\<rparr>"

definition kbd_set_cmd :: "int \<Rightarrow> PS2KbdState \<Rightarrow> PS2KbdState" where
  "kbd_set_cmd c s = s\<lparr>kbd_common := (kbd_common s)\<lparr>write_cmd := c\<rparr>\<rparr>"

definition ps2_put_keycode :: "int \<Rightarrow> PS2KbdState \<Rightarrow> PS2KbdState" where
  "ps2_put_keycode keycode s =
    (if \<not> translate s \<and> keycode < 0xe0 \<and> scancode_set s = 2
     then
       (let s = (if keycode AND 0x80 \<noteq> 0 then kbd_queue 0xf0 s else s)
        in kbd_queue (ps2_raw_keycode ! nat (keycode AND 0x7f)) s)
     else kbd_queue (word_of_int keycode) s)"

definition ps2_reset_keyboard :: "PS2KbdState \<Rightarrow> PS2KbdState" where
  "ps2_reset_keyboard s = s\<lparr>scan_enabled := True, scancode_set := 2, ledstates := 0 # ledstates s\<rparr>"

definition ps2_keyboard_command :: "int \<Rightarrow> PS2KbdState \<Rightarrow> PS2KbdState" where
  "ps2_keyboard_command v s =
    (if v = 0x00 then kbd_queue 0xfa s
     else if v = 0x05 then kbd_queue 0xfe s
     else if v = 0xf2
     then kbd_queue (if translate s then 0x41 else 0x83) (kbd_queue 0xab (kbd_queue 0xfa s))
     else if v = 0xee then kbd_queue 0xee s
     else if v = 0xf4 then kbd_queue 0xfa (s\<lparr>scan_enabled := True\<rparr>)
     else if v = 0xf0 \<or> v = 0xed \<or> v = 0xf3 then kbd_queue 0xfa (kbd_set_cmd v s)
     else if v = 0xf5 then kbd_queue 0xfa ((ps2_reset_keyboard s)\<lparr>scan_enabled := False\<rparr>)
     else if v = 0xf6 then kbd_queue 0xfa ((ps2_reset_keyboard s)\<lparr>scan_enabled := True\<rparr>)
     else if v = 0xff then kbd_queue 0xaa (kbd_queue 0xfa (ps2_reset_keyboard s))
     else kbd_queue 0xfa s)"

definition ps2_write_keyboard :: "int \<Rightarrow> PS2KbdState \<Rightarrow> PS2KbdState" where
  "ps2_write_keyboard v s =
    (let cmd = write_cmd (kbd_common s) in
     if cmd = 0xf0
     then
       (let s = (if v = 0
                 then (if scancode_set s = 1 then ps2_put_keycode 0x43 s
                       else if scancode_set s = 2 then ps2_put_keycode 0x41 s
                       else if scancode_set s = 3 then ps2_put_keycode 0x3f s else s)
                 else kbd_queue 0xfa (if 1 \<le> v \<and> v \<le> 3 then s\<lparr>scancode_set := v\<rparr> else s))
        in kbd_set_cmd (- 1) s)
     else if cmd = 0xed
     then kbd_set_cmd (- 1) (kbd_queue 0xfa (s\<lparr>ledstates := v # ledstates s\<rparr>))
     else if cmd = 0xf3 then kbd_set_cmd (- 1) (kbd_queue 0xfa s)
     else ps2_keyboard_command v s)"

definition ps2_keyboard_set_translation :: "bool \<Rightarrow> PS2KbdState \<Rightarrow> PS2KbdState" where
  "ps2_keyboard_set_translation m s = s\<lparr>translate := m\<rparr>"

definition ps2_kbd_reset :: "PS2KbdState \<Rightarrow> PS2KbdState" where
  "ps2_kbd_reset s =
    s\<lparr>kbd_common := ps2_common_reset (kbd_common s), scan_enabled := False, translate := False, scancode_set := 0\<rparr>"

definition ps2_kbd_post_load :: "int \<Rightarrow> PS2KbdState \<Rightarrow> PS2KbdState" where
  "ps2_kbd_post_load version_id s = (if version_id = 2 then s\<lparr>scancode_set := 2\<rparr> else s)"

section \<open>Mouse\<close>

definition mouse_queue :: "u8 \<Rightarrow> PS2MouseState \<Rightarrow> PS2MouseState" where
  "mouse_queue b s = s\<lparr>mouse_common := ps2_queue b (mouse_common s)\<rparr>"

definition mouse_set_cmd :: "int \<Rightarrow> PS2MouseState \<Rightarrow> PS2MouseState" where
  "mouse_set_cmd c s = s\<lparr>mouse_common := (mouse_common s)\<lparr>write_cmd := c\<rparr>\<rparr>"

definition clamp :: "int \<Rightarrow> int \<Rightarrow> int" where
  "clamp k x = (if x > k then k else if x < - k then - k else x)"

definition ps2_mouse_send_packet :: "PS2MouseState \<Rightarrow> PS2MouseState" where
  "ps2_mouse_send_packet s =
    (let dx1 = clamp 127 (mouse_dx s); dy1 = clamp 127 (mouse_dy s); dz1 = mouse_dz s;
         b = 0x08 OR push_bit 4 (of_bool (dx1 < 0)) OR push_bit 5 (of_bool (dy1 < 0)) OR (mouse_buttons s AND 0x07);
         s = mouse_queue (word_of_int dy1) (mouse_queue (word_of_int dx1) (mouse_queue b s));
         (s, dz1) =
           (if mouse_type s = 3
            then (let dz1 = clamp 127 dz1 in (mouse_queue (word_of_int dz1) s, dz1))
            else if mouse_type s = 4
            then
              (let dz1 = clamp 7 dz1;
                   b = (word_of_int dz1 AND 0x0f) OR push_bit 1 (mouse_buttons s AND 0x18)
               in (mouse_queue b s, dz1))
            else (s, dz1))
     in s\<lparr>mouse_dx := mouse_dx s - dx1, mouse_dy := mouse_dy s - dy1, mouse_dz := mouse_dz s - dz1\<rparr>)"

definition mouse_still :: "PS2MouseState \<Rightarrow> bool" where
  "mouse_still s \<longleftrightarrow> mouse_dx s = 0 \<and> mouse_dy s = 0 \<and> mouse_dz s = 0"

definition mouse_way :: "PS2MouseState \<Rightarrow> nat" where
  "mouse_way s = nat \<bar>mouse_dx s\<bar> + nat \<bar>mouse_dy s\<bar> + nat \<bar>mouse_dz s\<bar>"

lemma mouse_queue_frame [simp]:
  "mouse_dx (mouse_queue b s) = mouse_dx s" "mouse_dy (mouse_queue b s) = mouse_dy s"
  "mouse_dz (mouse_queue b s) = mouse_dz s" "mouse_type (mouse_queue b s) = mouse_type s"
  "mouse_buttons (mouse_queue b s) = mouse_buttons s" "mouse_status (mouse_queue b s) = mouse_status s"
  by (simp_all add: mouse_queue_def)

definition mouse_z_step :: "u8 \<Rightarrow> int \<Rightarrow> int" where
  "mouse_z_step t dz = (if t = 3 then clamp 127 dz else if t = 4 then clamp 7 dz else dz)"

lemma send_packet_deltas:
  "mouse_dx (ps2_mouse_send_packet s) = mouse_dx s - clamp 127 (mouse_dx s)"
  "mouse_dy (ps2_mouse_send_packet s) = mouse_dy s - clamp 127 (mouse_dy s)"
  "mouse_dz (ps2_mouse_send_packet s) = mouse_dz s - mouse_z_step (mouse_type s) (mouse_dz s)"
  "mouse_type (ps2_mouse_send_packet s) = mouse_type s"
  "mouse_buttons (ps2_mouse_send_packet s) = mouse_buttons s"
  by (simp_all add: ps2_mouse_send_packet_def mouse_z_step_def Let_def split_beta)

lemma clamp_decreases:
  assumes "0 < k"
  shows "nat \<bar>x - clamp k x\<bar> \<le> nat \<bar>x\<bar>" "x \<noteq> 0 \<Longrightarrow> nat \<bar>x - clamp k x\<bar> < nat \<bar>x\<bar>"
  using assms by (auto simp: clamp_def)

lemma z_step_decreases:
  "nat \<bar>x - mouse_z_step t x\<bar> \<le> nat \<bar>x\<bar>" "x \<noteq> 0 \<Longrightarrow> nat \<bar>x - mouse_z_step t x\<bar> < nat \<bar>x\<bar>"
  by (auto simp: mouse_z_step_def clamp_def)

lemma send_packet_progress:
  assumes "\<not> mouse_still (ps2_mouse_send_packet s)"
  shows "mouse_way (ps2_mouse_send_packet s) < mouse_way s"
proof -
  have "mouse_dx s \<noteq> 0 \<or> mouse_dy s \<noteq> 0 \<or> mouse_dz s \<noteq> 0"
    using assms by (auto simp: mouse_still_def send_packet_deltas clamp_def mouse_z_step_def split: if_splits)
  then consider "mouse_dx s \<noteq> 0" | "mouse_dy s \<noteq> 0" | "mouse_dz s \<noteq> 0" by blast
  then show ?thesis
    unfolding mouse_way_def send_packet_deltas
    by cases (intro add_less_le_mono add_le_less_mono add_mono clamp_decreases z_step_decreases; simp)+
qed

function ps2_mouse_send_all :: "PS2MouseState \<Rightarrow> PS2MouseState" where
  "ps2_mouse_send_all s =
    (let s = ps2_mouse_send_packet s in if mouse_still s then s else ps2_mouse_send_all s)"
  by pat_completeness auto
termination
  by (relation "measure mouse_way") (auto intro: send_packet_progress)

declare ps2_mouse_send_all.simps [simp del]

definition ps2_mouse_event :: "int \<Rightarrow> int \<Rightarrow> int \<Rightarrow> u8 \<Rightarrow> PS2MouseState \<Rightarrow> PS2MouseState" where
  "ps2_mouse_event dx dy dz buttons_state s =
    (if mouse_status s AND 0x20 = 0 then s
     else
       (let s = s\<lparr>mouse_dx := mouse_dx s + dx, mouse_dy := mouse_dy s - dy, mouse_dz := mouse_dz s + dz\<rparr> in
        if mouse_still s \<and> mouse_buttons s = buttons_state then s
        else
          (let s = s\<lparr>mouse_buttons := buttons_state\<rparr> in
           if mouse_status s AND 0x40 = 0 \<and> count (queue (mouse_common s)) < PS2_QUEUE_SIZE - 16
           then ps2_mouse_send_all s else s)))"

definition ps2_mouse_fake_event :: "PS2MouseState \<Rightarrow> PS2MouseState" where
  "ps2_mouse_fake_event s = ps2_mouse_event 1 0 0 0 s"

definition ps2_mouse_command :: "int \<Rightarrow> PS2MouseState \<Rightarrow> PS2MouseState" where
  "ps2_mouse_command v s =
    (if v = 0xe6 then mouse_queue 0xfa (s\<lparr>mouse_status := mouse_status s AND NOT 0x10\<rparr>)
     else if v = 0xe7 then mouse_queue 0xfa (s\<lparr>mouse_status := mouse_status s OR 0x10\<rparr>)
     else if v = 0xea then mouse_queue 0xfa (s\<lparr>mouse_status := mouse_status s AND NOT 0x40\<rparr>)
     else if v = 0xee then mouse_queue 0xfa (s\<lparr>mouse_wrap := True\<rparr>)
     else if v = 0xf0 then mouse_queue 0xfa (s\<lparr>mouse_status := mouse_status s OR 0x40\<rparr>)
     else if v = 0xf2 then mouse_queue (mouse_type s) (mouse_queue 0xfa s)
     else if v = 0xe8 \<or> v = 0xf3 then mouse_queue 0xfa (mouse_set_cmd v s)
     else if v = 0xe9
     then mouse_queue (mouse_sample_rate s) (mouse_queue (mouse_resolution s)
            (mouse_queue (mouse_status s) (mouse_queue 0xfa s)))
     else if v = 0xeb then ps2_mouse_send_packet (mouse_queue 0xfa s)
     else if v = 0xf4 then mouse_queue 0xfa (s\<lparr>mouse_status := mouse_status s OR 0x20\<rparr>)
     else if v = 0xf5 then mouse_queue 0xfa (s\<lparr>mouse_status := mouse_status s AND NOT 0x20\<rparr>)
     else if v = 0xf6
     then mouse_queue 0xfa (s\<lparr>mouse_sample_rate := 100, mouse_resolution := 2, mouse_status := 0\<rparr>)
     else if v = 0xff
     then
       (let s = s\<lparr>mouse_sample_rate := 100, mouse_resolution := 2, mouse_status := 0, mouse_type := 0\<rparr>
        in mouse_queue (mouse_type s) (mouse_queue 0xaa (mouse_queue 0xfa s)))
     else s)"

definition ps2_mouse_detect :: "int \<Rightarrow> PS2MouseState \<Rightarrow> PS2MouseState" where
  "ps2_mouse_detect v s =
    (if mouse_detect_state s = 1
     then s\<lparr>mouse_detect_state := (if v = 100 then 2 else if v = 200 then 3 else 0)\<rparr>
     else if mouse_detect_state s = 2
     then (if v = 80 then s\<lparr>mouse_type := 3\<rparr> else s)\<lparr>mouse_detect_state := 0\<rparr>
     else if mouse_detect_state s = 3
     then (if v = 80 then s\<lparr>mouse_type := 4\<rparr> else s)\<lparr>mouse_detect_state := 0\<rparr>
     else if v = 200 then s\<lparr>mouse_detect_state := 1\<rparr> else s)"

definition ps2_write_mouse :: "int \<Rightarrow> PS2MouseState \<Rightarrow> PS2MouseState" where
  "ps2_write_mouse v s =
    (let cmd = write_cmd (mouse_common s) in
     if cmd = 0xf3
     then mouse_set_cmd (- 1) (mouse_queue 0xfa
            (ps2_mouse_detect v (s\<lparr>mouse_sample_rate := word_of_int v\<rparr>)))
     else if cmd = 0xe8
     then mouse_set_cmd (- 1) (mouse_queue 0xfa (s\<lparr>mouse_resolution := word_of_int v\<rparr>))
     else if mouse_wrap s \<and> v = 0xec then mouse_queue 0xfa (s\<lparr>mouse_wrap := False\<rparr>)
     else if mouse_wrap s \<and> v \<noteq> 0xff then mouse_queue (word_of_int v) s
     else ps2_mouse_command v s)"

definition ps2_mouse_reset :: "PS2MouseState \<Rightarrow> PS2MouseState" where
  "ps2_mouse_reset s =
    s\<lparr>mouse_common := ps2_common_reset (mouse_common s), mouse_status := 0, mouse_resolution := 0,
      mouse_sample_rate := 0, mouse_wrap := False, mouse_type := 0, mouse_detect_state := 0,
      mouse_dx := 0, mouse_dy := 0, mouse_dz := 0, mouse_buttons := 0\<rparr>"

section \<open>Initial states\<close>

definition ps2_zero :: PS2State where
  "ps2_zero = \<lparr>queue = \<lparr>qdata = replicate 256 0, rptr = 0, wptr = 0, count = 0\<rparr>, write_cmd = 0, update_irq = []\<rparr>"

definition ps2_kbd_init :: PS2KbdState where
  "ps2_kbd_init = \<lparr>kbd_common = ps2_zero, scan_enabled = False, translate = False, scancode_set = 2, ledstates = []\<rparr>"

definition ps2_mouse_init :: PS2MouseState where
  "ps2_mouse_init =
    \<lparr>mouse_common = ps2_zero, mouse_status = 0, mouse_resolution = 0, mouse_sample_rate = 0,
     mouse_wrap = False, mouse_type = 0, mouse_detect_state = 0, mouse_dx = 0, mouse_dy = 0,
     mouse_dz = 0, mouse_buttons = 0\<rparr>"

section \<open>The queue as a bounded FIFO\<close>

definition ps2_bytes :: "PS2State \<Rightarrow> u8 list" where
  "ps2_bytes s = ring (qdata (queue s)) (rptr (queue s)) (count (queue s))"

definition ps2_inv :: "PS2State \<Rightarrow> bool" where
  "ps2_inv s \<longleftrightarrow> length (qdata (queue s)) = 256 \<and> rptr (queue s) < 256 \<and> count (queue s) \<le> 256 \<and>
    wptr (queue s) = (rptr (queue s) + count (queue s)) mod 256 \<and>
    line_level (update_irq s) = (count (queue s) \<noteq> 0)"

lemma length_ps2_bytes [simp]: "length (ps2_bytes s) = count (queue s)"
  by (simp add: ps2_bytes_def)

lemma ps2_queue_full: "count (queue s) = 256 \<Longrightarrow> ps2_queue b s = s"
  by (simp add: ps2_queue_def)

lemma ps2_queue_room:
  assumes "ps2_inv s" "count (queue s) < 256"
  shows "ps2_inv (ps2_queue b s) \<and> ps2_bytes (ps2_queue b s) = ps2_bytes s @ [b]"
proof -
  let ?q = "queue s"
  have i: "length (qdata ?q) = 256" "rptr ?q < 256" "wptr ?q = (rptr ?q + count ?q) mod 256"
    using assms(1) by (simp_all add: ps2_inv_def)
  define w where "w = (if wptr ?q + 1 = 256 then 0 else wptr ?q + 1)"
  have "w = (rptr ?q + Suc (count ?q)) mod 256" unfolding w_def by (rule ring_write_pointer) (simp_all add: i)
  moreover have "ring ((qdata ?q)[wptr ?q := b]) (rptr ?q) (Suc (count ?q)) = ring (qdata ?q) (rptr ?q) (count ?q) @ [b]"
    using assms(2) i by (intro ring_put) simp_all
  moreover have "ps2_queue b s = s\<lparr>queue := ?q\<lparr>qdata := (qdata ?q)[wptr ?q := b], wptr := w, count := Suc (count ?q)\<rparr>,
      update_irq := True # update_irq s\<rparr>"
    using assms(2) by (simp add: ps2_queue_def Let_def w_def)
  ultimately show ?thesis using assms(2) i by (simp add: ps2_inv_def ps2_bytes_def)
qed

lemma ps2_read_first:
  assumes "ps2_inv s" "ps2_bytes s \<noteq> []"
  shows "ps2_inv (snd (ps2_read_data s)) \<and> ps2_bytes s = fst (ps2_read_data s) # ps2_bytes (snd (ps2_read_data s))"
proof -
  let ?q = "queue s"
  have i: "length (qdata ?q) = 256" "rptr ?q < 256" "wptr ?q = (rptr ?q + count ?q) mod 256" "count ?q \<le> 256"
    using assms(1) by (simp_all add: ps2_inv_def)
  have n: "0 < count ?q" using assms(2) length_ps2_bytes [of s] by (metis gr0I length_0_conv)
  define r where "r = (if rptr ?q + 1 = 256 then 0 else rptr ?q + 1)"
  note r = ring_read_pointer [OF i(2) n, folded r_def]
  have "ring (qdata ?q) (rptr ?q) (count ?q) = qdata ?q ! rptr ?q # ring (qdata ?q) r (count ?q - 1)"
    using ring_get [of "rptr ?q" "qdata ?q" "count ?q"] i n r(2) by simp
  moreover have "ps2_read_data s = (qdata ?q ! rptr ?q,
      s\<lparr>queue := ?q\<lparr>rptr := r, count := count ?q - 1\<rparr>, update_irq := (count ?q - 1 \<noteq> 0) # False # update_irq s\<rparr>)"
    using n by (simp add: ps2_read_data_def Let_def r_def not_le)
  ultimately show ?thesis using i n r(1,3) by (simp add: ps2_inv_def ps2_bytes_def)
qed

interpretation ps2q: dropping_fifo ps2_inv ps2_bytes 256 ps2_queue ps2_read_data
proof
  show "length (ps2_bytes q) \<le> 256" if "ps2_inv q" for q using that by (simp add: ps2_inv_def)
  show "ps2_inv (ps2_queue b q) \<and> ps2_bytes (ps2_queue b q) = ps2_bytes q @ [b]"
    if "ps2_inv q" "length (ps2_bytes q) < 256" for q b using that by (simp add: ps2_queue_room)
  show "ps2_inv (snd (ps2_read_data q)) \<and> ps2_bytes q = fst (ps2_read_data q) # ps2_bytes (snd (ps2_read_data q))"
    if "ps2_inv q" "ps2_bytes q \<noteq> []" for q using that by (rule ps2_read_first)
  show "ps2_inv (ps2_queue b q) \<and> ps2_bytes (ps2_queue b q) = ps2_bytes q"
    if "ps2_inv q" "length (ps2_bytes q) = 256" for q b using that by (simp add: ps2_queue_full)
qed

lemmas ps2_queue_inv = ps2q.put_any [THEN conjunct1]

lemma ps2_read_inv: "ps2_inv s \<Longrightarrow> ps2_inv (snd (ps2_read_data s))"
proof (cases "count (queue s) = 0")
  case True
  then show "ps2_inv s \<Longrightarrow> ?thesis" by (simp add: ps2_read_data_def Let_def)
next
  case False
  then have "ps2_bytes s \<noteq> []" using length_ps2_bytes [of s] by (metis list.size(3))
  then show "ps2_inv s \<Longrightarrow> ?thesis" using ps2_read_first by blast
qed

lemma ps2_common_reset_inv: "ps2_inv s \<Longrightarrow> ps2_inv (ps2_common_reset s)"
  by (simp add: ps2_common_reset_def ps2_inv_def)

lemma ps2_cmd_inv [simp]: "ps2_inv (s\<lparr>write_cmd := c\<rparr>) = ps2_inv s"
  by (simp add: ps2_inv_def)

lemma ps2_queue_cmd [simp]: "write_cmd (ps2_queue b s) = write_cmd s"
  by (simp add: ps2_queue_def Let_def)

lemma ps2_read_cmd [simp]: "write_cmd (snd (ps2_read_data s)) = write_cmd s"
  by (simp add: ps2_read_data_def Let_def)

lemma ps2_zero_inv: "ps2_inv ps2_zero"
  by (simp add: ps2_zero_def ps2_inv_def)

section \<open>The keyboard as a device\<close>

datatype kbd_event =
  Kbd_keycode int
| Kbd_read
| Kbd_write int
| Kbd_translation bool
| Kbd_reset
| Kbd_post_load int

fun kbd_do :: "kbd_event \<Rightarrow> PS2KbdState \<Rightarrow> PS2KbdState" where
  "kbd_do (Kbd_keycode k) s = ps2_put_keycode k s"
| "kbd_do Kbd_read s = s\<lparr>kbd_common := snd (ps2_read_data (kbd_common s))\<rparr>"
| "kbd_do (Kbd_write v) s = ps2_write_keyboard v s"
| "kbd_do (Kbd_translation m) s = ps2_keyboard_set_translation m s"
| "kbd_do Kbd_reset s = ps2_kbd_reset s"
| "kbd_do (Kbd_post_load v) s = ps2_kbd_post_load v s"

definition kbd_inv :: "PS2KbdState \<Rightarrow> bool" where
  "kbd_inv s \<longleftrightarrow> ps2_inv (kbd_common s) \<and> write_cmd (kbd_common s) \<in> {- 1, 0, 0xed, 0xf0, 0xf3}"

lemma kbd_queue_inv [simp]: "kbd_inv s \<Longrightarrow> kbd_inv (kbd_queue b s)"
  by (simp add: kbd_inv_def kbd_queue_def ps2_queue_inv)

lemma kbd_set_cmd_inv [simp]: "kbd_inv s \<Longrightarrow> c \<in> {- 1, 0, 0xed, 0xf0, 0xf3} \<Longrightarrow> kbd_inv (kbd_set_cmd c s)"
  by (simp add: kbd_inv_def kbd_set_cmd_def)

lemma kbd_update_inv [simp]:
  "kbd_inv (s\<lparr>scan_enabled := a\<rparr>) = kbd_inv s" "kbd_inv (s\<lparr>translate := b\<rparr>) = kbd_inv s"
  "kbd_inv (s\<lparr>scancode_set := c\<rparr>) = kbd_inv s" "kbd_inv (s\<lparr>ledstates := d\<rparr>) = kbd_inv s"
  "kbd_inv (ps2_reset_keyboard s) = kbd_inv s"
  by (simp_all add: kbd_inv_def ps2_reset_keyboard_def)

lemma ps2_put_keycode_inv [simp]: "kbd_inv s \<Longrightarrow> kbd_inv (ps2_put_keycode k s)"
  by (simp add: ps2_put_keycode_def Let_def)

lemma ps2_keyboard_command_inv: "kbd_inv s \<Longrightarrow> kbd_inv (ps2_keyboard_command v s)"
  by (simp add: ps2_keyboard_command_def)

lemma ps2_write_keyboard_inv: "kbd_inv s \<Longrightarrow> kbd_inv (ps2_write_keyboard v s)"
  by (simp add: ps2_write_keyboard_def Let_def ps2_keyboard_command_inv)

lemma kbd_do_inv: "kbd_inv s \<Longrightarrow> kbd_inv (kbd_do e s)"
proof (cases e)
  case Kbd_read
  then show "kbd_inv s \<Longrightarrow> ?thesis" by (simp add: kbd_inv_def ps2_read_inv)
next
  case Kbd_reset
  then show "kbd_inv s \<Longrightarrow> ?thesis"
    by (simp add: kbd_inv_def ps2_kbd_reset_def ps2_common_reset_inv) (simp add: ps2_common_reset_def)
qed (simp_all add: ps2_write_keyboard_inv ps2_keyboard_set_translation_def ps2_kbd_post_load_def)

interpretation kbd: device "\<lambda>s. s = ps2_kbd_init" "\<lambda>s t. \<exists>e. t = kbd_do e s" kbd_inv
proof
  show "kbd_inv s" if "s = ps2_kbd_init" for s
    using that ps2_zero_inv by (simp add: kbd_inv_def ps2_kbd_init_def) (simp add: ps2_zero_def)
qed (auto intro: kbd_do_inv)

section \<open>The mouse as a device\<close>

datatype mouse_event =
  Mouse_move int int int u8
| Mouse_read
| Mouse_write int
| Mouse_reset

fun mouse_do :: "mouse_event \<Rightarrow> PS2MouseState \<Rightarrow> PS2MouseState" where
  "mouse_do (Mouse_move dx dy dz b) s = ps2_mouse_event dx dy dz b s"
| "mouse_do Mouse_read s = s\<lparr>mouse_common := snd (ps2_read_data (mouse_common s))\<rparr>"
| "mouse_do (Mouse_write v) s = ps2_write_mouse v s"
| "mouse_do Mouse_reset s = ps2_mouse_reset s"

definition mouse_inv :: "PS2MouseState \<Rightarrow> bool" where
  "mouse_inv s \<longleftrightarrow> ps2_inv (mouse_common s) \<and> write_cmd (mouse_common s) \<in> {- 1, 0, 0xe8, 0xf3} \<and>
    mouse_type s \<in> {0, 3, 4} \<and> mouse_detect_state s \<le> 3"

lemma mouse_queue_inv [simp]: "mouse_inv s \<Longrightarrow> mouse_inv (mouse_queue b s)"
  by (simp add: mouse_inv_def mouse_queue_def ps2_queue_inv)

lemma mouse_set_cmd_inv [simp]: "mouse_inv s \<Longrightarrow> c \<in> {- 1, 0, 0xe8, 0xf3} \<Longrightarrow> mouse_inv (mouse_set_cmd c s)"
  by (simp add: mouse_inv_def mouse_set_cmd_def)

lemma mouse_update_inv [simp]:
  "mouse_inv (s\<lparr>mouse_status := a\<rparr>) = mouse_inv s" "mouse_inv (s\<lparr>mouse_resolution := b\<rparr>) = mouse_inv s"
  "mouse_inv (s\<lparr>mouse_sample_rate := c\<rparr>) = mouse_inv s" "mouse_inv (s\<lparr>mouse_wrap := d\<rparr>) = mouse_inv s"
  "mouse_inv (s\<lparr>mouse_dx := x\<rparr>) = mouse_inv s" "mouse_inv (s\<lparr>mouse_dy := x\<rparr>) = mouse_inv s"
  "mouse_inv (s\<lparr>mouse_dz := x\<rparr>) = mouse_inv s" "mouse_inv (s\<lparr>mouse_buttons := e\<rparr>) = mouse_inv s"
  by (simp_all add: mouse_inv_def)

lemma mouse_type_inv [simp]:
  "mouse_inv s \<Longrightarrow> t \<in> {0, 3, 4} \<Longrightarrow> mouse_inv (s\<lparr>mouse_type := t\<rparr>)"
  "mouse_inv s \<Longrightarrow> d \<le> 3 \<Longrightarrow> mouse_inv (s\<lparr>mouse_detect_state := d\<rparr>)"
  by (simp_all add: mouse_inv_def)

lemma ps2_mouse_send_packet_inv [simp]: "mouse_inv s \<Longrightarrow> mouse_inv (ps2_mouse_send_packet s)"
  by (simp add: ps2_mouse_send_packet_def Let_def split_beta)

lemma ps2_mouse_send_all_inv: "mouse_inv s \<Longrightarrow> mouse_inv (ps2_mouse_send_all s)"
proof (induction s rule: ps2_mouse_send_all.induct)
  case (1 s)
  then show ?case by (subst ps2_mouse_send_all.simps) (simp add: Let_def)
qed

lemma ps2_mouse_command_inv: "mouse_inv s \<Longrightarrow> mouse_inv (ps2_mouse_command v s)"
  by (simp add: ps2_mouse_command_def Let_def)

lemma ps2_mouse_detect_inv: "mouse_inv s \<Longrightarrow> mouse_inv (ps2_mouse_detect v s)"
  by (simp add: ps2_mouse_detect_def)

lemma ps2_write_mouse_inv: "mouse_inv s \<Longrightarrow> mouse_inv (ps2_write_mouse v s)"
  by (simp add: ps2_write_mouse_def Let_def ps2_mouse_command_inv ps2_mouse_detect_inv)

lemma ps2_mouse_event_inv: "mouse_inv s \<Longrightarrow> mouse_inv (ps2_mouse_event dx dy dz b s)"
  by (simp add: ps2_mouse_event_def Let_def ps2_mouse_send_all_inv)

lemma mouse_do_inv: "mouse_inv s \<Longrightarrow> mouse_inv (mouse_do e s)"
proof (cases e)
  case Mouse_read
  then show "mouse_inv s \<Longrightarrow> ?thesis" by (simp add: mouse_inv_def ps2_read_inv)
next
  case Mouse_reset
  then show "mouse_inv s \<Longrightarrow> ?thesis"
    by (simp add: mouse_inv_def ps2_mouse_reset_def ps2_common_reset_inv) (simp add: ps2_common_reset_def)
qed (simp_all add: ps2_write_mouse_inv ps2_mouse_event_inv)

interpretation mouse: device "\<lambda>s. s = ps2_mouse_init" "\<lambda>s t. \<exists>e. t = mouse_do e s" mouse_inv
proof
  show "mouse_inv s" if "s = ps2_mouse_init" for s
    using that ps2_zero_inv by (simp add: mouse_inv_def ps2_mouse_init_def) (simp add: ps2_zero_def)
qed (auto intro: mouse_do_inv)

section \<open>Packets\<close>

text \<open>What one call of \<open>ps2_mouse_send_packet\<close> queues, and what all of them queue until nothing is left
  to report.\<close>

definition mouse_packet :: "PS2MouseState \<Rightarrow> u8 list" where
  "mouse_packet s =
    (let dx1 = clamp 127 (mouse_dx s); dy1 = clamp 127 (mouse_dy s) in
     [0x08 OR push_bit 4 (of_bool (dx1 < 0)) OR push_bit 5 (of_bool (dy1 < 0)) OR (mouse_buttons s AND 0x07),
      word_of_int dx1, word_of_int dy1] @
     (if mouse_type s = 3 then [word_of_int (clamp 127 (mouse_dz s))]
      else if mouse_type s = 4
      then [(word_of_int (clamp 7 (mouse_dz s)) AND 0x0f) OR push_bit 1 (mouse_buttons s AND 0x18)]
      else []))"

function mouse_packets :: "PS2MouseState \<Rightarrow> u8 list list" where
  "mouse_packets s =
    mouse_packet s # (let s = ps2_mouse_send_packet s in if mouse_still s then [] else mouse_packets s)"
  by pat_completeness auto
termination
  by (relation "measure mouse_way") (auto intro: send_packet_progress)

declare mouse_packets.simps [simp del]

lemma send_packet_queue:
  "mouse_common (ps2_mouse_send_packet s) = fold ps2_queue (mouse_packet s) (mouse_common s)"
  by (simp add: ps2_mouse_send_packet_def mouse_packet_def mouse_queue_def Let_def)

lemma send_all_queue:
  "mouse_common (ps2_mouse_send_all s) = fold ps2_queue (concat (mouse_packets s)) (mouse_common s)"
proof (induction s rule: ps2_mouse_send_all.induct)
  case (1 s)
  then show ?case
    by (subst ps2_mouse_send_all.simps, subst mouse_packets.simps) (simp add: Let_def send_packet_queue)
qed

lemma send_all_still: "mouse_still (ps2_mouse_send_all s)"
proof (induction s rule: ps2_mouse_send_all.induct)
  case (1 s)
  then show ?case by (subst ps2_mouse_send_all.simps) (simp add: Let_def)
qed

lemma sint_clamp:
  assumes "k \<le> 127" "0 \<le> k"
  shows "sint (word_of_int (clamp k x) :: u8) = clamp k x"
proof -
  have "- 128 \<le> clamp k x" "clamp k x < 128" using assms by (auto simp: clamp_def)
  then show ?thesis by (simp add: sint_sbintrunc' signed_take_bit_int_eq_self)
qed

text \<open>The motion a packet reports along one axis, byte 1 for x, 2 for y and 3 for the wheel.\<close>

definition packet_delta :: "nat \<Rightarrow> u8 list \<Rightarrow> int" where
  "packet_delta i p = sint (p ! i)"

lemma packet_deltas:
  "packet_delta 1 (mouse_packet s) = clamp 127 (mouse_dx s)" "packet_delta 2 (mouse_packet s) = clamp 127 (mouse_dy s)"
  "mouse_type s = 3 \<Longrightarrow> packet_delta 3 (mouse_packet s) = clamp 127 (mouse_dz s)"
  by (simp_all add: packet_delta_def mouse_packet_def Let_def sint_clamp)

text \<open>What the packets report along an axis adds up to what was left to report.\<close>

lemma packets_sum:
  assumes "\<And>s. mouse_type s = t \<Longrightarrow> packet_delta i (mouse_packet s) = f s - f (ps2_mouse_send_packet s)"
    and "\<And>s. mouse_still s \<Longrightarrow> f s = 0" "mouse_type s = t"
  shows "(\<Sum>p \<leftarrow> mouse_packets s. packet_delta i p) = f s"
  using assms(3)
proof (induction s rule: mouse_packets.induct)
  case (1 s)
  show ?case
  proof (cases "mouse_still (ps2_mouse_send_packet s)")
    case True
    then show ?thesis using 1 by (subst mouse_packets.simps) (simp add: assms(1,2))
  next
    case False
    then show ?thesis using 1 by (subst mouse_packets.simps) (simp add: assms(1) send_packet_deltas)
  qed
qed

lemma packets_sum_xyz:
  "(\<Sum>p \<leftarrow> mouse_packets s. packet_delta 1 p) = mouse_dx s"
  "(\<Sum>p \<leftarrow> mouse_packets s. packet_delta 2 p) = mouse_dy s"
  "mouse_type s = 3 \<Longrightarrow> (\<Sum>p \<leftarrow> mouse_packets s. packet_delta 3 p) = mouse_dz s"
  by (rule packets_sum [where t = "mouse_type s"],
      simp_all only: packet_deltas send_packet_deltas,
      simp_all add: mouse_still_def mouse_z_step_def)+

section \<open>Properties of the keyboard and the mouse\<close>

abbreviation kbd_reachable :: "PS2KbdState \<Rightarrow> bool" where
  "kbd_reachable \<equiv> reach (\<lambda>s. s = ps2_kbd_init) (\<lambda>s t. \<exists>e. t = kbd_do e s)"

abbreviation mouse_reachable :: "PS2MouseState \<Rightarrow> bool" where
  "mouse_reachable \<equiv> reach (\<lambda>s. s = ps2_mouse_init) (\<lambda>s t. \<exists>e. t = mouse_do e s)"

lemma kbd_reachable_ps2: "kbd_reachable s \<Longrightarrow> ps2_inv (kbd_common s)"
  using kbd.reachable_inv by (simp add: kbd_inv_def)

lemma mouse_reachable_ps2: "mouse_reachable s \<Longrightarrow> ps2_inv (mouse_common s)"
  using mouse.reachable_inv by (simp add: mouse_inv_def)

theorem ps2_queue_order:
  assumes "kbd_reachable s"
  shows "fst (ps2q.get_many (min 256 (length (ps2_bytes (kbd_common s)) + length bs))
      (fold ps2_queue bs (kbd_common s))) = take 256 (ps2_bytes (kbd_common s) @ bs)"
  using kbd_reachable_ps2 [OF assms] by (rule ps2q.dropping_order)

theorem ps2_queue_order_witness:
  "kbd_reachable ps2_kbd_init \<and>
   fst (ps2q.get_many 2 (fold ps2_queue [0xf0, 0x1c] (kbd_common ps2_kbd_init))) = [0xf0, 0x1c]"
proof -
  have r: "kbd_reachable ps2_kbd_init" by (rule reach_init) simp
  have "ps2_bytes (kbd_common ps2_kbd_init) = []" by (simp add: ps2_bytes_def ps2_kbd_init_def ps2_zero_def)
  with r ps2_queue_order [OF r, of "[0xf0, 0x1c]"] show ?thesis by (simp add: numeral_2_eq_2)
qed

theorem ps2_irq_iff_data:
  "kbd_reachable k \<Longrightarrow> mouse_reachable m \<Longrightarrow>
    (line_level (update_irq (kbd_common k)) \<longleftrightarrow> ps2_bytes (kbd_common k) \<noteq> []) \<and>
    (line_level (update_irq (mouse_common m)) \<longleftrightarrow> ps2_bytes (mouse_common m) \<noteq> [])"
  using kbd_reachable_ps2 [of k] mouse_reachable_ps2 [of m]
  by (simp add: ps2_inv_def flip: length_0_conv)

definition kbd_pressed :: PS2KbdState where
  "kbd_pressed = kbd_do (Kbd_keycode 0x1e) ps2_kbd_init"

definition mouse_read_twice :: PS2MouseState where
  "mouse_read_twice = fold mouse_do [Mouse_write 0xf4, Mouse_read, Mouse_read] ps2_mouse_init"

lemma kbd_pressed_reachable: "kbd_reachable kbd_pressed"
  unfolding kbd_pressed_def by (blast intro: reach_init reach_step)

lemma mouse_read_twice_reachable: "mouse_reachable mouse_read_twice"
  unfolding mouse_read_twice_def fold.simps comp_apply id_apply by (blast intro: reach_init reach_step)

theorem ps2_irq_iff_data_witness:
  "kbd_reachable kbd_pressed \<and> mouse_reachable mouse_read_twice \<and>
   line_level (update_irq (kbd_common kbd_pressed)) \<and> \<not> line_level (update_irq (mouse_common mouse_read_twice))"
proof -
  have "ps2_bytes (kbd_common kbd_pressed) \<noteq> []" "ps2_bytes (mouse_common mouse_read_twice) = []" by code_simp+
  then show ?thesis
    using ps2_irq_iff_data [OF kbd_pressed_reachable mouse_read_twice_reachable]
      kbd_pressed_reachable mouse_read_twice_reachable by simp
qed

text \<open>The reader of scan code set 2: an optional break prefix and the position of the code in the table.\<close>

definition raw_index :: "u8 \<Rightarrow> nat" where
  "raw_index b = length (takeWhile (\<lambda>c. c \<noteq> b) ps2_raw_keycode)"

fun keycode_of_set2 :: "u8 list \<Rightarrow> int option" where
  "keycode_of_set2 [b] = Some (int (raw_index b))"
| "keycode_of_set2 [p, b] = (if p = 0xf0 then Some (int (raw_index b) + 0x80) else None)"
| "keycode_of_set2 _ = None"

lemma raw_index_keycode: "i < 128 \<Longrightarrow> raw_index (ps2_raw_keycode ! i) = i"
proof -
  have "\<forall>i \<in> set [0..<128]. raw_index (ps2_raw_keycode ! i) = i" by code_simp
  then show "i < 128 \<Longrightarrow> ?thesis" by simp
qed

theorem ps2_keycode_roundtrip:
  assumes "kbd_reachable s" "\<not> translate s" "scancode_set s = 2" "0 \<le> k" "k < 0xe0"
    and room: "length (ps2_bytes (kbd_common s)) + 2 \<le> 256"
  shows "\<exists>code. ps2_bytes (kbd_common (ps2_put_keycode k s)) = ps2_bytes (kbd_common s) @ code \<and>
    keycode_of_set2 code = Some k"
proof -
  note inv = kbd_reachable_ps2 [OF assms(1)]
  let ?b = "ps2_raw_keycode ! nat (k AND 0x7f)"
  have k7: "k AND 0x7f = k mod 128" using take_bit_eq_mask [of 7 k] by (simp add: mask_eq_exp_minus_1 take_bit_eq_mod)
  have "k div 128 = (if k < 128 then 0 else 1)" using assms(4,5) by (auto simp: div_pos_geq)
  then have k8: "k AND 0x80 = 0 \<longleftrightarrow> k < 128"
    using and_exp_eq_0_iff_not_bit [of k 7] by (simp add: bit_iff_odd)
  have b: "int (raw_index ?b) = k mod 128" by (simp add: k7 raw_index_keycode nat_less_iff)
  show ?thesis
  proof (cases "k < 128")
    case True
    then have "k AND 0x80 = 0" by (simp add: k8)
    then have "kbd_common (ps2_put_keycode k s) = fold ps2_queue [?b] (kbd_common s)"
      using assms by (simp add: ps2_put_keycode_def kbd_queue_def Let_def)
    then show ?thesis using ps2q.put_many [OF inv, of "[?b]"] room b True assms(4) by auto
  next
    case False
    then have "k AND 0x80 \<noteq> 0" by (simp add: k8)
    then have "kbd_common (ps2_put_keycode k s) = fold ps2_queue [0xf0, ?b] (kbd_common s)"
      using assms by (simp add: ps2_put_keycode_def kbd_queue_def Let_def)
    moreover have "k mod 128 + 128 = k" using False assms(5) by presburger
    ultimately show ?thesis using ps2q.put_many [OF inv, of "[0xf0, ?b]"] room b
      by (intro exI [of _ "[0xf0, ?b]"]) simp
  qed
qed


theorem ps2_keycode_roundtrip_witness:
  "kbd_reachable ps2_kbd_init \<and> (\<exists>code. ps2_bytes (kbd_common (ps2_put_keycode 0x9e ps2_kbd_init)) =
    ps2_bytes (kbd_common ps2_kbd_init) @ code \<and> keycode_of_set2 code = Some 0x9e)"
proof -
  have r: "kbd_reachable ps2_kbd_init" by (rule reach_init) simp
  then show ?thesis
    using ps2_keycode_roundtrip [OF r, of "0x9e"] by (simp add: ps2_kbd_init_def ps2_zero_def)
qed

text \<open>C12: Reporting a motion of an enabled mouse in stream mode, with less than 240 bytes waiting,
  ends with nothing left to report; the packets it makes, each within the range of a byte, add
  up to the whole motion along x and y, and along z for a wheel mouse of type 3. They follow
  what waits in the queue; beyond its 256 bytes they are cut off, so motion is lost exactly when
  they do not fit.\<close>

theorem ps2_mouse_motion_conserved:
  fixes dx dy dz :: int and b :: u8
  assumes "mouse_reachable s" "mouse_status s AND 0x20 \<noteq> 0" "mouse_status s AND 0x40 = 0"
    and "length (ps2_bytes (mouse_common s)) < 240"
  defines "s' \<equiv> s\<lparr>mouse_dx := mouse_dx s + dx, mouse_dy := mouse_dy s - dy, mouse_dz := mouse_dz s + dz,
      mouse_buttons := b\<rparr>"
  assumes "\<not> (mouse_still s' \<and> b = mouse_buttons s)"
  shows "mouse_still (ps2_mouse_event dx dy dz b s) \<and>
    ps2_bytes (mouse_common (ps2_mouse_event dx dy dz b s)) =
      take 256 (ps2_bytes (mouse_common s) @ concat (mouse_packets s')) \<and>
    (length (ps2_bytes (mouse_common s)) + length (concat (mouse_packets s')) \<le> 256 \<longrightarrow>
      ps2_bytes (mouse_common (ps2_mouse_event dx dy dz b s)) = ps2_bytes (mouse_common s) @ concat (mouse_packets s')) \<and>
    (\<Sum>p \<leftarrow> mouse_packets s'. packet_delta 1 p) = mouse_dx s + dx \<and>
    (\<Sum>p \<leftarrow> mouse_packets s'. packet_delta 2 p) = mouse_dy s - dy \<and>
    (mouse_type s = 3 \<longrightarrow> (\<Sum>p \<leftarrow> mouse_packets s'. packet_delta 3 p) = mouse_dz s + dz)"
proof -
  have e: "ps2_mouse_event dx dy dz b s = ps2_mouse_send_all s'"
    using assms(2-4,6) by (auto simp: ps2_mouse_event_def Let_def mouse_still_def s'_def)
  have "mouse_common s' = mouse_common s" by (simp add: s'_def)
  then have "ps2_bytes (mouse_common (ps2_mouse_send_all s')) =
      take 256 (ps2_bytes (mouse_common s) @ concat (mouse_packets s'))"
    using ps2q.put_any_many [OF mouse_reachable_ps2 [OF assms(1)], of "concat (mouse_packets s')"]
    by (simp add: send_all_queue)
  moreover have "mouse_type s = 3 \<longrightarrow> (\<Sum>p \<leftarrow> mouse_packets s'. packet_delta 3 p) = mouse_dz s + dz"
    using packets_sum_xyz(3) [of s'] by (simp add: s'_def)
  ultimately show ?thesis
    using packets_sum_xyz(1,2) [of s'] by (simp add: e send_all_still) (simp add: s'_def)
qed

definition mouse_on :: PS2MouseState where
  "mouse_on = fold mouse_do [Mouse_write 0xf4, Mouse_read] ps2_mouse_init"

lemma mouse_on_reachable: "mouse_reachable mouse_on"
  unfolding mouse_on_def fold.simps comp_apply id_apply by (blast intro: reach_init reach_step)

lemma mouse_on_packets:
  "mouse_packets (mouse_on\<lparr>mouse_dx := mouse_dx mouse_on + 300, mouse_buttons := 0\<rparr>) =
    [[0x08, 127, 0], [0x08, 127, 0], [0x08, 46, 0]]"
  by code_simp

theorem ps2_mouse_motion_conserved_witness:
  "mouse_reachable mouse_on \<and> mouse_still (ps2_mouse_event 300 0 0 0 mouse_on) \<and>
   ps2_bytes (mouse_common (ps2_mouse_event 300 0 0 0 mouse_on)) = [0x08, 127, 0, 0x08, 127, 0, 0x08, 46, 0]"
proof -
  let ?s = "mouse_on\<lparr>mouse_dx := mouse_dx mouse_on + 300, mouse_dy := mouse_dy mouse_on - 0,
    mouse_dz := mouse_dz mouse_on + 0, mouse_buttons := 0\<rparr>"
  have "mouse_status mouse_on AND 0x20 \<noteq> 0" "mouse_status mouse_on AND 0x40 = 0"
    "length (ps2_bytes (mouse_common mouse_on)) < 240" "\<not> mouse_still ?s"
    "ps2_bytes (mouse_common mouse_on) = []" by code_simp+
  then show ?thesis
    using ps2_mouse_motion_conserved [where dx = 300 and dy = 0 and dz = 0 and b = 0, OF mouse_on_reachable]
      mouse_on_reachable
    by (simp add: mouse_on_packets)
qed

text \<open>Setting the sample rate: the command byte and the rate.\<close>

definition set_rate :: "int \<Rightarrow> PS2MouseState \<Rightarrow> PS2MouseState" where
  "set_rate r s = ps2_write_mouse r (ps2_write_mouse 0xf3 s)"

definition mouse_idle :: "PS2MouseState \<Rightarrow> bool" where
  "mouse_idle s \<longleftrightarrow> write_cmd (mouse_common s) \<notin> {0xe8, 0xf3} \<and> \<not> mouse_wrap s"

lemma set_rate_detect:
  assumes "mouse_idle s"
  shows "mouse_idle (set_rate r s)"
    "mouse_type (set_rate r s) = mouse_type (ps2_mouse_detect r s)"
    "mouse_detect_state (set_rate r s) = mouse_detect_state (ps2_mouse_detect r s)"
    "mouse_sample_rate (set_rate r s) = word_of_int r"
  using assms
  by (simp_all add: mouse_idle_def set_rate_def ps2_write_mouse_def ps2_mouse_command_def Let_def
      ps2_mouse_detect_def mouse_queue_def mouse_set_cmd_def)

theorem ps2_mouse_detection:
  assumes "mouse_idle s" "mouse_detect_state s = 0" "mouse_type s = 0"
  shows "mouse_type (set_rate r3 (set_rate r2 (set_rate r1 s))) =
    (if (r1, r2, r3) = (200, 100, 80) then 3 else if (r1, r2, r3) = (200, 200, 80) then 4 else 0)"
  using assms by (simp add: set_rate_detect ps2_mouse_detect_def)

theorem ps2_mouse_detection_witness:
  "mouse_type (set_rate 80 (set_rate 100 (set_rate 200 ps2_mouse_init))) = 3"
  using ps2_mouse_detection [of ps2_mouse_init 80 100 200]
  by (simp add: ps2_mouse_init_def ps2_zero_def mouse_idle_def)

end
