(* ===== verification/Serial.thy ===== *)
theory Serial
  imports Machine Byte_Fifo Cutils
begin

text \<open>
  The 16550A serial port, \<open>qemu/hw/serial.c\<close>.

  \<^item> \<open>SerialFIFO\<close> and \<open>SerialState\<close> are the structs of the same names. The registers keep their widths;
    the indices of a FIFO, which stay below 17, are naturals. A timer is the time it is armed for.
  \<^item> The interrupt line \<open>irq\<close> is the sequence of levels driven on it and \<open>chr\<close>, the character device
    behind the port, the sequence of calls made to it, both newest first.
  \<^item> \<open>serial_env\<close> is what the surroundings answer during one call: the virtual clock, whether
    \<open>qemu_chr_write\<close> takes the byte, the modem lines (\<open>None\<close> for \<open>-ENOTSUP\<close>) and the value an
    uninitialised \<open>flags\<close> happens to have.
  \<^item> \<open>serial_update_parameters\<close> divides by the speed; an operation that divides by zero has no result
    (\<open>None\<close>).
\<close>

unbundle bit_operations_syntax

section \<open>State\<close>

datatype chr_op =
  Chr_write u8 bool
| Set_params int char nat nat
| Set_break bool
| Set_tiocm u32
| Accept_input

record SerialFIFO =
  f_data :: "u8 list"
  f_count :: nat
  f_itl :: nat
  f_tail :: nat
  f_head :: nat

record SerialState =
  divider :: u16
  rbr :: u8
  thr :: u8
  tsr :: u8
  ier :: u8
  iir :: u8
  lcr :: u8
  mcr :: u8
  lsr :: u8
  msr :: u8
  scr :: u8
  fcr :: u8
  fcr_vmstate :: u8
  thr_ipending :: bool
  ser_irq :: "bool list"
  chr :: "chr_op list"
  last_break_enable :: bool
  it_shift :: nat
  baudbase :: int
  tsr_retry :: int
  last_xmit_ts :: int
  recv_fifo :: SerialFIFO
  xmit_fifo :: SerialFIFO
  fifo_timeout_timer :: "int option"
  timeout_ipending :: bool
  transmit_timer :: "int option"
  char_transmit_time :: int
  poll_msl :: int
  modem_status_poll :: "int option"

record serial_env =
  vm_now :: int
  chr_write_ok :: bool
  tiocm :: "u32 option"
  uninit_flags :: u32

section \<open>The FIFOs\<close>

datatype fifo_id = XMIT_FIFO | RECV_FIFO

abbreviation (input) UART_FIFO_LENGTH :: nat where "UART_FIFO_LENGTH \<equiv> 16"

fun the_fifo :: "fifo_id \<Rightarrow> SerialState \<Rightarrow> SerialFIFO" where
  "the_fifo XMIT_FIFO s = xmit_fifo s"
| "the_fifo RECV_FIFO s = recv_fifo s"

fun set_fifo :: "fifo_id \<Rightarrow> SerialFIFO \<Rightarrow> SerialState \<Rightarrow> SerialState" where
  "set_fifo XMIT_FIFO f s = s\<lparr>xmit_fifo := f\<rparr>"
| "set_fifo RECV_FIFO f s = s\<lparr>recv_fifo := f\<rparr>"

definition fifo_clear :: "fifo_id \<Rightarrow> SerialState \<Rightarrow> SerialState" where
  "fifo_clear i s =
    set_fifo i ((the_fifo i s)\<lparr>f_data := replicate UART_FIFO_LENGTH 0, f_count := 0, f_head := 0, f_tail := 0\<rparr>) s"

definition fifo_put :: "fifo_id \<Rightarrow> u8 \<Rightarrow> SerialState \<Rightarrow> SerialState" where
  "fifo_put i b s =
    (let f = the_fifo i s;
         f = (if i = XMIT_FIFO \<or> f_count f < UART_FIFO_LENGTH
              then
                (let f = f\<lparr>f_data := (f_data f)[f_head f := b], f_head := f_head f + 1\<rparr>
                 in if f_head f = UART_FIFO_LENGTH then f\<lparr>f_head := 0\<rparr> else f)
              else f)
     in if f_count f < UART_FIFO_LENGTH then set_fifo i (f\<lparr>f_count := f_count f + 1\<rparr>) s
        else if i = RECV_FIFO then (set_fifo i f s)\<lparr>lsr := lsr s OR 0x02\<rparr>
        else set_fifo i f s)"

definition fifo_get :: "fifo_id \<Rightarrow> SerialState \<Rightarrow> u8 \<times> SerialState" where
  "fifo_get i s =
    (let f = the_fifo i s in
     if f_count f = 0 then (0, s)
     else
       (let c = f_data f ! f_tail f;
            f = f\<lparr>f_tail := f_tail f + 1\<rparr>;
            f = (if f_tail f = UART_FIFO_LENGTH then f\<lparr>f_tail := 0\<rparr> else f);
            f = f\<lparr>f_count := f_count f - 1\<rparr>
        in (c, set_fifo i f s)))"

section \<open>Interrupts\<close>

text \<open>The interrupt the port has to report, by decreasing priority: line status, character timeout,
  received data, transmitter empty, modem status.\<close>

definition tmp_iir :: "SerialState \<Rightarrow> u8" where
  "tmp_iir s =
    (if ier s AND 0x04 \<noteq> 0 \<and> lsr s AND 0x1e \<noteq> 0 then 0x06
     else if ier s AND 0x01 \<noteq> 0 \<and> timeout_ipending s then 0x0c
     else if ier s AND 0x01 \<noteq> 0 \<and> lsr s AND 0x01 \<noteq> 0 \<and>
             (fcr s AND 0x01 = 0 \<or> f_count (recv_fifo s) \<ge> f_itl (recv_fifo s)) then 0x04
     else if ier s AND 0x02 \<noteq> 0 \<and> thr_ipending s then 0x02
     else if ier s AND 0x08 \<noteq> 0 \<and> msr s AND 0x0f \<noteq> 0 then 0x00
     else 0x01)"

definition serial_update_irq :: "SerialState \<Rightarrow> SerialState" where
  "serial_update_irq s =
    s\<lparr>iir := tmp_iir s OR (iir s AND 0xf0), ser_irq := (tmp_iir s \<noteq> 0x01) # ser_irq s\<rparr>"

section \<open>Parameters and modem lines\<close>

definition ticks_per_sec :: int where
  "ticks_per_sec = 1000000000"

definition serial_update_parameters :: "SerialState \<Rightarrow> SerialState option" where
  "serial_update_parameters s =
    (if divider s = 0 then Some s
     else
       (let (frame_size, parity) =
              (if lcr s AND 0x08 \<noteq> 0
               then (2, if lcr s AND 0x10 \<noteq> 0 then CHR ''E'' else CHR ''O'')
               else (1, CHR ''N''));
            stop_bits = (if lcr s AND 0x04 \<noteq> 0 then 2 else 1);
            data_bits = unat (lcr s AND 0x03) + 5;
            frame_size = frame_size + data_bits + stop_bits;
            speed = baudbase s sdiv uint (divider s)
        in if speed = 0 then None
           else Some (s\<lparr>char_transmit_time := (ticks_per_sec sdiv speed) * int frame_size,
                        chr := Set_params speed parity data_bits stop_bits # chr s\<rparr>)))"

definition set_line :: "bool \<Rightarrow> u8 \<Rightarrow> u8 \<Rightarrow> u8" where
  "set_line b m w = (if b then w OR m else w AND NOT m)"

definition serial_update_msl :: "serial_env \<Rightarrow> SerialState \<Rightarrow> SerialState" where
  "serial_update_msl e s =
    (let s = s\<lparr>modem_status_poll := None\<rparr> in
     case tiocm e of
       None \<Rightarrow> s\<lparr>poll_msl := - 1\<rparr>
     | Some flags \<Rightarrow>
         (let omsr = msr s;
              s = s\<lparr>msr := set_line (flags AND 0x020 \<noteq> 0) 0x10 (msr s)\<rparr>;
              s = s\<lparr>msr := set_line (flags AND 0x100 \<noteq> 0) 0x20 (msr s)\<rparr>;
              s = s\<lparr>msr := set_line (flags AND 0x040 \<noteq> 0) 0x80 (msr s)\<rparr>;
              s = s\<lparr>msr := set_line (flags AND 0x080 \<noteq> 0) 0x40 (msr s)\<rparr>;
              s = (if msr s \<noteq> omsr
                   then
                     (let s = s\<lparr>msr := msr s OR (drop_bit 4 (msr s) XOR drop_bit 4 omsr)\<rparr>;
                          s = (if msr s AND 0x04 \<noteq> 0 \<and> omsr AND 0x40 = 0
                               then s\<lparr>msr := msr s AND NOT 0x04\<rparr> else s)
                      in serial_update_irq s)
                   else s)
          in if poll_msl s \<noteq> 0 then s\<lparr>modem_status_poll := Some (vm_now e + ticks_per_sec sdiv 100)\<rparr> else s))"

section \<open>Receiving and sending\<close>

definition serial_can_receive :: "SerialState \<Rightarrow> int" where
  "serial_can_receive s =
    (if fcr s AND 0x01 \<noteq> 0
     then (if f_count (recv_fifo s) < UART_FIFO_LENGTH
           then (if f_count (recv_fifo s) \<le> f_itl (recv_fifo s)
                 then int (f_itl (recv_fifo s)) - int (f_count (recv_fifo s)) else 1)
           else 0)
     else of_bool (lsr s AND 0x01 = 0))"

definition serial_receive_break :: "SerialState \<Rightarrow> SerialState" where
  "serial_receive_break s =
    (let s = s\<lparr>rbr := 0\<rparr>; s = fifo_put RECV_FIFO 0 s; s = s\<lparr>lsr := lsr s OR 0x11\<rparr>
     in serial_update_irq s)"

definition fifo_timeout_int :: "SerialState \<Rightarrow> SerialState" where
  "fifo_timeout_int s =
    (if f_count (recv_fifo s) \<noteq> 0 then serial_update_irq (s\<lparr>timeout_ipending := True\<rparr>) else s)"

definition serial_receive1 :: "serial_env \<Rightarrow> u8 list \<Rightarrow> SerialState \<Rightarrow> SerialState" where
  "serial_receive1 e buf s =
    serial_update_irq
     (if fcr s AND 0x01 \<noteq> 0
      then
        (let s = fold (fifo_put RECV_FIFO) buf s; s = s\<lparr>lsr := lsr s OR 0x01\<rparr>
         in s\<lparr>fifo_timeout_timer := Some (vm_now e + char_transmit_time s * 4)\<rparr>)
      else
        (let s = (if lsr s AND 0x01 \<noteq> 0 then s\<lparr>lsr := lsr s OR 0x02\<rparr> else s);
             s = s\<lparr>rbr := buf ! 0\<rparr>
         in s\<lparr>lsr := lsr s OR 0x01\<rparr>))"

definition serial_event :: "int \<Rightarrow> SerialState \<Rightarrow> SerialState" where
  "serial_event ev s = (if ev = 0 then serial_receive_break s else s)"

definition serial_load_tsr :: "SerialState \<Rightarrow> SerialState" where
  "serial_load_tsr s =
    (if tsr_retry s \<le> 0
     then
       (if fcr s AND 0x01 \<noteq> 0
        then
          (let (c, s) = fifo_get XMIT_FIFO s; s = s\<lparr>tsr := c\<rparr>
           in if f_count (xmit_fifo s) = 0 then s\<lparr>lsr := lsr s OR 0x20\<rparr> else s)
        else s\<lparr>tsr := thr s, lsr := lsr s OR 0x20\<rparr>)
     else s)"

definition serial_sent :: "serial_env \<Rightarrow> SerialState \<Rightarrow> SerialState" where
  "serial_sent e s =
    (let s = s\<lparr>last_xmit_ts := vm_now e\<rparr>;
         s = (if lsr s AND 0x20 = 0
              then s\<lparr>transmit_timer := Some (last_xmit_ts s + char_transmit_time s)\<rparr> else s)
     in if lsr s AND 0x20 \<noteq> 0
        then serial_update_irq (s\<lparr>lsr := lsr s OR 0x40, thr_ipending := True\<rparr>) else s)"

definition serial_xmit :: "serial_env \<Rightarrow> SerialState \<Rightarrow> SerialState" where
  "serial_xmit e s =
    (let s = serial_load_tsr s in
     if mcr s AND 0x10 \<noteq> 0 then serial_sent e (serial_receive1 e [tsr s] s)
     else
       (let s = s\<lparr>chr := Chr_write (tsr s) (chr_write_ok e) # chr s\<rparr> in
        if \<not> chr_write_ok e
        then
          (if 0 < tsr_retry s \<and> tsr_retry s \<le> 4
           then s\<lparr>tsr_retry := tsr_retry s + 1, transmit_timer := Some (vm_now e + char_transmit_time s)\<rparr>
           else serial_sent e (if poll_msl s < 0 then s\<lparr>tsr_retry := - 1\<rparr> else s))
        else serial_sent e (s\<lparr>tsr_retry := 0\<rparr>)))"

section \<open>Registers\<close>

definition serial_write_data :: "serial_env \<Rightarrow> u32 \<Rightarrow> SerialState \<Rightarrow> SerialState option" where
  "serial_write_data e v s =
    (if lcr s AND 0x80 \<noteq> 0
     then serial_update_parameters (s\<lparr>divider := (divider s AND 0xff00) OR ucast v\<rparr>)
     else
       (let s = s\<lparr>thr := ucast v\<rparr>;
            s = (if fcr s AND 0x01 \<noteq> 0
                 then
                   (let s = fifo_put XMIT_FIFO (thr s) s; s = s\<lparr>thr_ipending := False\<rparr>;
                        s = s\<lparr>lsr := lsr s AND NOT 0x40\<rparr>; s = s\<lparr>lsr := lsr s AND NOT 0x20\<rparr>
                    in serial_update_irq s)
                 else
                   (let s = s\<lparr>thr_ipending := False\<rparr>; s = s\<lparr>lsr := lsr s AND NOT 0x20\<rparr>
                    in serial_update_irq s))
        in Some (serial_xmit e s)))"

definition serial_write_ier :: "serial_env \<Rightarrow> u32 \<Rightarrow> SerialState \<Rightarrow> SerialState option" where
  "serial_write_ier e v s =
    (if lcr s AND 0x80 \<noteq> 0
     then serial_update_parameters (s\<lparr>divider := (divider s AND 0x00ff) OR ucast (push_bit 8 v)\<rparr>)
     else
       (let s = s\<lparr>ier := ucast (v AND 0x0f)\<rparr>;
            s = (if poll_msl s \<ge> 0
                 then
                   (if ier s AND 0x08 \<noteq> 0 then serial_update_msl e (s\<lparr>poll_msl := 1\<rparr>)
                    else s\<lparr>modem_status_poll := None, poll_msl := 0\<rparr>)
                 else s)
        in Some (if lsr s AND 0x20 \<noteq> 0 then serial_update_irq (s\<lparr>thr_ipending := True\<rparr>) else s)))"

definition itl_of :: "u32 \<Rightarrow> nat" where
  "itl_of v = (if v AND 0xc0 = 0x00 then 1 else if v AND 0xc0 = 0x40 then 4 else if v AND 0xc0 = 0x80 then 8 else 14)"

definition serial_write_fcr :: "u32 \<Rightarrow> SerialState \<Rightarrow> SerialState" where
  "serial_write_fcr v s =
    (let v = v AND 0xff in
     if ucast (fcr s) = v then s
     else
       (let v = (if (v XOR ucast (fcr s)) AND 0x01 \<noteq> 0 then v OR 0x06 else v);
            s = (if v AND 0x02 \<noteq> 0
                 then fifo_clear RECV_FIFO (s\<lparr>fifo_timeout_timer := None, timeout_ipending := False\<rparr>) else s);
            s = (if v AND 0x04 \<noteq> 0 then fifo_clear XMIT_FIFO s else s);
            s = (if v AND 0x01 \<noteq> 0
                 then s\<lparr>iir := iir s OR 0xc0, recv_fifo := (recv_fifo s)\<lparr>f_itl := itl_of v\<rparr>\<rparr>
                 else s\<lparr>iir := iir s AND NOT 0xc0\<rparr>);
            s = s\<lparr>fcr := ucast (v AND 0xc9)\<rparr>
        in serial_update_irq s))"

definition serial_write_lcr :: "u32 \<Rightarrow> SerialState \<Rightarrow> SerialState option" where
  "serial_write_lcr v s =
    (case serial_update_parameters (s\<lparr>lcr := ucast v\<rparr>) of
       None \<Rightarrow> None
     | Some s \<Rightarrow>
         (let break_enable = (drop_bit 6 v AND 1 \<noteq> 0)
          in Some (if break_enable \<noteq> last_break_enable s
                   then s\<lparr>last_break_enable := break_enable, chr := Set_break break_enable # chr s\<rparr> else s)))"

definition serial_write_mcr :: "serial_env \<Rightarrow> u32 \<Rightarrow> SerialState \<Rightarrow> SerialState" where
  "serial_write_mcr e v s =
    (let old_mcr = mcr s; s = s\<lparr>mcr := ucast (v AND 0x1f)\<rparr> in
     if v AND 0x10 \<noteq> 0 then s
     else if poll_msl s \<ge> 0 \<and> old_mcr \<noteq> mcr s
     then
       (let flags = (case tiocm e of Some f \<Rightarrow> f | None \<Rightarrow> uninit_flags e);
            flags = flags AND NOT (0x004 OR 0x002);
            flags = (if v AND 0x02 \<noteq> 0 then flags OR 0x004 else flags);
            flags = (if v AND 0x01 \<noteq> 0 then flags OR 0x002 else flags)
        in s\<lparr>chr := Set_tiocm flags # chr s, modem_status_poll := Some (vm_now e + char_transmit_time s)\<rparr>)
     else s)"

definition serial_ioport_write :: "serial_env \<Rightarrow> u32 \<Rightarrow> u32 \<Rightarrow> SerialState \<Rightarrow> SerialState option" where
  "serial_ioport_write e addr v s =
    (let addr = addr AND 7 in
     if addr = 1 then serial_write_ier e v s
     else if addr = 2 then Some (serial_write_fcr v s)
     else if addr = 3 then serial_write_lcr v s
     else if addr = 4 then Some (serial_write_mcr e v s)
     else if addr = 5 \<or> addr = 6 then Some s
     else if addr = 7 then Some (s\<lparr>scr := ucast v\<rparr>)
     else serial_write_data e v s)"

definition serial_read_data :: "serial_env \<Rightarrow> SerialState \<Rightarrow> u8 \<times> SerialState" where
  "serial_read_data e s =
    (let (ret, s) =
           (if fcr s AND 0x01 \<noteq> 0
            then
              (let (ret, s) = fifo_get RECV_FIFO s;
                   s = (if f_count (recv_fifo s) = 0 then s\<lparr>lsr := lsr s AND NOT 0x11\<rparr>
                        else s\<lparr>fifo_timeout_timer := Some (vm_now e + char_transmit_time s * 4)\<rparr>)
               in (ret, s\<lparr>timeout_ipending := False\<rparr>))
            else (rbr s, s\<lparr>lsr := lsr s AND NOT 0x11\<rparr>));
         s = serial_update_irq s;
         s = (if mcr s AND 0x10 = 0 then s\<lparr>chr := Accept_input # chr s\<rparr> else s)
     in (ret, s))"

definition serial_read_msr :: "serial_env \<Rightarrow> SerialState \<Rightarrow> u8 \<times> SerialState" where
  "serial_read_msr e s =
    (if mcr s AND 0x10 \<noteq> 0
     then (push_bit 4 (mcr s AND 0x0c) OR push_bit 3 (mcr s AND 0x02) OR push_bit 5 (mcr s AND 0x01), s)
     else
       (let s = (if poll_msl s \<ge> 0 then serial_update_msl e s else s)
        in (msr s, if msr s AND 0x0f \<noteq> 0 then serial_update_irq (s\<lparr>msr := msr s AND 0xf0\<rparr>) else s)))"

definition serial_ioport_read :: "serial_env \<Rightarrow> u32 \<Rightarrow> SerialState \<Rightarrow> u8 \<times> SerialState" where
  "serial_ioport_read e addr s =
    (let addr = addr AND 7 in
     if addr = 1 then (if lcr s AND 0x80 \<noteq> 0 then (ucast (drop_bit 8 (divider s)), s) else (ier s, s))
     else if addr = 2
     then (iir s, if iir s AND 0x06 = 0x02 then serial_update_irq (s\<lparr>thr_ipending := False\<rparr>) else s)
     else if addr = 3 then (lcr s, s)
     else if addr = 4 then (mcr s, s)
     else if addr = 5
     then (lsr s, if lsr s AND 0x12 \<noteq> 0 then serial_update_irq (s\<lparr>lsr := lsr s AND NOT 0x12\<rparr>) else s)
     else if addr = 6 then serial_read_msr e s
     else if addr = 7 then (scr s, s)
     else if lcr s AND 0x80 \<noteq> 0 then (ucast (divider s), s)
     else serial_read_data e s)"

section \<open>Reset, saving and creation\<close>

definition serial_pre_save :: "SerialState \<Rightarrow> SerialState" where
  "serial_pre_save s = s\<lparr>fcr_vmstate := fcr s\<rparr>"

definition serial_post_load :: "serial_env \<Rightarrow> int \<Rightarrow> SerialState \<Rightarrow> SerialState option" where
  "serial_post_load e version_id s =
    (let s = (if version_id < 3 then s\<lparr>fcr_vmstate := 0\<rparr> else s) in
     case serial_ioport_write e 2 (ucast (fcr_vmstate s)) s of
       None \<Rightarrow> None
     | Some s \<Rightarrow> serial_update_parameters s)"

text \<open>The fields of \<open>vmstate_serial\<close>, read from a saved state into another.\<close>

definition vmstate_serial :: "SerialState \<Rightarrow> SerialState \<Rightarrow> SerialState" where
  "vmstate_serial v s =
    s\<lparr>divider := divider v, rbr := rbr v, ier := ier v, iir := iir v, lcr := lcr v, mcr := mcr v,
      lsr := lsr v, msr := msr v, scr := scr v, fcr_vmstate := fcr_vmstate v\<rparr>"

definition serial_reset :: "serial_env \<Rightarrow> SerialState \<Rightarrow> SerialState" where
  "serial_reset e s =
    (let s = s\<lparr>rbr := 0, ier := 0, iir := 0x01, lcr := 0, lsr := 0x40 OR 0x20, msr := 0x80 OR 0x20 OR 0x10,
               divider := 0x0c, mcr := 0x08, scr := 0, tsr_retry := 0,
               char_transmit_time := (ticks_per_sec sdiv 9600) * 10, poll_msl := 0\<rparr>;
         s = fifo_clear XMIT_FIFO (fifo_clear RECV_FIFO s)
     in s\<lparr>last_xmit_ts := vm_now e, thr_ipending := False, last_break_enable := False, ser_irq := False # ser_irq s\<rparr>)"

definition serial_set_frequency :: "int \<Rightarrow> SerialState \<Rightarrow> SerialState option" where
  "serial_set_frequency frequency s = serial_update_parameters (s\<lparr>baudbase := frequency\<rparr>)"

definition serial_zero :: SerialState where
  "serial_zero =
    (let f = \<lparr>f_data = replicate 16 0, f_count = 0, f_itl = 0, f_tail = 0, f_head = 0\<rparr> in
     \<lparr>divider = 0, rbr = 0, thr = 0, tsr = 0, ier = 0, iir = 0, lcr = 0, mcr = 0, lsr = 0, msr = 0, scr = 0,
      fcr = 0, fcr_vmstate = 0, thr_ipending = False, ser_irq = [], chr = [], last_break_enable = False,
      it_shift = 0, baudbase = 0, tsr_retry = 0, last_xmit_ts = 0, recv_fifo = f, xmit_fifo = f,
      fifo_timeout_timer = None, timeout_ipending = False, transmit_timer = None, char_transmit_time = 0,
      poll_msl = 0, modem_status_poll = None\<rparr>)"

definition serial_init :: "int \<Rightarrow> SerialState" where
  "serial_init base = serial_zero\<lparr>baudbase := base\<rparr>"

definition serial_mm_init :: "serial_env \<Rightarrow> nat \<Rightarrow> int \<Rightarrow> SerialState" where
  "serial_mm_init e shift base = serial_update_msl e (serial_zero\<lparr>it_shift := shift, baudbase := base\<rparr>)"

record ISASerialState =
  isa_index :: u32
  isa_iobase :: u32
  isa_isairq :: u32
  isa_state :: SerialState

definition isa_serial_io :: "u32 list" where
  "isa_serial_io = [0x3f8, 0x2f8, 0x3e8, 0x2e8]"

definition isa_serial_irq :: "u32 list" where
  "isa_serial_irq = [4, 3, 4, 3]"

definition serial_isa_initfn :: "u32 \<Rightarrow> ISASerialState \<Rightarrow> (u32 \<times> ISASerialState) option" where
  "serial_isa_initfn index isa =
    (let isa = (if isa_index isa = - 1 then isa\<lparr>isa_index := index\<rparr> else isa) in
     if isa_index isa \<ge> 4 then None
     else
       (let isa = (if isa_iobase isa = - 1 then isa\<lparr>isa_iobase := isa_serial_io ! unat (isa_index isa)\<rparr> else isa);
            isa = (if isa_isairq isa = - 1 then isa\<lparr>isa_isairq := isa_serial_irq ! unat (isa_index isa)\<rparr> else isa)
        in Some (index + 1, isa\<lparr>isa_state := (isa_state isa)\<lparr>baudbase := 115200\<rparr>\<rparr>)))"

section \<open>The memory-mapped port\<close>

definition bswap16 :: "u16 \<Rightarrow> u16" where
  "bswap16 x = push_bit 8 (x AND 0x00ff) OR drop_bit 8 (x AND 0xff00)"

definition bswap32 :: "u32 \<Rightarrow> u32" where
  "bswap32 x =
    push_bit 24 (x AND 0x000000ff) OR push_bit 8 (x AND 0x0000ff00) OR
    drop_bit 8 (x AND 0x00ff0000) OR drop_bit 24 (x AND 0xff000000)"

definition mm_read :: "(u8 \<Rightarrow> u32) \<Rightarrow> serial_env \<Rightarrow> u64 \<Rightarrow> SerialState \<Rightarrow> u32 \<times> SerialState" where
  "mm_read conv e addr s = (let (v, s') = serial_ioport_read e (ucast (drop_bit (it_shift s) addr)) s in (conv v, s'))"

definition mm_write :: "(u32 \<Rightarrow> u32) \<Rightarrow> serial_env \<Rightarrow> u64 \<Rightarrow> u32 \<Rightarrow> SerialState \<Rightarrow> SerialState option" where
  "mm_write conv e addr v s = serial_ioport_write e (ucast (drop_bit (it_shift s) addr)) (conv v) s"

definition serial_mm_readb :: "serial_env \<Rightarrow> u64 \<Rightarrow> SerialState \<Rightarrow> u32 \<times> SerialState" where
  "serial_mm_readb = mm_read (\<lambda>v. ucast v AND 0xff)"

definition serial_mm_writeb :: "serial_env \<Rightarrow> u64 \<Rightarrow> u32 \<Rightarrow> SerialState \<Rightarrow> SerialState option" where
  "serial_mm_writeb = mm_write (\<lambda>v. v AND 0xff)"

definition serial_mm_readw_be :: "serial_env \<Rightarrow> u64 \<Rightarrow> SerialState \<Rightarrow> u32 \<times> SerialState" where
  "serial_mm_readw_be = mm_read (\<lambda>v. ucast (bswap16 (ucast (ucast v AND 0xffff :: u32))))"

definition serial_mm_readw_le :: "serial_env \<Rightarrow> u64 \<Rightarrow> SerialState \<Rightarrow> u32 \<times> SerialState" where
  "serial_mm_readw_le = mm_read (\<lambda>v. ucast v AND 0xffff)"

definition serial_mm_writew_be :: "serial_env \<Rightarrow> u64 \<Rightarrow> u32 \<Rightarrow> SerialState \<Rightarrow> SerialState option" where
  "serial_mm_writew_be = mm_write (\<lambda>v. ucast (bswap16 (ucast v)) AND 0xffff)"

definition serial_mm_writew_le :: "serial_env \<Rightarrow> u64 \<Rightarrow> u32 \<Rightarrow> SerialState \<Rightarrow> SerialState option" where
  "serial_mm_writew_le = mm_write (\<lambda>v. v AND 0xffff)"

definition serial_mm_readl_be :: "serial_env \<Rightarrow> u64 \<Rightarrow> SerialState \<Rightarrow> u32 \<times> SerialState" where
  "serial_mm_readl_be = mm_read (\<lambda>v. bswap32 (ucast v))"

definition serial_mm_readl_le :: "serial_env \<Rightarrow> u64 \<Rightarrow> SerialState \<Rightarrow> u32 \<times> SerialState" where
  "serial_mm_readl_le = mm_read (\<lambda>v. ucast v)"

definition serial_mm_writel_be :: "serial_env \<Rightarrow> u64 \<Rightarrow> u32 \<Rightarrow> SerialState \<Rightarrow> SerialState option" where
  "serial_mm_writel_be = mm_write bswap32"

definition serial_mm_writel_le :: "serial_env \<Rightarrow> u64 \<Rightarrow> u32 \<Rightarrow> SerialState \<Rightarrow> SerialState option" where
  "serial_mm_writel_le = mm_write (\<lambda>v. v)"

section \<open>The FIFOs as queues\<close>

definition fifo_wf :: "SerialFIFO \<Rightarrow> bool" where
  "fifo_wf f \<longleftrightarrow> length (f_data f) = 16 \<and> f_tail f < 16 \<and> f_count f \<le> 16 \<and>
    f_head f = (f_tail f + f_count f) mod 16"

definition fifo_bytes :: "SerialFIFO \<Rightarrow> u8 list" where
  "fifo_bytes f = ring (f_data f) (f_tail f) (f_count f)"

lemma length_fifo_bytes [simp]: "length (fifo_bytes f) = f_count f"
  by (simp add: fifo_bytes_def)

text \<open>One byte added to, and one taken from, a FIFO.\<close>

definition fifo_add :: "u8 \<Rightarrow> SerialFIFO \<Rightarrow> SerialFIFO" where
  "fifo_add b f = f\<lparr>f_data := (f_data f)[f_head f := b], f_head := (if f_head f + 1 = 16 then 0 else f_head f + 1),
    f_count := f_count f + 1\<rparr>"

definition fifo_drop :: "SerialFIFO \<Rightarrow> SerialFIFO" where
  "fifo_drop f = f\<lparr>f_tail := (if f_tail f + 1 = 16 then 0 else f_tail f + 1), f_count := f_count f - 1\<rparr>"

lemma fifo_add_wf:
  assumes "fifo_wf f" "f_count f < 16"
  shows "fifo_wf (fifo_add b f)" "fifo_bytes (fifo_add b f) = fifo_bytes f @ [b]"
proof -
  have "(if f_head f + 1 = 16 then 0 else f_head f + 1) = (f_tail f + Suc (f_count f)) mod 16"
    using assms by (intro ring_write_pointer) (simp_all add: fifo_wf_def)
  then show "fifo_wf (fifo_add b f)" using assms by (simp add: fifo_wf_def fifo_add_def)
  show "fifo_bytes (fifo_add b f) = fifo_bytes f @ [b]"
    using assms by (simp add: fifo_bytes_def fifo_add_def fifo_wf_def ring_put)
qed

lemma fifo_drop_wf:
  assumes "fifo_wf f" "0 < f_count f"
  shows "fifo_wf (fifo_drop f)" "fifo_bytes f = f_data f ! f_tail f # fifo_bytes (fifo_drop f)"
proof -
  have i: "f_tail f < 16" "length (f_data f) = 16" using assms(1) by (simp_all add: fifo_wf_def)
  note r = ring_read_pointer [OF i(1) assms(2)]
  show "fifo_wf (fifo_drop f)" using assms r(1,3) by (auto simp: fifo_wf_def fifo_drop_def)
  show "fifo_bytes f = f_data f ! f_tail f # fifo_bytes (fifo_drop f)"
    using ring_get [of "f_tail f" "f_data f" "f_count f"] assms(2) i r(2)
    by (simp add: fifo_bytes_def fifo_drop_def)
qed

lemma fifo_put_room: "f_count (the_fifo i s) < 16 \<Longrightarrow> fifo_put i b s = set_fifo i (fifo_add b (the_fifo i s)) s"
  by (cases i) (simp_all add: fifo_put_def fifo_add_def Let_def)

lemma fifo_put_full: "f_count (recv_fifo s) = 16 \<Longrightarrow> fifo_put RECV_FIFO b s = s\<lparr>lsr := lsr s OR 0x02\<rparr>"
  by (simp add: fifo_put_def Let_def)

lemma fifo_get_some:
  "0 < f_count (the_fifo i s) \<Longrightarrow>
    fifo_get i s = (f_data (the_fifo i s) ! f_tail (the_fifo i s), set_fifo i (fifo_drop (the_fifo i s)) s)"
  by (simp add: fifo_get_def fifo_drop_def Let_def)

lemma fifo_get_none: "f_count (the_fifo i s) = 0 \<Longrightarrow> fifo_get i s = (0, s)"
  by (simp add: fifo_get_def)

section \<open>The invariant\<close>

text \<open>The interrupt register and the line report the interrupt of highest priority.\<close>

definition irq_current :: "SerialState \<Rightarrow> bool" where
  "irq_current s \<longleftrightarrow> iir s AND 0x0f = tmp_iir s \<and> line_level (ser_irq s) = (tmp_iir s \<noteq> 0x01)"

definition recv_ok :: "SerialState \<Rightarrow> bool" where
  "recv_ok s \<longleftrightarrow> fifo_wf (recv_fifo s) \<and> (fcr s AND 0x01 \<noteq> 0 \<longrightarrow>
    f_itl (recv_fifo s) \<in> {1, 4, 8, 14} \<and> (f_count (recv_fifo s) \<noteq> 0 \<longrightarrow> lsr s AND 0x01 \<noteq> 0))"

definition xmit_idle :: "SerialState \<Rightarrow> bool" where
  "xmit_idle s \<longleftrightarrow> fifo_wf (xmit_fifo s) \<and> f_count (xmit_fifo s) = 0 \<and> lsr s AND 0x20 \<noteq> 0 \<and>
    tsr_retry s \<in> {0, - 1} \<and> transmit_timer s = None"

definition serial_inv :: "SerialState \<Rightarrow> bool" where
  "serial_inv s \<longleftrightarrow> irq_current s \<and> recv_ok s \<and> xmit_idle s"

lemma tmp_iir_range: "tmp_iir s \<in> {0, 1, 2, 4, 6, 0x0c}"
  by (simp add: tmp_iir_def)

lemma tmp_iir_update_irq [simp]: "tmp_iir (serial_update_irq s) = tmp_iir s"
  by (simp add: tmp_iir_def serial_update_irq_def)

lemma irq_current_update [simp]: "irq_current (serial_update_irq s)"
proof -
  have "(tmp_iir s OR (iir s AND 0xf0)) AND 0x0f = tmp_iir s AND 0x0f" by (simp add: bit.conj_disj_distrib2 and.assoc)
  also have "\<dots> = tmp_iir s" using tmp_iir_range [of s] by auto
  finally show ?thesis by (simp add: irq_current_def) (simp add: serial_update_irq_def)
qed

lemma tmp_iir_frame [simp]:
  "tmp_iir (s\<lparr>divider := a\<rparr>) = tmp_iir s" "tmp_iir (s\<lparr>rbr := b\<rparr>) = tmp_iir s" "tmp_iir (s\<lparr>thr := b\<rparr>) = tmp_iir s"
  "tmp_iir (s\<lparr>tsr := b\<rparr>) = tmp_iir s" "tmp_iir (s\<lparr>iir := b\<rparr>) = tmp_iir s" "tmp_iir (s\<lparr>lcr := b\<rparr>) = tmp_iir s"
  "tmp_iir (s\<lparr>mcr := b\<rparr>) = tmp_iir s" "tmp_iir (s\<lparr>scr := b\<rparr>) = tmp_iir s" "tmp_iir (s\<lparr>chr := c\<rparr>) = tmp_iir s"
  "tmp_iir (s\<lparr>last_break_enable := d\<rparr>) = tmp_iir s" "tmp_iir (s\<lparr>char_transmit_time := x\<rparr>) = tmp_iir s"
  "tmp_iir (s\<lparr>fifo_timeout_timer := t\<rparr>) = tmp_iir s" "tmp_iir (s\<lparr>modem_status_poll := t\<rparr>) = tmp_iir s"
  "tmp_iir (s\<lparr>poll_msl := x\<rparr>) = tmp_iir s" "tmp_iir (s\<lparr>baudbase := x\<rparr>) = tmp_iir s"
  by (simp_all add: tmp_iir_def)

lemma irq_current_frame [simp]:
  "irq_current (s\<lparr>divider := a\<rparr>) = irq_current s" "irq_current (s\<lparr>lcr := b\<rparr>) = irq_current s"
  "irq_current (s\<lparr>mcr := b\<rparr>) = irq_current s" "irq_current (s\<lparr>scr := b\<rparr>) = irq_current s"
  "irq_current (s\<lparr>chr := c\<rparr>) = irq_current s" "irq_current (s\<lparr>last_break_enable := d\<rparr>) = irq_current s"
  "irq_current (s\<lparr>char_transmit_time := x\<rparr>) = irq_current s"
  "irq_current (s\<lparr>fifo_timeout_timer := t\<rparr>) = irq_current s"
  "irq_current (s\<lparr>modem_status_poll := t\<rparr>) = irq_current s"
  "irq_current (s\<lparr>poll_msl := x\<rparr>) = irq_current s" "irq_current (s\<lparr>baudbase := x\<rparr>) = irq_current s"
  by (simp_all add: irq_current_def)

text \<open>Setting and clearing flags.\<close>

lemma flag_or [simp]: "((w :: 'a::len word) OR a) AND b = 0 \<longleftrightarrow> w AND b = 0 \<and> a AND b = 0"
  by (simp add: bit.conj_disj_distrib2 or_eq_0_iff)

lemma flag_clear [simp]:
  "((w :: u8) AND - 18) AND 0x20 = w AND 0x20" "((w :: u8) AND - 19) AND 0x20 = w AND 0x20"
  "((w :: u8) AND - 19) AND 0x01 = w AND 0x01"
  by (simp_all add: and.assoc)

text \<open>Receiving and sending apart from the interrupt.\<close>

definition serial_core :: "SerialState \<Rightarrow> bool" where
  "serial_core s \<longleftrightarrow> recv_ok s \<and> xmit_idle s"

lemma serial_inv_core: "serial_inv s \<longleftrightarrow> irq_current s \<and> serial_core s"
  by (simp add: serial_inv_def serial_core_def)

lemma recv_ok_frame [simp]:
  "recv_ok (serial_update_irq s) = recv_ok s" "recv_ok (s\<lparr>tsr := b\<rparr>) = recv_ok s"
  "recv_ok (s\<lparr>thr := b\<rparr>) = recv_ok s" "recv_ok (s\<lparr>rbr := b\<rparr>) = recv_ok s"
  "recv_ok (s\<lparr>thr_ipending := d\<rparr>) = recv_ok s" "recv_ok (s\<lparr>timeout_ipending := d\<rparr>) = recv_ok s"
  "recv_ok (s\<lparr>last_xmit_ts := x\<rparr>) = recv_ok s" "recv_ok (s\<lparr>tsr_retry := x\<rparr>) = recv_ok s"
  "recv_ok (s\<lparr>fifo_timeout_timer := t\<rparr>) = recv_ok s" "recv_ok (s\<lparr>chr := c\<rparr>) = recv_ok s"
  "recv_ok (s\<lparr>xmit_fifo := f\<rparr>) = recv_ok s" "recv_ok (s\<lparr>iir := b\<rparr>) = recv_ok s" "recv_ok (s\<lparr>msr := b\<rparr>) = recv_ok s"
  "recv_ok (s\<lparr>ier := b\<rparr>) = recv_ok s" "recv_ok (s\<lparr>modem_status_poll := t\<rparr>) = recv_ok s"
  "recv_ok (s\<lparr>poll_msl := x\<rparr>) = recv_ok s" "recv_ok (s\<lparr>divider := a\<rparr>) = recv_ok s" "recv_ok (s\<lparr>lcr := b\<rparr>) = recv_ok s"
  "recv_ok (s\<lparr>mcr := b\<rparr>) = recv_ok s" "recv_ok (s\<lparr>scr := b\<rparr>) = recv_ok s"
  "recv_ok (s\<lparr>last_break_enable := d\<rparr>) = recv_ok s" "recv_ok (s\<lparr>char_transmit_time := x\<rparr>) = recv_ok s"
  "recv_ok (s\<lparr>baudbase := x\<rparr>) = recv_ok s"
  by (simp_all add: recv_ok_def serial_update_irq_def)

lemma xmit_idle_frame [simp]:
  "xmit_idle (serial_update_irq s) = xmit_idle s" "xmit_idle (s\<lparr>tsr := b\<rparr>) = xmit_idle s"
  "xmit_idle (s\<lparr>rbr := b\<rparr>) = xmit_idle s"
  "xmit_idle (s\<lparr>thr_ipending := d\<rparr>) = xmit_idle s" "xmit_idle (s\<lparr>timeout_ipending := d\<rparr>) = xmit_idle s"
  "xmit_idle (s\<lparr>last_xmit_ts := x\<rparr>) = xmit_idle s"
  "xmit_idle (s\<lparr>fifo_timeout_timer := t\<rparr>) = xmit_idle s" "xmit_idle (s\<lparr>chr := c\<rparr>) = xmit_idle s"
  "xmit_idle (s\<lparr>recv_fifo := f\<rparr>) = xmit_idle s" "xmit_idle (s\<lparr>iir := b\<rparr>) = xmit_idle s" "xmit_idle (s\<lparr>msr := b\<rparr>) = xmit_idle s"
  "xmit_idle (s\<lparr>ier := b\<rparr>) = xmit_idle s" "xmit_idle (s\<lparr>modem_status_poll := t\<rparr>) = xmit_idle s"
  "xmit_idle (s\<lparr>poll_msl := x\<rparr>) = xmit_idle s" "xmit_idle (s\<lparr>divider := a\<rparr>) = xmit_idle s" "xmit_idle (s\<lparr>lcr := b\<rparr>) = xmit_idle s"
  "xmit_idle (s\<lparr>mcr := b\<rparr>) = xmit_idle s" "xmit_idle (s\<lparr>scr := b\<rparr>) = xmit_idle s" "xmit_idle (s\<lparr>fcr := b\<rparr>) = xmit_idle s"
  "xmit_idle (s\<lparr>last_break_enable := d\<rparr>) = xmit_idle s" "xmit_idle (s\<lparr>char_transmit_time := x\<rparr>) = xmit_idle s"
  "xmit_idle (s\<lparr>baudbase := x\<rparr>) = xmit_idle s"
  by (simp_all add: xmit_idle_def serial_update_irq_def)

lemma update_irq_frame [simp]:
  "baudbase (serial_update_irq s) = baudbase s" "lsr (serial_update_irq s) = lsr s" "fcr (serial_update_irq s) = fcr s"
  "mcr (serial_update_irq s) = mcr s" "recv_fifo (serial_update_irq s) = recv_fifo s"
  "xmit_fifo (serial_update_irq s) = xmit_fifo s" "tsr_retry (serial_update_irq s) = tsr_retry s"
  "transmit_timer (serial_update_irq s) = transmit_timer s" "rbr (serial_update_irq s) = rbr s"
  "thr (serial_update_irq s) = thr s" "chr (serial_update_irq s) = chr s" "lcr (serial_update_irq s) = lcr s"
  "tsr (serial_update_irq s) = tsr s" "msr (serial_update_irq s) = msr s" "poll_msl (serial_update_irq s) = poll_msl s"
  "divider (serial_update_irq s) = divider s"
  by (simp_all add: serial_update_irq_def)

definition recv_wf :: "SerialState \<Rightarrow> bool" where
  "recv_wf s \<longleftrightarrow> fifo_wf (recv_fifo s) \<and> (fcr s AND 0x01 \<noteq> 0 \<longrightarrow> f_itl (recv_fifo s) \<in> {1, 4, 8, 14})"

lemma recv_ok_wf: "recv_ok s \<Longrightarrow> recv_wf s"
  by (auto simp: recv_ok_def recv_wf_def)

lemma lsr_ok [simp]:
  "recv_ok s \<Longrightarrow> (lsr s AND 0x01 \<noteq> 0 \<longrightarrow> w AND 0x01 \<noteq> 0) \<Longrightarrow> recv_ok (s\<lparr>lsr := w\<rparr>)"
  "recv_wf s \<Longrightarrow> w AND 0x01 \<noteq> 0 \<Longrightarrow> recv_ok (s\<lparr>lsr := w\<rparr>)"
  "xmit_idle s \<Longrightarrow> w AND 0x20 \<noteq> 0 \<Longrightarrow> xmit_idle (s\<lparr>lsr := w\<rparr>)"
  "xmit_idle s \<Longrightarrow> lsr s AND 0x20 \<noteq> 0"
  by (auto simp: recv_ok_def recv_wf_def xmit_idle_def)

lemma recv_wf_frame [simp]: "recv_wf (s\<lparr>rbr := b\<rparr>) = recv_wf s" "recv_wf (s\<lparr>lsr := b\<rparr>) = recv_wf s"
  by (simp_all add: recv_wf_def)

lemma fifo_put_wf [simp]: "recv_wf s \<Longrightarrow> recv_wf (fifo_put RECV_FIFO b s)"
  using fifo_add_wf(1) [of "recv_fifo s" b] fifo_put_room [of RECV_FIFO s b] fifo_put_full [of s b]
  by (cases "f_count (recv_fifo s) < 16") (auto simp: recv_wf_def fifo_wf_def fifo_add_def)

lemma fifo_put_frame [simp]:
  "baudbase (fifo_put i b s) = baudbase s" "xmit_idle s \<Longrightarrow> xmit_idle (fifo_put RECV_FIFO b s)"
  "fcr (fifo_put i b s) = fcr s" "mcr (fifo_put i b s) = mcr s" "lcr (fifo_put i b s) = lcr s"
  "chr (fifo_put i b s) = chr s" "rbr (fifo_put i b s) = rbr s" "tsr (fifo_put i b s) = tsr s"
  "tsr_retry (fifo_put i b s) = tsr_retry s" "transmit_timer (fifo_put i b s) = transmit_timer s"
  "poll_msl (fifo_put i b s) = poll_msl s" "xmit_fifo (fifo_put RECV_FIFO b s) = xmit_fifo s"
  "recv_fifo (fifo_put XMIT_FIFO b s) = recv_fifo s" "lsr (fifo_put XMIT_FIFO b s) = lsr s"
  by (cases i; simp add: fifo_put_def Let_def; fail | simp add: fifo_put_def Let_def)+

lemma fifo_puts [simp]:
  "recv_wf s \<Longrightarrow> recv_wf (fold (fifo_put RECV_FIFO) bs s)"
  "xmit_idle s \<Longrightarrow> xmit_idle (fold (fifo_put RECV_FIFO) bs s)"
  "baudbase (fold (fifo_put RECV_FIFO) bs s) = baudbase s"
  "chr (fold (fifo_put RECV_FIFO) bs s) = chr s"
  "tsr_retry (fold (fifo_put RECV_FIFO) bs s) = tsr_retry s"
  "fcr (fold (fifo_put RECV_FIFO) bs s) = fcr s" "mcr (fold (fifo_put RECV_FIFO) bs s) = mcr s"
  "lcr (fold (fifo_put RECV_FIFO) bs s) = lcr s"
  by (induction bs arbitrary: s) simp_all

lemma serial_receive1_inv:
  assumes "serial_core s"
  shows "serial_inv (serial_receive1 e bs s)"
proof -
  have "recv_wf s" using assms by (simp add: serial_core_def recv_ok_wf)
  then show ?thesis
    using assms by (simp add: serial_inv_core serial_receive1_def Let_def serial_core_def)
qed

lemma serial_receive_break_inv: "serial_core s \<Longrightarrow> serial_inv (serial_receive_break s)"
  by (simp add: serial_inv_core serial_receive_break_def Let_def serial_core_def recv_ok_wf)

lemma fifo_timeout_inv: "serial_inv s \<Longrightarrow> serial_inv (fifo_timeout_int s)"
  by (simp add: serial_inv_core fifo_timeout_int_def serial_core_def)

text \<open>Sending is over when the call that starts it returns.\<close>

definition xmit_pre :: "SerialState \<Rightarrow> bool" where
  "xmit_pre s \<longleftrightarrow> fifo_wf (xmit_fifo s) \<and> f_count (xmit_fifo s) \<le> 1 \<and> (fcr s AND 0x01 = 0 \<longrightarrow> f_count (xmit_fifo s) = 0) \<and>
    tsr_retry s \<in> {0, - 1} \<and> transmit_timer s = None"

lemma serial_load_tsr_idle:
  assumes "xmit_pre s"
  shows "xmit_idle (serial_load_tsr s)"
proof -
  have p: "fifo_wf (xmit_fifo s)" "tsr_retry s \<in> {0, - 1}" "transmit_timer s = None" "tsr_retry s \<le> 0"
    using assms by (auto simp: xmit_pre_def)
  show ?thesis
  proof (cases "f_count (xmit_fifo s) = 0")
    case True
    then show ?thesis
      using p(4) p(1-3) by (simp add: serial_load_tsr_def xmit_idle_def fifo_get_none)
  next
    case False
    with assms have c: "fcr s AND 0x01 \<noteq> 0" "f_count (xmit_fifo s) = 1" by (auto simp: xmit_pre_def)
    then have "fifo_wf (fifo_drop (xmit_fifo s))" "f_count (fifo_drop (xmit_fifo s)) = 0"
      using p(1) fifo_drop_wf(1) [of "xmit_fifo s"] by (simp_all add: fifo_drop_def)
    then show ?thesis
      using p(4) p(1-3) c by (simp add: serial_load_tsr_def xmit_idle_def fifo_get_some)
  qed
qed

lemma fifo_get_frame [simp]:
  "recv_ok (snd (fifo_get XMIT_FIFO s)) = recv_ok s" "baudbase (snd (fifo_get i s)) = baudbase s"
  "fcr (snd (fifo_get i s)) = fcr s" "mcr (snd (fifo_get i s)) = mcr s" "chr (snd (fifo_get i s)) = chr s"
  "lsr (snd (fifo_get i s)) = lsr s" "poll_msl (snd (fifo_get i s)) = poll_msl s" "lcr (snd (fifo_get i s)) = lcr s"
  "xmit_idle (snd (fifo_get RECV_FIFO s)) = xmit_idle s"
  by (cases i; simp add: fifo_get_def Let_def; fail | simp add: fifo_get_def Let_def)+

lemma serial_load_tsr_frame [simp]:
  "recv_ok s \<Longrightarrow> recv_ok (serial_load_tsr s)" "baudbase (serial_load_tsr s) = baudbase s"
  "fcr (serial_load_tsr s) = fcr s" "mcr (serial_load_tsr s) = mcr s" "chr (serial_load_tsr s) = chr s"
  "poll_msl (serial_load_tsr s) = poll_msl s" "lcr (serial_load_tsr s) = lcr s"
  by (simp_all add: serial_load_tsr_def Let_def split_beta) 

lemma serial_sent_inv: "serial_core s \<Longrightarrow> serial_inv (serial_sent e s)"
  by (simp add: serial_inv_core serial_sent_def Let_def serial_core_def)

lemma serial_retry_core: "serial_core s \<Longrightarrow> x \<in> {0, - 1} \<Longrightarrow> serial_core (s\<lparr>tsr_retry := x\<rparr>)"
  by (simp add: serial_core_def) (auto simp: xmit_idle_def)

lemma serial_xmit_inv:
  assumes "xmit_pre s" "recv_ok s"
  shows "serial_inv (serial_xmit e s)"
proof -
  let ?s = "serial_load_tsr s"
  have c: "serial_core ?s" using assms serial_load_tsr_idle by (simp add: serial_core_def)
  then have c': "serial_core (?s\<lparr>chr := x\<rparr>)" for x by (simp add: serial_core_def)
  have "tsr_retry ?s \<in> {0, - 1}" using c by (simp add: serial_core_def xmit_idle_def)
  then have "\<not> 0 < tsr_retry ?s" by auto
  then show ?thesis
    using serial_receive1_inv [OF c] c'
    by (simp add: serial_xmit_def Let_def serial_inv_core serial_sent_inv [unfolded serial_inv_core] serial_retry_core)
qed

lemma serial_core_frame [simp]:
  "serial_core (serial_update_irq s) = serial_core s"
  "serial_core (s\<lparr>rbr := b\<rparr>) = serial_core s" "serial_core (s\<lparr>ier := b\<rparr>) = serial_core s"
  "serial_core (s\<lparr>iir := b\<rparr>) = serial_core s" "serial_core (s\<lparr>msr := b\<rparr>) = serial_core s"
  "serial_core (s\<lparr>thr_ipending := d\<rparr>) = serial_core s" "serial_core (s\<lparr>timeout_ipending := d\<rparr>) = serial_core s"
  "serial_core (s\<lparr>fifo_timeout_timer := t\<rparr>) = serial_core s" "serial_core (s\<lparr>chr := c\<rparr>) = serial_core s"
  "serial_core (s\<lparr>modem_status_poll := t\<rparr>) = serial_core s" "serial_core (s\<lparr>poll_msl := x\<rparr>) = serial_core s"
  "serial_core (s\<lparr>divider := a\<rparr>) = serial_core s" "serial_core (s\<lparr>lcr := b\<rparr>) = serial_core s"
  "serial_core (s\<lparr>mcr := b\<rparr>) = serial_core s" "serial_core (s\<lparr>scr := b\<rparr>) = serial_core s"
  "serial_core (s\<lparr>last_break_enable := d\<rparr>) = serial_core s" "serial_core (s\<lparr>char_transmit_time := x\<rparr>) = serial_core s"
  "serial_core (s\<lparr>baudbase := x\<rparr>) = serial_core s"
  by (simp_all add: serial_core_def)

lemma serial_inv_frame [simp]:
  "serial_inv (serial_update_irq s) = serial_core s"
  "serial_inv (s\<lparr>fifo_timeout_timer := t\<rparr>) = serial_inv s" "serial_inv (s\<lparr>chr := c\<rparr>) = serial_inv s"
  "serial_inv (s\<lparr>modem_status_poll := t\<rparr>) = serial_inv s" "serial_inv (s\<lparr>poll_msl := x\<rparr>) = serial_inv s"
  "serial_inv (s\<lparr>divider := a\<rparr>) = serial_inv s" "serial_inv (s\<lparr>lcr := b\<rparr>) = serial_inv s"
  "serial_inv (s\<lparr>mcr := b\<rparr>) = serial_inv s" "serial_inv (s\<lparr>scr := b\<rparr>) = serial_inv s"
  "serial_inv (s\<lparr>last_break_enable := d\<rparr>) = serial_inv s" "serial_inv (s\<lparr>char_transmit_time := x\<rparr>) = serial_inv s"
  "serial_inv (s\<lparr>baudbase := x\<rparr>) = serial_inv s"
  by (simp_all add: serial_inv_core)

lemma serial_core_of_inv: "serial_inv s \<Longrightarrow> serial_core s"
  by (simp add: serial_inv_core)

lemma serial_core_ready: "serial_core s \<Longrightarrow> lsr s AND 0x20 \<noteq> 0"
  by (simp add: serial_core_def)

lemma speed_pos:
  assumes "65535 \<le> b" "(d :: u16) \<noteq> 0"
  shows "0 < b sdiv uint d"
proof -
  have d: "0 < uint d" using assms(2) uint_ge_0 [of d] by (metis unsigned_eq_0_iff order_less_le)
  have "uint d \<le> 65535" using unsigned_less [of d, where ?'a = int] by simp
  then have "uint d \<le> b" using assms(1) by linarith
  then have "0 < b div uint d" using d by (simp add: pos_imp_zdiv_pos_iff)
  then show ?thesis using d assms(1) by (simp add: sdiv_nonneg)
qed

text \<open>
  What an operation may end with: a state with the invariant and the same base frequency, or a division by zero,
  which a base frequency of 65535 rules out.
\<close>

definition serial_ok :: "SerialState \<Rightarrow> SerialState option \<Rightarrow> bool" where
  "serial_ok s r \<longleftrightarrow>
    (case r of None \<Rightarrow> baudbase s < 65535 | Some t \<Rightarrow> serial_inv t \<and> baudbase t = baudbase s)"

lemma serial_ok_simps [simp]:
  "serial_ok s (Some t) \<longleftrightarrow> serial_inv t \<and> baudbase t = baudbase s"
  "serial_ok (s\<lparr>divider := a\<rparr>) r = serial_ok s r" "serial_ok (s\<lparr>lcr := b\<rparr>) r = serial_ok s r"
  by (simp_all add: serial_ok_def split: option.split)

lemma serial_update_parameters_inv:
  assumes "serial_inv s"
  shows "serial_ok s (serial_update_parameters s)"
proof (cases "divider s = 0 \<or> baudbase s sdiv uint (divider s) \<noteq> 0")
  case True
  then show ?thesis using assms by (auto simp: serial_update_parameters_def Let_def split_beta)
next
  case False
  then have "\<not> 65535 \<le> baudbase s" using speed_pos [of "baudbase s" "divider s"] by fastforce
  then show ?thesis using False by (simp add: serial_ok_def serial_update_parameters_def Let_def split_beta)
qed

lemma baudbase_frame [simp]:
  "baudbase (serial_update_msl e s) = baudbase s" "baudbase (serial_receive1 e bs s) = baudbase s"
  "baudbase (serial_sent e s) = baudbase s" "baudbase (serial_xmit e s) = baudbase s"
  "baudbase (fifo_clear i s) = baudbase s" "baudbase (serial_write_mcr e v s) = baudbase s"
  "baudbase (serial_write_fcr v s) = baudbase s" "baudbase (serial_receive_break s) = baudbase s"
  "baudbase (fifo_timeout_int s) = baudbase s" "baudbase (serial_reset e s) = baudbase s"
proof -
  show m [simp]: "baudbase (serial_update_msl e s) = baudbase s" for s
    by (simp add: serial_update_msl_def Let_def split: option.split)
  show r [simp]: "baudbase (serial_receive1 e bs s) = baudbase s" for bs s by (simp add: serial_receive1_def Let_def)
  show t [simp]: "baudbase (serial_sent e s) = baudbase s" for s by (simp add: serial_sent_def Let_def)
  show "baudbase (serial_xmit e s) = baudbase s" by (simp add: serial_xmit_def Let_def)
  show c [simp]: "baudbase (fifo_clear i s) = baudbase s" for i s by (cases i) (simp_all add: fifo_clear_def)
  show "baudbase (serial_write_mcr e v s) = baudbase s" "baudbase (serial_write_fcr v s) = baudbase s"
    "baudbase (serial_receive_break s) = baudbase s" "baudbase (fifo_timeout_int s) = baudbase s"
    "baudbase (serial_reset e s) = baudbase s"
    by (simp_all add: serial_write_mcr_def serial_write_fcr_def serial_receive_break_def fifo_timeout_int_def serial_reset_def Let_def)
qed

lemma baudbase_read [simp]: "baudbase (snd (serial_ioport_read e a s)) = baudbase s"
proof -
  have "baudbase (snd (serial_read_data e s)) = baudbase s"
    by (simp add: serial_read_data_def Let_def split_beta)
  moreover have "baudbase (snd (serial_read_msr e s)) = baudbase s"
    by (simp add: serial_read_msr_def Let_def)
  ultimately show ?thesis by (simp add: serial_ioport_read_def Let_def)
qed

lemma serial_update_msl_core: "serial_core s \<Longrightarrow> serial_core (serial_update_msl e s)"
  by (simp add: serial_update_msl_def Let_def split: option.split)

lemma serial_update_msl_inv: "serial_inv s \<Longrightarrow> serial_inv (serial_update_msl e s)"
  by (simp add: serial_update_msl_def Let_def serial_core_of_inv split: option.split)

lemma serial_write_data_inv:
  assumes "serial_inv s"
  shows "serial_ok s (serial_write_data e v s)"
proof (cases "lcr s AND 0x80 = 0")
  case False
  then show ?thesis
    using assms serial_update_parameters_inv [of "s\<lparr>divider := (divider s AND 0xff00) OR ucast v\<rparr>"]
    by (simp add: serial_write_data_def)
next
  case True
  have c: "recv_ok s" "xmit_idle s" using assms by (simp_all add: serial_inv_def)
  then have x: "fifo_wf (xmit_fifo s)" "f_count (xmit_fifo s) = 0" "tsr_retry s \<in> {0, - 1}" "transmit_timer s = None"
    by (simp_all add: xmit_idle_def)
  have "fifo_put XMIT_FIFO (ucast v) (s\<lparr>thr := ucast v\<rparr>) =
      s\<lparr>thr := ucast v, xmit_fifo := fifo_add (ucast v) (xmit_fifo s)\<rparr>"
    using x(2) by (simp add: fifo_put_room)
  moreover have "fifo_wf (fifo_add (ucast v) (xmit_fifo s))" "f_count (fifo_add (ucast v) (xmit_fifo s)) = 1"
    using fifo_add_wf(1) [OF x(1)] x(2) by (simp_all add: fifo_add_def)
  moreover have "((w AND NOT 0x40) AND NOT 0x20) AND 0x01 = w AND 0x01" "(w AND NOT 0x20) AND 0x01 = w AND 0x01" for w :: u8
    by (simp_all add: and.assoc)
  ultimately show ?thesis
    using True x c by (auto simp: serial_write_data_def Let_def xmit_pre_def intro!: serial_xmit_inv)
qed

lemma serial_write_ier_inv:
  assumes "serial_inv s"
  shows "serial_ok s (serial_write_ier e v s)"
proof (cases "lcr s AND 0x80 = 0")
  case False
  then show ?thesis
    using assms serial_update_parameters_inv [of "s\<lparr>divider := (divider s AND 0x00ff) OR ucast (push_bit 8 v)\<rparr>"]
    by (simp add: serial_write_ier_def)
next
  case True
  have c: "serial_core s" using assms by (rule serial_core_of_inv)
  define t where "t = (let s = s\<lparr>ier := ucast (v AND 0x0f)\<rparr> in
    if poll_msl s \<ge> 0
    then (if ier s AND 0x08 \<noteq> 0 then serial_update_msl e (s\<lparr>poll_msl := 1\<rparr>)
          else s\<lparr>modem_status_poll := None, poll_msl := 0\<rparr>)
    else s)"
  have "baudbase t = baudbase s" by (simp add: t_def Let_def)
  moreover have "serial_core t" using c by (simp add: t_def Let_def serial_update_msl_core)
  then have "serial_core (t\<lparr>thr_ipending := True\<rparr>)" "lsr t AND 0x20 \<noteq> 0" by (simp_all add: serial_core_ready)
  moreover have "serial_write_ier e v s =
      Some (if lsr t AND 0x20 \<noteq> 0 then serial_update_irq (t\<lparr>thr_ipending := True\<rparr>) else t)"
    using True by (simp add: serial_write_ier_def t_def Let_def)
  ultimately show ?thesis by simp
qed

lemma fifo_clear_wf: "fifo_wf (the_fifo i (fifo_clear i s))" "f_count (the_fifo i (fifo_clear i s)) = 0"
  by (cases i; simp add: fifo_clear_def fifo_wf_def)+

lemma fifo_clear_core: "serial_core s \<Longrightarrow> serial_core (fifo_clear i s)"
  using fifo_clear_wf [of i s]
  by (cases i) (auto simp: serial_core_def recv_ok_def xmit_idle_def fifo_clear_def)

lemma itl_of_range: "itl_of v \<in> {1, 4, 8, 14}"
  by (simp add: itl_of_def)

lemma fifo_clear_fcr [simp]: "fcr (fifo_clear i s) = fcr s"
  by (cases i) (simp_all add: fifo_clear_def)

lemma serial_core_fcr_on:
  assumes "serial_core s" "f_count (recv_fifo s) = 0 \<or> fcr s AND 0x01 \<noteq> 0"
  shows "serial_core (s\<lparr>recv_fifo := (recv_fifo s)\<lparr>f_itl := itl_of v\<rparr>, fcr := w\<rparr>)"
  using assms itl_of_range [of v] by (auto simp: serial_core_def recv_ok_def fifo_wf_def)

lemma serial_core_fcr_off:
  assumes "serial_core s" "w AND 0x01 = 0"
  shows "serial_core (s\<lparr>fcr := w\<rparr>)"
  using assms by (auto simp: serial_core_def recv_ok_def)

lemma flag0: "(w :: 'a::len word) AND 1 = 0 \<longleftrightarrow> \<not> bit w 0"
  using masked_bit [of w 0] by simp

lemma fcr_bit0:
  "(v XOR ucast (f :: u8) :: u32) AND 1 = 0 \<Longrightarrow> v AND 1 \<noteq> 0 \<Longrightarrow> f AND 1 \<noteq> 0"
  "(ucast (v AND 0xc9) :: u8) AND 1 = 0 \<longleftrightarrow> v AND 1 = 0"
  by (auto simp: flag0 bit_xor_iff bit_ucast_iff bit_and_iff)

lemma serial_write_fcr_inv:
  assumes "serial_inv s"
  shows "serial_inv (serial_write_fcr v s)"
proof -
  define w where "w = (let v = v AND 0xff in if (v XOR ucast (fcr s)) AND 0x01 \<noteq> 0 then v OR 0x06 else v)"
  define s1 where "s1 = (if w AND 0x02 \<noteq> 0
    then fifo_clear RECV_FIFO (s\<lparr>fifo_timeout_timer := None, timeout_ipending := False\<rparr>) else s)"
  define s2 where "s2 = (if w AND 0x04 \<noteq> 0 then fifo_clear XMIT_FIFO s1 else s1)"
  define s3 where "s3 = (if w AND 0x01 \<noteq> 0
    then s2\<lparr>iir := iir s2 OR 0xc0, recv_fifo := (recv_fifo s2)\<lparr>f_itl := itl_of w\<rparr>\<rparr>
    else s2\<lparr>iir := iir s2 AND NOT 0xc0\<rparr>)"
  have e: "serial_write_fcr v s =
      (if ucast (fcr s) = v AND 0xff then s else serial_update_irq (s3\<lparr>fcr := ucast (w AND 0xc9)\<rparr>))"
    unfolding serial_write_fcr_def s3_def s2_def s1_def w_def Let_def by (rule refl)
  have c2: "serial_core s2"
    using serial_core_of_inv [OF assms] by (simp add: s2_def s1_def fifo_clear_core)
  have "serial_core (s3\<lparr>fcr := ucast (w AND 0xc9)\<rparr>)"
  proof (cases "w AND 0x01 = 0")
    case True
    then show ?thesis using c2 by (simp add: s3_def serial_core_fcr_off fcr_bit0(2))
  next
    case False
    have "f_count (recv_fifo s2) = 0 \<or> fcr s2 AND 0x01 \<noteq> 0"
    proof (cases "w AND 0x02 = 0")
      case True
      then have "w = v AND 0xff" "(w XOR ucast (fcr s)) AND 0x01 = 0"
        by (auto simp: w_def Let_def split: if_splits)
      then have "fcr s AND 0x01 \<noteq> 0" using False fcr_bit0(1) by blast
      then show ?thesis by (simp add: s2_def s1_def)
    next
      case False
      then have "f_count (recv_fifo s1) = 0" using fifo_clear_wf(2) [of RECV_FIFO] by (simp add: s1_def)
      then show ?thesis by (simp add: s2_def fifo_clear_def)
    qed
    then have "serial_core (s2\<lparr>iir := b, recv_fifo := (recv_fifo s2)\<lparr>f_itl := itl_of w\<rparr>, fcr := x\<rparr>)" for b x
      using serial_core_fcr_on [of "s2\<lparr>iir := b\<rparr>" x w] c2 by simp
    then show ?thesis using False by (simp add: s3_def)
  qed
  then show ?thesis using assms by (simp add: e)
qed

lemma serial_write_lcr_inv:
  assumes "serial_inv s"
  shows "serial_ok s (serial_write_lcr v s)"
  using serial_update_parameters_inv [of "s\<lparr>lcr := ucast v\<rparr>"] assms
  by (auto simp: serial_write_lcr_def serial_ok_def Let_def split: option.splits)

lemma serial_write_mcr_inv: "serial_inv s \<Longrightarrow> serial_inv (serial_write_mcr e v s)"
  by (simp add: serial_write_mcr_def Let_def)

lemma serial_ioport_write_inv:
  assumes "serial_inv s"
  shows "serial_ok s (serial_ioport_write e a v s)"
  using serial_write_ier_inv [OF assms, of e v] serial_write_fcr_inv [OF assms, of v]
    serial_write_lcr_inv [OF assms, of v] serial_write_mcr_inv [OF assms, of e v]
    serial_write_data_inv [OF assms, of e v] assms
  by (simp add: serial_ioport_write_def Let_def)

lemma serial_read_data_inv:
  assumes "serial_inv s"
  shows "serial_inv (snd (serial_read_data e s))"
proof (cases "fcr s AND 0x01 = 0 \<or> f_count (recv_fifo s) = 0")
  case True
  then have "recv_ok (s\<lparr>lsr := x\<rparr>)" "serial_core s" for x
    using serial_core_of_inv [OF assms] by (auto simp: serial_core_def recv_ok_def)
  then show ?thesis using True by (auto simp: serial_read_data_def Let_def fifo_get_none serial_core_def)
next
  case False
  then have f: "0 < f_count (recv_fifo s)" "fcr s AND 0x01 \<noteq> 0" by auto
  have c: "recv_ok s" "xmit_idle s" using assms by (simp_all add: serial_inv_def)
  have w: "fifo_wf (fifo_drop (recv_fifo s))" using c(1) f(1) by (simp add: fifo_drop_wf(1) recv_ok_def)
  have "recv_ok (s\<lparr>recv_fifo := fifo_drop (recv_fifo s)\<rparr>)"
    "f_count (fifo_drop (recv_fifo s)) = 0 \<Longrightarrow> recv_ok (s\<lparr>recv_fifo := fifo_drop (recv_fifo s), lsr := x\<rparr>)" for x
    using c(1) f w by (auto simp: recv_ok_def fifo_drop_def)
  then show ?thesis
    using f c(2) by (simp add: serial_read_data_def Let_def fifo_get_some serial_core_def)
qed

lemma serial_read_msr_inv: "serial_inv s \<Longrightarrow> serial_inv (snd (serial_read_msr e s))"
  by (simp add: serial_read_msr_def Let_def serial_update_msl_inv serial_core_of_inv serial_update_msl_core)

lemma serial_ioport_read_inv: "serial_inv s \<Longrightarrow> serial_inv (snd (serial_ioport_read e a s))"
  by (simp add: serial_ioport_read_def Let_def serial_core_of_inv serial_read_data_inv serial_read_msr_inv)
    (auto dest!: serial_core_of_inv simp: serial_core_def)

lemma serial_reset_inv:
  assumes "transmit_timer s = None" "recv_wf s"
  shows "serial_inv (serial_reset e s)"
  using assms
  by (simp add: serial_reset_def serial_inv_def irq_current_def recv_ok_def xmit_idle_def recv_wf_def
      fifo_clear_def fifo_wf_def tmp_iir_def)

section \<open>The port as a device\<close>

datatype serial_input =
  Ser_write u32 u32
| Ser_read u32
| Ser_receive "u8 list"
| Ser_event int
| Ser_fifo_timeout
| Ser_transmit
| Ser_modem_poll
| Ser_set_frequency int
| Ser_reset

text \<open>A timer callback runs only when its timer is armed and due; the timer is then no longer armed.\<close>

definition due :: "int option \<Rightarrow> int \<Rightarrow> bool" where
  "due t now = (case t of None \<Rightarrow> False | Some x \<Rightarrow> x \<le> now)"

fun serial_enabled :: "serial_env \<Rightarrow> serial_input \<Rightarrow> SerialState \<Rightarrow> bool" where
  "serial_enabled e Ser_fifo_timeout s = due (fifo_timeout_timer s) (vm_now e)"
| "serial_enabled e Ser_transmit s = due (transmit_timer s) (vm_now e)"
| "serial_enabled e Ser_modem_poll s = due (modem_status_poll s) (vm_now e)"
| "serial_enabled e (Ser_receive bs) s = (bs \<noteq> [])"
| "serial_enabled e _ s = True"

fun serial_do :: "serial_env \<Rightarrow> serial_input \<Rightarrow> SerialState \<Rightarrow> SerialState option" where
  "serial_do e (Ser_write a v) s = serial_ioport_write e a v s"
| "serial_do e (Ser_read a) s = Some (snd (serial_ioport_read e a s))"
| "serial_do e (Ser_receive bs) s = Some (serial_receive1 e bs s)"
| "serial_do e (Ser_event ev) s = Some (serial_event ev s)"
| "serial_do e Ser_fifo_timeout s = Some (fifo_timeout_int (s\<lparr>fifo_timeout_timer := None\<rparr>))"
| "serial_do e Ser_transmit s = Some (serial_xmit e (s\<lparr>transmit_timer := None\<rparr>))"
| "serial_do e Ser_modem_poll s = Some (serial_update_msl e (s\<lparr>modem_status_poll := None\<rparr>))"
| "serial_do e (Ser_set_frequency f) s = serial_set_frequency f s"
| "serial_do e Ser_reset s = Some (serial_reset e s)"

text \<open>A port is created for I/O ports or for memory with any base frequency, and the machine is reset before it runs.\<close>

definition serial_start :: "SerialState \<Rightarrow> bool" where
  "serial_start s \<longleftrightarrow>
    (\<exists>e base. s = serial_reset e (serial_init base)) \<or>
    (\<exists>e e0 shift base. s = serial_reset e (serial_mm_init e0 shift base))"

definition serial_step :: "SerialState \<Rightarrow> SerialState \<Rightarrow> bool" where
  "serial_step s t \<longleftrightarrow> (\<exists>e i. serial_enabled e i s \<and> serial_do e i s = Some t)"

text \<open>The base frequency an event works with.\<close>

definition input_base :: "serial_input \<Rightarrow> SerialState \<Rightarrow> int" where
  "input_base i s = (case i of Ser_set_frequency f \<Rightarrow> f | _ \<Rightarrow> baudbase s)"

lemma serial_do_inv:
  assumes "serial_inv s" "serial_enabled e i s"
  shows "serial_ok (s\<lparr>baudbase := input_base i s\<rparr>) (serial_do e i s)"
proof -
  note c = serial_core_of_inv [OF assms(1)]
  have "transmit_timer s = None" "recv_wf s" using c by (simp_all add: serial_core_def xmit_idle_def recv_ok_wf)
  then show ?thesis
    using assms c serial_update_parameters_inv [of "s\<lparr>baudbase := f\<rparr>" for f]
    by (cases i) (simp_all add: serial_ioport_write_inv serial_ioport_read_inv serial_receive1_inv serial_event_def
        serial_receive_break_inv fifo_timeout_inv serial_update_msl_inv serial_reset_inv due_def input_base_def
        serial_set_frequency_def)
qed

lemma update_msl_creation [simp]:
  "transmit_timer (serial_update_msl e s) = transmit_timer s" "recv_wf (serial_update_msl e s) = recv_wf s"
  by (simp_all add: serial_update_msl_def Let_def recv_wf_def split: option.split)

interpretation serial: device serial_start serial_step serial_inv
proof
  have "recv_wf (serial_zero\<lparr>it_shift := n, baudbase := b\<rparr>)" "recv_wf (serial_zero\<lparr>baudbase := b\<rparr>)" for n b
    by (simp_all add: serial_zero_def recv_wf_def fifo_wf_def Let_def)
  moreover have "transmit_timer serial_zero = None" by (simp add: serial_zero_def Let_def)
  ultimately show "serial_inv s" if "serial_start s" for s
    using that by (auto simp: serial_start_def serial_init_def serial_mm_init_def intro!: serial_reset_inv)
  show "serial_inv t" if "serial_step s t" "serial_inv s" for s t
    using that serial_do_inv by (fastforce simp: serial_step_def)
qed

section \<open>Reception through the FIFO\<close>

definition rx_inv :: "SerialState \<Rightarrow> bool" where
  "rx_inv s \<longleftrightarrow> serial_inv s \<and> fcr s AND 0x01 \<noteq> 0 \<and> lcr s AND 0x80 = 0"

definition rx_bytes :: "SerialState \<Rightarrow> u8 list" where
  "rx_bytes s = fifo_bytes (recv_fifo s)"

lemma length_rx_bytes [simp]: "length (rx_bytes s) = f_count (recv_fifo s)"
  by (simp add: rx_bytes_def)

lemma rx_inv_fifo: "rx_inv s \<Longrightarrow> fifo_wf (recv_fifo s)" "rx_inv s \<Longrightarrow> f_count (recv_fifo s) \<le> 16"
  by (simp_all add: rx_inv_def serial_inv_def recv_ok_def fifo_wf_def)

lemma receive1_lcr_fcr [simp]: "lcr (serial_receive1 e bs s) = lcr s" "fcr (serial_receive1 e bs s) = fcr s"
  by (simp_all add: serial_receive1_def Let_def)

lemma rx_put:
  assumes "rx_inv s"
  shows "rx_inv (serial_receive1 e [b] s)"
    "rx_bytes (serial_receive1 e [b] s) = (if f_count (recv_fifo s) < 16 then rx_bytes s @ [b] else rx_bytes s)"
    "lsr (serial_receive1 e [b] s) =
      (if f_count (recv_fifo s) < 16 then lsr s OR 0x01 else (lsr s OR 0x02) OR 0x01)"
proof -
  show "rx_inv (serial_receive1 e [b] s)"
    using assms by (simp add: rx_inv_def serial_receive1_inv serial_core_of_inv)
  have "f_count (recv_fifo s) < 16 \<or> f_count (recv_fifo s) = 16" using rx_inv_fifo(2) [OF assms] by auto
  then show "rx_bytes (serial_receive1 e [b] s) = (if f_count (recv_fifo s) < 16 then rx_bytes s @ [b] else rx_bytes s)"
    "lsr (serial_receive1 e [b] s) = (if f_count (recv_fifo s) < 16 then lsr s OR 0x01 else (lsr s OR 0x02) OR 0x01)"
    using assms fifo_add_wf(2) [OF rx_inv_fifo(1) [OF assms], of b]
    by (auto simp: serial_receive1_def Let_def fifo_put_room fifo_put_full rx_inv_def rx_bytes_def)
qed

lemma rx_get:
  assumes "rx_inv s" "rx_bytes s \<noteq> []"
  shows "rx_inv (snd (serial_ioport_read e 0 s)) \<and>
    rx_bytes s = fst (serial_ioport_read e 0 s) # rx_bytes (snd (serial_ioport_read e 0 s))"
proof -
  have n: "0 < f_count (recv_fifo s)" using assms(2) length_rx_bytes [of s] by (metis gr0I length_0_conv)
  have r: "serial_ioport_read e 0 s = serial_read_data e s" "lcr s AND 0x80 = 0" "fcr s AND 0x01 \<noteq> 0"
    using assms(1) by (simp_all add: serial_ioport_read_def rx_inv_def)
  have "serial_inv (snd (serial_read_data e s))"
    using assms(1) by (simp add: rx_inv_def serial_read_data_inv)
  moreover have "lcr (snd (serial_read_data e s)) = lcr s" "fcr (snd (serial_read_data e s)) = fcr s"
    "fst (serial_read_data e s) = f_data (recv_fifo s) ! f_tail (recv_fifo s)"
    "recv_fifo (snd (serial_read_data e s)) = fifo_drop (recv_fifo s)"
    using n r(3) by (simp_all add: serial_read_data_def fifo_get_some Let_def)
  ultimately show ?thesis
    using fifo_drop_wf(2) [OF rx_inv_fifo(1) [OF assms(1)] n] r by (simp add: rx_inv_def rx_bytes_def)
qed

interpretation rx: dropping_fifo rx_inv rx_bytes 16 "\<lambda>b. serial_receive1 e [b]" "serial_ioport_read e 0" for e
proof
  show "length (rx_bytes q) \<le> 16" if "rx_inv q" for q using rx_inv_fifo(2) [OF that] by simp
qed (use rx_put rx_get in auto)

text \<open>A block of bytes received in one call: the FIFO alone as a queue.\<close>

interpretation recvq: dropping_fifo "\<lambda>s. fifo_wf (recv_fifo s)" rx_bytes 16 "fifo_put RECV_FIFO" "fifo_get RECV_FIFO"
proof
  show "length (rx_bytes q) \<le> 16" if "fifo_wf (recv_fifo q)" for q using that by (simp add: fifo_wf_def)
  show "fifo_wf (recv_fifo (snd (fifo_get RECV_FIFO q))) \<and>
      rx_bytes q = fst (fifo_get RECV_FIFO q) # rx_bytes (snd (fifo_get RECV_FIFO q))"
    if "fifo_wf (recv_fifo q)" "rx_bytes q \<noteq> []" for q
  proof -
    have "0 < f_count (recv_fifo q)" using that(2) length_rx_bytes [of q] by (metis gr0I length_0_conv)
    then show ?thesis using fifo_drop_wf [OF that(1)] by (simp add: fifo_get_some rx_bytes_def)
  qed
qed (simp_all add: fifo_put_room fifo_put_full fifo_add_wf rx_bytes_def)

lemma fifo_puts_lsr:
  "f_count (recv_fifo s) + length bs \<le> 16 \<Longrightarrow> lsr (fold (fifo_put RECV_FIFO) bs s) = lsr s"
proof (induction bs arbitrary: s)
  case (Cons b bs)
  then have "fifo_put RECV_FIFO b s = s\<lparr>recv_fifo := fifo_add b (recv_fifo s)\<rparr>" by (simp add: fifo_put_room)
  with Cons show ?case by (simp add: fifo_add_def)
qed simp

lemma fifo_puts_overrun:
  assumes "f_count (recv_fifo s) \<le> 16" "16 < f_count (recv_fifo s) + length bs"
  shows "lsr (fold (fifo_put RECV_FIFO) bs s) AND 0x02 \<noteq> 0"
proof -
  have keep: "lsr s AND 0x02 \<noteq> 0 \<Longrightarrow> lsr (fold (fifo_put RECV_FIFO) xs s) AND 0x02 \<noteq> 0" for xs s
  proof (induction xs arbitrary: s)
    case (Cons x xs)
    then have "lsr (fifo_put RECV_FIFO x s) AND 0x02 \<noteq> 0" by (simp add: fifo_put_def Let_def)
    with Cons show ?case by simp
  qed simp
  show ?thesis
    using assms
  proof (induction bs arbitrary: s)
    case (Cons b bs)
    show ?case
    proof (cases "f_count (recv_fifo s) < 16")
      case True
      then have "fifo_put RECV_FIFO b s = s\<lparr>recv_fifo := fifo_add b (recv_fifo s)\<rparr>" by (simp add: fifo_put_room)
      with Cons True show ?thesis by (simp add: fifo_add_def)
    next
      case False
      then have "f_count (recv_fifo s) = 16" using Cons.prems(1) by simp
      then have "lsr (fifo_put RECV_FIFO b s) AND 0x02 \<noteq> 0" by (simp add: fifo_put_full)
      then show ?thesis by (simp add: keep)
    qed
  qed simp
qed

section \<open>Properties of the port\<close>

abbreviation serial_reachable :: "SerialState \<Rightarrow> bool" where
  "serial_reachable \<equiv> reach serial_start serial_step"

text \<open>The sources of the interrupt with their codes in the interrupt register, by decreasing priority.\<close>

datatype serial_source = Line_status | Char_timeout | Received_data | Transmitter_empty | Modem_status

definition serial_priority :: "serial_source list" where
  "serial_priority = [Line_status, Char_timeout, Received_data, Transmitter_empty, Modem_status]"

fun source_code :: "serial_source \<Rightarrow> u8" where
  "source_code Line_status = 0x06"
| "source_code Char_timeout = 0x0c"
| "source_code Received_data = 0x04"
| "source_code Transmitter_empty = 0x02"
| "source_code Modem_status = 0x00"

fun source_pending :: "SerialState \<Rightarrow> serial_source \<Rightarrow> bool" where
  "source_pending s Line_status = (ier s AND 0x04 \<noteq> 0 \<and> lsr s AND 0x1e \<noteq> 0)"
| "source_pending s Char_timeout = (ier s AND 0x01 \<noteq> 0 \<and> timeout_ipending s)"
| "source_pending s Received_data = (ier s AND 0x01 \<noteq> 0 \<and> lsr s AND 0x01 \<noteq> 0 \<and>
    (fcr s AND 0x01 = 0 \<or> f_itl (recv_fifo s) \<le> f_count (recv_fifo s)))"
| "source_pending s Transmitter_empty = (ier s AND 0x02 \<noteq> 0 \<and> thr_ipending s)"
| "source_pending s Modem_status = (ier s AND 0x08 \<noteq> 0 \<and> msr s AND 0x0f \<noteq> 0)"

lemma ex_source:
  "(\<exists>src. source_pending s src) \<longleftrightarrow> source_pending s Line_status \<or> source_pending s Char_timeout \<or>
    source_pending s Received_data \<or> source_pending s Transmitter_empty \<or> source_pending s Modem_status"
  by (metis serial_source.exhaust)

lemma tmp_iir_priority:
  "tmp_iir s = (case find (source_pending s) serial_priority of None \<Rightarrow> 0x01 | Some src \<Rightarrow> source_code src)"
  by (simp add: tmp_iir_def serial_priority_def)

text \<open>C6: In every reachable state of the serial port, whatever its base frequency, the interrupt
  line is up exactly when an enabled source is pending, and the interrupt register holds the
  code of the first pending source in the order of the 16550: line status, character timeout,
  received data at the trigger level, transmitter empty, modem status.\<close>

theorem serial_irq_reflects_sources:
  assumes "serial_reachable s"
  shows "(line_level (ser_irq s) \<longleftrightarrow> (\<exists>src. source_pending s src)) \<and>
    iir s AND 0x0f = (case find (source_pending s) serial_priority of None \<Rightarrow> 0x01 | Some src \<Rightarrow> source_code src)"
proof -
  have current: "irq_current s" using serial.reachable_inv [OF assms] by (simp add: serial_inv_def)
  have "set serial_priority = UNIV"
    by (auto simp: serial_priority_def intro: serial_source.exhaust)
  moreover have "source_code src \<noteq> 0x01" for src by (cases src) simp_all
  ultimately have "tmp_iir s \<noteq> 0x01 \<longleftrightarrow> (\<exists>src. source_pending s src)"
    using find_None_iff [of "source_pending s" serial_priority]
    by (cases "find (source_pending s) serial_priority") (auto simp: tmp_iir_priority)
  with current show ?thesis by (simp add: irq_current_def tmp_iir_priority)
qed

text \<open>A port used by the witnesses: created, reset, interrupts enabled and the FIFO on.\<close>

definition quiet_env :: serial_env where
  "quiet_env = \<lparr>vm_now = 0, chr_write_ok = True, tiocm = None, uninit_flags = 0\<rparr>"

fun serial_runs :: "serial_input list \<Rightarrow> SerialState \<Rightarrow> SerialState option" where
  "serial_runs [] s = Some s"
| "serial_runs (i # is) s =
    (if serial_enabled quiet_env i s
     then (case serial_do quiet_env i s of None \<Rightarrow> None | Some t \<Rightarrow> serial_runs is t) else None)"

lemma serial_runs_reach: "serial_reachable s \<Longrightarrow> serial_runs is s = Some t \<Longrightarrow> serial_reachable t"
proof (induction "is" arbitrary: s)
  case (Cons i "is")
  then obtain u where u: "serial_enabled quiet_env i s" "serial_do quiet_env i s = Some u" "serial_runs is u = Some t"
    by (auto split: if_splits option.splits)
  then have "serial_step s u" by (auto simp: serial_step_def)
  with Cons.prems(1) have "serial_reachable u" by (rule reach_step)
  with Cons.IH u(3) show ?case by blast
qed simp

definition port0 :: SerialState where
  "port0 = serial_reset quiet_env (serial_init 115200)"

definition run_port :: "serial_input list \<Rightarrow> SerialState" where
  "run_port is = the (serial_runs is port0)"

lemma run_port_reach: "serial_runs is port0 \<noteq> None \<Longrightarrow> serial_reachable (run_port is)"
proof -
  have "serial_reachable port0"
    by (rule reach_init) (auto simp: serial_start_def port0_def intro!: exI [of _ "quiet_env"] exI [of _ "115200"])
  then show "serial_runs is port0 \<noteq> None \<Longrightarrow> ?thesis"
    using serial_runs_reach [of port0 "is"] by (auto simp: run_port_def)
qed

theorem serial_irq_reflects_sources_witness:
  "line_level (ser_irq (run_port [Ser_write 1 1, Ser_receive [0x41]])) \<and>
   \<not> line_level (ser_irq (run_port [Ser_write 1 1, Ser_receive [0x41], Ser_read 0]))"
proof -
  have "serial_runs [Ser_write 1 1, Ser_receive [0x41]] port0 \<noteq> None"
    "serial_runs [Ser_write 1 1, Ser_receive [0x41], Ser_read 0] port0 \<noteq> None" by code_simp+
  note r = this [THEN run_port_reach]
  have "ier (run_port [Ser_write 1 1, Ser_receive [0x41]]) = 1"
    "lsr (run_port [Ser_write 1 1, Ser_receive [0x41]]) = 0x61"
    "fcr (run_port [Ser_write 1 1, Ser_receive [0x41]]) = 0"
    "ier (run_port [Ser_write 1 1, Ser_receive [0x41], Ser_read 0]) = 1"
    "lsr (run_port [Ser_write 1 1, Ser_receive [0x41], Ser_read 0]) = 0x60"
    "\<not> timeout_ipending (run_port [Ser_write 1 1, Ser_receive [0x41], Ser_read 0])" by code_simp+
  then show ?thesis using serial_irq_reflects_sources [OF r(1)] serial_irq_reflects_sources [OF r(2)] by (simp add: ex_source)
qed

text \<open>C40: The serial port can divide by zero only with a base frequency below 65535; no event but
  setting that frequency changes it, so the port of a PC, created with 115200, never does. In
  every reachable state the transmit timer never runs and the retry counter is not positive, so
  a byte the character device refuses is never sent again.\<close>

theorem serial_never_stuck:
  assumes "serial_reachable s" "serial_enabled e i s"
  shows "i \<noteq> Ser_transmit \<and> tsr_retry s \<le> 0 \<and>
    (case serial_do e i s of None \<Rightarrow> input_base i s < 65535 | Some t \<Rightarrow> baudbase t = input_base i s)"
  using serial_do_inv [OF serial.reachable_inv [OF assms(1)] assms(2)] serial.reachable_inv [OF assms(1)] assms(2)
  by (auto simp: serial_inv_def xmit_idle_def due_def serial_ok_def split: option.splits)

theorem serial_never_stuck_witness:
  "serial_do quiet_env (Ser_write 3 0x83) (run_port [Ser_write 0 0x41]) \<noteq> None"
proof -
  have "serial_reachable (run_port [Ser_write 0 0x41])" by (rule run_port_reach) code_simp
  moreover have "baudbase (run_port [Ser_write 0 0x41]) = 115200" by code_simp
  ultimately show ?thesis
    using serial_never_stuck [of "run_port [Ser_write 0 0x41]" quiet_env "Ser_write 3 0x83"]
    by (auto simp: input_base_def split: option.splits)
qed

text \<open>With a base frequency below the divider the guest makes the port divide by zero.\<close>

lemma serial_small_base_traps:
  "serial_runs [Ser_write 3 0x80] (serial_reset quiet_env (serial_init 1000)) \<noteq> None"
  "serial_runs [Ser_write 3 0x80, Ser_write 1 4] (serial_reset quiet_env (serial_init 1000)) = None"
  by code_simp+

text \<open>C10: With its FIFO on and the divisor latch not selected, the serial port is a queue of
  sixteen bytes: the guest reads the received bytes in order, bytes beyond the sixteenth are
  dropped, and the overrun flag tells.\<close>

theorem serial_receive_order:
  assumes "serial_reachable s" "fcr s AND 0x01 \<noteq> 0" "lcr s AND 0x80 = 0" "bs \<noteq> []"
  shows "fst (rx.get_many e (min 16 (f_count (recv_fifo s) + length bs)) (serial_receive1 e bs s)) =
      take 16 (rx_bytes s @ bs) \<and>
    (16 < f_count (recv_fifo s) + length bs \<longrightarrow> lsr (serial_receive1 e bs s) AND 0x02 \<noteq> 0)"
proof -
  let ?t = "serial_receive1 e bs s"
  have inv: "serial_inv s" using assms(1) by (rule serial.reachable_inv)
  then have w: "fifo_wf (recv_fifo s)" by (simp add: serial_inv_def recv_ok_def)
  have t: "rx_inv ?t"
    using assms(2,3) serial_receive1_inv [OF serial_core_of_inv [OF inv]] by (simp add: rx_inv_def)
  have f: "recv_fifo ?t = recv_fifo (fold (fifo_put RECV_FIFO) bs s)"
    "lsr ?t = lsr (fold (fifo_put RECV_FIFO) bs s) OR 0x01"
    using assms(2) by (simp_all add: serial_receive1_def Let_def)
  then have b: "rx_bytes ?t = take 16 (rx_bytes s @ bs)"
    using recvq.put_any_many [of s bs] w by (simp add: rx_bytes_def)
  then have "length (rx_bytes ?t) = min 16 (f_count (recv_fifo s) + length bs)" by (simp add: min.commute del: length_rx_bytes)
      (simp add: rx_bytes_def)
  then have "fst (rx.get_many e (min 16 (f_count (recv_fifo s) + length bs)) ?t) = rx_bytes ?t"
    using rx.get_many_take [OF t, of "length (rx_bytes ?t)" e] by simp
  moreover have "16 < f_count (recv_fifo s) + length bs \<Longrightarrow> lsr ?t AND 0x02 \<noteq> 0"
    using fifo_puts_overrun [of s bs] w by (simp add: f(2) fifo_wf_def)
  ultimately show ?thesis using b by simp
qed

theorem serial_receive_order_witness:
  "fst (rx.get_many quiet_env 2 (serial_receive1 quiet_env [0x68, 0x69] (run_port [Ser_write 2 1]))) = [0x68, 0x69]"
proof -
  have "serial_reachable (run_port [Ser_write 2 1])" by (rule run_port_reach) code_simp
  moreover have "fcr (run_port [Ser_write 2 1]) AND 0x01 \<noteq> 0" "lcr (run_port [Ser_write 2 1]) AND 0x80 = 0"
    "f_count (recv_fifo (run_port [Ser_write 2 1])) = 0" "rx_bytes (run_port [Ser_write 2 1]) = []" by code_simp+
  ultimately show ?thesis
    using serial_receive_order [of "run_port [Ser_write 2 1]" "[0x68, 0x69]" quiet_env]
    by (simp add: numeral_2_eq_2)
qed

theorem serial_flow_control:
  assumes "serial_reachable s" "int (length bs) \<le> serial_can_receive s" "bs \<noteq> []"
  shows "lsr (serial_receive1 e bs s) = lsr s OR 0x01 \<and>
    (if fcr s AND 0x01 \<noteq> 0 then rx_bytes (serial_receive1 e bs s) = rx_bytes s @ bs
     else bs = [rbr (serial_receive1 e bs s)])"
proof (cases "fcr s AND 0x01 = 0")
  case True
  then have n: "int (length bs) \<le> of_bool (lsr s AND 0x01 = 0)" "0 < length bs"
    using assms(2,3) by (simp_all add: serial_can_receive_def)
  have d: "lsr s AND 0x01 = 0"
  proof (rule ccontr)
    assume "lsr s AND 0x01 \<noteq> 0"
    then have "int (length bs) \<le> 0" using n(1) by (simp only: of_bool_def if_False)
    with n(2) show False by linarith
  qed
  then have "int (length bs) \<le> 1" using n(1) by (simp only: of_bool_def simp_thms if_True)
  then have "length bs = 1" using n(2) by linarith
  then obtain b where "bs = [b]" by (auto simp: length_Suc_conv)
  with True d show ?thesis by (simp add: serial_receive1_def Let_def)
next
  case False
  have "recv_ok s" using serial.reachable_inv [OF assms(1)] by (simp add: serial_inv_def)
  then have w: "fifo_wf (recv_fifo s)" "f_itl (recv_fifo s) \<le> 14" using False by (auto simp: recv_ok_def)
  have "f_count (recv_fifo s) + length bs \<le> 16"
    using assms(2,3) False w(2) by (simp add: serial_can_receive_def split: if_splits)
  then show ?thesis
    using False fifo_puts_lsr recvq.put_many [of s bs] w(1)
    by (simp add: serial_receive1_def Let_def rx_bytes_def)
qed

theorem serial_flow_control_witness:
  "rx_bytes (serial_receive1 quiet_env [1, 2, 3] (run_port [Ser_write 2 0x41])) = [1, 2, 3]"
proof -
  have "serial_reachable (run_port [Ser_write 2 0x41])" by (rule run_port_reach) code_simp
  moreover have "fcr (run_port [Ser_write 2 0x41]) AND 0x01 \<noteq> 0" "rx_bytes (run_port [Ser_write 2 0x41]) = []"
    "serial_can_receive (run_port [Ser_write 2 0x41]) = 4" by code_simp+
  ultimately show ?thesis
    using serial_flow_control [of "run_port [Ser_write 2 0x41]" "[1, 2, 3]" quiet_env] by simp
qed

text \<open>At its trigger level the FIFO has room, but the port advertises none.\<close>

lemma serial_stalls_at_trigger:
  "fcr s AND 0x01 \<noteq> 0 \<Longrightarrow> f_count (recv_fifo s) = f_itl (recv_fifo s) \<Longrightarrow> f_itl (recv_fifo s) < 16 \<Longrightarrow>
    serial_can_receive s = 0"
  by (simp add: serial_can_receive_def)

text \<open>Sending a sequence of bytes through the data register.\<close>

primrec serial_send :: "serial_env \<Rightarrow> u8 list \<Rightarrow> SerialState \<Rightarrow> SerialState option" where
  "serial_send e [] s = Some s"
| "serial_send e (b # bs) s =
    (case serial_ioport_write e 0 (ucast b) s of None \<Rightarrow> None | Some t \<Rightarrow> serial_send e bs t)"

lemma xmit_put_get:
  assumes "fifo_wf (xmit_fifo s)" "f_count (xmit_fifo s) = 0"
  shows "f_data (fifo_add b (xmit_fifo s)) ! f_tail (fifo_add b (xmit_fifo s)) = b"
proof -
  have "fifo_bytes (fifo_add b (xmit_fifo s)) = [b]"
    using fifo_add_wf(2) [OF assms(1), of b] assms(2) by (simp add: fifo_bytes_def)
  moreover have "0 < f_count (fifo_add b (xmit_fifo s))" by (simp add: fifo_add_def)
  ultimately show ?thesis
    using fifo_drop_wf(2) [of "fifo_add b (xmit_fifo s)"] fifo_add_wf(1) [OF assms(1), of b] assms(2) by simp
qed

text \<open>The byte in the shift register after a write to the data register.\<close>

definition write_prepare :: "u8 \<Rightarrow> SerialState \<Rightarrow> SerialState" where
  "write_prepare b s =
    (let s = s\<lparr>thr := b\<rparr> in
     if fcr s AND 0x01 \<noteq> 0
     then
       (let s = fifo_put XMIT_FIFO (thr s) s; s = s\<lparr>thr_ipending := False\<rparr>;
            s = s\<lparr>lsr := lsr s AND NOT 0x40\<rparr>; s = s\<lparr>lsr := lsr s AND NOT 0x20\<rparr>
        in serial_update_irq s)
     else
       (let s = s\<lparr>thr_ipending := False\<rparr>; s = s\<lparr>lsr := lsr s AND NOT 0x20\<rparr>
        in serial_update_irq s))"

lemma ucast_u8_u32 [simp]: "ucast (ucast (b :: u8) :: u32) = b"
  by (rule bit_word_eqI) (simp add: bit_ucast_iff)

lemma serial_write_data_prepare:
  "lcr s AND 0x80 = 0 \<Longrightarrow> serial_ioport_write e 0 (ucast b) s = Some (serial_xmit e (write_prepare b s))"
  by (simp add: serial_ioport_write_def serial_write_data_def write_prepare_def Let_def)

lemma write_prepare_frame [simp]:
  "mcr (write_prepare b s) = mcr s" "chr (write_prepare b s) = chr s" "lcr (write_prepare b s) = lcr s"
  "fcr (write_prepare b s) = fcr s" "recv_fifo (write_prepare b s) = recv_fifo s"
  "tsr_retry (write_prepare b s) = tsr_retry s"
  by (simp_all add: write_prepare_def Let_def)

lemma write_prepare_tsr:
  assumes "xmit_idle s"
  shows "tsr (serial_load_tsr (write_prepare b s)) = b"
proof -
  have x: "fifo_wf (xmit_fifo s)" "f_count (xmit_fifo s) = 0" "tsr_retry s \<le> 0"
    using assms by (auto simp: xmit_idle_def)
  show ?thesis
  proof (cases "fcr s AND 0x01 = 0")
    case True
    then show ?thesis using x(3) by (simp add: serial_load_tsr_def) (simp add: write_prepare_def Let_def)
  next
    case False
    then have w: "xmit_fifo (write_prepare b s) = fifo_add b (xmit_fifo s)"
      using x(2) by (simp add: write_prepare_def Let_def fifo_put_room)
    moreover have "0 < f_count (fifo_add b (xmit_fifo s))" by (simp add: fifo_add_def)
    ultimately have "fst (fifo_get XMIT_FIFO (write_prepare b s)) = b"
      using xmit_put_get [OF x(1,2), of b] by (simp add: fifo_get_some)
    then show ?thesis using False x(3) by (simp add: serial_load_tsr_def Let_def split_beta)
  qed
qed

lemma serial_sent_frame [simp]:
  "chr (serial_sent e s) = chr s" "mcr (serial_sent e s) = mcr s" "lcr (serial_sent e s) = lcr s"
  "recv_fifo (serial_sent e s) = recv_fifo s" "rbr (serial_sent e s) = rbr s" "fcr (serial_sent e s) = fcr s"
  by (simp_all add: serial_sent_def Let_def)

lemma serial_write_one:
  assumes "serial_inv s" "lcr s AND 0x80 = 0" "mcr s AND 0x10 = 0"
  obtains t where "serial_ioport_write e 0 (ucast b) s = Some t" "serial_inv t"
    "chr t = Chr_write b (chr_write_ok e) # chr s" "lcr t = lcr s" "mcr t = mcr s"
proof -
  let ?t = "serial_xmit e (write_prepare b s)"
  have x: "xmit_idle s" using assms(1) by (simp add: serial_inv_def)
  have t: "serial_ioport_write e 0 (ucast b) s = Some ?t" using assms(2) by (rule serial_write_data_prepare)
  then have i: "serial_inv ?t" using serial_ioport_write_inv [OF assms(1), of e 0 "ucast b"] by simp
  have "\<not> 0 < tsr_retry (serial_load_tsr (write_prepare b s))"
    using x by (auto simp: serial_load_tsr_def xmit_idle_def Let_def split_beta fifo_get_def)
  then have "chr ?t = Chr_write b (chr_write_ok e) # chr s" "lcr ?t = lcr s" "mcr ?t = mcr s"
    using assms(3) write_prepare_tsr [OF x, of b] by (simp_all add: serial_xmit_def Let_def)
  with t i show ?thesis by (rule that)
qed

text \<open>C37: Outside loopback and with the divisor latch not selected, every byte written to the data
  register is offered to the character device once, in order, and the transmitter is ready again
  after each.\<close>

theorem serial_sends_in_order:
  assumes "serial_reachable s" "lcr s AND 0x80 = 0" "mcr s AND 0x10 = 0"
  shows "\<exists>t. serial_send e bs s = Some t \<and> chr t = rev (map (\<lambda>b. Chr_write b (chr_write_ok e)) bs) @ chr s \<and>
    lsr t AND 0x20 \<noteq> 0"
  using serial.reachable_inv [OF assms(1)] assms(2,3)
proof (induction bs arbitrary: s)
  case Nil
  then show ?case by (simp add: serial_core_ready serial_core_of_inv)
next
  case (Cons b bs)
  from serial_write_one [OF Cons.prems, of e b]
  obtain t where t: "serial_ioport_write e 0 (ucast b) s = Some t" "serial_inv t"
    "chr t = Chr_write b (chr_write_ok e) # chr s" "lcr t = lcr s" "mcr t = mcr s" .
  with Cons.IH [of t] Cons.prems show ?case by simp
qed

theorem serial_sends_in_order_witness:
  "\<exists>t. serial_send quiet_env [0x68, 0x69] port0 = Some t \<and> chr t = [Chr_write 0x69 True, Chr_write 0x68 True] \<and>
    lsr t AND 0x20 \<noteq> 0"
proof -
  have "serial_reachable (run_port [])" by (rule run_port_reach) simp
  then have "serial_reachable port0" by (simp add: run_port_def)
  moreover have "lcr port0 AND 0x80 = 0" "mcr port0 AND 0x10 = 0" "chr port0 = []" by code_simp+
  ultimately show ?thesis
    using serial_sends_in_order [of port0 quiet_env "[0x68, 0x69]"] by (simp add: quiet_env_def)
qed

theorem serial_loopback:
  assumes "serial_reachable s" "lcr s AND 0x80 = 0" "mcr s AND 0x10 \<noteq> 0" "lsr s AND 0x01 = 0"
  shows "\<exists>t. serial_ioport_write e 0 (ucast b) s = Some t \<and> fst (serial_ioport_read e 0 t) = b \<and>
    chr (snd (serial_ioport_read e 0 t)) = chr s \<and> lsr (snd (serial_ioport_read e 0 t)) AND 0x01 = 0"
proof -
  have inv: "serial_inv s" using assms(1) by (rule serial.reachable_inv)
  then have x: "xmit_idle s" "recv_ok s" by (simp_all add: serial_inv_def)
  let ?p = "serial_load_tsr (write_prepare b s)"
  let ?t = "serial_sent e (serial_receive1 e [b] ?p)"
  have t: "serial_ioport_write e 0 (ucast b) s = Some ?t"
    using assms(2,3) write_prepare_tsr [OF x(1), of b] by (simp add: serial_write_data_prepare serial_xmit_def Let_def)
  show ?thesis
  proof (cases "fcr s AND 0x01 = 0")
    case True
    have "rbr ?t = b" "lcr ?t = lcr s" "fcr ?t = fcr s" "chr ?t = chr s" "mcr ?t = mcr s"
      using True by (simp_all add: serial_receive1_def Let_def)
    moreover have "((w :: u8) AND NOT 0x11) AND 0x01 = 0" for w by (simp add: and.assoc)
    ultimately have "fst (serial_ioport_read e 0 ?t) = b" "chr (snd (serial_ioport_read e 0 ?t)) = chr s"
      "lsr (snd (serial_ioport_read e 0 ?t)) AND 0x01 = 0"
      using True assms(2,3) by (simp_all add: serial_ioport_read_def serial_read_data_def Let_def)
    with t show ?thesis by blast
  next
    case False
    have c: "f_count (recv_fifo s) = 0" "fifo_wf (recv_fifo s)" using x(2) False assms(4) by (auto simp: recv_ok_def)
    moreover have "recv_fifo ?p = recv_fifo s" by (simp add: serial_load_tsr_def Let_def split_beta fifo_get_def)
    ultimately have r: "recv_fifo ?t = fifo_add b (recv_fifo s)"
      using False by (simp add: serial_receive1_def Let_def fifo_put_room)
    have l: "lcr ?t = lcr s" "fcr ?t = fcr s" "chr ?t = chr s" "mcr ?t = mcr s"
      using False by (simp_all add: serial_receive1_def Let_def)
    have "fifo_bytes (fifo_add b (recv_fifo s)) = [b]" "f_count (fifo_add b (recv_fifo s)) = 1"
      using c fifo_add_wf(2) [OF c(2), of b] by (simp_all add: fifo_bytes_def) (simp add: fifo_add_def)
    then have "f_data (recv_fifo ?t) ! f_tail (recv_fifo ?t) = b" "f_count (recv_fifo ?t) = 1"
      using c fifo_drop_wf(2) [OF fifo_add_wf(1) [OF c(2), of b]] unfolding r by simp_all
    then have g: "fifo_get RECV_FIFO ?t = (b, ?t\<lparr>recv_fifo := fifo_drop (recv_fifo ?t)\<rparr>)"
      "f_count (fifo_drop (recv_fifo ?t)) = 0"
      using fifo_get_some [of RECV_FIFO ?t] by (simp_all add: fifo_drop_def)
    moreover have "((w :: u8) AND NOT 0x11) AND 0x01 = 0" for w by (simp add: and.assoc)
    ultimately have "fst (serial_ioport_read e 0 ?t) = b" "chr (snd (serial_ioport_read e 0 ?t)) = chr s"
      "lsr (snd (serial_ioport_read e 0 ?t)) AND 0x01 = 0"
      using False assms(2,3) l by (simp_all add: serial_ioport_read_def serial_read_data_def Let_def)
    with t show ?thesis by blast
  qed
qed

theorem serial_loopback_witness:
  "\<exists>t. serial_ioport_write quiet_env 0 (ucast (0x5a :: u8)) (run_port [Ser_write 4 0x10]) = Some t \<and>
    fst (serial_ioport_read quiet_env 0 t) = 0x5a"
proof -
  have "serial_reachable (run_port [Ser_write 4 0x10])" by (rule run_port_reach) code_simp
  moreover have "lcr (run_port [Ser_write 4 0x10]) AND 0x80 = 0" "mcr (run_port [Ser_write 4 0x10]) AND 0x10 \<noteq> 0"
    "lsr (run_port [Ser_write 4 0x10]) AND 0x01 = 0" by code_simp+
  ultimately show ?thesis
    using serial_loopback [of "run_port [Ser_write 4 0x10]" quiet_env "0x5a"] by blast
qed

text \<open>The modem lines as bits of the status register: clear to send, data set ready, ring, carrier.\<close>

lemma bit_set_line: "bit (set_line b (bitmask k) w :: u8) n \<longleftrightarrow> (if n = k \<and> k < 8 then b else bit w n)"
proof (cases "n < 8")
  case True
  then show ?thesis using bit_set_mask [of n w k] bit_clear_mask [of n w k] by (auto simp: set_line_def)
next
  case False
  then have "\<not> bit x n" for x :: u8 by (auto dest: bit_u8_less)
  with False show ?thesis by auto
qed

definition modem_lines :: "u32 \<Rightarrow> u8 \<Rightarrow> u8" where
  "modem_lines flags m =
    set_line (flags AND 0x080 \<noteq> 0) 0x40 (set_line (flags AND 0x040 \<noteq> 0) 0x80
      (set_line (flags AND 0x100 \<noteq> 0) 0x20 (set_line (flags AND 0x020 \<noteq> 0) 0x10 m)))"

lemma bit_modem_lines:
  "bit (modem_lines flags m) n \<longleftrightarrow>
    (if n = 4 then bit flags 5 else if n = 5 then bit flags 8 else if n = 6 then bit flags 7
     else if n = 7 then bit flags 6 else bit m n)"
  using masked_bit [of flags 5] masked_bit [of flags 6] masked_bit [of flags 7] masked_bit [of flags 8]
    bit_set_line [of _ 4] bit_set_line [of _ 5] bit_set_line [of _ 6] bit_set_line [of _ 7]
  by (simp add: modem_lines_def)

lemma msr_after_msl:
  assumes "tiocm e = Some flags"
  shows "msr (serial_update_msl e s) =
    (let m = modem_lines flags (msr s); d = m OR (drop_bit 4 m XOR drop_bit 4 (msr s)) in
     if m = msr s then m else if d AND 0x04 \<noteq> 0 \<and> msr s AND 0x40 = 0 then d AND NOT 0x04 else d)"
  using assms by (simp add: serial_update_msl_def modem_lines_def Let_def)

theorem serial_modem_deltas:
  fixes s :: SerialState
  assumes "tiocm e = Some flags"
  defines "m \<equiv> msr (serial_update_msl e s)"
  shows "(bit m 4 = bit flags 5 \<and> bit m 5 = bit flags 8 \<and> bit m 6 = bit flags 7 \<and> bit m 7 = bit flags 6) \<and>
    (\<forall>i \<in> {0, 1, 3}. bit m i \<longleftrightarrow> bit (msr s) i \<or> bit m (i + 4) \<noteq> bit (msr s) (i + 4)) \<and>
    (bit (msr s) 6 \<and> \<not> bit m 6 \<longrightarrow> bit m 2) \<and>
    (\<not> bit (msr s) 2 \<and> \<not> (bit (msr s) 6 \<and> \<not> bit m 6) \<longrightarrow> \<not> bit m 2)"
proof -
  define l where "l = modem_lines flags (msr s)"
  define d where "d = l OR (drop_bit 4 l XOR drop_bit 4 (msr s))"
  define dc where "dc = d AND NOT 0x04"
  have m: "m = (if l = msr s then l else if bit d 2 \<and> \<not> bit (msr s) 6 then dc else d)"
    using masked_bit [of d 2] masked_bit [of "msr s" 6]
    by (simp add: m_def msr_after_msl [OF assms(1)] l_def d_def dc_def Let_def)
  have d: "bit d n \<longleftrightarrow> bit l n \<or> bit l (n + 4) \<noteq> bit (msr s) (n + 4)" for n
    by (simp add: d_def bit_or_iff bit_xor_iff bit_drop_bit_eq add.commute)
  have c: "bit dc n \<longleftrightarrow> bit d n \<and> n \<noteq> 2" for n using bit_clear_u8 [of d 2 n] by (simp add: dc_def)
  have hi: "\<not> bit (w :: u8) n" if "8 \<le> n" for n w using that by (auto dest: bit_u8_less)
  have l: "bit l n \<longleftrightarrow> (if n = 4 then bit flags 5 else if n = 5 then bit flags 8 else if n = 6 then bit flags 7
     else if n = 7 then bit flags 6 else bit (msr s) n)" for n unfolding l_def by (rule bit_modem_lines)
  have same: "bit m n = bit l n" if "n \<in> {4, 5, 6, 7}" for n using that by (auto simp: m c d hi)
  show ?thesis
  proof (cases "l = msr s")
    case True
    have "bit (msr s) 4 = bit flags 5" "bit (msr s) 5 = bit flags 8" "bit (msr s) 6 = bit flags 7" "bit (msr s) 7 = bit flags 6"
      using l [of 4] l [of 5] l [of 6] l [of 7] True by simp_all
    with True show ?thesis by (simp add: m)
  next
    case False
    have low: "bit m n \<longleftrightarrow> bit (msr s) n \<or> bit l (n + 4) \<noteq> bit (msr s) (n + 4)" if "n \<in> {0, 1, 3}" for n
      using that False by (auto simp: m c d l)
    have two: "bit m 2 \<longleftrightarrow> bit d 2 \<and> bit (msr s) 6" using False by (auto simp: m c)
    have lv: "bit l 4 = bit flags 5" "bit l 5 = bit flags 8" "bit l 6 = bit flags 7" "bit l 7 = bit flags 6" "bit l 2 = bit (msr s) 2"
      by (simp_all add: l)
    show ?thesis
      using low [of 0] low [of 1] low [of 3] same [of 4] same [of 5] same [of 6] same [of 7] lv
      by (auto simp: two d)
  qed
qed

theorem serial_modem_deltas_witness:
  "bit (msr (serial_update_msl (quiet_env\<lparr>tiocm := Some 0x140\<rparr>) port0)) 0"
proof -
  have "bit (msr port0) 4" by code_simp
  then show ?thesis
    using serial_modem_deltas [of "quiet_env\<lparr>tiocm := Some 0x140\<rparr>" "0x140" port0] masked_bit [of "0x140 :: u32" 5] by simp
qed

end
