(* ===== verification/Apic.thy ===== *)
theory Apic
  imports Host_Utils Machine
begin

text \<open>
  The local APICs, first part of \<open>qemu/hw/apic.c\<close>: the request, service and trigger-mode bitmaps,
  priorities, delivery over the APIC bus, the timer and reset. The registers and the end of interrupt,
  which reach into the I/O APIC, are in \<open>Apic_Mem\<close>.

  \<^item> \<open>APICState\<close> is the struct of the same name. Its \<open>cpu_env\<close> is the part of the processor the code
    touches: \<open>interrupt_request\<close> (set by \<open>cpu_interrupt\<close>, cleared by \<open>cpu_reset_interrupt\<close>), whether it
    is the boot processor, whether the APIC feature is still advertised, and the vectors it was started
    with, newest first.
  \<^item> \<open>local_apics\<close> is the array of the same name up to its first null entry: \<open>apic_init1\<close> fills it from
    index 0 on. An operation on \<open>local_apics[i]\<close> takes the index; a null entry is an index past the list.
  \<^item> Bitmaps are the lists of eight words the code has; vectors are naturals below 256. The \<open>int\<close> results
    that use negative numbers as marks stay integers.
\<close>

unbundle bit_operations_syntax

section \<open>State\<close>

record APICState =
  interrupt_request :: u32
  env_is_bsp :: bool
  env_apic_feature :: bool
  env_started :: "nat list"
  apicbase :: u32
  apic_id :: u8
  arb_id :: u8
  tpr :: u8
  spurious_vec :: u32
  log_dest :: u8
  dest_mode :: u8
  lapic_isr :: "u32 list"
  lapic_tmr :: "u32 list"
  lapic_irr :: "u32 list"
  lvt :: "u32 list"
  esr :: u32
  icr :: "u32 list"
  divide_conf :: u32
  count_shift :: nat
  initial_count :: u32
  initial_count_load_time :: int
  next_time :: int
  apic_idx :: nat
  timer_at :: "int option"
  sipi_vector :: nat
  wait_for_sipi :: bool

record apic_sys =
  local_apics :: "APICState list"
  apic_irq_delivered :: int

abbreviation (input) CPU_INTERRUPT_HARD :: u32 where "CPU_INTERRUPT_HARD \<equiv> 0x02"
abbreviation (input) CPU_INTERRUPT_SMI :: u32 where "CPU_INTERRUPT_SMI \<equiv> 0x40"
abbreviation (input) CPU_INTERRUPT_NMI :: u32 where "CPU_INTERRUPT_NMI \<equiv> 0x200"
abbreviation (input) CPU_INTERRUPT_INIT :: u32 where "CPU_INTERRUPT_INIT \<equiv> 0x400"
abbreviation (input) CPU_INTERRUPT_SIPI :: u32 where "CPU_INTERRUPT_SIPI \<equiv> 0x800"

definition cpu_interrupt :: "u32 \<Rightarrow> APICState \<Rightarrow> APICState" where
  "cpu_interrupt m s = s\<lparr>interrupt_request := interrupt_request s OR m\<rparr>"

definition cpu_reset_interrupt :: "u32 \<Rightarrow> APICState \<Rightarrow> APICState" where
  "cpu_reset_interrupt m s = s\<lparr>interrupt_request := interrupt_request s AND NOT m\<rparr>"

definition upd_apic :: "nat \<Rightarrow> (APICState \<Rightarrow> APICState) \<Rightarrow> apic_sys \<Rightarrow> apic_sys" where
  "upd_apic i f S = S\<lparr>local_apics := (local_apics S)[i := f (local_apics S ! i)]\<rparr>"

section \<open>Bitmaps\<close>

definition fls_bit :: "u32 \<Rightarrow> int" where
  "fls_bit v = 31 - int (clz32 v)"

definition ctz32 :: "u32 \<Rightarrow> nat" where
  "ctz32 v = length (takeWhile (\<lambda>i. \<not> bit v i) [0..<32])"

definition ffs_bit :: "u32 \<Rightarrow> nat" where
  "ffs_bit v = ctz32 v"

definition set_bit :: "u32 list \<Rightarrow> nat \<Rightarrow> u32 list" where
  "set_bit tab index = (let i = index div 32; m = bitmask (index mod 32) in tab[i := tab ! i OR m])"

definition reset_bit :: "u32 list \<Rightarrow> nat \<Rightarrow> u32 list" where
  "reset_bit tab index = (let i = index div 32; m = bitmask (index mod 32) in tab[i := tab ! i AND NOT m])"

definition get_bit :: "u32 list \<Rightarrow> nat \<Rightarrow> bool" where
  "get_bit tab index = (let i = index div 32; m = bitmask (index mod 32) in tab ! i AND m \<noteq> 0)"

fun highest_below :: "u32 list \<Rightarrow> nat \<Rightarrow> int" where
  "highest_below tab 0 = - 1"
| "highest_below tab (Suc i) = (if tab ! i \<noteq> 0 then int i * 32 + fls_bit (tab ! i) else highest_below tab i)"

definition get_highest_priority_int :: "u32 list \<Rightarrow> int" where
  "get_highest_priority_int tab = highest_below tab 8"

section \<open>Priorities\<close>

definition apic_get_ppr :: "APICState \<Rightarrow> int" where
  "apic_get_ppr s =
    (let t = uint (tpr s) div 16;
         isrv = get_highest_priority_int (lapic_isr s);
         isrv = (if isrv < 0 then 0 else isrv);
         isrv = isrv div 16
     in if t \<ge> isrv then uint (tpr s) else isrv * 16)"

definition apic_get_arb_pri :: "APICState \<Rightarrow> u32" where
  "apic_get_arb_pri s = 0"

definition apic_irq_pending :: "APICState \<Rightarrow> int" where
  "apic_irq_pending s =
    (let irrv = get_highest_priority_int (lapic_irr s) in
     if irrv < 0 then 0
     else
       (let ppr = apic_get_ppr s in
        if ppr \<noteq> 0 \<and> irrv AND 0xf0 \<le> ppr AND 0xf0 then - 1 else irrv))"

definition apic_update_irq :: "APICState \<Rightarrow> APICState" where
  "apic_update_irq s =
    (if spurious_vec s AND 0x100 = 0 then s
     else if apic_irq_pending s > 0 then cpu_interrupt CPU_INTERRUPT_HARD s else s)"

section \<open>Requests\<close>

text \<open>What a request changes in the APIC itself, and with the count of requests that were new.\<close>

definition apic_request :: "nat \<Rightarrow> bool \<Rightarrow> APICState \<Rightarrow> APICState" where
  "apic_request vector_num trigger_mode s =
    (let s = s\<lparr>lapic_irr := set_bit (lapic_irr s) vector_num\<rparr>;
         s = s\<lparr>lapic_tmr := (if trigger_mode then set_bit (lapic_tmr s) vector_num
                               else reset_bit (lapic_tmr s) vector_num)\<rparr>
     in apic_update_irq s)"

definition apic_set_irq :: "nat \<Rightarrow> nat \<Rightarrow> bool \<Rightarrow> apic_sys \<Rightarrow> apic_sys" where
  "apic_set_irq i vector_num trigger_mode S =
    upd_apic i (apic_request vector_num trigger_mode)
      (S\<lparr>apic_irq_delivered := apic_irq_delivered S +
          of_bool (\<not> get_bit (lapic_irr (local_apics S ! i)) vector_num)\<rparr>)"

definition apic_reset_irq_delivered :: "apic_sys \<Rightarrow> apic_sys" where
  "apic_reset_irq_delivered S = S\<lparr>apic_irq_delivered := 0\<rparr>"

definition apic_get_irq_delivered :: "apic_sys \<Rightarrow> int" where
  "apic_get_irq_delivered S = apic_irq_delivered S"

definition apic_local_deliver :: "nat \<Rightarrow> nat \<Rightarrow> apic_sys \<Rightarrow> apic_sys" where
  "apic_local_deliver i vector S =
    (let l = lvt (local_apics S ! i) ! vector; dm = drop_bit 8 l AND 7 in
     if l AND 0x10000 \<noteq> 0 then S
     else if dm = 2 then upd_apic i (cpu_interrupt CPU_INTERRUPT_SMI) S
     else if dm = 4 then upd_apic i (cpu_interrupt CPU_INTERRUPT_NMI) S
     else if dm = 7 then upd_apic i (cpu_interrupt CPU_INTERRUPT_HARD) S
     else if dm = 0
     then apic_set_irq i (unat (l AND 0xff)) ((vector = 3 \<or> vector = 4) \<and> l AND 0x8000 \<noteq> 0) S
     else S)"

definition apic_deliver_pic_intr :: "nat \<Rightarrow> bool \<Rightarrow> apic_sys \<Rightarrow> apic_sys" where
  "apic_deliver_pic_intr i level S =
    (if level then apic_local_deliver i 3 S
     else
       (let l = lvt (local_apics S ! i) ! 3; dm = drop_bit 8 l AND 7 in
        if dm = 0
        then
          (if l AND 0x8000 = 0 then S
           else upd_apic i (\<lambda>s. cpu_reset_interrupt CPU_INTERRUPT_HARD
                  (s\<lparr>lapic_irr := reset_bit (lapic_irr s) (unat (l AND 0xff))\<rparr>)) S)
        else if dm = 7 then upd_apic i (cpu_reset_interrupt CPU_INTERRUPT_HARD) S
        else S))"

section \<open>The bus\<close>

definition foreach_apic :: "u32 list \<Rightarrow> (nat \<Rightarrow> apic_sys \<Rightarrow> apic_sys) \<Rightarrow> apic_sys \<Rightarrow> apic_sys" where
  "foreach_apic deliver_bitmask code S =
    fold (\<lambda>i S. if get_bit deliver_bitmask i \<and> i < length (local_apics S) then code i S else S) [0..<256] S"

fun first_set :: "u32 list \<Rightarrow> nat \<Rightarrow> nat option" where
  "first_set [] i = None"
| "first_set (w # ws) i = (if w \<noteq> 0 then Some (i * 32 + ffs_bit w) else first_set ws (Suc i))"

definition apic_bus_deliver :: "u32 list \<Rightarrow> u8 \<Rightarrow> nat \<Rightarrow> bool \<Rightarrow> bool \<Rightarrow> apic_sys \<Rightarrow> apic_sys" where
  "apic_bus_deliver deliver_bitmask delivery_mode vector_num polarity trigger_mode S =
    (if delivery_mode = 1
     then (case first_set deliver_bitmask 0 of
             None \<Rightarrow> S
           | Some d \<Rightarrow> if d < length (local_apics S) then apic_set_irq d vector_num trigger_mode S else S)
     else if delivery_mode = 2
     then foreach_apic deliver_bitmask (\<lambda>i. upd_apic i (cpu_interrupt CPU_INTERRUPT_SMI)) S
     else if delivery_mode = 4
     then foreach_apic deliver_bitmask (\<lambda>i. upd_apic i (cpu_interrupt CPU_INTERRUPT_NMI)) S
     else if delivery_mode = 5
     then foreach_apic deliver_bitmask (\<lambda>i. upd_apic i (cpu_interrupt CPU_INTERRUPT_INIT)) S
     else if delivery_mode = 0 \<or> delivery_mode = 7
     then foreach_apic deliver_bitmask (\<lambda>i. apic_set_irq i vector_num trigger_mode) S
     else S)"

definition apic_find_dest :: "apic_sys \<Rightarrow> u8 \<Rightarrow> nat option" where
  "apic_find_dest S dest =
    (if unat dest < length (local_apics S) \<and> apic_id (local_apics S ! unat dest) = dest then Some (unat dest)
     else find (\<lambda>i. apic_id (local_apics S ! i) = dest) [0..<min 255 (length (local_apics S))])"

definition logical_match :: "u8 \<Rightarrow> APICState \<Rightarrow> bool" where
  "logical_match dest s =
    (if dest_mode s = 0xf then dest AND log_dest s \<noteq> 0
     else if dest_mode s = 0x0
     then dest AND 0xf0 = log_dest s AND 0xf0 \<and> dest AND log_dest s AND 0x0f \<noteq> 0
     else False)"

definition apic_get_delivery_bitmask :: "apic_sys \<Rightarrow> u8 \<Rightarrow> bool \<Rightarrow> u32 list" where
  "apic_get_delivery_bitmask S dest logical =
    (if \<not> logical
     then
       (if dest = 0xff then replicate 8 0xffffffff
        else (case apic_find_dest S dest of
                None \<Rightarrow> replicate 8 0
              | Some idx \<Rightarrow> set_bit (replicate 8 0) idx))
     else
       fold (\<lambda>i tab. if logical_match dest (local_apics S ! i) then set_bit tab i else tab)
         [0..<min 255 (length (local_apics S))] (replicate 8 0))"

definition apic_deliver_irq :: "u8 \<Rightarrow> bool \<Rightarrow> u8 \<Rightarrow> nat \<Rightarrow> bool \<Rightarrow> bool \<Rightarrow> apic_sys \<Rightarrow> apic_sys" where
  "apic_deliver_irq dest logical delivery_mode vector_num polarity trigger_mode S =
    apic_bus_deliver (apic_get_delivery_bitmask S dest logical) delivery_mode vector_num polarity trigger_mode S"

section \<open>Processor interface\<close>

definition cpu_set_apic_base :: "u64 \<Rightarrow> APICState \<Rightarrow> APICState" where
  "cpu_set_apic_base v s =
    (let s = s\<lparr>apicbase := ucast (v AND 0xfffff000) OR (apicbase s AND (0x100 OR 0x800))\<rparr> in
     if v AND 0x800 = 0
     then s\<lparr>apicbase := apicbase s AND NOT 0x800, env_apic_feature := False,
            spurious_vec := spurious_vec s AND NOT 0x100\<rparr>
     else s)"

definition cpu_get_apic_base :: "APICState \<Rightarrow> u64" where
  "cpu_get_apic_base s = ucast (apicbase s)"

definition cpu_set_apic_tpr :: "u8 \<Rightarrow> APICState \<Rightarrow> APICState" where
  "cpu_set_apic_tpr v s = apic_update_irq (s\<lparr>tpr := push_bit 4 (v AND 0x0f)\<rparr>)"

definition cpu_get_apic_tpr :: "APICState \<Rightarrow> u8" where
  "cpu_get_apic_tpr s = drop_bit 4 (tpr s)"

definition apic_get_interrupt :: "APICState \<Rightarrow> int \<times> APICState" where
  "apic_get_interrupt s =
    (if spurious_vec s AND 0x100 = 0 then (- 1, s)
     else
       (let intno = apic_irq_pending s in
        if intno = 0 then (- 1, s)
        else if intno < 0 then (uint (spurious_vec s AND 0xff), s)
        else
          (let s = s\<lparr>lapic_irr := reset_bit (lapic_irr s) (nat intno)\<rparr>;
               s = s\<lparr>lapic_isr := set_bit (lapic_isr s) (nat intno)\<rparr>
           in (intno, apic_update_irq s))))"

definition apic_accept_pic_intr :: "APICState \<Rightarrow> bool" where
  "apic_accept_pic_intr s \<longleftrightarrow> apicbase s AND 0x800 = 0 \<or> lvt s ! 3 AND 0x10000 = 0"

definition apic_startup :: "nat \<Rightarrow> APICState \<Rightarrow> APICState" where
  "apic_startup vector_num s = cpu_interrupt CPU_INTERRUPT_SIPI (s\<lparr>sipi_vector := vector_num\<rparr>)"

definition apic_sipi :: "APICState \<Rightarrow> APICState" where
  "apic_sipi s =
    (let s = cpu_reset_interrupt CPU_INTERRUPT_SIPI s in
     if wait_for_sipi s then s\<lparr>env_started := sipi_vector s # env_started s, wait_for_sipi := False\<rparr> else s)"

section \<open>The timer\<close>

definition apic_get_current_count :: "int \<Rightarrow> APICState \<Rightarrow> u32" where
  "apic_get_current_count now s =
    (let d = (now - initial_count_load_time s) div 2 ^ count_shift s; n = uint (initial_count s) in
     if lvt s ! 0 AND 0x20000 \<noteq> 0 then initial_count s - word_of_int (d mod 2 ^ 64 mod (n + 1))
     else if d \<ge> n then 0 else initial_count s - word_of_int d)"

definition apic_timer_update :: "int \<Rightarrow> APICState \<Rightarrow> APICState" where
  "apic_timer_update current_time s =
    (let no_timer = s\<lparr>timer_at := None\<rparr>; n = uint (initial_count s);
         arm = (\<lambda>d. let t = initial_count_load_time s + d * 2 ^ count_shift s
                    in s\<lparr>timer_at := Some t, next_time := t\<rparr>)
     in if lvt s ! 0 AND 0x10000 = 0
        then
          (let d = (current_time - initial_count_load_time s) div 2 ^ count_shift s in
           if lvt s ! 0 AND 0x20000 \<noteq> 0
           then (if initial_count s = 0 then no_timer else arm ((d mod 2 ^ 64 div (n + 1) + 1) * (n + 1)))
           else (if d \<ge> n then no_timer else arm (n + 1)))
        else no_timer)"

definition apic_timer :: "nat \<Rightarrow> apic_sys \<Rightarrow> apic_sys" where
  "apic_timer i S =
    (let S = apic_local_deliver i 0 S in upd_apic i (\<lambda>s. apic_timer_update (next_time s) s) S)"

section \<open>Reset\<close>

definition apic_init_reset :: "APICState \<Rightarrow> APICState" where
  "apic_init_reset s =
    s\<lparr>tpr := 0, spurious_vec := 0xff, log_dest := 0, dest_mode := 0xf, lapic_isr := replicate 8 0,
      lapic_tmr := replicate 8 0, lapic_irr := replicate 8 0, lvt := replicate 6 0x10000, esr := 0,
      icr := replicate 2 0, divide_conf := 0, count_shift := 0, initial_count := 0,
      initial_count_load_time := 0, next_time := 0, wait_for_sipi := True\<rparr>"

definition apic_reset :: "APICState \<Rightarrow> APICState" where
  "apic_reset s =
    (let bsp = env_is_bsp s;
         s = s\<lparr>apicbase := 0xfee00000 OR (if bsp then 0x100 else 0) OR 0x800\<rparr>;
         s = apic_init_reset s
     in if bsp then s\<lparr>lvt := (lvt s)[3 := 0x700]\<rparr> else s)"

definition apic_zero :: "u8 \<Rightarrow> bool \<Rightarrow> APICState" where
  "apic_zero i bsp =
    \<lparr>interrupt_request = 0, env_is_bsp = bsp, env_apic_feature = True, env_started = [], apicbase = 0,
     apic_id = i, arb_id = 0, tpr = 0, spurious_vec = 0, log_dest = 0, dest_mode = 0, lapic_isr = replicate 8 0,
     lapic_tmr = replicate 8 0, lapic_irr = replicate 8 0, lvt = replicate 6 0, esr = 0, icr = replicate 2 0,
     divide_conf = 0, count_shift = 0, initial_count = 0, initial_count_load_time = 0, next_time = 0,
     apic_idx = 0, timer_at = None, sipi_vector = 0, wait_for_sipi = False\<rparr>"

definition apic_init1 :: "APICState \<Rightarrow> apic_sys \<Rightarrow> apic_sys option" where
  "apic_init1 s S =
    (if length (local_apics S) \<ge> 255 then None
     else Some (S\<lparr>local_apics := local_apics S @ [s\<lparr>apic_idx := length (local_apics S)\<rparr>]\<rparr>))"

section \<open>Bitmaps as sets of vectors\<close>

text \<open>The abstraction: a bitmap of eight words is the set of its vectors. Every operation on bitmaps is
  the set operation on the abstraction.\<close>

definition vectors :: "u32 list \<Rightarrow> nat set" where
  "vectors tab = {n. n < 256 \<and> get_bit tab n}"

lemma get_bit_bit: "get_bit tab n \<longleftrightarrow> bit (tab ! (n div 32)) (n mod 32)"
  using masked_bit [of "tab ! (n div 32)" "n mod 32"] by (simp add: get_bit_def Let_def)

lemma same_word: "n div 32 = m div 32 \<Longrightarrow> n mod 32 = m mod 32 \<Longrightarrow> n = (m :: nat)"
  by (metis div_mult_mod_eq)

lemma length_bitmap [simp]: "length (set_bit tab n) = length tab" "length (reset_bit tab n) = length tab"
  by (simp_all add: set_bit_def reset_bit_def Let_def)

lemma get_set_bit:
  assumes "length tab = 8" "n < 256"
  shows "get_bit (set_bit tab n) m \<longleftrightarrow> m = n \<or> get_bit tab m"
proof (cases "m div 32 = n div 32")
  case True
  have "n div 32 < length tab" using assms by simp
  moreover have "m mod 32 = n mod 32 \<longleftrightarrow> m = n" using True same_word by blast
  moreover have "bit (w OR bitmask (n mod 32) :: u32) (m mod 32) \<longleftrightarrow> bit w (m mod 32) \<or> m mod 32 = n mod 32" for w
    by (rule bit_set_mask) simp
  ultimately show ?thesis using True by (auto simp: get_bit_bit set_bit_def Let_def)
next
  case False
  then show ?thesis by (auto simp: get_bit_bit set_bit_def Let_def)
qed

lemma get_reset_bit:
  assumes "length tab = 8" "n < 256"
  shows "get_bit (reset_bit tab n) m \<longleftrightarrow> m \<noteq> n \<and> get_bit tab m"
proof (cases "m div 32 = n div 32")
  case True
  have "n div 32 < length tab" using assms by simp
  moreover have "m mod 32 = n mod 32 \<longleftrightarrow> m = n" using True same_word by blast
  moreover have "bit (w AND NOT (bitmask (n mod 32)) :: u32) (m mod 32) \<longleftrightarrow> bit w (m mod 32) \<and> m mod 32 \<noteq> n mod 32" for w
    by (rule bit_clear_mask) simp
  ultimately show ?thesis using True by (auto simp: get_bit_bit reset_bit_def Let_def)
next
  case False
  then show ?thesis by (auto simp: get_bit_bit reset_bit_def Let_def)
qed

lemma vectors_set [simp]: "length tab = 8 \<Longrightarrow> n < 256 \<Longrightarrow> vectors (set_bit tab n) = insert n (vectors tab)"
  by (auto simp: vectors_def get_set_bit)

lemma vectors_reset [simp]: "length tab = 8 \<Longrightarrow> n < 256 \<Longrightarrow> vectors (reset_bit tab n) = vectors tab - {n}"
  by (auto simp: vectors_def get_reset_bit)

lemma vectors_empty [simp]: "vectors (replicate 8 0) = {}"
proof -
  have "n div 32 < 8" if "n < 256" for n :: nat using that by simp
  then show ?thesis by (simp add: vectors_def get_bit_bit)
qed

lemma vectors_finite [simp]: "finite (vectors tab)"
  by (rule finite_subset [of _ "{..<256}"]) (auto simp: vectors_def)

lemma vectors_less: "n \<in> vectors tab \<Longrightarrow> n < 256"
  by (simp add: vectors_def)

lemma get_bit_vectors: "n < 256 \<Longrightarrow> get_bit tab n \<longleftrightarrow> n \<in> vectors tab"
  by (simp add: vectors_def)

text \<open>The highest vector.\<close>

lemma fls_bit_highest:
  assumes "w \<noteq> 0"
  obtains k where "fls_bit w = int k" "k < 32" "bit w k" "\<And>j. k < j \<Longrightarrow> \<not> bit w j"
proof -
  define k where "k = 31 - clz32 w"
  have b: "clz32 w \<le> 31" "2 ^ k \<le> unat w" "unat w < 2 ^ Suc k"
    using clz32_bounds [OF assms] Suc_diff_le [of "clz32 w" 31] by (auto simp: k_def simp del: power_Suc)
  have "unat w div 2 ^ k = 1" using b(2,3) by (intro div_nat_eqI) simp_all
  then have "bit (unat w) k" by (simp add: bit_iff_odd)
  then have 1: "bit w k" by (simp add: bit_unsigned_iff)
  have 2: "\<not> bit w j" if "k < j" for j
  proof -
    have "unat w < 2 ^ j" using b(3) power_increasing [of "Suc k" j "2::nat"] that by simp
    then have "\<not> bit (unat w) j" by (simp add: bit_iff_odd)
    then show ?thesis by (auto simp: bit_unsigned_iff dest: bit_imp_le_length)
  qed
  show ?thesis using that [of k] 1 2 b(1) by (simp add: fls_bit_def k_def of_nat_diff)
qed

lemma highest_below_spec:
  "i \<le> 8 \<Longrightarrow>
    (highest_below tab i = - 1 \<and> (\<forall>n < i * 32. \<not> get_bit tab n)) \<or>
    (\<exists>n < i * 32. highest_below tab i = int n \<and> get_bit tab n \<and> (\<forall>m < i * 32. get_bit tab m \<longrightarrow> m \<le> n))"
proof (induction i)
  case (Suc i)
  show ?case
  proof (cases "tab ! i = 0")
    case True
    then have "\<not> get_bit tab n" if "n div 32 = i" for n using that by (simp add: get_bit_bit)
    moreover have "n < Suc i * 32 \<longleftrightarrow> n < i * 32 \<or> n div 32 = i" for n by auto
    ultimately show ?thesis using Suc True by (simp add: less_Suc_eq_le) (metis (no_types, lifting))
  next
    case False
    then obtain k where k: "fls_bit (tab ! i) = int k" "k < 32" "bit (tab ! i) k" "\<And>j. k < j \<Longrightarrow> \<not> bit (tab ! i) j"
      using fls_bit_highest [OF False] by blast
    have "get_bit tab (i * 32 + k)" using k(2,3) by (simp add: get_bit_bit)
    moreover have "m \<le> i * 32 + k" if "m < Suc i * 32" "get_bit tab m" for m
    proof (cases "m div 32 = i")
      case True
      then have "m mod 32 \<le> k" using k(4) that(2) by (auto simp: get_bit_bit not_less [symmetric])
      then show ?thesis using True by (metis add_le_cancel_left div_mult_mod_eq)
    next
      case False
      then have "m < i * 32" using that(1) by auto
      then show ?thesis by simp
    qed
    ultimately show ?thesis using False k(1,2) by (intro disjI2 exI [of _ "i * 32 + k"]) simp
  qed
qed simp

lemma highest_vector:
  "get_highest_priority_int tab = (if vectors tab = {} then - 1 else int (Max (vectors tab)))"
proof -
  consider (none) "get_highest_priority_int tab = - 1" "\<forall>n < 256. \<not> get_bit tab n"
    | (some) n where "n < 256" "get_highest_priority_int tab = int n" "get_bit tab n" "\<forall>m < 256. get_bit tab m \<longrightarrow> m \<le> n"
    using highest_below_spec [of 8 tab] by (auto simp: get_highest_priority_int_def)
  then show ?thesis
  proof cases
    case none
    then show ?thesis by (simp add: vectors_def)
  next
    case some
    then have "n \<in> vectors tab" "\<And>m. m \<in> vectors tab \<Longrightarrow> m \<le> n" by (auto simp: vectors_def)
    then have "Max (vectors tab) = n" by (intro Max_eqI) simp_all
    then show ?thesis using some(2) \<open>n \<in> vectors tab\<close> by auto
  qed
qed

section \<open>Priorities over sets\<close>

definition apic_wf :: "APICState \<Rightarrow> bool" where
  "apic_wf s \<longleftrightarrow> length (lapic_irr s) = 8 \<and> length (lapic_isr s) = 8 \<and> length (lapic_tmr s) = 8 \<and>
    length (lvt s) = 6 \<and> length (icr s) = 2"

text \<open>A vector is blocked when the task priority or a vector in service is of its class or above.\<close>

definition blocked :: "APICState \<Rightarrow> nat \<Rightarrow> bool" where
  "blocked s n \<longleftrightarrow> n div 16 \<le> unat (tpr s) div 16 \<or> (\<exists>k \<in> vectors (lapic_isr s). n div 16 \<le> k div 16)"

lemma and_f0:
  assumes "n < 256"
  shows "int n AND 0xf0 = int (n div 16) * 16"
proof -
  have small: "k < 8" if "bit (int n) k" for k
  proof (rule ccontr)
    assume "\<not> k < 8"
    then have "(256 :: int) \<le> 2 ^ k" using power_increasing [of 8 k "2::int"] by simp
    then have "int n < 2 ^ k" using assms by linarith
    then show False using that by (simp add: bit_iff_odd)
  qed
  have "int n AND 0xf0 = int n AND push_bit 4 (mask 4)" by (simp add: mask_eq_exp_minus_1 push_bit_eq_mult)
  also have "\<dots> = push_bit 4 (drop_bit 4 (int n))"
    by (rule bit_eqI) (auto simp: bit_simps dest: small [simplified])
  finally show ?thesis by (simp add: push_bit_eq_mult drop_bit_eq_div zdiv_int)
qed

definition isr_class :: "APICState \<Rightarrow> nat" where
  "isr_class s = (if vectors (lapic_isr s) = {} then 0 else Max (vectors (lapic_isr s)) div 16)"

lemma isr_class_less: "isr_class s < 16"
proof (cases "vectors (lapic_isr s) = {}")
  case False
  then have "Max (vectors (lapic_isr s)) < 256" using Max_in vectors_less by (metis vectors_finite)
  then show ?thesis by (simp add: isr_class_def less_mult_imp_div_less)
qed (simp add: isr_class_def)

lemma isr_class_le:
  "0 < c \<Longrightarrow> c \<le> isr_class s \<longleftrightarrow> (\<exists>k \<in> vectors (lapic_isr s). c \<le> k div 16)"
proof
  assume "0 < c" "c \<le> isr_class s"
  then have "vectors (lapic_isr s) \<noteq> {}" by (auto simp: isr_class_def)
  with \<open>c \<le> isr_class s\<close> show "\<exists>k \<in> vectors (lapic_isr s). c \<le> k div 16"
    by (intro bexI [of _ "Max (vectors (lapic_isr s))"]) (simp_all add: isr_class_def)
next
  assume "\<exists>k \<in> vectors (lapic_isr s). c \<le> k div 16"
  then obtain k where k: "k \<in> vectors (lapic_isr s)" "c \<le> k div 16" by blast
  then have "k \<le> Max (vectors (lapic_isr s))" by simp
  then have "k div 16 \<le> Max (vectors (lapic_isr s)) div 16" by (rule div_le_mono)
  then show "c \<le> isr_class s" using k by (auto simp: isr_class_def)
qed

lemma apic_get_ppr_class:
  "apic_get_ppr s = (if isr_class s \<le> unat (tpr s) div 16 then int (unat (tpr s)) else int (isr_class s) * 16)"
proof -
  define t where "t = unat (tpr s)"
  define m where "m = Max (vectors (lapic_isr s))"
  have u: "uint (tpr s) = int t" by (simp add: t_def)
  have d: "int t div 16 = int (t div 16)" "int m div 16 = int (m div 16)" by (simp_all add: zdiv_int)
  show ?thesis
    unfolding apic_get_ppr_def highest_vector isr_class_def Let_def u t_def [symmetric] m_def [symmetric]
    by (cases "vectors (lapic_isr s) = {}") (simp_all add: d)
qed

lemma ppr_class:
  obtains p where "apic_get_ppr s = int p" "p < 256" "p div 16 = max (unat (tpr s) div 16) (isr_class s)"
proof (cases "isr_class s \<le> unat (tpr s) div 16")
  case True
  then show ?thesis using that [of "unat (tpr s)"] unat_bounds(1) [of "tpr s"] by (simp add: apic_get_ppr_class)
next
  case False
  then show ?thesis using that [of "isr_class s * 16"] isr_class_less [of s] by (simp add: apic_get_ppr_class)
qed

lemma apic_irq_pending_spec:
  assumes "vectors (lapic_irr s) \<noteq> {}" "16 \<le> Max (vectors (lapic_irr s))"
  shows "apic_irq_pending s =
    (if blocked s (Max (vectors (lapic_irr s))) then - 1 else int (Max (vectors (lapic_irr s))))"
proof -
  let ?n = "Max (vectors (lapic_irr s))"
  have n: "?n < 256" "0 < ?n div 16" using assms Max_in [OF vectors_finite assms(1)] vectors_less by auto
  obtain p where p: "apic_get_ppr s = int p" "p < 256" "p div 16 = max (unat (tpr s) div 16) (isr_class s)"
    by (rule ppr_class)
  have "int ?n AND 0xf0 \<le> int p AND 0xf0 \<longleftrightarrow> ?n div 16 \<le> p div 16"
    using and_f0 [OF n(1)] and_f0 [OF p(2)] by simp
  also have "\<dots> \<longleftrightarrow> blocked s ?n"
    unfolding p(3) blocked_def isr_class_le [OF n(2), of s, symmetric] by auto
  finally have "int ?n AND 0xf0 \<le> int p AND 0xf0 \<longleftrightarrow> blocked s ?n" .
  moreover have "p \<noteq> 0" if "blocked s ?n"
  proof
    assume "p = 0"
    then have "max (unat (tpr s) div 16) (isr_class s) = 0" using p(3) by simp
    moreover have "?n div 16 \<le> max (unat (tpr s) div 16) (isr_class s)"
      using that isr_class_le [OF n(2), of s] by (auto simp: blocked_def)
    ultimately show False using n(2) by linarith
  qed
  ultimately show ?thesis using assms(1) p(1) by (auto simp: apic_irq_pending_def highest_vector Let_def)
qed

section \<open>No pending interrupt goes unnoticed\<close>

definition apic_signals :: "APICState \<Rightarrow> bool" where
  "apic_signals s \<longleftrightarrow> (spurious_vec s AND 0x100 \<noteq> 0 \<and> apic_irq_pending s > 0 \<longrightarrow>
    interrupt_request s AND CPU_INTERRUPT_HARD \<noteq> 0)"

definition apic_good :: "APICState \<Rightarrow> bool" where
  "apic_good s \<longleftrightarrow> apic_wf s \<and> apic_signals s"

lemma word_flag_or: "((w :: 'a::len word) OR a) AND b = 0 \<longleftrightarrow> w AND b = 0 \<and> a AND b = 0"
  by (simp add: bit.conj_disj_distrib2 or_eq_0_iff)

lemma pending_cong:
  assumes "lapic_irr t = lapic_irr s" "lapic_isr t = lapic_isr s" "tpr t = tpr s"
  shows "apic_irq_pending t = apic_irq_pending s"
  by (simp only: apic_irq_pending_def apic_get_ppr_def assms)

lemma pending_frame [simp]:
  "apic_irq_pending (s\<lparr>interrupt_request := a\<rparr>) = apic_irq_pending s"
  "apic_irq_pending (s\<lparr>lvt := l\<rparr>) = apic_irq_pending s" "apic_irq_pending (s\<lparr>esr := a\<rparr>) = apic_irq_pending s"
  "apic_irq_pending (s\<lparr>icr := l\<rparr>) = apic_irq_pending s" "apic_irq_pending (s\<lparr>timer_at := t\<rparr>) = apic_irq_pending s"
  "apic_irq_pending (s\<lparr>next_time := x\<rparr>) = apic_irq_pending s" "apic_irq_pending (s\<lparr>lapic_tmr := l\<rparr>) = apic_irq_pending s"
  "apic_irq_pending (s\<lparr>apicbase := a\<rparr>) = apic_irq_pending s"
  by (rule pending_cong; simp)+

lemma apic_signals_update [simp]: "apic_signals (apic_update_irq s)"
  by (simp add: apic_signals_def apic_update_irq_def cpu_interrupt_def word_flag_or)

lemma apic_wf_update [simp]: "apic_wf (apic_update_irq s) = apic_wf s"
  by (simp add: apic_wf_def apic_update_irq_def cpu_interrupt_def)

lemma apic_good_update [simp]: "apic_good (apic_update_irq s) = apic_wf s"
  by (simp add: apic_good_def)

lemma apic_good_interrupt [simp]: "apic_good s \<Longrightarrow> apic_good (cpu_interrupt m s)"
  by (auto simp: apic_good_def apic_signals_def apic_wf_def cpu_interrupt_def word_flag_or)

lemma apic_good_request: "apic_wf s \<Longrightarrow> apic_good (apic_request v t s)"
  by (simp add: apic_request_def Let_def) (simp add: apic_wf_def)

lemma apic_update_irq_frame [simp]:
  "lapic_irr (apic_update_irq s) = lapic_irr s" "lapic_isr (apic_update_irq s) = lapic_isr s"
  "lapic_tmr (apic_update_irq s) = lapic_tmr s" "spurious_vec (apic_update_irq s) = spurious_vec s"
  "tpr (apic_update_irq s) = tpr s" "lvt (apic_update_irq s) = lvt s" "apic_id (apic_update_irq s) = apic_id s"
  "log_dest (apic_update_irq s) = log_dest s" "dest_mode (apic_update_irq s) = dest_mode s"
  by (simp_all add: apic_update_irq_def cpu_interrupt_def)

lemma apic_get_interrupt_good: "apic_good s \<Longrightarrow> apic_good (snd (apic_get_interrupt s))"
  by (simp add: apic_get_interrupt_def Let_def) (simp add: apic_good_def apic_wf_def)

text \<open>Taking the interrupt: the processor clears its request first, as \<open>cpu_exec\<close> does.\<close>

lemma apic_take_good:
  assumes "apic_wf s"
  shows "apic_good (snd (apic_get_interrupt (cpu_reset_interrupt CPU_INTERRUPT_HARD s)))"
proof -
  have "apic_wf (cpu_reset_interrupt m s)" for m using assms by (simp add: apic_wf_def cpu_reset_interrupt_def)
  then show ?thesis
    by (simp add: apic_get_interrupt_def Let_def) (simp add: apic_good_def apic_signals_def apic_wf_def)
qed

section \<open>Delivery\<close>

text \<open>All APICs are in order, those of a set of exceptions only as far as the shape of their state goes:
  an end of interrupt passes through states where one of them has not yet looked at its requests.\<close>

definition apics_ok :: "nat set \<Rightarrow> apic_sys \<Rightarrow> bool" where
  "apics_ok X S \<longleftrightarrow> length (local_apics S) \<le> 255 \<and>
    (\<forall>i < length (local_apics S). apic_wf (local_apics S ! i) \<and> (i \<notin> X \<longrightarrow> apic_signals (local_apics S ! i)))"

definition keeps :: "(APICState \<Rightarrow> APICState) \<Rightarrow> bool" where
  "keeps f \<longleftrightarrow> (\<forall>s. apic_wf s \<longrightarrow> apic_wf (f s)) \<and> (\<forall>s. apic_good s \<longrightarrow> apic_good (f s))"

definition unique_ids :: "apic_sys \<Rightarrow> bool" where
  "unique_ids S \<longleftrightarrow> distinct (map apic_id (local_apics S))"

lemma upd_apic_local [simp]: "local_apics (upd_apic i f S) = (local_apics S)[i := f (local_apics S ! i)]"
  by (simp add: upd_apic_def)

lemma apic_set_irq_local [simp]:
  "local_apics (apic_set_irq i v t S) = (local_apics S)[i := apic_request v t (local_apics S ! i)]"
  by (simp add: apic_set_irq_def)

lemma foreach_apic_local:
  assumes code: "\<And>i S. local_apics (code i S) = (local_apics S)[i := f (local_apics S ! i)]"
    and len: "length (local_apics S) \<le> 256"
  shows "local_apics (foreach_apic m code S) =
    map (\<lambda>j. if get_bit m j then f (local_apics S ! j) else local_apics S ! j) [0..<length (local_apics S)]"
proof -
  let ?A = "local_apics S"
  let ?step = "\<lambda>i S. if get_bit m i \<and> i < length (local_apics S) then code i S else S"
  have pointwise: "length (local_apics (fold ?step [0..<n] S)) = length ?A \<and>
      (\<forall>j < length ?A. local_apics (fold ?step [0..<n] S) ! j = (if j < n \<and> get_bit m j then f (?A ! j) else ?A ! j))" for n
  proof (induction n)
    case (Suc n)
    let ?T = "fold ?step [0..<n] S"
    have "local_apics (fold ?step [0..<Suc n] S) =
        (if get_bit m n \<and> n < length ?A then (local_apics ?T)[n := f (local_apics ?T ! n)] else local_apics ?T)"
      using Suc by (simp add: code)
    then show ?case using Suc by (auto simp: nth_list_update less_Suc_eq)
  qed simp
  show ?thesis
    unfolding foreach_apic_def
  proof (rule nth_equalityI)
    show "length (local_apics (fold ?step [0..<256] S)) =
        length (map (\<lambda>j. if get_bit m j then f (?A ! j) else ?A ! j) [0..<length ?A])"
      using pointwise [of 256] by simp
    fix j assume "j < length (local_apics (fold ?step [0..<256] S))"
    then have j: "j < length ?A" using pointwise [of 256] by (simp only:)
    then have "j < 256" using len by linarith
    with j show "local_apics (fold ?step [0..<256] S) ! j =
        map (\<lambda>j. if get_bit m j then f (?A ! j) else ?A ! j) [0..<length ?A] ! j"
      using pointwise [of 256] by (simp only: nth_map length_upt nth_upt diff_zero add_0 simp_thms)
  qed
qed

lemma find_dest:
  assumes "unique_ids S" "length (local_apics S) \<le> 255" "j < length (local_apics S)"
  shows "apic_find_dest S dest = Some j \<longleftrightarrow> apic_id (local_apics S ! j) = dest"
proof -
  let ?A = "local_apics S"
  have inj: "i = j" if "i < length ?A" "apic_id (?A ! i) = apic_id (?A ! j)" for i
    using assms(1,3) that by (auto simp: unique_ids_def distinct_conv_nth)
  have before: "apic_id (?A ! k) \<noteq> apic_id (?A ! j)" if "k < j" for k
    using inj [of k] that assms(3) by auto
  have min: "min 255 (length ?A) = length ?A" using assms(2) by simp
  have "find (\<lambda>i. apic_id (?A ! i) = dest) [0..<length ?A] = Some j \<longleftrightarrow> apic_id (?A ! j) = dest"
    using assms(3) before by (simp add: find_Some_iff cong: conj_cong) auto
  then show ?thesis using inj assms(3) by (auto simp: apic_find_dest_def min)
qed

lemma find_dest_less: "apic_find_dest S dest = Some i \<Longrightarrow> i < length (local_apics S)"
  by (auto simp: apic_find_dest_def find_Some_iff split: if_splits)

text \<open>The APICs a message is for: all of them, the one with the identifier, or those whose logical
  address matches.\<close>

definition addressed :: "u8 \<Rightarrow> bool \<Rightarrow> APICState \<Rightarrow> bool" where
  "addressed dest logical s \<longleftrightarrow> (if logical then logical_match dest s else dest = 0xff \<or> apic_id s = dest)"

lemma get_bit_zero: "n < 256 \<Longrightarrow> \<not> get_bit (replicate 8 0) n"
  using vectors_empty by (auto simp: get_bit_vectors)

lemma fold_set_bit:
  assumes "length tab = 8" "n \<le> 256" "j < 256"
  shows "length (fold (\<lambda>i tab. if P i then set_bit tab i else tab) [0..<n] tab) = 8 \<and>
    (get_bit (fold (\<lambda>i tab. if P i then set_bit tab i else tab) [0..<n] tab) j \<longleftrightarrow> get_bit tab j \<or> j < n \<and> P j)"
  using assms(2)
proof (induction n)
  case (Suc n)
  then show ?case using assms(3) by (auto simp: get_set_bit less_Suc_eq)
qed (simp add: assms)

lemma all_ones: "k < 32 \<Longrightarrow> bit (0xffffffff :: u32) k"
proof -
  assume "k < 32"
  then have "bit (mask 32 :: u32) k" by (simp only: bit_mask_iff) simp
  moreover have "(mask 32 :: u32) = 0xffffffff" by (simp add: mask_eq_exp_minus_1)
  ultimately show ?thesis by (simp only:)
qed

lemma delivery_bitmask:
  assumes "unique_ids S" "length (local_apics S) \<le> 255" "j < length (local_apics S)"
  shows "get_bit (apic_get_delivery_bitmask S dest logical) j \<longleftrightarrow> addressed dest logical (local_apics S ! j)"
proof (cases logical)
  case True
  have "min 255 (length (local_apics S)) = length (local_apics S)" using assms(2) by simp
  then show ?thesis
    using True fold_set_bit [of "replicate 8 0" "length (local_apics S)" j] assms(2,3) get_bit_zero [of j]
    by (simp add: apic_get_delivery_bitmask_def addressed_def)
next
  case False
  show ?thesis
  proof (cases "dest = 0xff")
    case True
    have "j div 32 < 8" using assms(2,3) by simp
    moreover have "bit (0xffffffff :: u32) (j mod 32)" by (rule all_ones) simp
    ultimately show ?thesis using True False by (simp add: apic_get_delivery_bitmask_def addressed_def get_bit_bit)
  next
    case no: False
    show ?thesis
    proof (cases "apic_find_dest S dest")
      case None
      then show ?thesis
        using False no find_dest [OF assms, of dest] get_bit_zero [of j] assms(2,3)
        by (simp add: apic_get_delivery_bitmask_def addressed_def)
    next
      case (Some idx)
      then have "idx < 256" using find_dest_less assms(2) by fastforce
      moreover have "get_bit (set_bit (replicate 8 0) idx) j \<longleftrightarrow> j = idx"
        using get_set_bit [of "replicate 8 0" idx j] get_bit_zero [of j] assms(2,3) calculation by simp
      ultimately show ?thesis
        using False no find_dest [OF assms, of dest] Some
        by (auto simp: apic_get_delivery_bitmask_def addressed_def)
    qed
  qed
qed

lemma apic_deliver_fixed:
  assumes "unique_ids S" "length (local_apics S) \<le> 255" "dm = 0 \<or> dm = 7"
  shows "local_apics (apic_deliver_irq dest logical dm v pol trig S) =
    map (\<lambda>s. if addressed dest logical s then apic_request v trig s else s) (local_apics S)"
proof -
  have "local_apics (foreach_apic m (\<lambda>i. apic_set_irq i v trig) S) =
      map (\<lambda>j. if get_bit m j then apic_request v trig (local_apics S ! j) else local_apics S ! j)
        [0..<length (local_apics S)]" for m
    by (rule foreach_apic_local) (use assms(2) in simp_all)
  then have "local_apics (apic_deliver_irq dest logical dm v pol trig S) =
    map (\<lambda>j. if get_bit (apic_get_delivery_bitmask S dest logical) j
      then apic_request v trig (local_apics S ! j) else local_apics S ! j) [0..<length (local_apics S)]"
    using assms(3) by (elim disjE) (simp_all add: apic_deliver_irq_def apic_bus_deliver_def)
  then show ?thesis by (intro nth_equalityI) (simp_all add: delivery_bitmask [OF assms(1,2)])
qed

end
