(* ===== verification/Ioapic.thy ===== *)
theory Ioapic
  imports Apic I8259
begin

text \<open>
  The I/O APIC, \<open>qemu/hw/ioapic.c\<close>, between the interrupt lines, the local APICs and the 8259
  controllers, and \<open>pic_irq_request\<close> of \<open>qemu/hw/pc.c\<close>, which carries the output of the 8259 controllers
  to the local APICs.

  \<^item> \<open>IOAPICState\<close> is the struct of the same name. \<open>Irqchip\<close> is what the code reaches through the globals
    \<open>local_apics\<close>, \<open>ioapics[0]\<close> (a machine has one, \<open>MAX_IOAPICS\<close> being 1) and \<open>isa_pic\<close>.
  \<^item> The model of the 8259 controllers records the levels they drive on \<open>parent_irq\<close>; \<open>drive_pic\<close> passes
    the new ones on, in order.
\<close>

unbundle bit_operations_syntax

section \<open>State\<close>

record IOAPICState =
  ioapic_id :: u8
  ioregsel :: u8
  ioapic_irr :: u32
  ioredtbl :: "u64 list"

record Irqchip =
  apics :: apic_sys
  ioapic :: IOAPICState
  isa_pic :: PicState2

abbreviation (input) IOAPIC_NUM_PINS :: nat where "IOAPIC_NUM_PINS \<equiv> 24"

section \<open>The output of the 8259 controllers\<close>

text \<open>\<open>pic_irq_request\<close> where the processors have an APIC, as every machine modelled here does.\<close>

definition pic_irq_request :: "bool \<Rightarrow> apic_sys \<Rightarrow> apic_sys" where
  "pic_irq_request level S =
    fold (\<lambda>i S. if apic_accept_pic_intr (local_apics S ! i) then apic_deliver_pic_intr i level S else S)
      [0..<length (local_apics S)] S"

definition drive_pic :: "PicState2 \<Rightarrow> Irqchip \<Rightarrow> Irqchip" where
  "drive_pic p C =
    (let new = take (length (parent_irq p) - length (parent_irq (isa_pic C))) (parent_irq p)
     in C\<lparr>isa_pic := p, apics := fold pic_irq_request (rev new) (apics C)\<rparr>)"

section \<open>Service\<close>

definition ioapic_service_pin :: "nat \<Rightarrow> Irqchip \<Rightarrow> Irqchip" where
  "ioapic_service_pin i C =
    (let s = ioapic C; m = bitmask i in
     if ioapic_irr s AND m = 0 then C
     else
       (let entry = ioredtbl s ! i in
        if entry AND 0x10000 \<noteq> 0 then C
        else
          (let trig_mode = (drop_bit 15 entry AND 1 \<noteq> 0);
               dest = ucast (drop_bit 56 entry);
               logical = (drop_bit 11 entry AND 1 \<noteq> 0);
               delivery_mode = ucast (drop_bit 8 entry AND 7);
               polarity = (drop_bit 13 entry AND 1 \<noteq> 0);
               C = (if \<not> trig_mode then C\<lparr>ioapic := s\<lparr>ioapic_irr := ioapic_irr s AND NOT m\<rparr>\<rparr>
                    else C\<lparr>ioapic := s\<lparr>ioredtbl := (ioredtbl s)[i := ioredtbl s ! i OR 0x4000]\<rparr>\<rparr>);
               (vector, C) =
                 (if delivery_mode = (7 :: u8)
                  then (let (p, v) = pic_read_irq (isa_pic C) in (v mod 256, drive_pic p C))
                  else (unat (entry AND 0xff), C))
           in C\<lparr>apics := apic_deliver_irq dest logical delivery_mode vector polarity trig_mode (apics C)\<rparr>)))"

definition ioapic_service :: "Irqchip \<Rightarrow> Irqchip" where
  "ioapic_service C = fold ioapic_service_pin [0..<IOAPIC_NUM_PINS] C"

definition ioapic_set_irq :: "int \<Rightarrow> bool \<Rightarrow> Irqchip \<Rightarrow> Irqchip" where
  "ioapic_set_irq vector level C =
    (let vector = (if vector = 0 then 2 else vector) in
     if 0 \<le> vector \<and> vector < int IOAPIC_NUM_PINS
     then
       (let s = ioapic C; m = bitmask (nat vector); entry = ioredtbl s ! nat vector in
        if drop_bit 15 entry AND 1 = 1
        then (if level then ioapic_service (C\<lparr>ioapic := s\<lparr>ioapic_irr := ioapic_irr s OR m\<rparr>\<rparr>)
              else C\<lparr>ioapic := s\<lparr>ioapic_irr := ioapic_irr s AND NOT m\<rparr>\<rparr>)
        else if level then ioapic_service (C\<lparr>ioapic := s\<lparr>ioapic_irr := ioapic_irr s OR m\<rparr>\<rparr>)
        else C)
     else C)"

text \<open>An ISA interrupt goes to the 8259 controllers and to the I/O APIC.\<close>

definition isa_irq_handler :: "nat \<Rightarrow> bool \<Rightarrow> Irqchip \<Rightarrow> Irqchip" where
  "isa_irq_handler n level C =
    (let C = (if n < 16 then drive_pic (i8259_set_irq (isa_pic C) n level) C else C)
     in ioapic_set_irq (int n) level C)"

definition ioapic_eoi_pin :: "int \<Rightarrow> nat \<Rightarrow> Irqchip \<Rightarrow> Irqchip" where
  "ioapic_eoi_pin vector n C =
    (let s = ioapic C; entry = ioredtbl s ! n in
     if entry AND 0x4000 \<noteq> 0 \<and> uint (entry AND 0xff) = vector
     then
       (let C = C\<lparr>ioapic := s\<lparr>ioredtbl := (ioredtbl s)[n := entry AND NOT 0x4000]\<rparr>\<rparr>
        in if entry AND 0x10000 = 0 \<and> ioapic_irr s AND bitmask n \<noteq> 0 then ioapic_service C else C)
     else C)"

definition ioapic_eoi_broadcast :: "int \<Rightarrow> Irqchip \<Rightarrow> Irqchip" where
  "ioapic_eoi_broadcast vector C = fold (ioapic_eoi_pin vector) [0..<IOAPIC_NUM_PINS] C"

section \<open>Registers\<close>

definition ioredtbl_index :: "IOAPICState \<Rightarrow> nat option" where
  "ioredtbl_index s =
    (let index = (uint (ioregsel s) - 0x10) div 2
     in if 0 \<le> index \<and> index < int IOAPIC_NUM_PINS then Some (nat index) else None)"

definition ioapic_mem_readl :: "u64 \<Rightarrow> IOAPICState \<Rightarrow> u32" where
  "ioapic_mem_readl addr s =
    (if addr AND 0xff = 0x00 then ucast (ioregsel s)
     else if addr AND 0xff = 0x10
     then
       (if ioregsel s = 0x00 then push_bit 24 (ucast (ioapic_id s))
        else if ioregsel s = 0x01 then 0x11 OR push_bit 16 (0x18 - 1)
        else if ioregsel s = 0x02 then 0
        else (case ioredtbl_index s of
                None \<Rightarrow> 0
              | Some index \<Rightarrow>
                  if ioregsel s AND 1 \<noteq> 0 then ucast (drop_bit 32 (ioredtbl s ! index))
                  else ucast (ioredtbl s ! index AND 0xffffffff)))
     else 0)"

definition ioapic_mem_writel :: "u64 \<Rightarrow> u32 \<Rightarrow> Irqchip \<Rightarrow> Irqchip" where
  "ioapic_mem_writel addr v C =
    (let s = ioapic C in
     if addr AND 0xff = 0x00 then C\<lparr>ioapic := s\<lparr>ioregsel := ucast v\<rparr>\<rparr>
     else if addr AND 0xff = 0x10
     then
       (if ioregsel s = 0x00 then C\<lparr>ioapic := s\<lparr>ioapic_id := ucast (drop_bit 24 v AND 0xf)\<rparr>\<rparr>
        else if ioregsel s = 0x01 \<or> ioregsel s = 0x02 then C
        else (case ioredtbl_index s of
                None \<Rightarrow> C
              | Some index \<Rightarrow>
                  (let e = ioredtbl s ! index;
                       e = (if ioregsel s AND 1 \<noteq> 0
                            then (e AND 0xffffffff) OR push_bit 32 (ucast v)
                            else (e AND NOT 0xffffffff) OR ucast v)
                   in ioapic_service (C\<lparr>ioapic := s\<lparr>ioredtbl := (ioredtbl s)[index := e]\<rparr>\<rparr>))))
     else C)"

section \<open>Reset\<close>

definition ioapic_post_load :: "int \<Rightarrow> IOAPICState \<Rightarrow> IOAPICState" where
  "ioapic_post_load version_id s = (if version_id = 1 then s\<lparr>ioapic_irr := 0\<rparr> else s)"

definition ioapic_reset :: "IOAPICState \<Rightarrow> IOAPICState" where
  "ioapic_reset s =
    s\<lparr>ioapic_id := 0, ioregsel := 0, ioapic_irr := 0, ioredtbl := replicate IOAPIC_NUM_PINS 0x10000\<rparr>"

section \<open>Invariants of the local APICs\<close>

lemma upd_apic_ok:
  assumes "apics_ok X S" "keeps f"
  shows "apics_ok X (upd_apic i f S)"
proof (cases "i < length (local_apics S)")
  case True
  then show ?thesis using assms by (auto simp: apics_ok_def keeps_def apic_good_def nth_list_update)
qed (use assms in \<open>simp add: apics_ok_def list_update_beyond\<close>)

lemma apic_good_wf: "apic_good s \<Longrightarrow> apic_wf s"
  by (simp add: apic_good_def)

lemma keeps_request: "keeps (apic_request v t)"
  by (simp add: keeps_def apic_good_request apic_good_wf)

lemma keeps_interrupt [simp]: "keeps (cpu_interrupt m)"
  by (simp add: keeps_def) (simp add: apic_wf_def cpu_interrupt_def)

lemma apics_ok_count [simp]: "apics_ok X (S\<lparr>apic_irq_delivered := x\<rparr>) = apics_ok X S"
  by (simp add: apics_ok_def)

lemma apic_set_irq_ok [simp]: "apics_ok X S \<Longrightarrow> apics_ok X (apic_set_irq i v t S)"
  unfolding apic_set_irq_def by (rule upd_apic_ok) (simp_all add: keeps_request)

lemma apic_local_deliver_ok [simp]: "apics_ok X S \<Longrightarrow> apics_ok X (apic_local_deliver i v S)"
  by (simp add: apic_local_deliver_def Let_def upd_apic_ok)

lemma foreach_apic_ok:
  assumes "apics_ok X S" "\<And>i S. apics_ok X S \<Longrightarrow> apics_ok X (code i S)"
  shows "apics_ok X (foreach_apic m code S)"
proof -
  have "apics_ok X (fold (\<lambda>i S. if get_bit m i \<and> i < length (local_apics S) then code i S else S) xs S)" for xs
    using assms by (induction xs arbitrary: S) auto
  then show ?thesis by (simp only: foreach_apic_def)
qed

lemma apic_bus_deliver_ok [simp]: "apics_ok X S \<Longrightarrow> apics_ok X (apic_bus_deliver m dm v p t S)"
  by (simp add: apic_bus_deliver_def foreach_apic_ok upd_apic_ok split: option.split)

lemma apic_deliver_irq_ok [simp]: "apics_ok X S \<Longrightarrow> apics_ok X (apic_deliver_irq d l dm v p t S)"
  by (simp add: apic_deliver_irq_def)

text \<open>Raising the line of the 8259 controllers keeps the APICs in order; only lowering it may not.\<close>

lemma pic_irq_request_ok [simp]: "apics_ok X S \<Longrightarrow> apics_ok X (pic_irq_request True S)"
proof -
  have "apics_ok X (fold (\<lambda>i S. if apic_accept_pic_intr (local_apics S ! i) then apic_deliver_pic_intr i True S else S) xs S)"
    if "apics_ok X S" for xs using that by (induction xs arbitrary: S) (auto simp: apic_deliver_pic_intr_def)
  then show "apics_ok X S \<Longrightarrow> ?thesis" by (simp add: pic_irq_request_def)
qed

definition only_raises :: "PicState2 \<Rightarrow> PicState2 \<Rightarrow> bool" where
  "only_raises p q \<longleftrightarrow> (\<exists>k. parent_irq q = replicate k True @ parent_irq p)"

lemma only_raises_same: "parent_irq q = parent_irq p \<Longrightarrow> only_raises p q"
  unfolding only_raises_def by (rule exI [of _ 0]) simp

lemma only_raises_update: "parent_irq q = parent_irq p \<Longrightarrow> only_raises p (pic_update_irq q)"
  unfolding only_raises_def pic_update_irq_def
  by (rule exI [of _ "if parent_irq (pic_update_irq q) = parent_irq q then 0 else 1"])
    (simp add: pic_update_irq_def set_pic_def qemu_irq_raise_def Let_def split: option.split)

lemma parent_set_pic [simp]: "parent_irq (set_pic s i p) = parent_irq s"
  by (simp add: set_pic_def)

lemma only_raises_set_irq: "only_raises p (i8259_set_irq p n level)"
  unfolding i8259_set_irq_def by (rule only_raises_update) simp

lemma only_raises_read: "only_raises p (fst (pic_read_irq p))"
  unfolding pic_read_irq_def
  by (auto simp: Let_def split_beta split: option.split intro!: only_raises_update)

text \<open>The only write to a port of the 8259 controllers that lowers their output is the first initialization word.\<close>

definition pic_initializes :: "u32 \<Rightarrow> u8 \<Rightarrow> bool" where
  "pic_initializes port v \<longleftrightarrow> (port = 0x20 \<or> port = 0xa0) \<and> v AND 0x10 \<noteq> 0"

lemma only_raises_ocw2: "only_raises p (pic_write_ocw2 i v p)"
  unfolding pic_write_ocw2_def
  by (auto simp: Let_def intro!: only_raises_update intro: only_raises_same)

lemma only_raises_data: "only_raises p (pic_write_data i v p)"
  unfolding pic_write_data_def
  by (auto simp: Let_def intro!: only_raises_update intro: only_raises_same)

lemma command_bit4: "(ucast (v :: u8) :: u32) AND 0x10 = 0 \<longleftrightarrow> v AND 0x10 = 0"
  using masked_bit [of v 4] masked_bit [of "ucast v :: u32" 4] by (simp add: bit_ucast_iff)

lemma only_raises_outb:
  assumes "pic_outb port v p = Some q" "\<not> pic_initializes port v"
  shows "only_raises p q"
proof -
  have w: "only_raises p q" if "pic_ioport_write i port (ucast v) p = Some q" "port AND 1 = 0 \<longrightarrow> v AND 0x10 = 0" for i
    using that only_raises_ocw2 only_raises_data
    by (auto simp: pic_ioport_write_def command_bit4 only_raises_same split: if_splits)
  show ?thesis
    using assms w [of 0] w [of 1]
    by (auto simp: pic_outb_def pic_initializes_def elcr_ioport_write_def only_raises_same split: if_splits)
qed

lemma only_raises_inb: "only_raises p (fst (pic_inb port p))"
proof -
  have u: "only_raises p (set_pic (pic_update_irq q) i x)" "only_raises p (pic_update_irq q)"
    if "parent_irq q = parent_irq p" for q i x
    using only_raises_update [OF that] by (simp_all add: only_raises_def)
  have "only_raises p (fst (pic_ioport_read i a p))" for i a
    unfolding pic_ioport_read_def pic_poll_read_def
    by (auto simp: Let_def split_beta intro!: u intro: only_raises_same split: option.split)
  then show ?thesis by (simp add: pic_inb_def only_raises_same)
qed

lemma drive_pic_ok [simp]:
  assumes "apics_ok X (apics C)" "only_raises (isa_pic C) p"
  shows "apics_ok X (apics (drive_pic p C))"
proof -
  obtain k where k: "parent_irq p = replicate k True @ parent_irq (isa_pic C)" using assms(2) by (auto simp: only_raises_def)
  have "apics_ok X (fold pic_irq_request (replicate k True) S)" if "apics_ok X S" for S
    using that by (induction k arbitrary: S) simp_all
  then show ?thesis using assms(1) by (simp add: drive_pic_def k Let_def)
qed

lemma drive_pic_ioapic [simp]: "ioapic (drive_pic p C) = ioapic C"
  by (simp add: drive_pic_def Let_def)

section \<open>The invariant of the chip\<close>

definition chip_inv :: "nat set \<Rightarrow> Irqchip \<Rightarrow> bool" where
  "chip_inv X C \<longleftrightarrow> apics_ok X (apics C) \<and> length (ioredtbl (ioapic C)) = 24"

lemma ioapic_service_pin_inv [simp]:
  assumes "chip_inv X C"
  shows "chip_inv X (ioapic_service_pin i C)"
proof -
  have "apics_ok X (apics (drive_pic (fst (pic_read_irq (isa_pic D))) D))" if "apics_ok X (apics D)" for D
    using that by (simp add: only_raises_read)
  then show ?thesis
    using assms by (auto simp: chip_inv_def ioapic_service_pin_def Let_def split_beta)
qed

lemma ioapic_service_inv [simp]: "chip_inv X C \<Longrightarrow> chip_inv X (ioapic_service C)"
proof -
  have "chip_inv X (fold ioapic_service_pin xs C)" if "chip_inv X C" for xs
    using that by (induction xs arbitrary: C) auto
  then show "chip_inv X C \<Longrightarrow> ?thesis" by (simp only: ioapic_service_def)
qed

lemma chip_inv_ioapic [simp]:
  "chip_inv X C \<Longrightarrow> length (ioredtbl s) = 24 \<Longrightarrow> chip_inv X (C\<lparr>ioapic := s\<rparr>)"
  by (simp add: chip_inv_def)

lemma chip_inv_table [simp]: "chip_inv X C \<Longrightarrow> length (ioredtbl (ioapic C)) = 24"
  by (simp add: chip_inv_def)

lemma ioapic_set_irq_inv [simp]: "chip_inv X C \<Longrightarrow> chip_inv X (ioapic_set_irq v l C)"
  by (simp add: ioapic_set_irq_def Let_def)

lemma drive_pic_inv: "chip_inv X C \<Longrightarrow> only_raises (isa_pic C) p \<Longrightarrow> chip_inv X (drive_pic p C)"
  by (simp add: chip_inv_def)

lemma isa_irq_handler_inv: "chip_inv X C \<Longrightarrow> chip_inv X (isa_irq_handler n l C)"
  by (simp add: isa_irq_handler_def Let_def drive_pic_inv only_raises_set_irq)

lemma ioapic_eoi_broadcast_inv [simp]: "chip_inv X C \<Longrightarrow> chip_inv X (ioapic_eoi_broadcast v C)"
proof -
  have pin: "chip_inv X (ioapic_eoi_pin v n C)" if "chip_inv X C" for n C
    using that by (simp add: ioapic_eoi_pin_def Let_def)
  have "chip_inv X (fold (ioapic_eoi_pin v) xs C)" if "chip_inv X C" for xs
    using that pin by (induction xs arbitrary: C) auto
  then show "chip_inv X C \<Longrightarrow> ?thesis" by (simp only: ioapic_eoi_broadcast_def)
qed

lemma ioapic_mem_writel_inv: "chip_inv X C \<Longrightarrow> chip_inv X (ioapic_mem_writel a v C)"
  by (simp add: ioapic_mem_writel_def Let_def split: option.split)

end
