(* ===== verification/Apic_Mem.thy ===== *)
theory Apic_Mem
  imports Ioapic
begin

text \<open>
  The registers of the local APICs, second part of \<open>qemu/hw/apic.c\<close>, and the interrupt acknowledge of
  the processor, \<open>cpu_get_pic_interrupt\<close> of \<open>qemu/hw/pc.c\<close>. The end of interrupt reaches the I/O APIC,
  so the operations work on the whole \<open>Irqchip\<close>. An access is made by the processor whose index is given,
  as \<open>cpu_get_current_apic\<close> determines it (\<open>None\<close> outside any processor).
\<close>

unbundle bit_operations_syntax

definition upd_chip :: "nat \<Rightarrow> (APICState \<Rightarrow> APICState) \<Rightarrow> Irqchip \<Rightarrow> Irqchip" where
  "upd_chip i f C = C\<lparr>apics := upd_apic i f (apics C)\<rparr>"

abbreviation chip_apic :: "Irqchip \<Rightarrow> nat \<Rightarrow> APICState" where
  "chip_apic C i \<equiv> local_apics (apics C) ! i"

section \<open>End of interrupt and inter-processor interrupts\<close>

definition apic_eoi :: "nat \<Rightarrow> Irqchip \<Rightarrow> Irqchip" where
  "apic_eoi i C =
    (let s = chip_apic C i; isrv = get_highest_priority_int (lapic_isr s) in
     if isrv < 0 then C
     else
       (let C = upd_chip i (\<lambda>s. s\<lparr>lapic_isr := reset_bit (lapic_isr s) (nat isrv)\<rparr>) C;
            s = chip_apic C i;
            C = (if spurious_vec s AND 0x1000 = 0 \<and> get_bit (lapic_tmr s) (nat isrv)
                 then ioapic_eoi_broadcast isrv C else C)
        in upd_chip i apic_update_irq C))"

definition apic_deliver :: "nat \<Rightarrow> u8 \<Rightarrow> bool \<Rightarrow> u8 \<Rightarrow> nat \<Rightarrow> bool \<Rightarrow> bool \<Rightarrow> apic_sys \<Rightarrow> apic_sys" where
  "apic_deliver i dest logical delivery_mode vector_num polarity trigger_mode S =
    (let s = local_apics S ! i; icr0 = icr s ! 0; dest_shorthand = drop_bit 18 icr0 AND 3;
         deliver_bitmask =
           (if dest_shorthand = 0 then apic_get_delivery_bitmask S dest logical
            else if dest_shorthand = 1 then set_bit (replicate 8 0) (apic_idx s)
            else if dest_shorthand = 2 then replicate 8 0xffffffff
            else reset_bit (replicate 8 0xffffffff) (apic_idx s))
     in if delivery_mode = 5 \<and> drop_bit 14 icr0 AND 1 = 0 \<and> drop_bit 15 icr0 AND 1 = 1
        then foreach_apic deliver_bitmask (\<lambda>j. upd_apic j (\<lambda>s. s\<lparr>arb_id := apic_id s\<rparr>)) S
        else if delivery_mode = 6
        then foreach_apic deliver_bitmask (\<lambda>j. upd_apic j (apic_startup vector_num)) S
        else apic_bus_deliver deliver_bitmask delivery_mode vector_num polarity trigger_mode S)"

definition apic_send_msi :: "u64 \<Rightarrow> u32 \<Rightarrow> apic_sys \<Rightarrow> apic_sys" where
  "apic_send_msi addr data S =
    (let dest = ucast (drop_bit 12 (addr AND 0x00ffff0));
         vector = unat (data AND 0x000000ff);
         logical = (drop_bit 2 addr AND 0x1 \<noteq> 0);
         trigger_mode = (drop_bit 15 data AND 0x1 \<noteq> 0);
         delivery = ucast (drop_bit 8 data AND 0x7)
     in apic_deliver_irq dest logical delivery vector False trigger_mode S)"

section \<open>Registers\<close>

definition apic_reg :: "u64 \<Rightarrow> nat" where
  "apic_reg addr = unat (drop_bit 4 addr AND 0xff)"

definition apic_read_reg :: "int \<Rightarrow> nat \<Rightarrow> APICState \<Rightarrow> u32 option" where
  "apic_read_reg now index s =
    (if index = 0x02 then Some (push_bit 24 (ucast (apic_id s)))
     else if index = 0x03 then Some (0x11 OR push_bit 16 (6 - 1))
     else if index = 0x08 then Some (ucast (tpr s))
     else if index = 0x09 then Some (apic_get_arb_pri s)
     else if index = 0x0a then Some (word_of_int (apic_get_ppr s))
     else if index = 0x0b then Some 0
     else if index = 0x0d then Some (push_bit 24 (ucast (log_dest s)))
     else if index = 0x0e then Some (push_bit 28 (ucast (dest_mode s)))
     else if index = 0x0f then Some (spurious_vec s)
     else if 0x10 \<le> index \<and> index \<le> 0x17 then Some (lapic_isr s ! (index mod 8))
     else if 0x18 \<le> index \<and> index \<le> 0x1f then Some (lapic_tmr s ! (index mod 8))
     else if 0x20 \<le> index \<and> index \<le> 0x27 then Some (lapic_irr s ! (index mod 8))
     else if index = 0x28 then Some (esr s)
     else if index = 0x30 \<or> index = 0x31 then Some (icr s ! (index mod 2))
     else if 0x32 \<le> index \<and> index \<le> 0x37 then Some (lvt s ! (index - 0x32))
     else if index = 0x38 then Some (initial_count s)
     else if index = 0x39 then Some (apic_get_current_count now s)
     else if index = 0x3e then Some (divide_conf s)
     else None)"

definition apic_mem_readl :: "int \<Rightarrow> nat option \<Rightarrow> u64 \<Rightarrow> Irqchip \<Rightarrow> u32 \<times> Irqchip" where
  "apic_mem_readl now cpu addr C =
    (case cpu of
       None \<Rightarrow> (0, C)
     | Some i \<Rightarrow>
         (case apic_read_reg now (apic_reg addr) (chip_apic C i) of
            Some v \<Rightarrow> (v, C)
          | None \<Rightarrow> (0, upd_chip i (\<lambda>s. s\<lparr>esr := esr s OR 0x80\<rparr>) C)))"

definition apic_write_icr :: "nat \<Rightarrow> u32 \<Rightarrow> apic_sys \<Rightarrow> apic_sys" where
  "apic_write_icr i v S =
    (let S = upd_apic i (\<lambda>s. s\<lparr>icr := (icr s)[0 := v]\<rparr>) S; s = local_apics S ! i; icr0 = icr s ! 0; icr1 = icr s ! 1
     in apic_deliver i (ucast (drop_bit 24 icr1 AND 0xff)) (drop_bit 11 icr0 AND 1 \<noteq> 0) (ucast (drop_bit 8 icr0 AND 7))
          (unat (icr0 AND 0xff)) (drop_bit 14 icr0 AND 1 \<noteq> 0) (drop_bit 15 icr0 AND 1 \<noteq> 0) S)"

definition apic_write_reg :: "int \<Rightarrow> nat \<Rightarrow> u32 \<Rightarrow> APICState \<Rightarrow> APICState" where
  "apic_write_reg now index v s =
    (if index = 0x02 then s\<lparr>apic_id := ucast (drop_bit 24 v)\<rparr>
     else if index = 0x03 then s
     else if index = 0x08 then apic_update_irq (s\<lparr>tpr := ucast v\<rparr>)
     else if index = 0x09 \<or> index = 0x0a then s
     else if index = 0x0d then s\<lparr>log_dest := ucast (drop_bit 24 v)\<rparr>
     else if index = 0x0e then s\<lparr>dest_mode := ucast (drop_bit 28 v)\<rparr>
     else if index = 0x0f then apic_update_irq (s\<lparr>spurious_vec := v AND 0x1ff\<rparr>)
     else if 0x10 \<le> index \<and> index \<le> 0x28 then s
     else if index = 0x31 then s\<lparr>icr := (icr s)[1 := v]\<rparr>
     else if 0x32 \<le> index \<and> index \<le> 0x37
     then
       (let n = index - 0x32; s = s\<lparr>lvt := (lvt s)[n := v]\<rparr>
        in if n = 0 then apic_timer_update now s else s)
     else if index = 0x38
     then apic_timer_update now (s\<lparr>initial_count := v, initial_count_load_time := now\<rparr>)
     else if index = 0x39 then s
     else if index = 0x3e
     then
       (let s = s\<lparr>divide_conf := v AND 0xb\<rparr>;
            w = (divide_conf s AND 3) OR (drop_bit 1 (divide_conf s) AND 4)
        in s\<lparr>count_shift := unat ((w + 1) AND 7)\<rparr>)
     else s\<lparr>esr := esr s OR 0x80\<rparr>)"

definition apic_mem_writel :: "int \<Rightarrow> nat option \<Rightarrow> u64 \<Rightarrow> u32 \<Rightarrow> Irqchip \<Rightarrow> Irqchip" where
  "apic_mem_writel now cpu addr v C =
    (let index = apic_reg addr in
     if addr > 0xfff \<or> index = 0 then C\<lparr>apics := apic_send_msi addr v (apics C)\<rparr>
     else
       (case cpu of
          None \<Rightarrow> C
        | Some i \<Rightarrow>
            if index = 0x0b then apic_eoi i C
            else if index = 0x30 then C\<lparr>apics := apic_write_icr i v (apics C)\<rparr>
            else upd_chip i (apic_write_reg now index v) C))"

section \<open>The acknowledge of the processor\<close>

definition cpu_get_pic_interrupt :: "nat \<Rightarrow> Irqchip \<Rightarrow> int \<times> Irqchip" where
  "cpu_get_pic_interrupt i C =
    (let (intno, s) = apic_get_interrupt (chip_apic C i); C = upd_chip i (\<lambda>_. s) C in
     if intno \<ge> 0 then (intno, drive_pic (pic_update_irq (isa_pic C)) C)
     else if \<not> apic_accept_pic_intr (chip_apic C i) then (- 1, C)
     else (let (p, v) = pic_read_irq (isa_pic C) in (int v, drive_pic p C)))"

text \<open>How \<open>cpu_exec\<close> takes a hardware interrupt.\<close>

definition cpu_take :: "nat \<Rightarrow> Irqchip \<Rightarrow> int \<times> Irqchip" where
  "cpu_take i C = cpu_get_pic_interrupt i (upd_chip i (cpu_reset_interrupt CPU_INTERRUPT_HARD) C)"

section \<open>No pending interrupt goes unnoticed\<close>

lemma upd_chip_inv: "chip_inv X C \<Longrightarrow> keeps f \<Longrightarrow> chip_inv X (upd_chip i f C)"
  by (simp add: upd_chip_def chip_inv_def upd_apic_ok)

lemma upd_chip_ioapic [simp]: "ioapic (upd_chip i f C) = ioapic C" "isa_pic (upd_chip i f C) = isa_pic C"
  by (simp_all add: upd_chip_def)

lemma good_frame [simp]:
  "apic_good (s\<lparr>lvt := (lvt s)[n := a]\<rparr>) = apic_good s" "apic_good (s\<lparr>esr := a\<rparr>) = apic_good s"
  "apic_good (s\<lparr>icr := (icr s)[n := a]\<rparr>) = apic_good s" "apic_good (s\<lparr>apicbase := a\<rparr>) = apic_good s"
  "apic_good (s\<lparr>timer_at := t\<rparr>) = apic_good s" "apic_good (s\<lparr>next_time := x\<rparr>) = apic_good s"
  by (simp_all add: apic_good_def apic_signals_def apic_wf_def)

lemma pending_frame' [simp]:
  "apic_irq_pending (s\<lparr>apic_id := b\<rparr>) = apic_irq_pending s" "apic_irq_pending (s\<lparr>arb_id := b\<rparr>) = apic_irq_pending s"
  "apic_irq_pending (s\<lparr>log_dest := b\<rparr>) = apic_irq_pending s" "apic_irq_pending (s\<lparr>dest_mode := b\<rparr>) = apic_irq_pending s"
  "apic_irq_pending (s\<lparr>divide_conf := a\<rparr>) = apic_irq_pending s" "apic_irq_pending (s\<lparr>count_shift := k\<rparr>) = apic_irq_pending s"
  "apic_irq_pending (s\<lparr>initial_count := a\<rparr>) = apic_irq_pending s"
  "apic_irq_pending (s\<lparr>initial_count_load_time := x\<rparr>) = apic_irq_pending s"
  "apic_irq_pending (s\<lparr>sipi_vector := k\<rparr>) = apic_irq_pending s"
  "apic_irq_pending (s\<lparr>wait_for_sipi := d\<rparr>) = apic_irq_pending s"
  "apic_irq_pending (s\<lparr>env_started := ks\<rparr>) = apic_irq_pending s" "apic_irq_pending (s\<lparr>apic_idx := k\<rparr>) = apic_irq_pending s"
  "apic_irq_pending (s\<lparr>env_apic_feature := d\<rparr>) = apic_irq_pending s"
  by (rule pending_cong; simp)+

lemma good_frame' [simp]:
  "apic_good (s\<lparr>apic_id := b\<rparr>) = apic_good s" "apic_good (s\<lparr>arb_id := b\<rparr>) = apic_good s"
  "apic_good (s\<lparr>log_dest := b\<rparr>) = apic_good s" "apic_good (s\<lparr>dest_mode := b\<rparr>) = apic_good s"
  "apic_good (s\<lparr>divide_conf := a\<rparr>) = apic_good s" "apic_good (s\<lparr>count_shift := k\<rparr>) = apic_good s"
  "apic_good (s\<lparr>initial_count := a\<rparr>) = apic_good s" "apic_good (s\<lparr>initial_count_load_time := x\<rparr>) = apic_good s"
  "apic_good (s\<lparr>sipi_vector := k\<rparr>) = apic_good s" "apic_good (s\<lparr>wait_for_sipi := d\<rparr>) = apic_good s"
  "apic_good (s\<lparr>env_started := ks\<rparr>) = apic_good s" "apic_good (s\<lparr>apic_idx := k\<rparr>) = apic_good s" "apic_good (s\<lparr>env_apic_feature := d\<rparr>) = apic_good s"
  by (simp_all add: apic_good_def apic_signals_def apic_wf_def)

lemma wf_frame [simp]:
  "apic_wf (s\<lparr>tpr := b\<rparr>) = apic_wf s" "apic_wf (s\<lparr>spurious_vec := a\<rparr>) = apic_wf s"
  "apic_wf (s\<lparr>lapic_isr := reset_bit (lapic_isr s) n\<rparr>) = apic_wf s"
  by (simp_all add: apic_wf_def)

lemma wf_frame' [simp]:
  "apic_wf (s\<lparr>apic_id := b\<rparr>) = apic_wf s" "apic_wf (s\<lparr>arb_id := b\<rparr>) = apic_wf s"
  "apic_wf (s\<lparr>log_dest := b\<rparr>) = apic_wf s" "apic_wf (s\<lparr>dest_mode := b\<rparr>) = apic_wf s"
  "apic_wf (s\<lparr>divide_conf := a\<rparr>) = apic_wf s" "apic_wf (s\<lparr>count_shift := k\<rparr>) = apic_wf s"
  "apic_wf (s\<lparr>initial_count := a\<rparr>) = apic_wf s" "apic_wf (s\<lparr>initial_count_load_time := x\<rparr>) = apic_wf s"
  "apic_wf (s\<lparr>sipi_vector := k\<rparr>) = apic_wf s" "apic_wf (s\<lparr>wait_for_sipi := d\<rparr>) = apic_wf s"
  "apic_wf (s\<lparr>env_started := ks\<rparr>) = apic_wf s" "apic_wf (s\<lparr>env_apic_feature := d\<rparr>) = apic_wf s"
  "apic_wf (s\<lparr>lvt := (lvt s)[n := a]\<rparr>) = apic_wf s" "apic_wf (s\<lparr>esr := a\<rparr>) = apic_wf s"
  "apic_wf (s\<lparr>icr := (icr s)[n := a]\<rparr>) = apic_wf s" "apic_wf (s\<lparr>apicbase := a\<rparr>) = apic_wf s"
  "apic_wf (s\<lparr>timer_at := t\<rparr>) = apic_wf s" "apic_wf (s\<lparr>next_time := x\<rparr>) = apic_wf s"
  "apic_wf (cpu_interrupt m s) = apic_wf s" "apic_wf (cpu_reset_interrupt m s) = apic_wf s"
  by (simp_all add: apic_wf_def cpu_interrupt_def cpu_reset_interrupt_def)

lemma apic_timer_update_ok [simp]:
  "apic_wf s \<Longrightarrow> apic_wf (apic_timer_update t s)" "apic_good s \<Longrightarrow> apic_good (apic_timer_update t s)"
  by (simp_all add: apic_timer_update_def Let_def)

lemma apic_write_reg_wf: "apic_wf s \<Longrightarrow> apic_wf (apic_write_reg now n v s)"
  by (simp add: apic_write_reg_def Let_def)

lemma apic_write_reg_good: "apic_good s \<Longrightarrow> apic_good (apic_write_reg now n v s)"
  by (simp add: apic_write_reg_def Let_def apic_good_wf)

lemma keeps_write_reg: "keeps (apic_write_reg now n v)" and keeps_timer_update: "keeps (\<lambda>s. apic_timer_update (g s) s)"
  by (simp_all add: keeps_def apic_write_reg_wf apic_write_reg_good)

lemma keeps_startup: "keeps (apic_startup v)"
  by (simp add: keeps_def apic_startup_def)

lemma keeps_sipi: "keeps apic_sipi"
proof -
  have "apic_good s \<Longrightarrow> apic_good (cpu_reset_interrupt CPU_INTERRUPT_SIPI s)" for s
    by (simp add: cpu_reset_interrupt_def apic_good_def apic_signals_def apic_wf_def and.assoc)
  then show ?thesis by (simp add: keeps_def apic_sipi_def Let_def)
qed

lemma apic_init_reset_good: "apic_good (apic_init_reset s)"
proof -
  have "apic_irq_pending (apic_init_reset s) = 0"
    by (simp add: apic_irq_pending_def highest_vector) (simp add: apic_init_reset_def)
  then show ?thesis by (simp add: apic_good_def apic_signals_def) (simp add: apic_wf_def apic_init_reset_def)
qed

lemma apic_reset_good: "apic_good (apic_reset s)"
  by (simp add: apic_reset_def Let_def apic_init_reset_good)

lemma keeps_init_reset: "keeps apic_init_reset" and keeps_reset: "keeps apic_reset"
  by (simp_all add: keeps_def apic_init_reset_good apic_reset_good apic_good_wf)

lemma keeps_base: "keeps (cpu_set_apic_base v)"
  by (simp add: keeps_def cpu_set_apic_base_def Let_def) (simp add: apic_good_def apic_signals_def apic_wf_def and.assoc)

lemma keeps_tpr: "keeps (cpu_set_apic_tpr v)"
  by (simp add: keeps_def cpu_set_apic_tpr_def apic_good_wf)

text \<open>The end of interrupt: while the message to the I/O APIC is under way the APIC itself is the exception.\<close>

lemma chip_inv_except: "chip_inv {} C \<Longrightarrow> chip_inv X C"
  by (auto simp: chip_inv_def apics_ok_def)

lemma upd_chip_exception:
  assumes "chip_inv X C" "\<And>s. apic_wf s \<Longrightarrow> apic_wf (f s)"
  shows "chip_inv (insert i X) (upd_chip i f C)"
  using assms
  by (cases "i < length (local_apics (apics C))")
    (auto simp: chip_inv_def apics_ok_def upd_chip_def nth_list_update)

lemma upd_chip_settles:
  assumes "chip_inv {i} C" "\<And>s. apic_wf s \<Longrightarrow> apic_good (f s)"
  shows "chip_inv {} (upd_chip i f C)"
  using assms
  by (cases "i < length (local_apics (apics C))")
    (auto simp: chip_inv_def apics_ok_def upd_chip_def nth_list_update apic_good_def)

lemma apic_eoi_inv:
  assumes "chip_inv {} C"
  shows "chip_inv {} (apic_eoi i C)"
proof -
  have "chip_inv {i} (upd_chip i (\<lambda>s. s\<lparr>lapic_isr := reset_bit (lapic_isr s) n\<rparr>) C)" for n
    using assms by (rule upd_chip_exception) simp
  then show ?thesis
    using assms by (auto simp: apic_eoi_def Let_def intro!: upd_chip_settles)
qed

lemma apics_inv: "chip_inv X C \<Longrightarrow> apics_ok X S \<Longrightarrow> chip_inv X (C\<lparr>apics := S\<rparr>)"
  by (simp add: chip_inv_def)

lemma chip_inv_apics: "chip_inv X C \<Longrightarrow> apics_ok X (apics C)"
  by (simp add: chip_inv_def)

lemma apic_deliver_ok: "apics_ok X S \<Longrightarrow> apics_ok X (apic_deliver i d l dm v p t S)"
proof -
  have "keeps (\<lambda>s. s\<lparr>arb_id := apic_id s\<rparr>)" by (simp add: keeps_def)
  then show "apics_ok X S \<Longrightarrow> ?thesis"
    by (simp add: apic_deliver_def Let_def foreach_apic_ok upd_apic_ok keeps_startup)
qed

lemma apic_write_icr_ok: "apics_ok X S \<Longrightarrow> apics_ok X (apic_write_icr i v S)"
proof -
  have "keeps (\<lambda>s. s\<lparr>icr := (icr s)[0 := v]\<rparr>)" by (simp add: keeps_def)
  then show "apics_ok X S \<Longrightarrow> ?thesis" by (simp add: apic_write_icr_def Let_def apic_deliver_ok upd_apic_ok)
qed

lemma apic_mem_writel_inv: "chip_inv {} C \<Longrightarrow> chip_inv {} (apic_mem_writel now cpu a v C)"
  by (simp add: apic_mem_writel_def Let_def apic_send_msi_def apics_inv chip_inv_apics apic_eoi_inv
      apic_write_icr_ok upd_chip_inv keeps_write_reg split: option.split)

lemma apic_mem_readl_inv: "chip_inv {} C \<Longrightarrow> chip_inv {} (snd (apic_mem_readl now cpu a C))"
proof -
  have "keeps (\<lambda>s. s\<lparr>esr := esr s OR 0x80\<rparr>)" by (simp add: keeps_def)
  then show "chip_inv {} C \<Longrightarrow> ?thesis" by (simp add: apic_mem_readl_def upd_chip_inv split: option.split)
qed

lemma cpu_take_inv:
  assumes "chip_inv {} C"
  shows "chip_inv {} (snd (cpu_take i C))"
proof -
  let ?D = "upd_chip i (cpu_reset_interrupt CPU_INTERRUPT_HARD) C"
  let ?E = "upd_chip i (\<lambda>_. snd (apic_get_interrupt (chip_apic ?D i))) ?D"
  have "chip_inv {} ?E"
  proof (cases "i < length (local_apics (apics C))")
    case True
    then have "apic_good (snd (apic_get_interrupt (chip_apic ?D i)))"
      using assms by (simp add: upd_chip_def apic_take_good chip_inv_def apics_ok_def)
    moreover have "chip_inv {i} ?D" using assms by (rule upd_chip_exception) simp
    ultimately show ?thesis by (intro upd_chip_settles)
  qed (use assms in \<open>simp add: upd_chip_def chip_inv_def apics_ok_def list_update_beyond\<close>)
  then show ?thesis
    using only_raises_read [of "isa_pic C"] only_raises_update [of "isa_pic C" "isa_pic C"]
    by (simp add: cpu_take_def cpu_get_pic_interrupt_def Let_def split_beta drive_pic_inv)
qed

section \<open>The interrupt hardware as a device\<close>

datatype chip_event =
  Isa_irq nat bool
| Ioapic_pin int bool
| Ioapic_write u64 u32
| Apic_write int "nat option" u64 u32
| Apic_read int "nat option" u64
| Cpu_take nat
| Cpu_tpr nat u8
| Cpu_base nat u64
| Apic_timer nat
| Apic_sipi nat
| Apic_init nat
| Apic_reset nat
| Ioapic_reset
| Chip_pic_write u32 u8
| Chip_pic_read u32

fun chip_do :: "chip_event \<Rightarrow> Irqchip \<Rightarrow> Irqchip" where
  "chip_do (Isa_irq n level) C = isa_irq_handler n level C"
| "chip_do (Ioapic_pin n level) C = ioapic_set_irq n level C"
| "chip_do (Ioapic_write a v) C = ioapic_mem_writel a v C"
| "chip_do (Apic_write now cpu a v) C = apic_mem_writel now cpu a v C"
| "chip_do (Apic_read now cpu a) C = snd (apic_mem_readl now cpu a C)"
| "chip_do (Cpu_take i) C = snd (cpu_take i C)"
| "chip_do (Cpu_tpr i v) C = upd_chip i (cpu_set_apic_tpr v) C"
| "chip_do (Cpu_base i v) C = upd_chip i (cpu_set_apic_base v) C"
| "chip_do (Apic_timer i) C = C\<lparr>apics := apic_timer i (apics C)\<rparr>"
| "chip_do (Apic_sipi i) C = upd_chip i apic_sipi C"
| "chip_do (Apic_init i) C = upd_chip i apic_init_reset C"
| "chip_do (Apic_reset i) C = upd_chip i apic_reset C"
| "chip_do Ioapic_reset C = C\<lparr>ioapic := ioapic_reset (ioapic C)\<rparr>"
| "chip_do (Chip_pic_write port v) C = (case pic_outb port v (isa_pic C) of None \<Rightarrow> C | Some p \<Rightarrow> drive_pic p C)"
| "chip_do (Chip_pic_read port) C = drive_pic (fst (pic_inb port (isa_pic C))) C"

text \<open>Every event but the initialization of an 8259 controller, which lowers the output of the controllers.\<close>

fun chip_enabled :: "chip_event \<Rightarrow> bool" where
  "chip_enabled (Chip_pic_write port v) = (\<not> pic_initializes port v)"
| "chip_enabled _ = True"

text \<open>A machine of \<open>n\<close> processors after reset.\<close>

definition chip_start :: "nat \<Rightarrow> Irqchip" where
  "chip_start n =
    \<lparr>apics = \<lparr>local_apics = map (\<lambda>i. (apic_reset (apic_zero (of_nat i) (i = 0)))\<lparr>apic_idx := i\<rparr>) [0..<n],
             apic_irq_delivered = 0\<rparr>,
     ioapic = ioapic_reset \<lparr>ioapic_id = 0, ioregsel = 0, ioapic_irr = 0, ioredtbl = []\<rparr>,
     isa_pic = i8259_init\<rparr>"

definition chip_init :: "Irqchip \<Rightarrow> bool" where
  "chip_init C \<longleftrightarrow> (\<exists>n \<le> 255. C = chip_start n)"

definition chip_step :: "Irqchip \<Rightarrow> Irqchip \<Rightarrow> bool" where
  "chip_step C D \<longleftrightarrow> (\<exists>e. chip_enabled e \<and> D = chip_do e C)"

lemma ioapic_reset_length [simp]: "length (ioredtbl (ioapic_reset s)) = 24"
  by (simp add: ioapic_reset_def)

lemma apics_ok_good: "apics_ok {} S \<longleftrightarrow> length (local_apics S) \<le> 255 \<and> (\<forall>s \<in> set (local_apics S). apic_good s)"
  by (auto simp: apics_ok_def apic_good_def set_conv_nth)

lemma chip_do_inv:
  assumes "chip_inv {} C" "chip_enabled e"
  shows "chip_inv {} (chip_do e C)"
  using assms only_raises_outb
  by (cases e) (simp_all add: isa_irq_handler_inv ioapic_mem_writel_inv apic_mem_writel_inv apic_mem_readl_inv cpu_take_inv
      upd_chip_inv keeps_tpr keeps_base keeps_sipi keeps_init_reset keeps_reset apics_inv chip_inv_apics apic_timer_def
      Let_def upd_apic_ok keeps_timer_update drive_pic_inv only_raises_inb split: option.split)

interpretation chip: device chip_init chip_step "chip_inv {}"
proof
  show "chip_inv {} C" if "chip_init C" for C
    using that by (auto simp: chip_init_def chip_start_def chip_inv_def apics_ok_good apic_reset_good)
  show "chip_inv {} D" if "chip_step C D" "chip_inv {} C" for C D
    using that chip_do_inv by (auto simp: chip_step_def)
qed

end
