(* ===== verification/Irq_Delivery.thy ===== *)
theory Irq_Delivery
  imports Apic_Mem
begin

text \<open>
  Interrupts from a pin of the I/O APIC to a processor and back: delivery to exactly the addressed local
  APICs, acceptance in the order of priority, the end of interrupt, and the level-triggered cycle, on the
  composition of the models of \<open>hw/ioapic.c\<close>, \<open>hw/apic.c\<close>, \<open>hw/i8259.c\<close> and \<open>hw/pc.c\<close>.
\<close>

unbundle bit_operations_syntax

section \<open>Acceptance\<close>

lemma blocked_mono: "blocked s n \<Longrightarrow> m \<le> n \<Longrightarrow> blocked s m"
  unfolding blocked_def by (meson div_le_mono order_trans)

text \<open>The vectors below 16 are reserved: none of them is of a class above the task priority.\<close>

lemma unblocked_ge: "\<not> blocked s n \<Longrightarrow> 16 \<le> n"
  by (auto simp: blocked_def)

lemma pending_positive:
  assumes "v \<in> vectors (lapic_irr s)" "\<not> blocked s v"
  shows "0 < apic_irq_pending s"
proof -
  have ge: "16 \<le> v" using assms(2) by (rule unblocked_ge)
  let ?n = "Max (vectors (lapic_irr s))"
  have "v \<le> ?n" "vectors (lapic_irr s) \<noteq> {}" using assms(1) by auto
  moreover from this have "\<not> blocked s ?n" using assms(2) blocked_mono by blast
  ultimately show ?thesis using apic_irq_pending_spec [of s] ge by simp
qed

abbreviation chip_reachable :: "Irqchip \<Rightarrow> bool" where
  "chip_reachable \<equiv> reach chip_init chip_step"

lemma chip_reachable_good: "chip_reachable C \<Longrightarrow> i < length (local_apics (apics C)) \<Longrightarrow> apic_good (chip_apic C i)"
  using chip.reachable_inv by (simp add: chip_inv_def apics_ok_def apic_good_def)

text \<open>C8: In every state of the interrupt hardware reached by line changes, accesses to the
  registers of the I/O APIC, the local APICs and the 8259 controllers, messages, timers, resets
  and acknowledges, an enabled local APIC with an unblocked request has its processor's
  interrupt request set. The one access left out is the first initialization word of an 8259
  controller, the only one that lowers the output of the controllers, which can hide a request.\<close>

theorem apic_never_loses_interrupt:
  assumes "chip_reachable C" "i < length (local_apics (apics C))" "spurious_vec (chip_apic C i) AND 0x100 \<noteq> 0"
    and "v \<in> vectors (lapic_irr (chip_apic C i))" "\<not> blocked (chip_apic C i) v"
  shows "interrupt_request (chip_apic C i) AND 0x02 \<noteq> 0"
  using chip_reachable_good [OF assms(1,2)] pending_positive [OF assms(4,5)] assms(3)
  by (simp add: apic_good_def apic_signals_def)

text \<open>The highest vector requested.\<close>

definition top_vector :: "APICState \<Rightarrow> nat \<Rightarrow> bool" where
  "top_vector s n \<longleftrightarrow> n \<in> vectors (lapic_irr s) \<and> (\<forall>m \<in> vectors (lapic_irr s). m \<le> n)"

lemma top_vector_Max: "top_vector s n \<Longrightarrow> vectors (lapic_irr s) \<noteq> {} \<and> Max (vectors (lapic_irr s)) = n"
  by (auto simp: top_vector_def intro: Max_eqI)

lemma top_vector_pending:
  "top_vector s n \<Longrightarrow> 16 \<le> n \<Longrightarrow> apic_irq_pending s = (if blocked s n then - 1 else int n)"
  using apic_irq_pending_spec [of s] top_vector_Max [of s n] by auto

lemma reserved_pending:
  assumes "top_vector s n" "n < 16"
  shows "apic_irq_pending s = (if tpr s = 0 \<and> (\<forall>k \<in> vectors (lapic_isr s). k < 16) then int n else - 1)"
proof -
  obtain p where p: "apic_get_ppr s = int p" "p < 256" "p div 16 = max (unat (tpr s) div 16) (isr_class s)"
    by (rule ppr_class)
  have "int n AND 0xf0 \<le> int p AND 0xf0" using and_f0 [of n] and_f0 [OF p(2)] assms(2) by simp
  moreover have "isr_class s = 0 \<longleftrightarrow> (\<forall>k \<in> vectors (lapic_isr s). k < 16)"
    using isr_class_le [of 1 s] by (auto simp: not_less_eq_eq Suc_le_eq div_greater_zero_iff)
  moreover have "p = 0 \<longleftrightarrow> tpr s = 0 \<and> isr_class s = 0"
    using p(1) apic_get_ppr_class [of s] by (auto simp: uint_0_iff split: if_splits)
  ultimately show ?thesis
    using p(1) top_vector_Max [OF assms(1)] by (simp add: apic_irq_pending_def highest_vector Let_def)
qed

lemma get_interrupt_pending:
  assumes "spurious_vec s AND 0x100 \<noteq> 0" "apic_irq_pending s = int n" "0 < n"
  shows "fst (apic_get_interrupt s) = int n" "lapic_irr (snd (apic_get_interrupt s)) = reset_bit (lapic_irr s) n"
    "lapic_isr (snd (apic_get_interrupt s)) = set_bit (lapic_isr s) n"
    "lapic_tmr (snd (apic_get_interrupt s)) = lapic_tmr s" "tpr (snd (apic_get_interrupt s)) = tpr s"
    "spurious_vec (snd (apic_get_interrupt s)) = spurious_vec s"
  using assms by (simp_all add: apic_get_interrupt_def Let_def)

lemma get_interrupt_unblocked:
  assumes "spurious_vec s AND 0x100 \<noteq> 0" "top_vector s n" "\<not> blocked s n"
  shows "fst (apic_get_interrupt s) = int n" "lapic_irr (snd (apic_get_interrupt s)) = reset_bit (lapic_irr s) n"
    "lapic_isr (snd (apic_get_interrupt s)) = set_bit (lapic_isr s) n"
    "lapic_tmr (snd (apic_get_interrupt s)) = lapic_tmr s" "tpr (snd (apic_get_interrupt s)) = tpr s"
    "spurious_vec (snd (apic_get_interrupt s)) = spurious_vec s"
  using get_interrupt_pending [OF assms(1), of n] top_vector_pending [OF assms(2)] unblocked_ge [OF assms(3)] assms(3)
  by simp_all

text \<open>A vector is accepted above the priority; a reserved vector other than 0 when there is no priority at all.\<close>

definition accepted :: "APICState \<Rightarrow> nat \<Rightarrow> bool" where
  "accepted s n \<longleftrightarrow>
    \<not> blocked s n \<or> 0 < n \<and> n < 16 \<and> tpr s = 0 \<and> (\<forall>k \<in> vectors (lapic_isr s). k < 16)"

text \<open>C11: The acknowledge of a local APIC on the sets of requested and serviced vectors. Disabled
  or without a request it returns -1. Otherwise the highest requested vector moves into service
  if its class exceeds the task priority and every vector in service, or if it is a reserved
  vector (1 to 15) and there is no priority at all; if not, the spurious vector is returned
  without a change, and -1 for vector 0 without a priority.\<close>

theorem apic_accepts_highest:
  assumes "apic_wf s"
  defines "V \<equiv> vectors (lapic_irr s)" and "r \<equiv> apic_get_interrupt s"
  shows "if spurious_vec s AND 0x100 = 0 \<or> V = {} then r = (- 1, s)
    else if accepted s (Max V) then fst r = int (Max V) \<and>
      vectors (lapic_irr (snd r)) = V - {Max V} \<and>
      vectors (lapic_isr (snd r)) = insert (Max V) (vectors (lapic_isr s))
    else r = (if Max V = 0 \<and> tpr s = 0 \<and> (\<forall>k \<in> vectors (lapic_isr s). k < 16) then - 1
      else uint (spurious_vec s AND 0xff), s)"
proof (cases "spurious_vec s AND 0x100 = 0 \<or> V = {}")
  case True
  then show ?thesis
    by (auto simp: r_def apic_get_interrupt_def apic_irq_pending_def highest_vector V_def)
next
  case False
  define n where "n = Max V"
  have n: "n \<in> V" using False Max_in [of V] by (auto simp: V_def n_def)
  then have top: "top_vector s n" by (simp add: top_vector_def V_def n_def)
  have small: "n < 256" using n vectors_less by (auto simp: V_def)
  show ?thesis
  proof (cases "accepted s n")
    case True
    then have "apic_irq_pending s = int n" "0 < n"
      using top_vector_pending [OF top] reserved_pending [OF top] unblocked_ge [of s n]
      by (auto simp: accepted_def)
    then show ?thesis
      using get_interrupt_pending [of s n] False True assms(1) small
      unfolding n_def [symmetric] by (simp add: r_def V_def apic_wf_def)
  next
    case no: False
    then have "apic_irq_pending s =
        (if n = 0 \<and> tpr s = 0 \<and> (\<forall>k \<in> vectors (lapic_isr s). k < 16) then 0 else - 1)"
      using top_vector_pending [OF top] reserved_pending [OF top] unblocked_ge [of s n]
      by (cases "n < 16") (auto simp: accepted_def)
    then show ?thesis
      using False no unfolding n_def [symmetric] by (simp add: r_def apic_get_interrupt_def)
  qed
qed

section \<open>What deliveries leave alone\<close>

text \<open>The vectors in service, the task priority and the enable flag of every APIC.\<close>

definition apic_view :: "APICState \<Rightarrow> u32 list \<times> u8 \<times> u32" where
  "apic_view s = (lapic_isr s, tpr s, spurious_vec s)"

definition apic_views :: "apic_sys \<Rightarrow> (u32 list \<times> u8 \<times> u32) list" where
  "apic_views S = map apic_view (local_apics S)"

lemma views_upd: "(\<And>s. apic_view (f s) = apic_view s) \<Longrightarrow> apic_views (upd_apic i f S) = apic_views S"
  by (cases "i < length (local_apics S)") (simp_all add: apic_views_def map_update list_update_beyond list_update_same_conv)

lemma view_request [simp]: "apic_view (apic_request v t s) = apic_view s"
  by (simp add: apic_view_def apic_request_def Let_def)

lemma view_interrupt [simp]: "apic_view (cpu_interrupt m s) = apic_view s"
  by (simp add: apic_view_def cpu_interrupt_def)

lemma views_set_irq [simp]: "apic_views (apic_set_irq i v t S) = apic_views S"
  using views_upd [of "apic_request v t" i "S\<lparr>apic_irq_delivered := x\<rparr>" for x]
  by (simp add: apic_set_irq_def) (simp add: apic_views_def)

lemma views_foreach: "(\<And>i S. apic_views (code i S) = apic_views S) \<Longrightarrow> apic_views (foreach_apic m code S) = apic_views S"
proof -
  assume c: "\<And>i S. apic_views (code i S) = apic_views S"
  have "apic_views (fold (\<lambda>i S. if get_bit m i \<and> i < length (local_apics S) then code i S else S) xs S) = apic_views S" for xs
    by (induction xs arbitrary: S) (simp_all add: c)
  then show ?thesis by (simp only: foreach_apic_def)
qed

lemma views_deliver [simp]: "apic_views (apic_deliver_irq d l dm v p t S) = apic_views S"
  by (simp add: apic_deliver_irq_def apic_bus_deliver_def views_foreach views_upd split: option.split)

lemma views_local_deliver [simp]: "apic_views (apic_local_deliver i v S) = apic_views S"
  by (simp add: apic_local_deliver_def Let_def views_upd)

lemma views_pic_request [simp]: "apic_views (pic_irq_request True S) = apic_views S"
proof -
  have "apic_views (fold (\<lambda>i S. if apic_accept_pic_intr (local_apics S ! i) then apic_deliver_pic_intr i True S else S) xs S) = apic_views S" for xs
    by (induction xs arbitrary: S) (simp_all add: apic_deliver_pic_intr_def)
  then show ?thesis by (simp add: pic_irq_request_def)
qed

lemma views_drive [simp]:
  assumes "only_raises (isa_pic C) p"
  shows "apic_views (apics (drive_pic p C)) = apic_views (apics C)"
proof -
  obtain k where k: "parent_irq p = replicate k True @ parent_irq (isa_pic C)" using assms by (auto simp: only_raises_def)
  have "apic_views (fold pic_irq_request (replicate k True) S) = apic_views S" for S
    by (induction k arbitrary: S) simp_all
  then show ?thesis by (simp add: drive_pic_def k Let_def)
qed

lemma views_service_pin [simp]: "apic_views (apics (ioapic_service_pin i C)) = apic_views (apics C)"
  by (simp add: ioapic_service_pin_def Let_def split_beta only_raises_read)

lemma views_service [simp]: "apic_views (apics (ioapic_service C)) = apic_views (apics C)"
proof -
  have "apic_views (apics (fold ioapic_service_pin xs C)) = apic_views (apics C)" for xs
    by (induction xs arbitrary: C) simp_all
  then show ?thesis by (simp only: ioapic_service_def)
qed

lemma views_eoi_broadcast [simp]: "apic_views (apics (ioapic_eoi_broadcast v C)) = apic_views (apics C)"
proof -
  have "apic_views (apics (ioapic_eoi_pin v n C)) = apic_views (apics C)" for n C
    by (simp add: ioapic_eoi_pin_def Let_def)
  then have "apic_views (apics (fold (ioapic_eoi_pin v) xs C)) = apic_views (apics C)" for xs
    by (induction xs arbitrary: C) simp_all
  then show ?thesis by (simp only: ioapic_eoi_broadcast_def)
qed

lemma views_nth:
  assumes "apic_views S = apic_views T" "i < length (local_apics S)"
  shows "lapic_isr (local_apics S ! i) = lapic_isr (local_apics T ! i)" "tpr (local_apics S ! i) = tpr (local_apics T ! i)"
    "spurious_vec (local_apics S ! i) = spurious_vec (local_apics T ! i)" "length (local_apics S) = length (local_apics T)"
proof -
  have l: "length (local_apics S) = length (local_apics T)" using assms(1) unfolding apic_views_def by (metis length_map)
  then have "apic_view (local_apics S ! i) = apic_view (local_apics T ! i)"
    using assms unfolding apic_views_def by (metis nth_map)
  with l show "lapic_isr (local_apics S ! i) = lapic_isr (local_apics T ! i)" "tpr (local_apics S ! i) = tpr (local_apics T ! i)"
    "spurious_vec (local_apics S ! i) = spurious_vec (local_apics T ! i)" "length (local_apics S) = length (local_apics T)"
    by (simp_all add: apic_view_def)
qed

section \<open>End of interrupt\<close>

lemma take_unblocked:
  assumes "i < length (local_apics (apics C))" "spurious_vec (chip_apic C i) AND 0x100 \<noteq> 0"
    and "top_vector (chip_apic C i) n" "\<not> blocked (chip_apic C i) n"
  defines "s \<equiv> snd (apic_get_interrupt (cpu_reset_interrupt 0x02 (chip_apic C i)))"
  shows "fst (cpu_take i C) = int n"
    "snd (cpu_take i C) = drive_pic (pic_update_irq (isa_pic C)) (upd_chip i (\<lambda>_. s) C)"
    "lapic_irr s = reset_bit (lapic_irr (chip_apic C i)) n" "lapic_isr s = set_bit (lapic_isr (chip_apic C i)) n"
    "lapic_tmr s = lapic_tmr (chip_apic C i)" "tpr s = tpr (chip_apic C i)" "spurious_vec s = spurious_vec (chip_apic C i)"
proof -
  let ?s = "cpu_reset_interrupt 0x02 (chip_apic C i)"
  have "spurious_vec ?s AND 0x100 \<noteq> 0" "top_vector ?s n" "\<not> blocked ?s n"
    using assms(2-4) by (simp_all add: cpu_reset_interrupt_def top_vector_def blocked_def)
  note g = get_interrupt_unblocked [OF this]
  show "lapic_irr s = reset_bit (lapic_irr (chip_apic C i)) n" "lapic_isr s = set_bit (lapic_isr (chip_apic C i)) n"
    "lapic_tmr s = lapic_tmr (chip_apic C i)" "tpr s = tpr (chip_apic C i)" "spurious_vec s = spurious_vec (chip_apic C i)"
    unfolding s_def g by (simp_all add: cpu_reset_interrupt_def)
  have "upd_chip i (\<lambda>_. s) (upd_chip i (cpu_reset_interrupt 0x02) C) = upd_chip i (\<lambda>_. s) C"
    by (simp add: upd_chip_def upd_apic_def)
  moreover have "chip_apic (upd_chip i (cpu_reset_interrupt 0x02) C) i = ?s" using assms(1) by (simp add: upd_chip_def)
  ultimately show "fst (cpu_take i C) = int n"
    "snd (cpu_take i C) = drive_pic (pic_update_irq (isa_pic C)) (upd_chip i (\<lambda>_. s) C)"
    using g(1) by (simp_all add: cpu_take_def cpu_get_pic_interrupt_def Let_def split_beta s_def)
qed

lemma unblocked_above: "\<not> blocked s n \<Longrightarrow> k \<in> vectors (lapic_isr s) \<Longrightarrow> k < n"
  unfolding blocked_def by (meson div_le_mono linorder_not_less)

lemma eoi_isr:
  assumes "i < length (local_apics (apics C))" "apic_wf (chip_apic C i)"
    and "n \<in> vectors (lapic_isr (chip_apic C i))" "\<And>k. k \<in> vectors (lapic_isr (chip_apic C i)) \<Longrightarrow> k \<le> n"
  shows "vectors (lapic_isr (chip_apic (apic_eoi i C) i)) = vectors (lapic_isr (chip_apic C i)) - {n}"
proof -
  let ?s = "chip_apic C i"
  have h: "get_highest_priority_int (lapic_isr ?s) = int n"
    using assms(3,4) by (auto simp: highest_vector intro: Max_eqI)
  let ?D = "upd_chip i (\<lambda>s. s\<lparr>lapic_isr := reset_bit (lapic_isr s) n\<rparr>) C"
  let ?E = "if spurious_vec (chip_apic ?D i) AND 0x1000 = 0 \<and> get_bit (lapic_tmr (chip_apic ?D i)) n
    then ioapic_eoi_broadcast (int n) ?D else ?D"
  have e: "apic_eoi i C = upd_chip i apic_update_irq ?E"
    by (simp add: apic_eoi_def h Let_def)
  have v: "apic_views (apics ?E) = apic_views (apics ?D)" by simp
  have i: "i < length (local_apics (apics ?D))" using assms(1) by (simp add: upd_chip_def)
  have "lapic_isr (chip_apic ?E i) = lapic_isr (chip_apic ?D i)" "i < length (local_apics (apics ?E))"
    using views_nth(1,4) [OF v [symmetric] i] i by simp_all
  moreover have "lapic_isr (chip_apic ?D i) = reset_bit (lapic_isr ?s) n" using assms(1) by (simp add: upd_chip_def)
  moreover have "n < 256" using assms(3) by (rule vectors_less)
  ultimately show ?thesis using assms(2) unfolding e by (simp add: upd_chip_def [of i apic_update_irq] apic_wf_def)
qed

text \<open>C36: The unblocked vector a processor with an enabled APIC takes is in service until its end
  of interrupt, which takes exactly that vector out of service again.\<close>

theorem apic_eoi_retires:
  assumes "chip_reachable C" "i < length (local_apics (apics C))" "spurious_vec (chip_apic C i) AND 0x100 \<noteq> 0"
    and "top_vector (chip_apic C i) n" "\<not> blocked (chip_apic C i) n"
  shows "fst (cpu_take i C) = int n \<and>
    n \<in> vectors (lapic_isr (chip_apic (snd (cpu_take i C)) i)) \<and>
    vectors (lapic_isr (chip_apic (apic_eoi i (snd (cpu_take i C))) i)) = vectors (lapic_isr (chip_apic C i))"
proof -
  let ?D = "snd (cpu_take i C)"
  define s where "s = snd (apic_get_interrupt (cpu_reset_interrupt 0x02 (chip_apic C i)))"
  note t = take_unblocked [OF assms(2-5), folded s_def]
  have n: "n < 256" using assms(4) vectors_less by (auto simp: top_vector_def)
  have wf: "apic_wf (chip_apic C i)" using chip_reachable_good [OF assms(1,2)] by (simp add: apic_good_def)
  have v: "apic_views (apics ?D) = apic_views (apics (upd_chip i (\<lambda>_. s) C))"
    unfolding t(2) by (rule views_drive) (simp add: only_raises_update)
  have i: "i < length (local_apics (apics (upd_chip i (\<lambda>_. s) C)))" using assms(2) by (simp add: upd_chip_def)
  have isr: "lapic_isr (chip_apic ?D i) = set_bit (lapic_isr (chip_apic C i)) n" "i < length (local_apics (apics ?D))"
    using views_nth(1,4) [OF v [symmetric] i] i assms(2) t(4) by (simp_all add: upd_chip_def)
  then have vs: "vectors (lapic_isr (chip_apic ?D i)) = insert n (vectors (lapic_isr (chip_apic C i)))"
    using n wf by (simp add: apic_wf_def)
  have "chip_inv {} ?D" using cpu_take_inv [OF chip.reachable_inv [OF assms(1)]] .
  then have "apic_wf (chip_apic ?D i)" using isr(2) by (simp add: chip_inv_def apics_ok_def)
  moreover have "k \<le> n" if "k \<in> vectors (lapic_isr (chip_apic ?D i))" for k
    using that unblocked_above [OF assms(5)] by (auto simp: vs less_imp_le)
  ultimately have "vectors (lapic_isr (chip_apic (apic_eoi i ?D) i)) = vectors (lapic_isr (chip_apic ?D i)) - {n}"
    using eoi_isr [OF isr(2), of n] by (auto simp: vs)
  moreover have "n \<notin> vectors (lapic_isr (chip_apic C i))" using unblocked_above [OF assms(5)] by blast
  ultimately show ?thesis using t(1) by (auto simp: vs)
qed

section \<open>A machine with one processor\<close>

text \<open>Its APIC enabled and interrupt 0x41 requested by a message.\<close>

definition chip_run :: "chip_event list \<Rightarrow> Irqchip" where
  "chip_run es = fold chip_do es (chip_start 1)"

lemma chip_do_reachable:
  "chip_reachable C \<Longrightarrow> list_all chip_enabled es \<Longrightarrow> chip_reachable (fold chip_do es C)"
proof (induction es arbitrary: C)
  case (Cons e es)
  have "chip_step C (chip_do e C)" using Cons.prems(2) by (auto simp: chip_step_def)
  with Cons.prems(1) have "chip_reachable (chip_do e C)" by (rule reach_step)
  with Cons show ?case by simp
qed simp

lemma chip_run_reachable: "list_all chip_enabled es \<Longrightarrow> chip_reachable (chip_run es)"
proof -
  have "chip_reachable (chip_start 1)" by (rule reach_init) (auto simp: chip_init_def intro!: exI [of _ 1])
  then show "list_all chip_enabled es \<Longrightarrow> ?thesis" unfolding chip_run_def by (rule chip_do_reachable)
qed

lemma top_vector_code:
  assumes "get_highest_priority_int (lapic_irr s) = int n"
  shows "top_vector s n"
proof -
  have "vectors (lapic_irr s) \<noteq> {}" "Max (vectors (lapic_irr s)) = n"
    using assms by (auto simp: highest_vector split: if_splits)
  then show ?thesis
    using Max_in [OF vectors_finite, of "lapic_irr s"] Max_ge [OF vectors_finite, of _ "lapic_irr s"]
    by (auto simp: top_vector_def)
qed

lemma blocked_code: "get_highest_priority_int (lapic_isr s) = - 1 \<Longrightarrow> tpr s = 0 \<Longrightarrow> 16 \<le> n \<Longrightarrow> \<not> blocked s n"
  by (auto simp: highest_vector blocked_def split: if_splits)

definition chip_msi :: Irqchip where
  "chip_msi = chip_run [Apic_write 0 (Some 0) 0xf0 0x1ff, Apic_write 0 None 0 0x41]"

definition apic_enabled :: APICState where
  "apic_enabled = apic_write_reg 0 0x0f 0x1ff ((apic_reset (apic_zero 0 True))\<lparr>apic_idx := 0\<rparr>)"

lemma chip_enabled: "apics (chip_run [Apic_write 0 (Some 0) 0xf0 0x1ff]) = \<lparr>local_apics = [apic_enabled], apic_irq_delivered = 0\<rparr>"
proof -
  have "apic_reg 0xf0 = 0x0f" by code_simp
  then show ?thesis
    by (simp add: chip_run_def apic_mem_writel_def upd_chip_def upd_apic_def chip_start_def apic_enabled_def)
qed

lemma chip_msi_apics: "local_apics (apics chip_msi) = [apic_request 0x41 False apic_enabled]"
proof -
  let ?S = "\<lparr>local_apics = [apic_enabled], apic_irq_delivered = 0\<rparr>"
  have "apics chip_msi = apic_send_msi 0 0x41 (apics (chip_run [Apic_write 0 (Some 0) 0xf0 0x1ff]))"
    by (simp add: chip_msi_def chip_run_def apic_mem_writel_def [of _ None 0] apic_reg_def)
  also have "\<dots> = apic_deliver_irq 0 False 0 0x41 False False ?S"
    unfolding chip_enabled by (simp add: apic_send_msi_def)
  finally have "apics chip_msi = apic_deliver_irq 0 False 0 0x41 False False ?S" .
  moreover have "apic_id apic_enabled = 0" by code_simp
  ultimately show ?thesis by (simp add: apic_deliver_fixed unique_ids_def addressed_def)
qed

lemma chip_msi_state:
  "length (local_apics (apics chip_msi)) = 1" "spurious_vec (chip_apic chip_msi 0) AND 0x100 \<noteq> 0"
  "get_highest_priority_int (lapic_irr (chip_apic chip_msi 0)) = 0x41"
  "get_highest_priority_int (lapic_isr (chip_apic chip_msi 0)) = - 1" "tpr (chip_apic chip_msi 0) = 0"
  unfolding chip_msi_apics by code_simp+

lemma chip_msi_top: "top_vector (chip_apic chip_msi 0) 0x41" "\<not> blocked (chip_apic chip_msi 0) 0x41"
  using chip_msi_state by (simp_all add: top_vector_code blocked_code)

theorem apic_never_loses_interrupt_witness: "interrupt_request (chip_apic chip_msi 0) AND 0x02 \<noteq> 0"
  using apic_never_loses_interrupt [of chip_msi 0 "0x41"] chip_msi_state chip_msi_top
    chip_run_reachable [of "[Apic_write 0 (Some 0) 0xf0 0x1ff, Apic_write 0 None 0 0x41]"]
  by (simp add: top_vector_def flip: chip_msi_def)

theorem apic_accepts_highest_witness:
  "apic_wf (chip_apic chip_msi 0) \<and> fst (apic_get_interrupt (chip_apic chip_msi 0)) = 0x41"
proof -
  have "apic_wf (chip_apic chip_msi 0)" unfolding chip_msi_apics by code_simp
  then show ?thesis
    using apic_accepts_highest [of "chip_apic chip_msi 0"] chip_msi_state(2) top_vector_Max [OF chip_msi_top(1)] chip_msi_top(2)
    by (simp add: accepted_def)
qed

theorem apic_eoi_retires_witness:
  "fst (cpu_take 0 chip_msi) = 0x41 \<and>
   vectors (lapic_isr (chip_apic (apic_eoi 0 (snd (cpu_take 0 chip_msi))) 0)) = {}"
proof -
  have "vectors (lapic_isr (chip_apic chip_msi 0)) = {}"
    using chip_msi_state(4) by (simp add: highest_vector split: if_splits)
  then show ?thesis
    using apic_eoi_retires [of chip_msi 0 "0x41"] chip_msi_state chip_msi_top
      chip_run_reachable [of "[Apic_write 0 (Some 0) 0xf0 0x1ff, Apic_write 0 None 0 0x41]"]
    by (simp flip: chip_msi_def)
qed

section \<open>From a pin to the processors\<close>

text \<open>A pin waits when it is raised and not masked. A service with a single waiting pin serves that pin.\<close>

definition waiting :: "IOAPICState \<Rightarrow> nat \<Rightarrow> bool" where
  "waiting s i \<longleftrightarrow> bit (ioapic_irr s) i \<and> \<not> bit (ioredtbl s ! i) 16"

lemma mask_bits: "(e :: u64) AND 0x10000 = 0 \<longleftrightarrow> \<not> bit e 16" "e AND 0x4000 = 0 \<longleftrightarrow> \<not> bit e 14"
  using masked_bit [of e 16] masked_bit [of e 14] by simp_all

lemma service_pin_idle: "\<not> waiting (ioapic C) i \<Longrightarrow> ioapic_service_pin i C = C"
  using masked_bit [of "ioapic_irr (ioapic C)" i]
  by (auto simp: ioapic_service_pin_def waiting_def Let_def mask_bits)

definition pin_served :: "nat \<Rightarrow> IOAPICState \<Rightarrow> IOAPICState" where
  "pin_served p s =
    (if bit (ioredtbl s ! p) 15 then s\<lparr>ioredtbl := (ioredtbl s)[p := ioredtbl s ! p OR 0x4000]\<rparr>
     else s\<lparr>ioapic_irr := ioapic_irr s AND NOT (bitmask p)\<rparr>)"

lemma one_bit: "drop_bit n (w :: 'a::len word) AND 1 = 0 \<longleftrightarrow> \<not> bit w n" "drop_bit n w AND 1 = 1 \<longleftrightarrow> bit w n"
  by (simp_all add: and_one_eq bit_iff_odd_drop_bit mod2_eq_if)

lemma service_pin_fixed:
  assumes "waiting (ioapic C) p" "drop_bit 8 (ioredtbl (ioapic C) ! p) AND 7 = 0"
  defines "e \<equiv> ioredtbl (ioapic C) ! p"
  shows "ioapic_service_pin p C =
    C\<lparr>ioapic := pin_served p (ioapic C),
      apics := apic_deliver_irq (ucast (drop_bit 56 e)) (bit e 11) 0 (unat (e AND 0xff)) (bit e 13) (bit e 15) (apics C)\<rparr>"
  using assms(1,2) masked_bit [of "ioapic_irr (ioapic C)" p]
  by (auto simp: ioapic_service_pin_def waiting_def Let_def mask_bits one_bit pin_served_def e_def)

lemma fold_idle: "(\<And>i. i \<in> set xs \<Longrightarrow> \<not> waiting (ioapic C) i) \<Longrightarrow> fold ioapic_service_pin xs C = C"
  by (induction xs) (simp_all add: service_pin_idle)

lemma service_none: "ioapic_irr (ioapic C) = 0 \<Longrightarrow> ioapic_service C = C"
  unfolding ioapic_service_def by (rule fold_idle) (simp add: waiting_def)

lemma fold_single:
  assumes "p < n" "\<And>i. i < n \<Longrightarrow> i \<noteq> p \<Longrightarrow> f i C = C" "\<And>i. i < n \<Longrightarrow> i \<noteq> p \<Longrightarrow> f i (f p C) = f p C"
  shows "fold f [0..<n] C = f p C"
proof -
  have id: "(\<And>i. i \<in> set xs \<Longrightarrow> f i X = X) \<Longrightarrow> fold f xs X = X" for xs X by (induction xs) simp_all
  have "[0..<n] = [0..<p] @ p # [Suc p..<n]"
    using assms(1) by (metis less_imp_add_positive upt_add_eq_append upt_conv_Cons zero_le le_add1)
  then show ?thesis using id [of "[0..<p]" C] id [of "[Suc p..<n]" "f p C"] assms by simp
qed

lemma service_single:
  assumes "p < 24" "\<And>i. i < 24 \<Longrightarrow> i \<noteq> p \<Longrightarrow> \<not> waiting (ioapic C) i"
    and "\<And>i. i < 24 \<Longrightarrow> i \<noteq> p \<Longrightarrow> \<not> waiting (ioapic (ioapic_service_pin p C)) i"
  shows "ioapic_service C = ioapic_service_pin p C"
  unfolding ioapic_service_def using assms by (intro fold_single) (simp_all add: service_pin_idle)

lemma waiting_served:
  assumes "i \<noteq> p" "i < 24"
  shows "waiting (pin_served p s) i = waiting s i"
proof -
  have "bit (ioapic_irr s AND NOT (bitmask p)) i \<longleftrightarrow> bit (ioapic_irr s) i"
    using bit_clear_mask [of i "ioapic_irr s" p] assms by simp
  then show ?thesis using assms(1) by (simp add: waiting_def pin_served_def)
qed

definition raised :: "nat \<Rightarrow> IOAPICState \<Rightarrow> IOAPICState" where
  "raised p s = s\<lparr>ioapic_irr := ioapic_irr s OR bitmask p\<rparr>"

lemma waiting_raised: "i < 24 \<Longrightarrow> waiting (raised p s) i \<longleftrightarrow> (if i = p then \<not> bit (ioredtbl s ! p) 16 else waiting s i)"
  using bit_set_mask [of i "ioapic_irr s" p] by (auto simp: waiting_def raised_def)

text \<open>The configuration of a pin the theorems are about: unmasked, in fixed delivery mode, and the only
  one waiting.\<close>

definition pin_ready :: "Irqchip \<Rightarrow> nat \<Rightarrow> bool" where
  "pin_ready C p \<longleftrightarrow> p < 24 \<and> \<not> bit (ioredtbl (ioapic C) ! p) 16 \<and>
    drop_bit 8 (ioredtbl (ioapic C) ! p) AND 7 = 0 \<and> (\<forall>i < 24. i \<noteq> p \<longrightarrow> \<not> waiting (ioapic C) i)"

lemma service_ready:
  assumes "pin_ready C p" "bit (ioapic_irr (ioapic C)) p"
  defines "e \<equiv> ioredtbl (ioapic C) ! p"
  shows "ioapic_service C = C\<lparr>ioapic := pin_served p (ioapic C),
      apics := apic_deliver_irq (ucast (drop_bit 56 e)) (bit e 11) 0 (unat (e AND 0xff)) (bit e 13) (bit e 15) (apics C)\<rparr>"
proof -
  have r: "p < 24" "waiting (ioapic C) p" "drop_bit 8 (ioredtbl (ioapic C) ! p) AND 7 = 0"
    "\<And>i. i < 24 \<Longrightarrow> i \<noteq> p \<Longrightarrow> \<not> waiting (ioapic C) i"
    using assms(1,2) by (auto simp: pin_ready_def waiting_def)
  note s = service_pin_fixed [OF r(2,3)]
  have "ioapic_service C = ioapic_service_pin p C"
    using r(1,4) by (intro service_single) (simp_all add: s waiting_served)
  then show ?thesis by (simp add: s e_def)
qed

lemma set_irq_raise:
  assumes "pin_ready C p" "0 < p"
  defines "e \<equiv> ioredtbl (ioapic C) ! p"
  shows "ioapic_set_irq (int p) True C = C\<lparr>ioapic := pin_served p (raised p (ioapic C)),
      apics := apic_deliver_irq (ucast (drop_bit 56 e)) (bit e 11) 0 (unat (e AND 0xff)) (bit e 13) (bit e 15) (apics C)\<rparr>"
proof -
  let ?C = "C\<lparr>ioapic := raised p (ioapic C)\<rparr>"
  have p: "p < 24" using assms(1) by (simp add: pin_ready_def)
  have "pin_ready ?C p" using assms(1) by (auto simp: pin_ready_def waiting_raised) (simp_all add: raised_def)
  moreover have "bit (ioapic_irr (ioapic ?C)) p" using p bit_set_mask [of p "ioapic_irr (ioapic C)" p] by (simp add: raised_def)
  ultimately have "ioapic_service ?C = C\<lparr>ioapic := pin_served p (raised p (ioapic C)),
      apics := apic_deliver_irq (ucast (drop_bit 56 e)) (bit e 11) 0 (unat (e AND 0xff)) (bit e 13) (bit e 15) (apics C)\<rparr>"
    using service_ready [of ?C p] by (simp add: e_def raised_def)
  moreover have "ioapic_set_irq (int p) True C = ioapic_service ?C"
    using p assms(2) by (simp add: ioapic_set_irq_def Let_def raised_def)
  ultimately show ?thesis by simp
qed

lemma request_vectors:
  "apic_wf s \<Longrightarrow> v < 256 \<Longrightarrow> vectors (lapic_irr (apic_request v t s)) = insert v (vectors (lapic_irr s))"
  "apic_wf s \<Longrightarrow> v < 256 \<Longrightarrow> vectors (lapic_tmr (apic_request v t s)) = (if t then insert v (vectors (lapic_tmr s)) else vectors (lapic_tmr s) - {v})"
  by (simp_all add: apic_request_def Let_def apic_wf_def)

lemma vector_less: "unat ((e :: u64) AND 0xff) < 256"
proof -
  have "e AND 0xff = e AND mask 8" by (simp add: mask_eq_exp_minus_1)
  then show ?thesis using unat_and_mask [of 8 e] by simp
qed

text \<open>C23: With distinct APIC identifiers and no other pin waiting, raising an unmasked pin above 0
  in fixed mode requests its vector, with its trigger mode, at exactly the local APICs its
  redirection entry addresses, physically or logically, and marks a level-triggered pin as in
  flight.\<close>

theorem ioapic_delivers_to_addressed:
  assumes "chip_reachable C" "unique_ids (apics C)" "pin_ready C p" "0 < p" "i < length (local_apics (apics C))"
  defines "e \<equiv> ioredtbl (ioapic C) ! p" and "D \<equiv> ioapic_set_irq (int p) True C"
  shows "(if addressed (ucast (drop_bit 56 e)) (bit e 11) (chip_apic C i)
      then vectors (lapic_irr (chip_apic D i)) = insert (unat (e AND 0xff)) (vectors (lapic_irr (chip_apic C i))) \<and>
           (unat (e AND 0xff) \<in> vectors (lapic_tmr (chip_apic D i)) \<longleftrightarrow> bit e 15) \<and>
           lapic_isr (chip_apic D i) = lapic_isr (chip_apic C i)
      else chip_apic D i = chip_apic C i) \<and>
    (bit (ioapic_irr (ioapic D)) p \<longleftrightarrow> bit e 15) \<and> (bit e 15 \<longrightarrow> bit (ioredtbl (ioapic D) ! p) 14)"
proof -
  have inv: "chip_inv {} C" using assms(1) by (rule chip.reachable_inv)
  then have len: "length (local_apics (apics C)) \<le> 255" "length (ioredtbl (ioapic C)) = 24"
    by (simp_all add: chip_inv_def apics_ok_def)
  have wf: "apic_wf (chip_apic C i)" using chip_reachable_good [OF assms(1,5)] by (rule apic_good_wf)
  have p: "p < 24" using assms(3) by (simp add: pin_ready_def)
  note D = set_irq_raise [OF assms(3,4), folded e_def D_def]
  have a: "chip_apic D i = (if addressed (ucast (drop_bit 56 e)) (bit e 11) (chip_apic C i)
      then apic_request (unat (e AND 0xff)) (bit e 15) (chip_apic C i) else chip_apic C i)"
    using apic_deliver_fixed [OF assms(2) len(1)] assms(5) by (simp add: D)
  have "lapic_isr (apic_request v t s) = lapic_isr s" for v t s
    using view_request [of v t s] by (simp add: apic_view_def)
  then have 1: "if addressed (ucast (drop_bit 56 e)) (bit e 11) (chip_apic C i)
      then vectors (lapic_irr (chip_apic D i)) = insert (unat (e AND 0xff)) (vectors (lapic_irr (chip_apic C i))) \<and>
           (unat (e AND 0xff) \<in> vectors (lapic_tmr (chip_apic D i)) \<longleftrightarrow> bit e 15) \<and>
           lapic_isr (chip_apic D i) = lapic_isr (chip_apic C i)
      else chip_apic D i = chip_apic C i"
    using wf vector_less [of e] by (simp add: a request_vectors)
  have irr: "bit (ioapic_irr (raised p (ioapic C))) p"
    using p bit_set_mask [of p "ioapic_irr (ioapic C)" p] by (simp add: raised_def)
  have "ioapic D = pin_served p (raised p (ioapic C))" by (simp add: D)
  moreover have "ioredtbl (raised p (ioapic C)) = ioredtbl (ioapic C)" by (simp add: raised_def)
  moreover have "\<not> bit (w AND NOT (bitmask p) :: u32) p" for w using bit_clear_mask [of p w p] p by simp
  moreover have "bit (w OR 0x4000 :: u64) 14" for w using bit_set_mask [of 14 w 14] by simp
  ultimately have 2: "(bit (ioapic_irr (ioapic D)) p \<longleftrightarrow> bit e 15) \<and> (bit e 15 \<longrightarrow> bit (ioredtbl (ioapic D) ! p) 14)"
    using irr p len(2) by (simp add: pin_served_def e_def)
  show ?thesis using 1 2 by blast
qed

text \<open>A pin programmed for vector 0x41 at the only processor.\<close>

definition chip_pin :: "u32 \<Rightarrow> Irqchip" where
  "chip_pin e = chip_run [Apic_write 0 (Some 0) 0xf0 0x1ff, Ioapic_write 0x00 0x18, Ioapic_write 0x10 e]"

lemma chip_pin_state:
  "apics (chip_pin e) = \<lparr>local_apics = [apic_enabled], apic_irq_delivered = 0\<rparr>"
  "ioapic_irr (ioapic (chip_pin e)) = 0" "ioredtbl (ioapic (chip_pin e)) = (replicate 24 0x10000)[4 := ucast e]"
  "isa_pic (chip_pin e) = i8259_init"
proof -
  let ?C = "chip_run [Apic_write 0 (Some 0) 0xf0 0x1ff]"
  have r: "apic_reg 0xf0 = 0x0f" by code_simp
  have C: "isa_pic ?C = i8259_init"
    "ioapic ?C = \<lparr>ioapic_id = 0, ioregsel = 0, ioapic_irr = 0, ioredtbl = replicate 24 0x10000\<rparr>"
    by (simp_all add: chip_run_def apic_mem_writel_def r upd_chip_def chip_start_def ioapic_reset_def)
  have "chip_pin e = ioapic_mem_writel 0x10 e (ioapic_mem_writel 0 0x18 ?C)" by (simp add: chip_pin_def chip_run_def)
  also have "ioapic_mem_writel 0 0x18 ?C =
      ?C\<lparr>ioapic := \<lparr>ioapic_id = 0, ioregsel = 0x18, ioapic_irr = 0, ioredtbl = replicate 24 0x10000\<rparr>\<rparr>"
    by (simp add: ioapic_mem_writel_def C)
  also have "ioapic_mem_writel 0x10 e \<dots> = ?C\<lparr>ioapic := \<lparr>ioapic_id = 0, ioregsel = 0x18, ioapic_irr = 0,
      ioredtbl = (replicate 24 0x10000)[4 := ucast e]\<rparr>\<rparr>"
    by (simp add: ioapic_mem_writel_def ioredtbl_index_def service_none)
  finally have "chip_pin e = ?C\<lparr>ioapic := \<lparr>ioapic_id = 0, ioregsel = 0x18, ioapic_irr = 0,
      ioredtbl = (replicate 24 0x10000)[4 := ucast e]\<rparr>\<rparr>" .
  then show "apics (chip_pin e) = \<lparr>local_apics = [apic_enabled], apic_irq_delivered = 0\<rparr>"
    "ioapic_irr (ioapic (chip_pin e)) = 0" "ioredtbl (ioapic (chip_pin e)) = (replicate 24 0x10000)[4 := ucast e]"
    "isa_pic (chip_pin e) = i8259_init"
    by (simp_all add: chip_enabled C)
qed

lemma chip_pin_ready:
  assumes "\<not> bit e 16" "drop_bit 8 (ucast e :: u64) AND 7 = 0"
  shows "pin_ready (chip_pin e) 4"
  using assms by (simp add: pin_ready_def chip_pin_state waiting_def bit_ucast_iff)

theorem ioapic_delivers_to_addressed_witness:
  "0x41 \<in> vectors (lapic_irr (chip_apic (ioapic_set_irq 4 True (chip_pin 0x41)) 0))"
proof -
  have "chip_reachable (chip_pin 0x41)" unfolding chip_pin_def by (rule chip_run_reachable) simp
  moreover have "pin_ready (chip_pin 0x41) 4" by (rule chip_pin_ready) code_simp+
  moreover have "unique_ids (apics (chip_pin 0x41))" by (simp add: chip_pin_state unique_ids_def)
  moreover have "addressed 0 False apic_enabled" by (simp add: addressed_def) code_simp
  moreover have "\<not> bit (0x41 :: u64) 11" by code_simp
  ultimately show ?thesis
    using ioapic_delivers_to_addressed [of "chip_pin 0x41" 4 0] by (simp add: chip_pin_state)
qed

section \<open>Level-triggered interrupts\<close>

text \<open>A pin whose interrupt with the given vector was delivered and not yet ended.\<close>

definition in_flight :: "nat \<Rightarrow> IOAPICState \<Rightarrow> nat \<Rightarrow> bool" where
  "in_flight v s n \<longleftrightarrow> bit (ioredtbl s ! n) 14 \<and> uint (ioredtbl s ! n AND 0xff) = int v"

lemma eoi_pin_other: "\<not> in_flight v (ioapic C) n \<Longrightarrow> ioapic_eoi_pin (int v) n C = C"
  by (auto simp: ioapic_eoi_pin_def in_flight_def Let_def mask_bits)

definition ended :: "nat \<Rightarrow> Irqchip \<Rightarrow> Irqchip" where
  "ended p C = C\<lparr>ioapic := (ioapic C)\<lparr>ioredtbl := (ioredtbl (ioapic C))[p := ioredtbl (ioapic C) ! p AND NOT 0x4000]\<rparr>\<rparr>"

lemma eoi_pin_this:
  "in_flight v (ioapic C) p \<Longrightarrow> ioapic_eoi_pin (int v) p C =
    (if waiting (ioapic C) p then ioapic_service (ended p C) else ended p C)"
  using masked_bit [of "ioapic_irr (ioapic C)" p]
  by (auto simp: ioapic_eoi_pin_def in_flight_def waiting_def ended_def Let_def mask_bits)

lemma in_flight_served: "n \<noteq> p \<Longrightarrow> in_flight v (pin_served p s) n = in_flight v s n"
  by (simp add: in_flight_def pin_served_def)

lemma in_flight_ended: "n \<noteq> p \<Longrightarrow> in_flight v (ioapic (ended p C)) n = in_flight v (ioapic C) n"
  by (simp add: in_flight_def ended_def)

lemma entry_ended:
  fixes e :: u64
  shows "bit (e AND NOT 0x4000) k \<longleftrightarrow> bit e k \<and> k \<noteq> 14" "(e AND NOT 0x4000) AND 0xff = e AND 0xff"
    "drop_bit 8 (e AND NOT 0x4000) AND 7 = drop_bit 8 e AND 7" "drop_bit 56 (e AND NOT 0x4000) = drop_bit 56 e"
proof -
  define d where "d = e AND NOT 0x4000"
  have b: "bit d k \<longleftrightarrow> bit e k \<and> k \<noteq> 14" for k
    unfolding d_def using bit_clear_mask [of k e 14] by (cases "k < 64") (auto dest: bit_imp_le_length)
  have "drop_bit 8 d AND mask 3 = drop_bit 8 e AND mask 3"
    by (rule bit_word_eqI) (auto simp: bit_and_iff bit_drop_bit_eq b bit_mask_iff)
  moreover have "drop_bit 56 d = drop_bit 56 e" by (rule bit_word_eqI) (simp add: bit_drop_bit_eq b)
  moreover have "(7 :: u64) = mask 3" by (simp add: mask_eq_exp_minus_1)
  ultimately show "bit (e AND NOT 0x4000) k \<longleftrightarrow> bit e k \<and> k \<noteq> 14" "(e AND NOT 0x4000) AND 0xff = e AND 0xff"
    "drop_bit 8 (e AND NOT 0x4000) AND 7 = drop_bit 8 e AND 7" "drop_bit 56 (e AND NOT 0x4000) = drop_bit 56 e"
    using b by (simp_all only: d_def) (simp add: and.assoc)
qed

lemma pin_ready_ended: "pin_ready C p \<Longrightarrow> length (ioredtbl (ioapic C)) = 24 \<Longrightarrow> pin_ready (ended p C) p"
  using entry_ended by (auto simp: pin_ready_def ended_def waiting_def)

lemma entry_served:
  fixes e :: u64
  shows "bit (e OR 0x4000) k \<longleftrightarrow> bit e k \<or> k = 14" "(e OR 0x4000) AND 0xff = e AND 0xff"
    "drop_bit 8 (e OR 0x4000) AND 7 = drop_bit 8 e AND 7" "drop_bit 56 (e OR 0x4000) = drop_bit 56 e"
proof -
  define d where "d = e OR 0x4000"
  have b: "bit d k \<longleftrightarrow> bit e k \<or> k = 14" for k
    unfolding d_def using bit_set_mask [of k e 14] by (cases "k < 64") (auto dest: bit_imp_le_length)
  have "drop_bit 8 d AND mask 3 = drop_bit 8 e AND mask 3"
    by (rule bit_word_eqI) (auto simp: bit_and_iff bit_drop_bit_eq b bit_mask_iff)
  moreover have "drop_bit 56 d = drop_bit 56 e" by (rule bit_word_eqI) (simp add: bit_drop_bit_eq b)
  moreover have "(7 :: u64) = mask 3" by (simp add: mask_eq_exp_minus_1)
  moreover have "d AND 0xff = e AND 0xff" by (simp add: d_def bit.conj_disj_distrib2)
  ultimately show "bit (e OR 0x4000) k \<longleftrightarrow> bit e k \<or> k = 14" "(e OR 0x4000) AND 0xff = e AND 0xff"
    "drop_bit 8 (e OR 0x4000) AND 7 = drop_bit 8 e AND 7" "drop_bit 56 (e OR 0x4000) = drop_bit 56 e"
    using b by (simp_all only: d_def)
qed

lemma broadcast_single:
  assumes "p < 24" "in_flight v (ioapic C) p" "\<And>n. n < 24 \<Longrightarrow> n \<noteq> p \<Longrightarrow> \<not> in_flight v (ioapic C) n"
    and "pin_ready C p" "length (ioredtbl (ioapic C)) = 24"
  shows "ioapic_eoi_broadcast (int v) C = (if waiting (ioapic C) p then ioapic_service (ended p C) else ended p C)"
proof -
  let ?E = "if waiting (ioapic C) p then ioapic_service (ended p C) else ended p C"
  have pin: "ioapic_eoi_pin (int v) p C = ?E" using assms(2) by (rule eoi_pin_this)
  have "\<not> in_flight v (ioapic ?E) n" if "n < 24" "n \<noteq> p" for n
  proof (cases "waiting (ioapic C) p")
    case True
    then have "bit (ioapic_irr (ioapic (ended p C))) p" by (simp add: waiting_def ended_def)
    then have "ioapic (ioapic_service (ended p C)) = pin_served p (ioapic (ended p C))"
      using service_ready [OF pin_ready_ended [OF assms(4,5)]] by simp
    then show ?thesis using True that assms(3) by (simp add: in_flight_served in_flight_ended)
  qed (use that assms(3) in \<open>simp add: in_flight_ended\<close>)
  then show ?thesis
    unfolding ioapic_eoi_broadcast_def pin [symmetric] using assms(1,3) by (intro fold_single) (simp_all add: eoi_pin_other pin)
qed

text \<open>How an APIC is addressed.\<close>

definition apic_addr :: "APICState \<Rightarrow> u8 \<times> u8 \<times> u8" where
  "apic_addr s = (apic_id s, dest_mode s, log_dest s)"

lemma addressed_addr: "apic_addr s = apic_addr t \<Longrightarrow> addressed d l s = addressed d l t"
  by (simp add: apic_addr_def addressed_def logical_match_def)

lemma addr_frame [simp]:
  "apic_addr (apic_update_irq s) = apic_addr s" "apic_addr (apic_request v t s) = apic_addr s"
  "apic_addr (snd (apic_get_interrupt s)) = apic_addr s" "apic_addr (cpu_reset_interrupt m s) = apic_addr s"
  "apic_addr (s\<lparr>lapic_isr := x\<rparr>) = apic_addr s"
  by (simp_all add: apic_addr_def apic_request_def apic_get_interrupt_def cpu_reset_interrupt_def Let_def)

definition apic_addrs :: "apic_sys \<Rightarrow> (u8 \<times> u8 \<times> u8) list" where
  "apic_addrs S = map apic_addr (local_apics S)"

lemma unique_addrs: "apic_addrs S = apic_addrs T \<Longrightarrow> unique_ids S = unique_ids T"
proof -
  assume "apic_addrs S = apic_addrs T"
  then have "map fst (apic_addrs S) = map fst (apic_addrs T)" by simp
  then show ?thesis by (simp add: apic_addrs_def unique_ids_def apic_addr_def comp_def)
qed

lemma addrs_upd: "i < length (local_apics S) \<Longrightarrow> apic_addr (f (local_apics S ! i)) = apic_addr (local_apics S ! i) \<Longrightarrow>
    apic_addrs (upd_apic i f S) = apic_addrs S"
  by (simp add: apic_addrs_def map_update list_update_same_conv)

text \<open>The end of a level-triggered interrupt.\<close>

lemma eoi_level:
  assumes i: "i < length (local_apics (apics T))" "length (local_apics (apics T)) \<le> 255" and wf: "apic_wf (chip_apic T i)"
    and isr: "v \<in> vectors (lapic_isr (chip_apic T i))" "\<And>k. k \<in> vectors (lapic_isr (chip_apic T i)) \<Longrightarrow> k \<le> v"
    and tmr: "v \<in> vectors (lapic_tmr (chip_apic T i))" "spurious_vec (chip_apic T i) AND 0x1000 = 0"
    and io: "p < 24" "in_flight v (ioapic T) p" "\<And>n. n < 24 \<Longrightarrow> n \<noteq> p \<Longrightarrow> \<not> in_flight v (ioapic T) n"
      "pin_ready T p" "length (ioredtbl (ioapic T)) = 24"
  defines "e \<equiv> ioredtbl (ioapic T) ! p"
  shows "bit (ioapic_irr (ioapic T)) p \<Longrightarrow> unique_ids (apics T) \<Longrightarrow>
      addressed (ucast (drop_bit 56 e)) (bit e 11) (chip_apic T i) \<Longrightarrow>
      v \<in> vectors (lapic_irr (chip_apic (apic_eoi i T) i))"
    and "\<not> bit (ioapic_irr (ioapic T)) p \<Longrightarrow>
      lapic_irr (chip_apic (apic_eoi i T) i) = lapic_irr (chip_apic T i) \<and> \<not> bit (ioredtbl (ioapic (apic_eoi i T)) ! p) 14"
proof -
  let ?f = "\<lambda>s. s\<lparr>lapic_isr := reset_bit (lapic_isr s) v\<rparr>"
  let ?T = "upd_chip i ?f T"
  have v: "v < 256" using isr(1) by (rule vectors_less)
  have h: "get_highest_priority_int (lapic_isr (chip_apic T i)) = int v"
    using isr by (auto simp: highest_vector intro: Max_eqI)
  have s: "chip_apic ?T i = ?f (chip_apic T i)" using i by (simp add: upd_chip_def)
  have "get_bit (lapic_tmr (chip_apic T i)) v" using tmr(1) v by (simp add: get_bit_vectors)
  then have e: "apic_eoi i T = upd_chip i apic_update_irq (ioapic_eoi_broadcast (int v) ?T)"
    using tmr(2) by (simp add: apic_eoi_def h Let_def s)
  have ready: "pin_ready ?T p" "ioapic ?T = ioapic T" using io(4) by (simp_all add: pin_ready_def)
  have b: "ioapic_eoi_broadcast (int v) ?T = (if waiting (ioapic T) p then ioapic_service (ended p ?T) else ended p ?T)"
    using broadcast_single [of p v ?T] io ready by simp
  have w: "waiting (ioapic T) p \<longleftrightarrow> bit (ioapic_irr (ioapic T)) p" using io(4) by (simp add: waiting_def pin_ready_def)
  show "v \<in> vectors (lapic_irr (chip_apic (apic_eoi i T) i))"
    if up: "bit (ioapic_irr (ioapic T)) p" "unique_ids (apics T)" "addressed (ucast (drop_bit 56 e)) (bit e 11) (chip_apic T i)"
  proof -
    let ?e = "e AND NOT 0x4000"
    have d: "ioredtbl (ioapic (ended p ?T)) ! p = ?e" "apics (ended p ?T) = apics ?T"
      using io(1,5) by (simp_all add: ended_def e_def)
    have "bit (ioapic_irr (ioapic (ended p ?T))) p" using up(1) by (simp add: ended_def)
    then have "apics (ioapic_service (ended p ?T)) =
        apic_deliver_irq (ucast (drop_bit 56 ?e)) (bit ?e 11) 0 (unat (?e AND 0xff)) (bit ?e 13) (bit ?e 15) (apics ?T)"
      using service_ready [OF pin_ready_ended [OF ready(1)]] io(5) d by simp
    then have a: "apics (ioapic_service (ended p ?T)) =
        apic_deliver_irq (ucast (drop_bit 56 e)) (bit e 11) 0 (unat (e AND 0xff)) (bit ?e 13) (bit ?e 15) (apics ?T)"
      unfolding entry_ended(2,4) using entry_ended(1) [of e 11] by simp
    have "unat (e AND 0xff) = v" using io(2) by (simp add: in_flight_def e_def unat_eq_nat_uint)
    moreover have "unique_ids (apics ?T)"
      using up(2) unique_addrs [OF addrs_upd [of i "apics T" ?f]] i(1) by (simp add: upd_chip_def)
    moreover have "length (local_apics (apics ?T)) \<le> 255" "i < length (local_apics (apics ?T))" using i by (simp_all add: upd_chip_def)
    moreover have "addressed (ucast (drop_bit 56 e)) (bit e 11) (chip_apic ?T i)"
      using up(3) addressed_addr [of "chip_apic ?T i" "chip_apic T i"] by (simp add: s)
    ultimately have "chip_apic (ioapic_service (ended p ?T)) i = apic_request v (bit ?e 15) (chip_apic ?T i)"
      "i < length (local_apics (apics (ioapic_service (ended p ?T))))"
      using apic_deliver_fixed by (simp_all add: a)
    then have "lapic_irr (chip_apic (apic_eoi i T) i) = lapic_irr (apic_request v (bit ?e 15) (?f (chip_apic T i)))"
      using w up(1) by (simp add: e b) (simp add: upd_chip_def [of i apic_update_irq] s)
    then show ?thesis using request_vectors(1) [of "?f (chip_apic T i)" v] wf v by simp
  qed
  show "lapic_irr (chip_apic (apic_eoi i T) i) = lapic_irr (chip_apic T i) \<and> \<not> bit (ioredtbl (ioapic (apic_eoi i T)) ! p) 14"
    if down: "\<not> bit (ioapic_irr (ioapic T)) p"
    using down w i(1) io(1,5) entry_ended(1) [of e 14]
    by (simp add: e b) (simp add: upd_chip_def ended_def e_def)
qed

lemma drive_quiet: "parent_irq p = parent_irq (isa_pic C) \<Longrightarrow> drive_pic p C = C\<lparr>isa_pic := p\<rparr>"
  by (simp add: drive_pic_def)

lemma set_irq_lower:
  assumes "0 < p" "p < 24" "bit (ioredtbl (ioapic C) ! p) 15"
  shows "ioapic_set_irq (int p) False C = C\<lparr>ioapic := (ioapic C)\<lparr>ioapic_irr := ioapic_irr (ioapic C) AND NOT (bitmask p)\<rparr>\<rparr>"
  using assms by (simp add: ioapic_set_irq_def Let_def one_bit)

text \<open>The pin of the cycle: level-triggered, addressed to processor \<open>i\<close>, whose APIC is enabled and has
  nothing else requested, while no other pin has the vector in flight and the 8259 controllers are quiet.\<close>

definition level_pin :: "Irqchip \<Rightarrow> nat \<Rightarrow> nat \<Rightarrow> nat \<Rightarrow> bool" where
  "level_pin C p i v \<longleftrightarrow>
    (let e = ioredtbl (ioapic C) ! p; s = chip_apic C i in
     pin_ready C p \<and> 0 < p \<and> bit e 15 \<and> unat (e AND 0xff) = v \<and> 16 \<le> v \<and>
     i < length (local_apics (apics C)) \<and> unique_ids (apics C) \<and> addressed (ucast (drop_bit 56 e)) (bit e 11) s \<and>
     spurious_vec s AND 0x100 \<noteq> 0 \<and> spurious_vec s AND 0x1000 = 0 \<and> vectors (lapic_irr s) = {} \<and> \<not> blocked s v \<and>
     (\<forall>n < 24. n \<noteq> p \<longrightarrow> \<not> in_flight v (ioapic C) n) \<and>
     parent_irq (pic_update_irq (isa_pic C)) = parent_irq (isa_pic C))"

text \<open>The state after the pin is raised and the processor has taken the interrupt.\<close>

lemma level_taken:
  assumes "chip_reachable C" "level_pin C p i v"
  defines "e \<equiv> ioredtbl (ioapic C) ! p" and "T \<equiv> snd (cpu_take i (ioapic_set_irq (int p) True C))"
  shows "fst (cpu_take i (ioapic_set_irq (int p) True C)) = int v"
    "ioapic T = pin_served p (raised p (ioapic C))" "apic_addrs (apics T) = apic_addrs (apics C)"
    "i < length (local_apics (apics T))" "vectors (lapic_irr (chip_apic T i)) = {}"
    "vectors (lapic_isr (chip_apic T i)) = insert v (vectors (lapic_isr (chip_apic C i)))"
    "v \<in> vectors (lapic_tmr (chip_apic T i))" "spurious_vec (chip_apic T i) = spurious_vec (chip_apic C i)"
    "chip_inv {} T"
proof -
  let ?s = "chip_apic C i"
  let ?D = "ioapic_set_irq (int p) True C"
  have l: "pin_ready C p" "0 < p" "bit e 15" "unat (e AND 0xff) = v" "16 \<le> v" "i < length (local_apics (apics C))"
    "unique_ids (apics C)" "addressed (ucast (drop_bit 56 e)) (bit e 11) ?s" "spurious_vec ?s AND 0x100 \<noteq> 0"
    "vectors (lapic_irr ?s) = {}" "\<not> blocked ?s v" "parent_irq (pic_update_irq (isa_pic C)) = parent_irq (isa_pic C)"
    using assms(2) by (auto simp: level_pin_def Let_def e_def)
  have inv: "chip_inv {} C" using assms(1) by (rule chip.reachable_inv)
  then have len: "length (local_apics (apics C)) \<le> 255" by (simp add: chip_inv_def apics_ok_def)
  have wf: "apic_wf ?s" using chip_reachable_good [OF assms(1) l(6)] by (rule apic_good_wf)
  have v: "v < 256" using vector_less [of e] l(4) by simp
  note D = set_irq_raise [OF l(1,2), folded e_def]
  have A: "local_apics (apics ?D) = map (\<lambda>s. if addressed (ucast (drop_bit 56 e)) (bit e 11) s then apic_request v True s else s)
      (local_apics (apics C))"
    using apic_deliver_fixed [OF l(7) len] l(3,4) by (simp add: D)
  then have s: "chip_apic ?D i = apic_request v True ?s" "i < length (local_apics (apics ?D))"
    using l(6,8) by simp_all
  have views: "lapic_isr (chip_apic ?D i) = lapic_isr ?s" "tpr (chip_apic ?D i) = tpr ?s" "spurious_vec (chip_apic ?D i) = spurious_vec ?s"
    using view_request [of v True ?s] by (simp_all add: s apic_view_def)
  have irr: "vectors (lapic_irr (chip_apic ?D i)) = {v}" "v \<in> vectors (lapic_tmr (chip_apic ?D i))"
    using l(10) request_vectors [OF wf v] by (simp_all add: s)
  then have "top_vector (chip_apic ?D i) v" "\<not> blocked (chip_apic ?D i) v"
    using l(5,11) views by (simp_all add: top_vector_def blocked_def)
  note t = take_unblocked [OF s(2) _ this, unfolded views, OF l(9)]
  let ?s2 = "snd (apic_get_interrupt (cpu_reset_interrupt 2 (chip_apic ?D i)))"
  have "isa_pic ?D = isa_pic C" by (simp add: D)
  then have T: "T = (upd_chip i (\<lambda>_. ?s2) ?D)\<lparr>isa_pic := pic_update_irq (isa_pic C)\<rparr>"
    unfolding T_def t(2) using l(12) by (simp add: drive_quiet)
  have Ti: "chip_apic T i = ?s2" using s(2) by (simp add: T upd_chip_def)
  have wfD: "apic_wf (chip_apic ?D i)" using ioapic_set_irq_inv [OF inv] s(2) by (simp add: chip_inv_def apics_ok_def)
  show "fst (cpu_take i ?D) = int v" by (rule t(1))
  show "ioapic T = pin_served p (raised p (ioapic C))" by (simp add: T) (simp add: D)
  show "i < length (local_apics (apics T))" using s(2) by (simp add: T upd_chip_def)
  show "vectors (lapic_irr (chip_apic T i)) = {}"
    unfolding Ti t(3) using irr(1) wfD v by (simp add: apic_wf_def)
  show "vectors (lapic_isr (chip_apic T i)) = insert v (vectors (lapic_isr ?s))"
    unfolding Ti t(4) using wf v by (simp add: apic_wf_def)
  show "v \<in> vectors (lapic_tmr (chip_apic T i))" unfolding Ti t(5) by (rule irr(2))
  show "spurious_vec (chip_apic T i) = spurious_vec ?s" unfolding Ti by (rule t(7))
  show "chip_inv {} T" unfolding T_def by (rule cpu_take_inv) (simp add: inv)
  have "apic_addrs (apics T) = apic_addrs (apics ?D)"
    using addrs_upd [of i "apics ?D" "\<lambda>_. ?s2"] s(2) by (simp add: T upd_chip_def)
  also have "\<dots> = apic_addrs (apics C)" by (simp add: apic_addrs_def A comp_def cong: if_cong)
  finally show "apic_addrs (apics T) = apic_addrs (apics C)" .
qed

lemma pin_ready_served:
  assumes "pin_ready C p" "bit (ioredtbl (ioapic C) ! p) 15" "length (ioredtbl (ioapic C)) = 24"
    and "ioapic T = pin_served p (raised p (ioapic C))"
  shows "pin_ready T p" "ioredtbl (ioapic T) ! p = ioredtbl (ioapic C) ! p OR 0x4000" "bit (ioapic_irr (ioapic T)) p"
    "n \<noteq> p \<Longrightarrow> in_flight v (ioapic T) n = in_flight v (ioapic C) n" "length (ioredtbl (ioapic T)) = 24"
proof -
  have p: "p < 24" using assms(1) by (simp add: pin_ready_def)
  have t: "ioredtbl (ioapic T) = (ioredtbl (ioapic C))[p := ioredtbl (ioapic C) ! p OR 0x4000]"
    "ioapic_irr (ioapic T) = ioapic_irr (ioapic C) OR bitmask p"
    using assms(2) by (simp_all add: assms(4) pin_served_def raised_def)
  show e: "ioredtbl (ioapic T) ! p = ioredtbl (ioapic C) ! p OR 0x4000" "length (ioredtbl (ioapic T)) = 24"
    using p assms(3) by (simp_all add: t)
  show "bit (ioapic_irr (ioapic T)) p" using p bit_set_mask [of p "ioapic_irr (ioapic C)" p] by (simp add: t)
  show "n \<noteq> p \<Longrightarrow> in_flight v (ioapic T) n = in_flight v (ioapic C) n" by (simp add: t in_flight_def)
  have "\<forall>i < 24. i \<noteq> p \<longrightarrow> \<not> waiting (ioapic T) i"
    using assms(1) by (simp add: pin_ready_def assms(4) waiting_served waiting_raised)
  then show "pin_ready T p"
    using assms(1) unfolding pin_ready_def e entry_served(1,3) by simp
qed

text \<open>C2: A level-triggered pin of the I/O APIC: raising it makes the processor take its vector and
  leaves the pin in flight; ending the interrupt while the line is still up requests it again,
  and ending it after the line went down leaves nothing requested and the pin free.\<close>

theorem ioapic_level_cycle:
  assumes "chip_reachable C" "level_pin C p i v"
  defines "T \<equiv> snd (cpu_take i (ioapic_set_irq (int p) True C))"
  shows "fst (cpu_take i (ioapic_set_irq (int p) True C)) = int v \<and>
    v \<in> vectors (lapic_isr (chip_apic T i)) \<and> in_flight v (ioapic T) p \<and>
    v \<in> vectors (lapic_irr (chip_apic (apic_eoi i T) i)) \<and>
    vectors (lapic_irr (chip_apic (apic_eoi i (ioapic_set_irq (int p) False T)) i)) = {} \<and>
    \<not> in_flight v (ioapic (apic_eoi i (ioapic_set_irq (int p) False T))) p"
proof -
  let ?e = "ioredtbl (ioapic C) ! p"
  note t = level_taken [OF assms(1,2), folded T_def]
  have l: "pin_ready C p" "0 < p" "bit ?e 15" "unat (?e AND 0xff) = v" "unique_ids (apics C)"
    "i < length (local_apics (apics C))" "addressed (ucast (drop_bit 56 ?e)) (bit ?e 11) (chip_apic C i)"
    "spurious_vec (chip_apic C i) AND 0x1000 = 0" "\<not> blocked (chip_apic C i) v" "\<And>n. n < 24 \<Longrightarrow> n \<noteq> p \<Longrightarrow> \<not> in_flight v (ioapic C) n"
    using assms(2) by (auto simp: level_pin_def Let_def)
  have p: "p < 24" using l(1) by (simp add: pin_ready_def)
  have "length (ioredtbl (ioapic C)) = 24" using chip.reachable_inv [OF assms(1)] by simp
  note r = pin_ready_served [OF l(1,3) this t(2)]
  have fl: "in_flight v (ioapic T) p" using l(4) entry_served(1,2) [of ?e] by (simp add: in_flight_def r(2) flip: l(4))
  have ok: "length (local_apics (apics T)) \<le> 255" "apic_wf (chip_apic T i)"
    using t(4,9) by (simp_all add: chip_inv_def apics_ok_def)
  have isr: "v \<in> vectors (lapic_isr (chip_apic T i))" "\<And>k. k \<in> vectors (lapic_isr (chip_apic T i)) \<Longrightarrow> k \<le> v"
    using unblocked_above [OF l(9)] by (auto simp: t(6) less_imp_le)
  have other: "\<And>n. n < 24 \<Longrightarrow> n \<noteq> p \<Longrightarrow> \<not> in_flight v (ioapic T) n" using l(10) r(4) by simp
  have sp: "spurious_vec (chip_apic T i) AND 0x1000 = 0" using l(8) t(8) by simp
  have uniq: "unique_ids (apics T)" using unique_addrs [OF t(3)] l(5) by simp
  have "apic_addr (chip_apic T i) = apic_addr (chip_apic C i)"
    using t(3,4) l(6) unfolding apic_addrs_def by (metis nth_map)
  then have "addressed (ucast (drop_bit 56 ?e)) (bit ?e 11) (chip_apic T i)" using addressed_addr l(7) by metis
  then have addr: "addressed (ucast (drop_bit 56 (ioredtbl (ioapic T) ! p))) (bit (ioredtbl (ioapic T) ! p) 11) (chip_apic T i)"
    unfolding r(2) entry_served(4) using entry_served(1) [of ?e 11] by simp
  have up: "v \<in> vectors (lapic_irr (chip_apic (apic_eoi i T) i))"
    by (rule eoi_level(1) [OF t(4) ok isr t(7) sp p fl other r(1,5,3) uniq addr])
  let ?U = "ioapic_set_irq (int p) False T"
  have "bit (ioredtbl (ioapic T) ! p) 15" unfolding r(2) entry_served(1) using l(3) by simp
  then have U: "?U = T\<lparr>ioapic := (ioapic T)\<lparr>ioapic_irr := ioapic_irr (ioapic T) AND NOT (bitmask p)\<rparr>\<rparr>"
    using l(2) p by (simp add: set_irq_lower)
  have irr: "bit (ioapic_irr (ioapic ?U)) n \<longleftrightarrow> bit (ioapic_irr (ioapic T)) n \<and> n \<noteq> p" if "n < 24" for n
    using bit_clear_mask [of n "ioapic_irr (ioapic T)" p] that by (simp add: U)
  have u: "apics ?U = apics T" "ioredtbl (ioapic ?U) = ioredtbl (ioapic T)" by (simp_all add: U)
  have ready: "pin_ready ?U p" using r(1) irr by (auto simp: pin_ready_def waiting_def u)
  have fu: "in_flight v (ioapic ?U) n = in_flight v (ioapic T) n" for n by (simp add: in_flight_def u)
  have "lapic_irr (chip_apic (apic_eoi i ?U) i) = lapic_irr (chip_apic ?U i) \<and> \<not> bit (ioredtbl (ioapic (apic_eoi i ?U)) ! p) 14"
    using eoi_level(2) [of i ?U v p, unfolded u fu, OF t(4) ok isr t(7) sp p fl other ready r(5)] irr [OF p] u by simp
  then show ?thesis using t(1,5) up fl isr(1) by (simp add: u in_flight_def)
qed

theorem ioapic_level_cycle_witness:
  "fst (cpu_take 0 (ioapic_set_irq 4 True (chip_pin 0x8041))) = 0x41 \<and>
   0x41 \<in> vectors (lapic_irr (chip_apic (apic_eoi 0 (snd (cpu_take 0 (ioapic_set_irq 4 True (chip_pin 0x8041))))) 0))"
proof -
  have "chip_reachable (chip_pin 0x8041)" unfolding chip_pin_def by (rule chip_run_reachable) simp
  moreover have "level_pin (chip_pin 0x8041) 4 0 0x41"
  proof -
    have "pin_ready (chip_pin 0x8041) 4" by (rule chip_pin_ready) code_simp+
    moreover have "addressed 0 False apic_enabled" by (simp add: addressed_def) code_simp
    moreover have "spurious_vec apic_enabled AND 0x100 \<noteq> 0" "spurious_vec apic_enabled AND 0x1000 = 0"
      "get_highest_priority_int (lapic_irr apic_enabled) = - 1" "get_highest_priority_int (lapic_isr apic_enabled) = - 1"
      "tpr apic_enabled = 0" "bit (0x8041 :: u64) 15" "\<not> bit (0x8041 :: u64) 11" "\<not> bit (0x10000 :: u64) 14"
      "parent_irq (pic_update_irq i8259_init) = parent_irq i8259_init" by code_simp+
    moreover from this have "vectors (lapic_irr apic_enabled) = {}" "\<not> blocked apic_enabled 0x41"
      by (simp_all add: highest_vector blocked_def split: if_splits)
    ultimately show ?thesis
      by (simp add: level_pin_def chip_pin_state Let_def unique_ids_def in_flight_def)
  qed
  ultimately show ?thesis using ioapic_level_cycle [of "chip_pin 0x8041" 4 0 "0x41"] by simp
qed

section \<open>Lowering the line of the 8259 controllers\<close>

text \<open>The one event outside the invariant: when the line goes down, a boot processor in its initial
  configuration drops its request although its own APIC still has one pending.\<close>

lemma pic_line_drop_hides_request:
  "let s = local_apics (apic_deliver_pic_intr 0 False (apics chip_msi)) ! 0
   in spurious_vec s AND 0x100 \<noteq> 0 \<and> apic_irq_pending s = 0x41 \<and> interrupt_request s AND 0x02 = 0"
proof -
  let ?s = "apic_request 0x41 False apic_enabled"
  have "lvt ?s ! 3 = 0x700" by code_simp
  then have "local_apics (apic_deliver_pic_intr 0 False (apics chip_msi)) = [cpu_reset_interrupt 0x02 ?s]"
    by (simp add: apic_deliver_pic_intr_def chip_msi_apics)
  moreover have "spurious_vec (cpu_reset_interrupt 0x02 ?s) AND 0x100 \<noteq> 0" "apic_irq_pending (cpu_reset_interrupt 0x02 ?s) = 0x41"
    "interrupt_request (cpu_reset_interrupt 0x02 ?s) AND 0x02 = 0" by code_simp+
  ultimately show ?thesis by simp
qed

section \<open>The timer of the local APIC\<close>

lemma next_period:
  fixes x P :: int
  assumes "0 < P"
  shows "x < (x div P + 1) * P" "(x div P + 1) * P \<le> x + P"
proof -
  have "x div P * P + x mod P = x" by (rule div_mult_mod_eq)
  moreover have "0 \<le> x mod P" "x mod P < P" using assms by simp_all
  ultimately have "x < x div P * P + P" "x div P * P \<le> x" by linarith+
  then show "x < (x div P + 1) * P" "(x div P + 1) * P \<le> x + P" by (simp_all add: distrib_right)
qed

theorem apic_timer_periodic_rearms:
  assumes "initial_count_load_time s \<le> now" "now - initial_count_load_time s < 2 ^ 63"
    and "\<not> bit (lvt s ! 0) 16" "bit (lvt s ! 0) 17" "initial_count s \<noteq> 0"
  defines "P \<equiv> (uint (initial_count s) + 1) * 2 ^ count_shift s"
  shows "\<exists>t. timer_at (apic_timer_update now s) = Some t \<and> next_time (apic_timer_update now s) = t \<and>
    now < t \<and> t \<le> now + P \<and> P dvd t - initial_count_load_time s"
proof -
  let ?x = "now - initial_count_load_time s" and ?n = "uint (initial_count s) + 1" and ?k = "2 ^ count_shift s :: int"
  have n: "0 < ?n" by (simp add: add_strict_increasing2)
  have P: "0 < P" using n by (simp add: P_def)
  have "?x div ?k \<le> ?x div 1" using assms(1) by (intro zdiv_mono2) simp_all
  then have "?x div ?k mod 2 ^ 64 = ?x div ?k" using assms(1,2) by (simp add: pos_imp_zdiv_nonneg_iff)
  moreover have "?x div ?k div ?n = ?x div P" 
    using zdiv_zmult2_eq [of ?n ?x ?k] n by (simp add: P_def mult.commute [of ?n])
  ultimately have t: "apic_timer_update now s = s\<lparr>timer_at := Some (initial_count_load_time s + (?x div P + 1) * P),
      next_time := initial_count_load_time s + (?x div P + 1) * P\<rparr>"
    using assms(3-5) masked_bit [of "lvt s ! 0" 16] masked_bit [of "lvt s ! 0" 17]
    by (simp add: apic_timer_update_def Let_def P_def mult.assoc)
  show ?thesis
    using next_period [OF P, of ?x] by (simp add: t)
qed

theorem apic_timer_periodic_rearms_witness:
  "\<exists>t. timer_at (apic_timer_update 250 (apic_enabled\<lparr>initial_count := 9, lvt := [0x20030, 0, 0, 0, 0, 0]\<rparr>)) = Some t \<and>
    250 < t \<and> t \<le> 260"
proof -
  let ?s = "apic_enabled\<lparr>initial_count := 9, lvt := [0x20030, 0, 0, 0, 0, 0]\<rparr>"
  have "initial_count_load_time ?s = 0" "count_shift ?s = 0" by code_simp+
  moreover have "\<not> bit (0x20030 :: u32) 16" "bit (0x20030 :: u32) 17" by code_simp+
  ultimately show ?thesis using apic_timer_periodic_rearms [of ?s 250] by simp
qed

end
