(* ===== verification/Qdict.thy ===== *)
theory Qdict
  imports Prelude
begin

text \<open>
  Dictionaries of the emulator's object model, \<open>qemu/qdict.c\<close>, for values of any type.

  \<^item> A dictionary is a table of 512 buckets, each the list of its entries in the order of the C list,
    next to the number of entries. An entry is a pair of key and value.
  \<^item> The locale \<open>dictionary\<close> is the contract: a finite map from strings with an enumeration of its
    entries. What clients need of sequences of insertions is proved in it, and the hash table is one
    interpretation.
  \<^item> Reference counts are not modelled: an entry that is replaced or deleted is simply gone.
\<close>

unbundle bit_operations_syntax

section \<open>The contract of a dictionary\<close>

locale dictionary =
  fixes inv :: "'d \<Rightarrow> bool" and new :: 'd and get :: "'d \<Rightarrow> string \<Rightarrow> 'v option"
    and put :: "'d \<Rightarrow> string \<Rightarrow> 'v \<Rightarrow> 'd" and del :: "'d \<Rightarrow> string \<Rightarrow> 'd"
    and entries :: "'d \<Rightarrow> (string \<times> 'v) list"
  assumes new_inv: "inv new" and get_new: "get new k = None"
    and put_inv: "inv d \<Longrightarrow> inv (put d k v)" and get_put: "inv d \<Longrightarrow> get (put d k v) = (get d)(k \<mapsto> v)"
    and del_inv: "inv d \<Longrightarrow> inv (del d k)" and get_del: "inv d \<Longrightarrow> get (del d k) = (get d)(k := None)"
    and entries_distinct: "inv d \<Longrightarrow> distinct (map fst (entries d))"
    and entries_get: "inv d \<Longrightarrow> map_of (entries d) = get d"
begin

definition put_all :: "(string \<times> 'v) list \<Rightarrow> 'd \<Rightarrow> 'd" where
  "put_all kvs d = fold (\<lambda>(k, v) d. put d k v) kvs d"

lemma put_all_inv: "inv d \<Longrightarrow> inv (put_all kvs d)"
  by (induction kvs arbitrary: d) (auto simp: put_all_def put_inv)

lemma get_put_all: "inv d \<Longrightarrow> get (put_all kvs d) = get d ++ map_of (rev kvs)"
proof (induction kvs arbitrary: d)
  case (Cons kv kvs)
  then show ?case
    by (cases kv) (simp add: put_all_def put_inv get_put map_add_def fun_eq_iff split: option.splits)
qed (simp add: put_all_def)

text \<open>Inserting the entries of one dictionary into an empty one, or images of them, gives their map.\<close>

lemma get_rebuild:
  assumes "distinct (map fst kvs)"
  shows "get (put_all kvs new) = map_of kvs"
proof -
  have "map_of (rev kvs) = map_of kvs"
    using assms by (metis map_of_inject_set distinct_rev rev_map set_rev)
  then show ?thesis using get_put_all [OF new_inv, of kvs] get_new by (simp add: map_add_def fun_eq_iff split: option.splits)
qed

lemma finite_dom: "inv d \<Longrightarrow> finite (dom (get d))"
  using entries_get finite_dom_map_of by metis

lemma length_entries: "inv d \<Longrightarrow> length (entries d) = card (dom (get d))"
  using entries_distinct [of d] entries_get [of d] distinct_card [of "map fst (entries d)"]
  by (metis dom_map_of_conv_image_fst length_map set_map)

end

section \<open>The hash table\<close>

abbreviation (input) QDICT_BUCKET_MAX :: nat where "QDICT_BUCKET_MAX \<equiv> 512"

type_synonym 'v QDictEntry = "string \<times> 'v"

datatype 'v qdict = Qdict (qdict_size: nat) (table: "'v QDictEntry list list")

definition qdict_new :: "'v qdict" where
  "qdict_new = Qdict 0 (replicate QDICT_BUCKET_MAX [])"

fun tdb_hash_loop :: "u32 \<Rightarrow> string \<Rightarrow> u32 \<Rightarrow> u32" where
  "tdb_hash_loop i [] value = value"
| "tdb_hash_loop i (c # name) value =
    tdb_hash_loop (i + 1) name (value + push_bit (unat (i * 5 mod 24)) (of_char c))"

definition tdb_hash :: "string \<Rightarrow> u32" where
  "tdb_hash name = 1103515243 * tdb_hash_loop 0 name (0x238F13AF * of_nat (length name)) + 12345"

definition bucket_of :: "string \<Rightarrow> nat" where
  "bucket_of key = unat (tdb_hash key mod 512)"

definition qdict_find :: "'v qdict \<Rightarrow> string \<Rightarrow> nat \<Rightarrow> 'v QDictEntry option" where
  "qdict_find d key bucket = find (\<lambda>entry. fst entry = key) (table d ! bucket)"

text \<open>Assignment to the value of the entry that \<open>qdict_find\<close> returned, and its removal from the list.\<close>

fun set_value :: "string \<Rightarrow> 'v \<Rightarrow> 'v QDictEntry list \<Rightarrow> 'v QDictEntry list" where
  "set_value key v [] = []"
| "set_value key v (e # es) = (if fst e = key then (fst e, v) # es else e # set_value key v es)"

fun remove_entry :: "string \<Rightarrow> 'v QDictEntry list \<Rightarrow> 'v QDictEntry list" where
  "remove_entry key [] = []"
| "remove_entry key (e # es) = (if fst e = key then es else e # remove_entry key es)"

definition qdict_put_obj :: "'v qdict \<Rightarrow> string \<Rightarrow> 'v \<Rightarrow> 'v qdict" where
  "qdict_put_obj d key v =
    (let bucket = bucket_of key in
     case qdict_find d key bucket of
       Some entry \<Rightarrow> Qdict (qdict_size d) ((table d)[bucket := set_value key v (table d ! bucket)])
     | None \<Rightarrow> Qdict (qdict_size d + 1) ((table d)[bucket := (key, v) # table d ! bucket]))"

definition qdict_get :: "'v qdict \<Rightarrow> string \<Rightarrow> 'v option" where
  "qdict_get d key = map_option snd (qdict_find d key (bucket_of key))"

definition qdict_haskey :: "'v qdict \<Rightarrow> string \<Rightarrow> bool" where
  "qdict_haskey d key \<longleftrightarrow> qdict_find d key (bucket_of key) \<noteq> None"

definition qdict_del :: "'v qdict \<Rightarrow> string \<Rightarrow> 'v qdict" where
  "qdict_del d key =
    (let bucket = bucket_of key in
     case qdict_find d key bucket of
       Some entry \<Rightarrow> Qdict (qdict_size d - 1) ((table d)[bucket := remove_entry key (table d ! bucket)])
     | None \<Rightarrow> d)"

text \<open>\<open>qdict_iter\<close> calls its argument once per entry; the callback and its state are \<open>f\<close> and \<open>s\<close>.\<close>

definition qdict_entries :: "'v qdict \<Rightarrow> 'v QDictEntry list" where
  "qdict_entries d = concat (table d)"

definition qdict_iter :: "'v qdict \<Rightarrow> (string \<Rightarrow> 'v \<Rightarrow> 's \<Rightarrow> 's) \<Rightarrow> 's \<Rightarrow> 's" where
  "qdict_iter d f s = fold (\<lambda>bucket. fold (\<lambda>(key, v). f key v) bucket) (table d) s"

fun first_entry :: "'v QDictEntry list list \<Rightarrow> 'v QDictEntry option" where
  "first_entry [] = None"
| "first_entry (b # bs) = (case b of [] \<Rightarrow> first_entry bs | e # es \<Rightarrow> Some e)"

definition qdict_next_entry :: "'v qdict \<Rightarrow> nat \<Rightarrow> 'v QDictEntry option" where
  "qdict_next_entry d first_bucket = first_entry (drop first_bucket (table d))"

definition qdict_first :: "'v qdict \<Rightarrow> 'v QDictEntry option" where
  "qdict_first d = qdict_next_entry d 0"

text \<open>The successor of an entry in its list.\<close>

fun list_next :: "string \<Rightarrow> 'v QDictEntry list \<Rightarrow> 'v QDictEntry option" where
  "list_next key [] = None"
| "list_next key (e # es) =
    (if fst e = key then (case es of [] \<Rightarrow> None | e' # _ \<Rightarrow> Some e') else list_next key es)"

definition qdict_next :: "'v qdict \<Rightarrow> 'v QDictEntry \<Rightarrow> 'v QDictEntry option" where
  "qdict_next d entry =
    (let bucket = bucket_of (fst entry) in
     case list_next (fst entry) (table d ! bucket) of
       Some e \<Rightarrow> Some e
     | None \<Rightarrow> qdict_next_entry d (bucket + 1))"

section \<open>The hash table implements the contract\<close>

text \<open>Every key sits in the bucket of its hash, once, and the counter is right.\<close>

definition qdict_inv :: "'v qdict \<Rightarrow> bool" where
  "qdict_inv d \<longleftrightarrow> length (table d) = QDICT_BUCKET_MAX \<and>
    (\<forall>b < QDICT_BUCKET_MAX. distinct (map fst (table d ! b)) \<and> (\<forall>e \<in> set (table d ! b). bucket_of (fst e) = b)) \<and>
    qdict_size d = length (qdict_entries d)"

lemma bucket_of_less [simp]: "bucket_of key < QDICT_BUCKET_MAX"
  by (simp add: bucket_of_def unat_mod)

lemma find_key: "map_option snd (find (\<lambda>e. fst e = k) es) = map_of es k"
  by (induction es) auto

lemma find_key_None: "find (\<lambda>e. fst e = k) es = None \<longleftrightarrow> k \<notin> fst ` set es"
  by (induction es) auto

lemma qdict_get_bucket: "qdict_get d k = map_of (table d ! bucket_of k) k"
  by (simp add: qdict_get_def qdict_find_def find_key)

lemma set_value_keys [simp]: "map fst (set_value k v es) = map fst es" "length (set_value k v es) = length es"
  by (induction es) auto

lemma set_value_set: "fst ` set (set_value k v es) = fst ` set es"
  using set_value_keys(1) [of k v es] by (metis set_map)

lemma map_of_set_value: "k \<in> fst ` set es \<Longrightarrow> map_of (set_value k v es) = (map_of es)(k \<mapsto> v)"
proof (induction es)
  case (Cons e es)
  then show ?case by (cases "fst e = k") (auto simp: fun_eq_iff)
qed simp

lemma remove_entry_set:
  "distinct (map fst es) \<Longrightarrow> fst ` set (remove_entry k es) = fst ` set es - {k}"
  "distinct (map fst es) \<Longrightarrow> distinct (map fst (remove_entry k es))"
  "k \<in> fst ` set es \<Longrightarrow> Suc (length (remove_entry k es)) = length es"
  by (induction es) (auto simp: image_iff)

lemma map_of_remove_entry: "distinct (map fst es) \<Longrightarrow> map_of (remove_entry k es) = (map_of es)(k := None)"
proof (induction es)
  case (Cons e es)
  then show ?case by (cases e) (auto simp: fun_eq_iff map_of_eq_None_iff)
qed simp

lemma length_concat_update:
  "b < length xss \<Longrightarrow> length (concat (xss[b := xs])) + length (xss ! b) = length (concat xss) + length xs"
  by (induction xss arbitrary: b) (auto split: nat.splits)

text \<open>What an operation has to do with the one bucket it changes.\<close>

lemma bucket_update:
  assumes "qdict_inv d" and b: "b < QDICT_BUCKET_MAX"
    and es: "distinct (map fst es)" "\<And>k. k \<in> fst ` set es \<Longrightarrow> bucket_of k = b"
    and n: "n + length (table d ! b) = qdict_size d + length es"
    and m: "map_of es = (map_of (table d ! b))(k := v)" "bucket_of k = b"
  shows "qdict_inv (Qdict n ((table d)[b := es])) \<and> qdict_get (Qdict n ((table d)[b := es])) = (qdict_get d)(k := v)"
proof
  let ?d = "Qdict n ((table d)[b := es])"
  have d: "length (table d) = QDICT_BUCKET_MAX" "qdict_size d = length (qdict_entries d)"
    using assms(1) by (simp_all add: qdict_inv_def)
  have "n = length (qdict_entries ?d)"
    using length_concat_update [of b "table d" es] b d n by (simp add: qdict_entries_def)
  moreover have "distinct (map fst (table ?d ! i)) \<and> (\<forall>e \<in> set (table ?d ! i). bucket_of (fst e) = i)"
    if "i < QDICT_BUCKET_MAX" for i
    using that assms(1) b d es by (cases "i = b") (auto simp: qdict_inv_def)
  ultimately show "qdict_inv ?d" using d by (simp add: qdict_inv_def)
  show "qdict_get ?d = (qdict_get d)(k := v)"
    using b d m by (auto simp: fun_eq_iff qdict_get_bucket nth_list_update)
qed

lemma bucket_inv:
  assumes "qdict_inv d" "b < QDICT_BUCKET_MAX"
  shows "distinct (map fst (table d ! b))" "k \<in> fst ` set (table d ! b) \<Longrightarrow> bucket_of k = b"
  using assms by (auto simp: qdict_inv_def)

lemma qdict_put_correct:
  assumes "qdict_inv d"
  shows "qdict_inv (qdict_put_obj d k v) \<and> qdict_get (qdict_put_obj d k v) = (qdict_get d)(k \<mapsto> v)"
proof -
  let ?b = "bucket_of k"
  note b = bucket_inv [OF assms bucket_of_less]
  show ?thesis
  proof (cases "qdict_find d k ?b")
    case None
    then have "k \<notin> fst ` set (table d ! ?b)" by (simp add: qdict_find_def find_key_None)
    then show ?thesis
      unfolding qdict_put_obj_def Let_def None option.case
      by (intro bucket_update [OF assms bucket_of_less]) (auto simp: b(1) intro: b(2))
  next
    case (Some e)
    then have "k \<in> fst ` set (table d ! ?b)" using find_key_None [of k "table d ! ?b"] by (auto simp: qdict_find_def)
    then show ?thesis
      unfolding qdict_put_obj_def Let_def Some option.case
      by (intro bucket_update [OF assms bucket_of_less] b) (simp_all add: b(1) set_value_set map_of_set_value)
  qed
qed

lemma qdict_size_pos: "qdict_inv d \<Longrightarrow> b < QDICT_BUCKET_MAX \<Longrightarrow> length (table d ! b) \<le> qdict_size d"
  using length_concat_update [of b "table d" "[]"] by (simp add: qdict_inv_def qdict_entries_def)

lemma qdict_del_correct:
  assumes "qdict_inv d"
  shows "qdict_inv (qdict_del d k) \<and> qdict_get (qdict_del d k) = (qdict_get d)(k := None)"
proof -
  let ?b = "bucket_of k"
  note b = bucket_inv [OF assms bucket_of_less]
  show ?thesis
  proof (cases "qdict_find d k ?b")
    case None
    then have "qdict_get d k = None" by (simp add: qdict_get_def)
    then show ?thesis using None assms by (simp add: qdict_del_def fun_eq_iff)
  next
    case (Some e)
    then have k: "k \<in> fst ` set (table d ! ?b)" using find_key_None [of k "table d ! ?b"] by (auto simp: qdict_find_def)
    then have "Suc (length (remove_entry k (table d ! ?b))) = length (table d ! ?b)"
      by (rule remove_entry_set)
    with qdict_size_pos [OF assms bucket_of_less, of k]
    have "qdict_size d - 1 + length (table d ! ?b) = qdict_size d + length (remove_entry k (table d ! ?b))" by simp
    then show ?thesis
      unfolding qdict_del_def Let_def Some option.case
      by (intro bucket_update [OF assms bucket_of_less] b)
        (use k in \<open>simp_all add: b(1) remove_entry_set map_of_remove_entry\<close>)
  qed
qed

lemma map_of_concat_buckets:
  assumes "\<And>b e. b < length xss \<Longrightarrow> e \<in> set (xss ! b) \<Longrightarrow> f (fst e) = b + off" "f k < length xss + off" "off \<le> f k"
  shows "map_of (concat xss) k = map_of (xss ! (f k - off)) k"
  using assms
proof (induction xss arbitrary: off)
  case (Cons xs xss)
  have first: "\<And>e. e \<in> set xs \<Longrightarrow> f (fst e) = off" using Cons.prems(1) [of 0] by simp
  have rest: "f (fst e) = b + Suc off" if "b < length xss" "e \<in> set (xss ! b)" for b e
    using Cons.prems(1) [of "Suc b" e] that by simp
  show ?case
  proof (cases "f k = off")
    case True
    have "map_of (concat xss) k = None"
      using rest True by (force simp: map_of_eq_None_iff in_set_conv_nth [of _ xss])
    then show ?thesis using True by (simp add: map_add_def split: option.split)
  next
    case False
    then have "map_of xs k = None" using first by (auto simp: map_of_eq_None_iff)
    moreover have "map_of (concat xss) k = map_of (xss ! (f k - Suc off)) k"
      using Cons.prems(2,3) False by (intro Cons.IH rest) auto
    ultimately show ?thesis using Cons.prems(3) False by (simp add: map_add_def nth_Cons' split: option.splits)
  qed
qed simp

lemma distinct_concat_buckets:
  assumes "\<And>b. b < length xss \<Longrightarrow> distinct (map fst (xss ! b))"
    "\<And>b e. b < length xss \<Longrightarrow> e \<in> set (xss ! b) \<Longrightarrow> f (fst e) = b + off"
  shows "distinct (map fst (concat xss))"
  using assms
proof (induction xss arbitrary: off)
  case (Cons xs xss)
  have rest: "f (fst e) = b + Suc off" if "b < length xss" "e \<in> set (xss ! b)" for b e
    using Cons.prems(2) [of "Suc b" e] that by simp
  have "distinct (map fst (concat xss))"
    using Cons.prems(1) [of "Suc _"] by (intro Cons.IH [of "Suc off"] rest) simp_all
  moreover have "fst ` set xs \<inter> fst ` set (concat xss) = {}"
    using rest Cons.prems(2) [of 0] by (force simp: in_set_conv_nth [of _ xss])
  ultimately show ?case using Cons.prems(1) [of 0] by simp
qed simp

lemma qdict_entries_correct:
  assumes "qdict_inv d"
  shows "distinct (map fst (qdict_entries d)) \<and> map_of (qdict_entries d) = qdict_get d"
proof
  have b: "\<And>b e. b < length (table d) \<Longrightarrow> e \<in> set (table d ! b) \<Longrightarrow> bucket_of (fst e) = b + 0"
    using assms by (simp add: qdict_inv_def)
  show "distinct (map fst (qdict_entries d))"
    unfolding qdict_entries_def using assms b by (intro distinct_concat_buckets) (auto simp: qdict_inv_def)
  show "map_of (qdict_entries d) = qdict_get d"
  proof
    fix k
    show "map_of (qdict_entries d) k = qdict_get d k"
      unfolding qdict_entries_def qdict_get_bucket
      using map_of_concat_buckets [of "table d" bucket_of 0 k, OF b] assms by (simp add: qdict_inv_def)
  qed
qed

interpretation qdict: dictionary qdict_inv qdict_new qdict_get qdict_put_obj qdict_del qdict_entries
proof
  show "qdict_inv qdict_new" by (simp add: qdict_inv_def qdict_new_def qdict_entries_def)
  show "qdict_get qdict_new k = None" for k
    by (simp add: qdict_get_bucket qdict_new_def)
qed (simp_all add: qdict_put_correct qdict_del_correct qdict_entries_correct)

section \<open>Properties of dictionaries\<close>

fun hd_opt :: "'a list \<Rightarrow> 'a option" where
  "hd_opt [] = None"
| "hd_opt (x # xs) = Some x"

lemma hd_opt_append: "hd_opt (xs @ ys) = (if xs = [] then hd_opt ys else hd_opt xs)"
  by (cases xs) simp_all

lemma hd_opt_None [simp]: "hd_opt xs = None \<longleftrightarrow> xs = []"
  by (cases xs) simp_all

lemma hd_opt_nth: "hd_opt xs = (if xs = [] then None else Some (xs ! 0))"
  by (cases xs) simp_all

lemma first_entry_hd: "first_entry bs = hd_opt (concat bs)"
proof (induction bs)
  case (Cons b bs)
  then show ?case by (cases b) simp_all
qed simp

lemma list_next_split:
  "k \<notin> fst ` set xs \<Longrightarrow> list_next k (xs @ (k, v) # ys) = hd_opt ys"
  by (induction xs) (auto split: list.split)

text \<open>Where an entry of the enumeration sits in the table.\<close>

lemma concat_position:
  assumes "concat xss = xs @ e # ys"
  obtains b us vs where "b < length xss" "xss ! b = us @ e # vs" "ys = vs @ concat (drop (Suc b) xss)"
  using assms
proof (induction xss arbitrary: xs thesis)
  case (Cons zs xss)
  show ?case
  proof (cases "length xs < length zs")
    case True
    then obtain us where "zs = xs @ us" "us @ concat xss = e # ys" "us \<noteq> []"
      using Cons.prems(2) by (auto simp: append_eq_append_conv2)
    then show ?thesis using Cons.prems(1) [of 0 xs "tl us"] by (cases us) simp_all
  next
    case False
    then obtain xs' where "xs = zs @ xs'" "concat xss = xs' @ e # ys"
      using Cons.prems(2) by (auto simp: append_eq_append_conv2)
    with Cons.IH Cons.prems(1) show ?thesis by (metis Suc_less_eq drop_Suc_Cons length_Cons nth_Cons_Suc)
  qed
qed simp

lemma qdict_next_split:
  assumes "qdict_inv d" "qdict_entries d = xs @ e # ys"
  shows "qdict_next d e = hd_opt ys"
proof -
  obtain b us vs where b: "b < length (table d)" "table d ! b = us @ e # vs" "ys = vs @ concat (drop (Suc b) (table d))"
    using assms(2) concat_position unfolding qdict_entries_def by metis
  have "bucket_of (fst e) = b" "fst e \<notin> fst ` set us"
    using assms(1) b(1,2) bucket_inv [of d b] by (auto simp: qdict_inv_def)
  then show ?thesis
    using b list_next_split [of "fst e" us "snd e" vs]
    by (simp add: qdict_next_def qdict_next_entry_def first_entry_hd hd_opt_append split: option.split)
qed

lemma fold_concat_lists: "fold (fold g) xss s = fold g (concat xss) s"
  by (induction xss arbitrary: s) simp_all

lemma qdict_iter_entries: "qdict_iter d f s = fold (\<lambda>(k, v). f k v) (qdict_entries d) s"
  by (simp add: qdict_iter_def qdict_entries_def fold_concat_lists)

definition qdict_run :: "(string \<times> 'v option) list \<Rightarrow> 'v qdict" where
  "qdict_run ops =
    fold (\<lambda>(k, w) d. case w of Some v \<Rightarrow> qdict_put_obj d k v | None \<Rightarrow> qdict_del d k) ops qdict_new"

definition map_run :: "(string \<times> 'v option) list \<Rightarrow> string \<Rightarrow> 'v option" where
  "map_run ops = fold (\<lambda>(k, w) m. m(k := w)) ops Map.empty"

lemma qdict_run_map: "qdict_inv (qdict_run ops) \<and> qdict_get (qdict_run ops) = map_run ops"
proof (induction ops rule: rev_induct)
  case Nil
  show ?case by (simp add: qdict_run_def map_run_def fun_eq_iff qdict.new_inv qdict.get_new)
next
  case (snoc op ops)
  then show ?case
    by (cases op; cases "snd op") (simp_all add: qdict_run_def map_run_def qdict_put_correct qdict_del_correct)
qed

text \<open>C21: The hash table of a dictionary refines a finite map: after any sequence of insertions and
  deletions a lookup, the membership test and the size are those of the map.\<close>

theorem qdict_refines_map:
  "qdict_get (qdict_run ops) k = map_run ops k \<and>
   (qdict_haskey (qdict_run ops) k \<longleftrightarrow> k \<in> dom (map_run ops)) \<and>
   qdict_size (qdict_run ops) = card (dom (map_run ops))"
proof -
  note r = qdict_run_map [of ops]
  have "qdict_haskey (qdict_run ops) k \<longleftrightarrow> qdict_get (qdict_run ops) k \<noteq> None"
    by (simp add: qdict_haskey_def qdict_get_def)
  moreover have "qdict_size (qdict_run ops) = length (qdict_entries (qdict_run ops))"
    using r by (simp add: qdict_inv_def)
  ultimately show ?thesis using r qdict.length_entries [of "qdict_run ops"] by (simp add: dom_def)
qed

text \<open>C28: Walking a dictionary with \<open>qdict_first\<close> and \<open>qdict_next\<close> visits
  every key exactly once, with its current value, and then ends.\<close>

theorem qdict_iteration:
  "map_of (qdict_entries (qdict_run ops)) = map_run ops \<and>
   distinct (map fst (qdict_entries (qdict_run ops))) \<and>
   qdict_first (qdict_run ops) # map (qdict_next (qdict_run ops)) (qdict_entries (qdict_run ops)) =
     map Some (qdict_entries (qdict_run ops)) @ [None]"
proof (intro conjI)
  let ?d = "qdict_run ops"
  let ?es = "qdict_entries ?d"
  have inv: "qdict_inv ?d" and get: "qdict_get ?d = map_run ops" using qdict_run_map by blast+
  show "map_of ?es = map_run ops" "distinct (map fst ?es)"
    using qdict.entries_get [OF inv] qdict.entries_distinct [OF inv] get by simp_all
  have "map (qdict_next ?d) ys = tl (map Some ys @ [None])" if "?es = xs @ ys" "ys \<noteq> []" for xs ys
    using that
  proof (induction ys arbitrary: xs)
    case (Cons e ys)
    have "qdict_next ?d e = hd_opt ys" using Cons.prems by (intro qdict_next_split [OF inv]) simp
    then show ?case using Cons.IH [of "xs @ [e]"] Cons.prems(1) by (cases ys) simp_all
  qed simp
  from this [of "[]" ?es]
  show "qdict_first ?d # map (qdict_next ?d) ?es = map Some ?es @ [None]"
    by (cases ?es) (simp_all add: qdict_first_def qdict_next_entry_def first_entry_hd flip: qdict_entries_def)
qed

end
