(* ===== verification/Qstring.thy ===== *)
theory Qstring
  imports Prelude
begin

text \<open>
  Growing strings of the object model, \<open>qemu/qstring.c\<close>, and the decimal notation of integers that
  \<open>snprintf\<close> writes and \<open>strtoll\<close> reads.

  \<^item> \<open>QString\<close> is the struct: the allocated array with its length and the capacity the code believes in.
    A store outside the array gives \<open>None\<close>; the bytes that \<open>qemu_realloc\<close> adds are a parameter.
  \<^item> A C string is a list of characters other than NUL.
\<close>

abbreviation (input) NUL :: char where "NUL \<equiv> CHR 0x00"

definition c_string :: "string \<Rightarrow> bool" where
  "c_string s \<longleftrightarrow> NUL \<notin> set s"

section \<open>Decimal numbers\<close>

definition digit :: "nat \<Rightarrow> char" where
  "digit n = char_of (48 + n)"

fun digits :: "nat \<Rightarrow> string" where
  "digits n = (if n < 10 then [digit n] else digits (n div 10) @ [digit (n mod 10)])"

declare digits.simps [simp del]

text \<open>\<open>snprintf\<close> with the format of a 64-bit integer.\<close>

definition print_int :: "int \<Rightarrow> string" where
  "print_int i = (if i < 0 then CHR ''-'' # digits (nat (- i)) else digits (nat i))"

definition is_digit :: "char \<Rightarrow> bool" where
  "is_digit c \<longleftrightarrow> 48 \<le> (of_char c :: nat) \<and> (of_char c :: nat) \<le> 57"

definition read_digits :: "string \<Rightarrow> nat" where
  "read_digits s = foldl (\<lambda>n c. 10 * n + (of_char c - 48)) 0 (takeWhile is_digit s)"

text \<open>\<open>strtoll\<close> in base 10 saturates at the bounds of 64 bits.\<close>

definition strtoll :: "string \<Rightarrow> int" where
  "strtoll s =
    (let v = (case s of [] \<Rightarrow> 0
              | c # cs \<Rightarrow> if c = CHR ''-'' then - int (read_digits cs)
                          else if c = CHR ''+'' then int (read_digits cs) else int (read_digits s))
     in max (- (2 ^ 63)) (min v (2 ^ 63 - 1)))"

lemma of_char_digit: "n < 10 \<Longrightarrow> (of_char (digit n) :: nat) = 48 + n"
  by (simp add: digit_def)

lemma is_digit_digit [simp]: "n < 10 \<Longrightarrow> is_digit (digit n)"
  by (simp add: is_digit_def of_char_digit)

lemma digits_not_Nil [simp]: "digits n \<noteq> []"
  by (subst digits.simps) simp

lemma digits_all: "\<forall>c \<in> set (digits n). is_digit c"
proof (induction n rule: digits.induct)
  case (1 n)
  then show ?case by (subst digits.simps) auto
qed

lemma takeWhile_digits [simp]: "takeWhile is_digit (digits n) = digits n"
  using digits_all by (simp add: takeWhile_eq_all_conv)

lemma read_digits_digits [simp]: "read_digits (digits n) = n"
proof -
  have "foldl (\<lambda>n c. 10 * n + (of_char c - 48)) 0 (digits n) = n"
  proof (induction n rule: digits.induct)
    case (1 n)
    show ?case
    proof (cases "n < 10")
      case True
      then show ?thesis by (subst digits.simps) (simp add: of_char_digit)
    next
      case False
      then have "digits n = digits (n div 10) @ [digit (n mod 10)]" by (subst digits.simps) simp
      then show ?thesis using 1 [OF False] by (simp add: of_char_digit)
    qed
  qed
  then show ?thesis by (simp add: read_digits_def)
qed

lemma digits_first: "digits n = c # cs \<Longrightarrow> is_digit c"
  using digits_all [of n] by simp

lemma strtoll_print_int:
  assumes "- (2 ^ 63) \<le> i" "i < 2 ^ 63"
  shows "strtoll (print_int i) = i"
proof (cases "i < 0")
  case True
  then show ?thesis using assms by (simp add: strtoll_def print_int_def)
next
  case False
  obtain c cs where d: "digits (nat i) = c # cs" by (cases "digits (nat i)") auto
  have "is_digit c" using d by (rule digits_first)
  then have "c \<noteq> CHR ''-''" "c \<noteq> CHR ''+''" by (auto simp: is_digit_def)
  moreover have "read_digits (c # cs) = nat i" using d read_digits_digits [of "nat i"] by simp
  ultimately show ?thesis using assms False by (simp add: strtoll_def print_int_def d)
qed

lemma c_string_digits: "c_string (digits n)"
  using digits_all [of n] by (auto simp: c_string_def is_digit_def)

lemma c_string_print_int [simp]: "c_string (print_int i)"
  using c_string_digits by (simp add: print_int_def c_string_def)

section \<open>The buffer\<close>

record QString =
  qstring_string :: string
  qstring_length :: nat
  qstring_capacity :: nat

definition store :: "string \<Rightarrow> nat \<Rightarrow> string \<Rightarrow> string option" where
  "store buf i bs =
    (if i + length bs \<le> length buf then Some (take i buf @ bs @ drop (i + length bs) buf) else None)"

definition qstring_from_substr :: "string \<Rightarrow> int \<Rightarrow> int \<Rightarrow> QString" where
  "qstring_from_substr str start stop =
    (let len = nat (stop - start + 1)
     in \<lparr>qstring_string = take len (drop (nat start) str) @ [NUL], qstring_length = len, qstring_capacity = len\<rparr>)"

definition qstring_from_str :: "string \<Rightarrow> QString" where
  "qstring_from_str str = qstring_from_substr str 0 (int (length str) - 1)"

definition qstring_new :: QString where
  "qstring_new = qstring_from_str ''''"

definition qemu_realloc :: "(nat \<Rightarrow> char) \<Rightarrow> string \<Rightarrow> nat \<Rightarrow> string" where
  "qemu_realloc fresh buf n = take n buf @ map fresh [length buf..<n]"

definition capacity_increase :: "(nat \<Rightarrow> char) \<Rightarrow> nat \<Rightarrow> QString \<Rightarrow> QString" where
  "capacity_increase fresh len q =
    (if qstring_capacity q < qstring_length q + len
     then
       (let cap = (qstring_capacity q + len) * 2
        in q\<lparr>qstring_capacity := cap, qstring_string := qemu_realloc fresh (qstring_string q) (cap + 1)\<rparr>)
     else q)"

definition qstring_append :: "(nat \<Rightarrow> char) \<Rightarrow> string \<Rightarrow> QString \<Rightarrow> QString option" where
  "qstring_append fresh str q =
    (let len = length str;
         q = capacity_increase fresh len q
     in case store (qstring_string q) (qstring_length q) str of
          None \<Rightarrow> None
        | Some buf \<Rightarrow>
            (let q = q\<lparr>qstring_string := buf, qstring_length := qstring_length q + len\<rparr>
             in map_option (\<lambda>buf. q\<lparr>qstring_string := buf\<rparr>) (store (qstring_string q) (qstring_length q) [NUL])))"

definition qstring_append_int :: "(nat \<Rightarrow> char) \<Rightarrow> int \<Rightarrow> QString \<Rightarrow> QString option" where
  "qstring_append_int fresh value q = qstring_append fresh (take 31 (print_int value)) q"

definition qstring_append_chr :: "(nat \<Rightarrow> char) \<Rightarrow> char \<Rightarrow> QString \<Rightarrow> QString option" where
  "qstring_append_chr fresh c q =
    (let q = capacity_increase fresh 1 q
     in case store (qstring_string q) (qstring_length q) [c] of
          None \<Rightarrow> None
        | Some buf \<Rightarrow>
            (let q = q\<lparr>qstring_string := buf, qstring_length := qstring_length q + 1\<rparr>
             in map_option (\<lambda>buf. q\<lparr>qstring_string := buf\<rparr>) (store (qstring_string q) (qstring_length q) [NUL])))"

text \<open>The string a reader of the buffer sees, up to the first NUL.\<close>

definition qstring_get_str :: "QString \<Rightarrow> string" where
  "qstring_get_str q = takeWhile (\<lambda>c. c \<noteq> NUL) (qstring_string q)"

section \<open>Appending\<close>

definition qstring_inv :: "QString \<Rightarrow> bool" where
  "qstring_inv q \<longleftrightarrow> length (qstring_string q) = qstring_capacity q + 1 \<and> qstring_length q \<le> qstring_capacity q \<and>
    c_string (take (qstring_length q) (qstring_string q)) \<and> qstring_string q ! qstring_length q = NUL"

lemma until_NUL: "c_string xs \<Longrightarrow> takeWhile (\<lambda>c. c \<noteq> NUL) (xs @ NUL # ys) = xs"
  by (subst takeWhile_append2) (auto simp: c_string_def)

lemma qstring_get_str_take:
  assumes "qstring_inv q"
  shows "qstring_get_str q = take (qstring_length q) (qstring_string q)"
proof -
  let ?b = "qstring_string q" and ?n = "qstring_length q"
  have "?b = take ?n ?b @ NUL # drop (Suc ?n) ?b"
    using assms by (simp add: qstring_inv_def) (metis id_take_nth_drop le_imp_less_Suc)
  then show ?thesis using assms until_NUL by (metis qstring_get_str_def qstring_inv_def)
qed

lemma capacity_increase_inv:
  assumes "qstring_inv q" and p: "p = capacity_increase fresh len q"
  shows "length (qstring_string p) = qstring_capacity p + 1" "qstring_length p = qstring_length q"
    "qstring_length q + len \<le> qstring_capacity p"
    "take (qstring_length q) (qstring_string p) = take (qstring_length q) (qstring_string q)"
  using assms(1) unfolding p by (auto simp: capacity_increase_def qemu_realloc_def Let_def qstring_inv_def)

lemma qstring_append_ok:
  assumes "qstring_inv q" "c_string str"
  shows "\<exists>p. qstring_append fresh str q = Some p \<and> qstring_inv p \<and> qstring_get_str p = qstring_get_str q @ str"
proof -
  define p where "p = capacity_increase fresh (length str) q"
  note i = capacity_increase_inv [OF assms(1) p_def]
  let ?n = "qstring_length q"
  define buf where "buf = take ?n (qstring_string q) @ str @ NUL # drop (?n + length str + 1) (qstring_string p)"
  define r where "r = p\<lparr>qstring_string := buf, qstring_length := ?n + length str\<rparr>"
  have n: "length (take ?n (qstring_string q)) = ?n" using assms(1) by (simp add: qstring_inv_def)
  have r: "qstring_append fresh str q = Some r"
    using i n by (simp add: qstring_append_def store_def Let_def r_def buf_def flip: p_def)
  have inv: "qstring_inv r"
    using assms i(1-3) n by (simp add: qstring_inv_def r_def buf_def c_string_def nth_append)
  have "qstring_get_str r = qstring_get_str q @ str"
    using qstring_get_str_take [OF inv] qstring_get_str_take [OF assms(1)] n by (simp add: r_def buf_def)
  with r inv show ?thesis by blast
qed

lemma qstring_append_chr_append: "qstring_append_chr fresh c q = qstring_append fresh [c] q"
  by (simp add: qstring_append_chr_def qstring_append_def Let_def split: option.split)

lemma qstring_from_str_inv:
  "c_string s \<Longrightarrow> qstring_inv (qstring_from_str s) \<and> qstring_get_str (qstring_from_str s) = s"
  by (simp add: qstring_inv_def qstring_from_str_def qstring_from_substr_def qstring_get_str_def until_NUL Let_def)

datatype append_op = Append string | Append_chr char | Append_int int

fun append_text :: "append_op \<Rightarrow> string" where
  "append_text (Append s) = s"
| "append_text (Append_chr c) = [c]"
| "append_text (Append_int i) = print_int i"

fun append_valid :: "append_op \<Rightarrow> bool" where
  "append_valid (Append s) = c_string s"
| "append_valid (Append_chr c) = (c \<noteq> NUL)"
| "append_valid (Append_int i) = (- (2 ^ 63) \<le> i \<and> i < 2 ^ 63)"

fun append_do :: "(nat \<Rightarrow> char) \<Rightarrow> append_op \<Rightarrow> QString \<Rightarrow> QString option" where
  "append_do fresh (Append s) q = qstring_append fresh s q"
| "append_do fresh (Append_chr c) q = qstring_append_chr fresh c q"
| "append_do fresh (Append_int i) q = qstring_append_int fresh i q"

fun append_run :: "(nat \<Rightarrow> char) \<Rightarrow> append_op list \<Rightarrow> QString \<Rightarrow> QString option" where
  "append_run fresh [] q = Some q"
| "append_run fresh (x # xs) q = Option.bind (append_do fresh x q) (append_run fresh xs)"

text \<open>No 64-bit number needs more than 20 characters, so the array of 32 is never cut.\<close>

lemma length_digits: "n < 10 ^ k \<Longrightarrow> 0 < k \<Longrightarrow> length (digits n) \<le> k"
proof (induction n arbitrary: k rule: digits.induct)
  case (1 n)
  show ?case
  proof (cases "n < 10")
    case True
    then show ?thesis using 1 by (subst digits.simps) simp
  next
    case False
    then obtain j where j: "k = Suc j" "0 < j" using "1.prems" by (cases k; cases "k - 1") auto
    then have "n div 10 < 10 ^ j" using "1.prems"(1) by (simp add: less_mult_imp_div_less mult.commute)
    then show ?thesis using 1(1) [OF False, of j] False j by (subst digits.simps) simp
  qed
qed

lemma length_print_int:
  assumes "- (2 ^ 63) \<le> i" "i < 2 ^ 63"
  shows "length (print_int i) \<le> 20"
proof -
  have "nat \<bar>i\<bar> < 10 ^ 19" using assms by simp
  then have "length (digits (nat \<bar>i\<bar>)) \<le> 19" by (rule length_digits) simp
  then show ?thesis by (auto simp: print_int_def)
qed

lemma append_do_ok:
  assumes "qstring_inv q" "append_valid x"
  shows "\<exists>p. append_do fresh x q = Some p \<and> qstring_inv p \<and> qstring_get_str p = qstring_get_str q @ append_text x"
proof (cases x)
  case (Append s)
  then show ?thesis using assms qstring_append_ok by simp
next
  case (Append_chr c)
  then have "c_string [c]" using assms(2) by (simp add: c_string_def)
  then show ?thesis using Append_chr assms(1) qstring_append_ok by (simp add: qstring_append_chr_append)
next
  case (Append_int i)
  then have "take 31 (print_int i) = print_int i" using assms(2) length_print_int [of i] by simp
  then show ?thesis using Append_int assms(1) qstring_append_ok by (simp add: qstring_append_int_def)
qed

lemma append_run_ok:
  assumes "qstring_inv q" "\<forall>x \<in> set xs. append_valid x"
  shows "\<exists>p. append_run fresh xs q = Some p \<and> qstring_inv p \<and>
    qstring_get_str p = qstring_get_str q @ concat (map append_text xs)"
  using assms
proof (induction xs arbitrary: q)
  case (Cons x xs)
  then obtain p where "append_do fresh x q = Some p" "qstring_inv p" "qstring_get_str p = qstring_get_str q @ append_text x"
    using append_do_ok by (metis list.set_intros(1))
  with Cons.IH [of p] Cons.prems(2) show ?case by simp
qed simp

text \<open>C29: Any sequence of appends of text without NUL to a fresh string stays inside its
  allocation, keeps it terminated, and leaves the concatenation of what was appended.\<close>

theorem qstring_appends:
  assumes "c_string s" "\<forall>x \<in> set xs. append_valid x"
  shows "\<exists>p. append_run fresh xs (qstring_from_str s) = Some p \<and>
    qstring_get_str p = s @ concat (map append_text xs) \<and>
    qstring_length p = length (qstring_get_str p) \<and> qstring_length p \<le> qstring_capacity p"
proof -
  obtain p where p: "append_run fresh xs (qstring_from_str s) = Some p" "qstring_inv p"
    "qstring_get_str p = s @ concat (map append_text xs)"
    using append_run_ok [of "qstring_from_str s" xs fresh] qstring_from_str_inv [OF assms(1)] assms(2) by auto
  have "qstring_length p = length (qstring_get_str p)" "qstring_length p \<le> qstring_capacity p"
    unfolding qstring_get_str_take [OF p(2)] using p(2) by (simp_all add: qstring_inv_def)
  with p show ?thesis by blast
qed

theorem qstring_appends_witness:
  "\<exists>p. append_run (\<lambda>_. CHR ''x'') [Append ''= '', Append_int (- 42), Append_chr CHR '';''] (qstring_from_str ''a '') = Some p \<and>
    qstring_get_str p = ''a = -42;''"
proof -
  have "digits 42 = ''42''" by code_simp
  then have "append_text (Append_int (- 42)) = ''-42''" by (simp add: print_int_def)
  then have t: "concat (map append_text [Append ''= '', Append_int (- 42), Append_chr CHR '';'']) = ''= -42;''"
    by (simp only: append_text.simps list.map concat.simps) simp
  have "c_string ''a ''" by (simp add: c_string_def)
  moreover have "\<forall>x \<in> set [Append ''= '', Append_int (- 42), Append_chr CHR '';'']. append_valid x"
    by (simp add: c_string_def)
  ultimately have "\<exists>p. append_run (\<lambda>_. CHR ''x'') [Append ''= '', Append_int (- 42), Append_chr CHR '';''] (qstring_from_str ''a '') = Some p \<and>
      qstring_get_str p = ''a '' @ ''= -42;''"
    using qstring_appends [of "''a ''" _ "\<lambda>_. CHR ''x''"] unfolding t [symmetric] by blast
  then show ?thesis by simp
qed

end
