(* ===== verification/Qobject.thy ===== *)
theory Qobject
  imports Qdict Qstring
begin

text \<open>
  The object model of the emulator's monitor: \<open>qemu/qobject.h\<close>, \<open>qint.c\<close>, \<open>qbool.c\<close>, \<open>qlist.c\<close> and the typed
  access of \<open>qdict.c\<close>.

  \<^item> \<open>qobject\<close> has one constructor per type of object. A string object holds its C string, a floating
    point object the 64 bits of its number. Reference counts are not modelled.
  \<^item> A pointer that may be null is an option. An operation that aborts on an assertion or reads through
    a null pointer has no result; for the typed accessors that is \<open>None\<close>.
\<close>

section \<open>Objects\<close>

datatype qtype_code =
  QTYPE_NONE | QTYPE_QINT | QTYPE_QSTRING | QTYPE_QDICT | QTYPE_QLIST | QTYPE_QFLOAT | QTYPE_QBOOL | QTYPE_QERROR

datatype qobject =
  QInt int
| QString string
| QDict "qobject qdict"
| QList "qobject list"
| QFloat u64
| QBool int
| QError

fun qobject_type :: "qobject \<Rightarrow> qtype_code" where
  "qobject_type (QInt i) = QTYPE_QINT"
| "qobject_type (QString s) = QTYPE_QSTRING"
| "qobject_type (QDict d) = QTYPE_QDICT"
| "qobject_type (QList l) = QTYPE_QLIST"
| "qobject_type (QFloat f) = QTYPE_QFLOAT"
| "qobject_type (QBool b) = QTYPE_QBOOL"
| "qobject_type QError = QTYPE_QERROR"

section \<open>Lists\<close>

definition qlist_append_obj :: "qobject list \<Rightarrow> qobject \<Rightarrow> qobject list" where
  "qlist_append_obj l v = l @ [v]"

definition qlist_iter :: "qobject list \<Rightarrow> (qobject \<Rightarrow> 's \<Rightarrow> 's) \<Rightarrow> 's \<Rightarrow> 's" where
  "qlist_iter l f s = fold f l s"

definition qlist_copy :: "qobject list \<Rightarrow> qobject list" where
  "qlist_copy src = qlist_iter src (\<lambda>obj dst. qlist_append_obj dst obj) []"

definition qlist_pop :: "qobject list \<Rightarrow> qobject option \<times> qobject list" where
  "qlist_pop l = (case l of [] \<Rightarrow> (None, l) | v # vs \<Rightarrow> (Some v, vs))"

definition qlist_peek :: "qobject list \<Rightarrow> qobject option" where
  "qlist_peek l = (case l of [] \<Rightarrow> None | v # vs \<Rightarrow> Some v)"

lemma qlist_copy_id [simp]: "qlist_copy src = src"
proof -
  have "fold (\<lambda>obj dst. qlist_append_obj dst obj) xs ys = ys @ xs" for xs ys
    by (induction xs arbitrary: ys) (simp_all add: qlist_append_obj_def)
  then show ?thesis by (simp add: qlist_copy_def qlist_iter_def)
qed

section \<open>Typed access to dictionaries\<close>

fun qobject_to_qdict :: "qobject \<Rightarrow> qobject qdict option" where
  "qobject_to_qdict (QDict d) = Some d"
| "qobject_to_qdict _ = None"

fun qobject_to_qlist :: "qobject \<Rightarrow> qobject list option" where
  "qobject_to_qlist (QList l) = Some l"
| "qobject_to_qlist _ = None"

fun qint_get_int :: "qobject \<Rightarrow> int option" where
  "qint_get_int (QInt i) = Some i"
| "qint_get_int _ = None"

fun qbool_get_int :: "qobject \<Rightarrow> int option" where
  "qbool_get_int (QBool b) = Some b"
| "qbool_get_int _ = None"

fun qobject_str :: "qobject \<Rightarrow> string option" where
  "qobject_str (QString s) = Some s"
| "qobject_str _ = None"

definition qdict_get_obj :: "qobject qdict \<Rightarrow> string \<Rightarrow> qtype_code \<Rightarrow> qobject option" where
  "qdict_get_obj d key t =
    (case qdict_get d key of None \<Rightarrow> None | Some obj \<Rightarrow> if qobject_type obj = t then Some obj else None)"

definition qdict_get_int :: "qobject qdict \<Rightarrow> string \<Rightarrow> int option" where
  "qdict_get_int d key = Option.bind (qdict_get_obj d key QTYPE_QINT) qint_get_int"

definition qdict_get_bool :: "qobject qdict \<Rightarrow> string \<Rightarrow> int option" where
  "qdict_get_bool d key = Option.bind (qdict_get_obj d key QTYPE_QBOOL) qbool_get_int"

definition qdict_get_qlist :: "qobject qdict \<Rightarrow> string \<Rightarrow> qobject list option" where
  "qdict_get_qlist d key = Option.bind (qdict_get_obj d key QTYPE_QLIST) qobject_to_qlist"

definition qdict_get_qdict :: "qobject qdict \<Rightarrow> string \<Rightarrow> qobject qdict option" where
  "qdict_get_qdict d key = Option.bind (qdict_get_obj d key QTYPE_QDICT) qobject_to_qdict"

definition qdict_get_str :: "qobject qdict \<Rightarrow> string \<Rightarrow> string option" where
  "qdict_get_str d key = Option.bind (qdict_get_obj d key QTYPE_QSTRING) qobject_str"

definition qdict_get_try_int :: "qobject qdict \<Rightarrow> string \<Rightarrow> int \<Rightarrow> int" where
  "qdict_get_try_int d key def_value =
    (case qdict_get d key of Some (QInt i) \<Rightarrow> i | _ \<Rightarrow> def_value)"

definition qdict_get_try_bool :: "qobject qdict \<Rightarrow> string \<Rightarrow> int \<Rightarrow> int" where
  "qdict_get_try_bool d key def_value =
    (case qdict_get d key of Some (QBool b) \<Rightarrow> b | _ \<Rightarrow> def_value)"

definition qdict_get_try_str :: "qobject qdict \<Rightarrow> string \<Rightarrow> string option" where
  "qdict_get_try_str d key = (case qdict_get d key of Some (QString s) \<Rightarrow> Some s | _ \<Rightarrow> None)"

lemma qdict_get_int_iff: "qdict_get_int d k = Some i \<longleftrightarrow> qdict_get d k = Some (QInt i)"
proof (cases "qdict_get d k")
  case (Some v)
  then show ?thesis by (cases v) (simp_all add: qdict_get_int_def qdict_get_obj_def)
qed (simp add: qdict_get_int_def qdict_get_obj_def)

lemma qdict_get_str_iff: "qdict_get_str d k = Some s \<longleftrightarrow> qdict_get d k = Some (QString s)"
proof (cases "qdict_get d k")
  case (Some v)
  then show ?thesis by (cases v) (simp_all add: qdict_get_str_def qdict_get_obj_def)
qed (simp add: qdict_get_str_def qdict_get_obj_def)

section \<open>The value of an object\<close>

text \<open>What an object stands for, apart from how its dictionaries are laid out: a dictionary is a finite
  map, a truth value is zero or not.\<close>

datatype json_value =
  JInt int
| JString string
| JDict "string \<Rightarrow> json_value option"
| JList "json_value list"
| JFloat u64
| JBool bool
| JError

primrec json_value_of :: "qobject \<Rightarrow> json_value" where
  "json_value_of (QInt i) = JInt i"
| "json_value_of (QString s) = JString s"
| "json_value_of (QDict d) = JDict (qdict_get (map_qdict json_value_of d))"
| "json_value_of (QList l) = JList (map json_value_of l)"
| "json_value_of (QFloat f) = JFloat f"
| "json_value_of (QBool b) = JBool (b \<noteq> 0)"
| "json_value_of QError = JError"

lemma map_of_map_prod: "map_of (map (map_prod id f) xs) k = map_option f (map_of xs k)"
  by (induction xs) auto

lemma qdict_get_map: "qdict_inv d \<Longrightarrow> qdict_get (map_qdict f d) k = map_option f (qdict_get d k)"
  by (cases d) (simp add: qdict_inv_def qdict_get_bucket map_of_map_prod)

text \<open>Every dictionary in an object is well formed.\<close>

inductive qobject_inv :: "qobject \<Rightarrow> bool" where
  "qobject_inv (QInt i)"
| "qobject_inv (QString s)"
| "qdict_inv d \<Longrightarrow> (\<And>v. v \<in> set_qdict d \<Longrightarrow> qobject_inv v) \<Longrightarrow> qobject_inv (QDict d)"
| "(\<And>v. v \<in> set l \<Longrightarrow> qobject_inv v) \<Longrightarrow> qobject_inv (QList l)"
| "qobject_inv (QFloat f)"
| "qobject_inv (QBool b)"
| "qobject_inv QError"

inductive_simps qobject_inv_simps [simp]:
  "qobject_inv (QInt i)" "qobject_inv (QString s)" "qobject_inv (QDict d)" "qobject_inv (QList l)"
  "qobject_inv (QFloat f)" "qobject_inv (QBool b)" "qobject_inv QError"

lemma set_qdict_entries: "set_qdict d = snd ` set (qdict_entries d)"
  by (cases d) (force simp: qdict_entries_def)

end
