(* ===== verification/Json_Lexer.thy ===== *)
theory Json_Lexer
  imports Qobject
begin

text \<open>
  The lexer of the monitor's JSON dialect, \<open>qemu/json-lexer.c\<close>: a table-driven automaton that is fed one
  character at a time and calls back with each token.

  \<^item> \<open>lex_state\<close> has the states and the token types of the two C enumerations, which share the entries of
    the table; \<open>json_token_code\<close> is the number of a token type. Ranges of the table that later entries
    override are tested last.
  \<^item> The callback \<open>emit\<close> is a parameter and works on a state of the caller.
  \<^item> \<open>lex_run\<close> is the automaton without positions and callback, the specification that the proofs about
    whole inputs use.
\<close>

section \<open>Characters\<close>

abbreviation (input) DQ :: char where "DQ \<equiv> CHR 0x22"
abbreviation (input) SQ :: char where "SQ \<equiv> CHR 0x27"
abbreviation (input) BACKSLASH :: char where "BACKSLASH \<equiv> CHR 0x5C"

definition in_range :: "char \<Rightarrow> char \<Rightarrow> char \<Rightarrow> bool" where
  "in_range a b c \<longleftrightarrow> (of_char a :: nat) \<le> of_char c \<and> (of_char c :: nat) \<le> of_char b"

definition is_xdigit :: "char \<Rightarrow> bool" where
  "is_xdigit c \<longleftrightarrow> is_digit c \<or> in_range CHR ''a'' CHR ''f'' c \<or> in_range CHR ''A'' CHR ''F'' c"

definition is_space :: "char \<Rightarrow> bool" where
  "is_space c \<longleftrightarrow> c = CHR '' '' \<or> c = CHR 0x09 \<or> c = CHR 0x0D \<or> c = CHR 0x0A"

definition is_operator :: "char \<Rightarrow> bool" where
  "is_operator c \<longleftrightarrow> c \<in> set ''{}[],:''"

section \<open>The table\<close>

datatype lex_state =
  ERROR
| IN_DQ_UCODE3 | IN_DQ_UCODE2 | IN_DQ_UCODE1 | IN_DQ_UCODE0 | IN_DQ_STRING_ESCAPE | IN_DQ_STRING
| IN_SQ_UCODE3 | IN_SQ_UCODE2 | IN_SQ_UCODE1 | IN_SQ_UCODE0 | IN_SQ_STRING_ESCAPE | IN_SQ_STRING
| IN_ZERO | IN_DIGITS | IN_DIGIT | IN_EXP_E | IN_MANTISSA | IN_MANTISSA_DIGITS | IN_NONZERO_NUMBER
| IN_NEG_NONZERO_NUMBER
| IN_KEYWORD
| IN_ESCAPE | IN_ESCAPE_L | IN_ESCAPE_LL | IN_ESCAPE_I | IN_ESCAPE_I6 | IN_ESCAPE_I64
| IN_WHITESPACE
| IN_START
| JSON_OPERATOR | JSON_INTEGER | JSON_FLOAT | JSON_KEYWORD | JSON_STRING | JSON_ESCAPE | JSON_SKIP

fun json_token_code :: "lex_state \<Rightarrow> int" where
  "json_token_code JSON_OPERATOR = 100"
| "json_token_code JSON_INTEGER = 101"
| "json_token_code JSON_FLOAT = 102"
| "json_token_code JSON_KEYWORD = 103"
| "json_token_code JSON_STRING = 104"
| "json_token_code JSON_ESCAPE = 105"
| "json_token_code JSON_SKIP = 106"
| "json_token_code _ = 0"

definition TERMINAL :: "lex_state \<Rightarrow> char \<Rightarrow> lex_state" where
  "TERMINAL s c = (if (of_char c :: nat) \<le> 0x7F then s else ERROR)"

definition lex_escape :: "lex_state \<Rightarrow> lex_state \<Rightarrow> lex_state \<Rightarrow> char \<Rightarrow> lex_state" where
  "lex_escape same other ucode c =
    (if c \<in> set ''bfnrt'' \<or> c = SQ \<or> c = DQ then same
     else if c = CHR ''/'' \<or> c = BACKSLASH then other
     else if c = CHR ''u'' then ucode else ERROR)"

fun json_lexer :: "lex_state \<Rightarrow> char \<Rightarrow> lex_state" where
  "json_lexer IN_DQ_UCODE3 c = (if is_xdigit c then IN_DQ_STRING else ERROR)"
| "json_lexer IN_DQ_UCODE2 c = (if is_xdigit c then IN_DQ_UCODE3 else ERROR)"
| "json_lexer IN_DQ_UCODE1 c = (if is_xdigit c then IN_DQ_UCODE2 else ERROR)"
| "json_lexer IN_DQ_UCODE0 c = (if is_xdigit c then IN_DQ_UCODE1 else ERROR)"
| "json_lexer IN_DQ_STRING_ESCAPE c = lex_escape IN_DQ_STRING IN_DQ_STRING IN_DQ_UCODE0 c"
| "json_lexer IN_DQ_STRING c =
    (if c = BACKSLASH then IN_DQ_STRING_ESCAPE else if c = DQ then JSON_STRING
     else if c \<noteq> NUL then IN_DQ_STRING else ERROR)"
| "json_lexer IN_SQ_UCODE3 c = (if is_xdigit c then IN_SQ_STRING else ERROR)"
| "json_lexer IN_SQ_UCODE2 c = (if is_xdigit c then IN_SQ_UCODE3 else ERROR)"
| "json_lexer IN_SQ_UCODE1 c = (if is_xdigit c then IN_SQ_UCODE2 else ERROR)"
| "json_lexer IN_SQ_UCODE0 c = (if is_xdigit c then IN_SQ_UCODE1 else ERROR)"
| "json_lexer IN_SQ_STRING_ESCAPE c = lex_escape IN_SQ_STRING IN_DQ_STRING IN_SQ_UCODE0 c"
| "json_lexer IN_SQ_STRING c =
    (if c = BACKSLASH then IN_SQ_STRING_ESCAPE else if c = SQ then JSON_STRING
     else if c \<noteq> NUL then IN_SQ_STRING else ERROR)"
| "json_lexer IN_ZERO c =
    (if is_digit c then ERROR else if c = CHR ''.'' then IN_MANTISSA else TERMINAL JSON_INTEGER c)"
| "json_lexer IN_DIGITS c = (if is_digit c then IN_DIGITS else TERMINAL JSON_FLOAT c)"
| "json_lexer IN_DIGIT c = (if is_digit c then IN_DIGITS else ERROR)"
| "json_lexer IN_EXP_E c =
    (if c = CHR ''-'' \<or> c = CHR ''+'' then IN_DIGIT else if is_digit c then IN_DIGITS else ERROR)"
| "json_lexer IN_MANTISSA_DIGITS c =
    (if is_digit c then IN_MANTISSA_DIGITS else if c = CHR ''e'' \<or> c = CHR ''E'' then IN_EXP_E
     else TERMINAL JSON_FLOAT c)"
| "json_lexer IN_MANTISSA c = (if is_digit c then IN_MANTISSA_DIGITS else ERROR)"
| "json_lexer IN_NONZERO_NUMBER c =
    (if is_digit c then IN_NONZERO_NUMBER else if c = CHR ''e'' \<or> c = CHR ''E'' then IN_EXP_E
     else if c = CHR ''.'' then IN_MANTISSA else TERMINAL JSON_INTEGER c)"
| "json_lexer IN_NEG_NONZERO_NUMBER c =
    (if c = CHR ''0'' then IN_ZERO else if in_range CHR ''1'' CHR ''9'' c then IN_NONZERO_NUMBER else ERROR)"
| "json_lexer IN_KEYWORD c = (if in_range CHR ''a'' CHR ''z'' c then IN_KEYWORD else TERMINAL JSON_KEYWORD c)"
| "json_lexer IN_WHITESPACE c = (if is_space c then IN_WHITESPACE else TERMINAL JSON_SKIP c)"
| "json_lexer IN_ESCAPE_LL c = (if c = CHR ''d'' then JSON_ESCAPE else ERROR)"
| "json_lexer IN_ESCAPE_L c =
    (if c = CHR ''d'' then JSON_ESCAPE else if c = CHR ''l'' then IN_ESCAPE_LL else ERROR)"
| "json_lexer IN_ESCAPE_I64 c = (if c = CHR ''d'' then JSON_ESCAPE else ERROR)"
| "json_lexer IN_ESCAPE_I6 c = (if c = CHR ''4'' then IN_ESCAPE_I64 else ERROR)"
| "json_lexer IN_ESCAPE_I c = (if c = CHR ''6'' then IN_ESCAPE_I6 else ERROR)"
| "json_lexer IN_ESCAPE c =
    (if c \<in> set ''dipsf'' then JSON_ESCAPE else if c = CHR ''l'' then IN_ESCAPE_L
     else if c = CHR ''I'' then IN_ESCAPE_I else ERROR)"
| "json_lexer IN_START c =
    (if c = DQ then IN_DQ_STRING else if c = SQ then IN_SQ_STRING
     else if c = CHR ''0'' then IN_ZERO else if in_range CHR ''1'' CHR ''9'' c then IN_NONZERO_NUMBER
     else if c = CHR ''-'' then IN_NEG_NONZERO_NUMBER
     else if is_operator c then JSON_OPERATOR
     else if in_range CHR ''a'' CHR ''z'' c then IN_KEYWORD
     else if c = CHR ''%'' then IN_ESCAPE
     else if is_space c then IN_WHITESPACE else ERROR)"
| "json_lexer _ c = ERROR"

section \<open>The automaton\<close>

record JSONLexer =
  lstate :: lex_state
  ltoken :: string
  lx :: int
  ly :: int

definition json_lexer_init :: JSONLexer where
  "json_lexer_init = \<lparr>lstate = IN_START, ltoken = '''', lx = 0, ly = 0\<rparr>"

text \<open>The token types with which the callback is called.\<close>

definition is_token :: "lex_state \<Rightarrow> bool" where
  "is_token s \<longleftrightarrow> s \<in> {JSON_OPERATOR, JSON_ESCAPE, JSON_INTEGER, JSON_FLOAT, JSON_KEYWORD, JSON_STRING}"

text \<open>Only a terminal entry of the table can equal the entry for NUL, and no row for the start state is
  terminal: the loop over one character runs at most twice.\<close>

lemma lookahead_terminal:
  assumes "json_lexer s NUL \<noteq> ERROR"
  shows "s \<noteq> IN_START" "is_token (json_lexer s NUL) \<or> json_lexer s NUL = JSON_SKIP"
  using assms
  by (cases s; simp add: lex_escape_def is_digit_def is_xdigit_def in_range_def is_space_def is_operator_def
      TERMINAL_def is_token_def)+

declare json_lexer.simps [simp del]

lemma lookahead_again:
  assumes "json_lexer s NUL = json_lexer s c" "json_lexer s c \<noteq> ERROR"
  shows "s \<noteq> IN_START" "json_lexer s c \<noteq> JSON_SKIP \<Longrightarrow> is_token (json_lexer s c)"
  using lookahead_terminal [of s] assms by simp_all

type_synonym 's emitter = "string \<Rightarrow> lex_state \<Rightarrow> int \<Rightarrow> int \<Rightarrow> 's \<Rightarrow> 's"

function json_lexer_loop :: "'s emitter \<Rightarrow> char \<Rightarrow> JSONLexer \<Rightarrow> 's \<Rightarrow> int \<times> JSONLexer \<times> 's" where
  "json_lexer_loop emit ch l s =
    (let new_state = json_lexer (lstate l) ch;
         char_consumed = (json_lexer (lstate l) NUL \<noteq> new_state);
         l = (if char_consumed then l\<lparr>ltoken := ltoken l @ [ch]\<rparr> else l)
     in if new_state = ERROR then (- 22, l, s)
        else
          (let s = (if is_token new_state then emit (ltoken l) new_state (lx l) (ly l) s else s);
               l = (if is_token new_state \<or> new_state = JSON_SKIP then l\<lparr>ltoken := '''', lstate := IN_START\<rparr>
                    else l\<lparr>lstate := new_state\<rparr>)
           in if char_consumed then (0, l, s) else json_lexer_loop emit ch l s))"
  by pat_completeness auto
termination
  by (relation "measure (\<lambda>(emit, ch, l, s). if lstate l = IN_START then 0 else 1)")
    (auto simp: Let_def dest: lookahead_again)

declare json_lexer_loop.simps [simp del]

definition json_lexer_feed_char :: "'s emitter \<Rightarrow> JSONLexer \<Rightarrow> char \<Rightarrow> 's \<Rightarrow> int \<times> JSONLexer \<times> 's" where
  "json_lexer_feed_char emit l ch s =
    (let l = l\<lparr>lx := lx l + 1\<rparr>;
         l = (if ch = CHR 0x0A then l\<lparr>lx := 0, ly := ly l + 1\<rparr> else l)
     in json_lexer_loop emit ch l s)"

fun json_lexer_feed :: "'s emitter \<Rightarrow> JSONLexer \<Rightarrow> string \<Rightarrow> 's \<Rightarrow> int \<times> JSONLexer \<times> 's" where
  "json_lexer_feed emit l [] s = (0, l, s)"
| "json_lexer_feed emit l (ch # buffer) s =
    (let (err, l, s) = json_lexer_feed_char emit l ch s
     in if err < 0 then (err, l, s) else json_lexer_feed emit l buffer s)"

definition json_lexer_flush :: "'s emitter \<Rightarrow> JSONLexer \<Rightarrow> 's \<Rightarrow> int \<times> JSONLexer \<times> 's" where
  "json_lexer_flush emit l s = (if lstate l = IN_START then (0, l, s) else json_lexer_feed_char emit l NUL s)"

section \<open>The automaton without positions\<close>

type_synonym lexeme = "lex_state \<times> string"

text \<open>One character from a state and the text read so far: the tokens completed, the new state and text.\<close>

fun lex_start :: "char \<Rightarrow> lexeme option \<Rightarrow> (lexeme list \<times> lexeme) option" where
  "lex_start ch pre =
    (let new_state = json_lexer IN_START ch
     in if new_state = ERROR then None
        else Some (case pre of None \<Rightarrow> [] | Some t \<Rightarrow> [t],
                   (new_state, [ch])))"

definition finish :: "lexeme list \<times> lexeme \<Rightarrow> lexeme list \<times> lexeme" where
  "finish r = (case r of (ts, t) \<Rightarrow> if is_token (fst t) then (ts @ [t], (IN_START, [])) else (ts, t))"

definition lex_char :: "lexeme \<Rightarrow> char \<Rightarrow> (lexeme list \<times> lexeme) option" where
  "lex_char t ch =
    (let new_state = json_lexer (fst t) ch
     in if new_state = ERROR then None
        else if new_state = json_lexer (fst t) NUL
        then map_option finish
               (lex_start ch (if new_state = JSON_SKIP then None else Some (new_state, snd t)))
        else Some (finish ([], (new_state, snd t @ [ch]))))"

fun lex_run :: "string \<Rightarrow> lexeme \<Rightarrow> (lexeme list \<times> lexeme) option" where
  "lex_run [] t = Some ([], t)"
| "lex_run (c # w) t =
    (case lex_char t c of None \<Rightarrow> None
     | Some (ts, t) \<Rightarrow> (case lex_run w t of None \<Rightarrow> None | Some (us, u) \<Rightarrow> Some (ts @ us, u)))"

lemma lex_run_append:
  "lex_run (v @ w) t =
    (case lex_run v t of None \<Rightarrow> None
     | Some (ts, t) \<Rightarrow> (case lex_run w t of None \<Rightarrow> None | Some (us, u) \<Rightarrow> Some (ts @ us, u)))"
  by (induction v arbitrary: t) (auto split: option.splits prod.splits)

lemma skip_lookahead: "json_lexer s c = JSON_SKIP \<Longrightarrow> json_lexer s NUL = JSON_SKIP"
  by (cases s) (auto simp: json_lexer.simps lex_escape_def TERMINAL_def is_space_def split: if_splits)

lemma start_lookahead: "json_lexer IN_START NUL = ERROR" "json_lexer IN_START c \<noteq> JSON_SKIP"
  using lookahead_terminal(1) [of IN_START] skip_lookahead [of IN_START c] by auto

text \<open>The loop does what the automaton without positions does, and calls back with the tokens in order.\<close>

definition emit_all :: "'s emitter \<Rightarrow> (lexeme \<times> int \<times> int) list \<Rightarrow> 's \<Rightarrow> 's" where
  "emit_all emit ts s = fold (\<lambda>((k, w), x, y). emit w k x y) ts s"

lemma emit_all_append: "emit_all emit (ts @ us) s = emit_all emit us (emit_all emit ts s)"
  by (simp add: emit_all_def)

lemma lex_start_loop:
  assumes "lex_start ch pre = Some (ts, t)" "lstate l = IN_START" "ltoken l = ''''"
  shows "json_lexer_loop emit ch l s =
    (let (us, u) = finish ([], t)
     in (0, l\<lparr>lstate := fst u, ltoken := snd u\<rparr>, emit_all emit (map (\<lambda>v. (v, lx l, ly l)) us) s))"
proof -
  have t: "t = (json_lexer IN_START ch, [ch])" "json_lexer IN_START ch \<noteq> ERROR"
    using assms(1) by (auto simp: Let_def split: if_splits)
  then show ?thesis
    using assms(2,3) start_lookahead(1) start_lookahead(2) [of ch]
    by (subst json_lexer_loop.simps) (auto simp: Let_def finish_def emit_all_def)
qed

lemma lex_char_loop:
  assumes "lex_char (lstate l, ltoken l) ch = Some (ts, t)"
  shows "json_lexer_loop emit ch l s =
    (0, l\<lparr>lstate := fst t, ltoken := snd t\<rparr>, emit_all emit (map (\<lambda>v. (v, lx l, ly l)) ts) s)"
proof (cases "json_lexer (lstate l) ch = json_lexer (lstate l) NUL")
  case False
  then show ?thesis
    using assms skip_lookahead [of "lstate l" ch]
    by (subst json_lexer_loop.simps) (auto simp: lex_char_def Let_def finish_def emit_all_def split: if_splits)
next
  case True
  let ?k = "json_lexer (lstate l) ch"
  let ?l = "l\<lparr>ltoken := '''', lstate := IN_START\<rparr>"
  have k: "?k \<noteq> ERROR" using assms by (auto simp: lex_char_def Let_def split: if_splits)
  have tok: "?k = JSON_SKIP \<or> is_token ?k" using lookahead_again(2) [of "lstate l" ch] True k by auto
  define pre where "pre = (if ?k = JSON_SKIP then None else Some (?k, ltoken l))"
  obtain t' where t': "lex_start ch pre = Some (case pre of None \<Rightarrow> [] | Some t \<Rightarrow> [t], t')"
      "(ts, t) = finish (case pre of None \<Rightarrow> [] | Some t \<Rightarrow> [t], t')"
    using assms True k by (auto simp: lex_char_def Let_def pre_def split: if_splits)
  have "\<not> is_token JSON_SKIP" by (simp add: is_token_def)
  then have "json_lexer_loop emit ch l s =
      json_lexer_loop emit ch ?l (if ?k = JSON_SKIP then s else emit (ltoken l) ?k (lx l) (ly l) s)"
    using True k tok by (subst json_lexer_loop.simps) (auto simp: Let_def)
  also have "\<dots> = (0, l\<lparr>lstate := fst t, ltoken := snd t\<rparr>, emit_all emit (map (\<lambda>v. (v, lx l, ly l)) ts) s)"
    using t'(2) by (subst lex_start_loop [OF t'(1)]) (auto simp: pre_def finish_def emit_all_def Let_def)
  finally show ?thesis .
qed

lemma lex_run_feed:
  assumes "lex_run w (lstate l, ltoken l) = Some (ts, t)"
  shows "\<exists>x y us. map fst us = ts \<and> json_lexer_feed emit l w s =
    (0, l\<lparr>lstate := fst t, ltoken := snd t, lx := x, ly := y\<rparr>, emit_all emit us s)"
  using assms
proof (induction w arbitrary: l s ts)
  case Nil
  then have "json_lexer_feed emit l [] s = (0, l\<lparr>lstate := fst t, ltoken := snd t, lx := lx l, ly := ly l\<rparr>, emit_all emit [] s)"
    by (auto simp: emit_all_def)
  then show ?case using Nil by fastforce
next
  case (Cons c w)
  obtain ts1 t1 us where c: "lex_char (lstate l, ltoken l) c = Some (ts1, t1)"
      and w: "lex_run w (fst t1, snd t1) = Some (us, t)" and ts: "ts = ts1 @ us"
    using Cons.prems by (auto split: option.splits prod.splits)
  define l' where "l' = (if c = CHR 0x0A then l\<lparr>lx := 0, ly := ly l + 1\<rparr> else l\<lparr>lx := lx l + 1\<rparr>)"
  define v where "v = map (\<lambda>v. (v, lx l', ly l')) ts1"
  have l': "json_lexer_feed_char emit l c s = (0, l'\<lparr>lstate := fst t1, ltoken := snd t1\<rparr>, emit_all emit v s)"
    using lex_char_loop [of l' c ts1 t1 emit s] c
    by (auto simp: json_lexer_feed_char_def Let_def l'_def v_def)
  obtain x y vs where "map fst vs = us" "json_lexer_feed emit (l'\<lparr>lstate := fst t1, ltoken := snd t1\<rparr>) w (emit_all emit v s) =
      (0, l'\<lparr>lstate := fst t, ltoken := snd t, lx := x, ly := y\<rparr>, emit_all emit vs (emit_all emit v s))"
    using Cons.IH [of "l'\<lparr>lstate := fst t1, ltoken := snd t1\<rparr>" us "emit_all emit v s"] w by auto
  then have "map fst (v @ vs) = ts" "json_lexer_feed emit l (c # w) s =
      (0, l\<lparr>lstate := fst t, ltoken := snd t, lx := x, ly := y\<rparr>, emit_all emit (v @ vs) s)"
    using l' ts by (auto simp: emit_all_append v_def l'_def comp_def)
  then show ?case by blast
qed

section \<open>What every input does\<close>

lemma operator_start: "json_lexer s c = JSON_OPERATOR \<Longrightarrow> s = IN_START \<and> is_operator c"
  by (cases s) (auto simp: json_lexer.simps lex_escape_def TERMINAL_def split: if_splits)

lemma string_lookahead: "json_lexer s NUL \<noteq> JSON_STRING"
  by (cases s) (simp_all add: json_lexer.simps lex_escape_def TERMINAL_def)

lemma start_row: "json_lexer s c \<noteq> IN_START"
  by (cases s) (auto simp: json_lexer.simps lex_escape_def TERMINAL_def)

definition lexer_inv :: "(char \<Rightarrow> bool) \<Rightarrow> JSONLexer \<Rightarrow> bool" where
  "lexer_inv Q l \<longleftrightarrow> (lstate l = IN_START \<longrightarrow> ltoken l = '''') \<and> (\<forall>c \<in> set (ltoken l). Q c)"

text \<open>A property of the caller's state that tokens of the right shape keep is kept by every input. The
  characters of the tokens are those of the input; the NUL that ends it is in none of them.\<close>

definition emit_keeps :: "(char \<Rightarrow> bool) \<Rightarrow> 's emitter \<Rightarrow> ('s \<Rightarrow> bool) \<Rightarrow> bool" where
  "emit_keeps Q emit P \<longleftrightarrow>
    (\<forall>w k x y s. P s \<longrightarrow> is_token k \<longrightarrow> (\<forall>c \<in> set w. Q c) \<longrightarrow>
      (k = JSON_OPERATOR \<longrightarrow> (\<exists>c. w = [c] \<and> is_operator c)) \<longrightarrow>
      (k = JSON_STRING \<longrightarrow> w \<noteq> []) \<longrightarrow> P (emit w k x y s))"

lemma loop_invariant:
  assumes "emit_keeps Q emit P" "lexer_inv Q l" "P s" "ch = NUL \<or> Q ch"
  shows "case json_lexer_loop emit ch l s of (e, l', s') \<Rightarrow> lexer_inv Q l' \<and> P s'"
  using assms
proof (induction emit ch l s rule: json_lexer_loop.induct)
  case (1 emit ch l s)
  let ?k = "json_lexer (lstate l) ch"
  define consumed where "consumed \<longleftrightarrow> json_lexer (lstate l) NUL \<noteq> ?k"
  define l1 where "l1 = (if consumed then l\<lparr>ltoken := ltoken l @ [ch]\<rparr> else l)"
  define s1 where "s1 = (if is_token ?k then emit (ltoken l1) ?k (lx l1) (ly l1) s else s)"
  define l2 where "l2 = (if is_token ?k \<or> ?k = JSON_SKIP then l1\<lparr>ltoken := '''', lstate := IN_START\<rparr> else l1\<lparr>lstate := ?k\<rparr>)"
  have eq: "json_lexer_loop emit ch l s =
      (if ?k = ERROR then (- 22, l1, s) else if consumed then (0, l2, s1) else json_lexer_loop emit ch l2 s1)"
    by (subst json_lexer_loop.simps) (simp only: Let_def consumed_def l1_def s1_def l2_def)
  have err: "lexer_inv Q l1" if "?k = ERROR"
    using "1.prems"(2,4) that start_lookahead(1) by (auto simp: lexer_inv_def l1_def consumed_def)
  have "\<exists>c. ltoken l1 = [c] \<and> is_operator c" if "?k = JSON_OPERATOR"
    using operator_start [OF that] "1.prems"(2) start_lookahead(1) that
    by (simp add: lexer_inv_def l1_def consumed_def)
  moreover have "ltoken l1 \<noteq> []" if "?k = JSON_STRING"
    using string_lookahead [of "lstate l"] that by (simp add: l1_def consumed_def)
  moreover have chars: "\<forall>c \<in> set (ltoken l1). Q c"
    using "1.prems"(2,4) by (auto simp: lexer_inv_def l1_def consumed_def)
  ultimately have s1: "P s1" using "1.prems"(1,3) by (auto simp: s1_def emit_keeps_def)
  have l2: "lexer_inv Q l2" using start_row chars by (simp add: lexer_inv_def l2_def)
  show ?case
  proof (cases "?k = ERROR \<or> consumed")
    case True
    then show ?thesis using eq err l2 s1 "1.prems"(3) by auto
  next
    case False
    then have "case json_lexer_loop emit ch l2 s1 of (e, l', s') \<Rightarrow> lexer_inv Q l' \<and> P s'"
      using 1(1) [OF refl refl refl _ refl refl, folded consumed_def, folded l1_def, folded s1_def l2_def] "1.prems"(1,4) l2 s1
      by simp
    then show ?thesis using eq False by simp
  qed
qed

lemma feed_char_invariant:
  assumes "emit_keeps Q emit P" "lexer_inv Q l" "P s" "ch = NUL \<or> Q ch"
  shows "case json_lexer_feed_char emit l ch s of (e, l', s') \<Rightarrow> lexer_inv Q l' \<and> P s'"
  using loop_invariant [OF assms(1) _ assms(3,4)] assms(2) by (simp add: json_lexer_feed_char_def Let_def lexer_inv_def)

lemma feed_invariant:
  assumes "emit_keeps Q emit P" "lexer_inv Q l" "P s" "\<forall>c \<in> set w. Q c"
  shows "case json_lexer_feed emit l w s of (e, l', s') \<Rightarrow> lexer_inv Q l' \<and> P s'"
  using assms(2-)
proof (induction w arbitrary: l s)
  case (Cons c w)
  obtain e l' s' where c: "json_lexer_feed_char emit l c s = (e, l', s')" using prod_cases3 by blast
  with feed_char_invariant [OF assms(1) Cons.prems(1,2), of c] Cons.prems(3) have "lexer_inv Q l'" "P s'" by auto
  with Cons.IH Cons.prems(3) c show ?case by simp
qed simp

lemma flush_invariant:
  assumes "emit_keeps Q emit P" "lexer_inv Q l" "P s"
  shows "case json_lexer_flush emit l s of (e, l', s') \<Rightarrow> P s'"
  using feed_char_invariant [OF assms, of NUL] assms(3) by (auto simp: json_lexer_flush_def)

section \<open>Texts that lex to given tokens\<close>

text \<open>A number or a keyword is only complete when the character after it is seen; it is pending until then.\<close>

fun pending :: "lexeme \<Rightarrow> lexeme list" where
  "pending (IN_ZERO, w) = [(JSON_INTEGER, w)]"
| "pending (IN_NONZERO_NUMBER, w) = [(JSON_INTEGER, w)]"
| "pending (IN_KEYWORD, w) = [(JSON_KEYWORD, w)]"
| "pending (_, w) = []"

definition ready :: "lexeme \<Rightarrow> bool" where
  "ready t \<longleftrightarrow> t = (IN_START, []) \<or> fst t = IN_WHITESPACE"

definition settled :: "lexeme \<Rightarrow> bool" where
  "settled t \<longleftrightarrow> ready t \<or> fst t \<in> {IN_ZERO, IN_NONZERO_NUMBER, IN_KEYWORD}"

definition lexes :: "lexeme \<Rightarrow> string \<Rightarrow> lexeme list \<Rightarrow> lexeme \<Rightarrow> bool" where
  "lexes t w ts u \<longleftrightarrow> settled t \<and> settled u \<and> (\<exists>us. lex_run w t = Some (us, u) \<and> us @ pending u = pending t @ ts)"

lemma settled_start [simp]: "ready (IN_START, [])" "settled (IN_START, [])"
  by (simp_all add: ready_def settled_def)

lemma ready_pending [simp]: "ready t \<Longrightarrow> pending t = []"
  by (cases t) (auto simp: ready_def)

lemma lexes_trans: "lexes t v ts u \<Longrightarrow> lexes u w us x \<Longrightarrow> lexes t (v @ w) (ts @ us) x"
proof -
  assume "lexes t v ts u" "lexes u w us x"
  then obtain ps qs where "lex_run v t = Some (ps, u)" "lex_run w u = Some (qs, x)"
    and eq: "ps @ pending u = pending t @ ts" "qs @ pending x = pending u @ us" and s: "settled t" "settled x"
    by (auto simp: lexes_def)
  then have "lex_run (v @ w) t = Some (ps @ qs, x)" by (simp add: lex_run_append)
  moreover have "(ps @ qs) @ pending x = pending t @ ts @ us" using eq by (metis append.assoc)
  ultimately show ?thesis using s by (auto simp: lexes_def)
qed

lemma lexes_Nil: "settled t \<Longrightarrow> lexes t [] [] t"
  by (simp add: lexes_def)

lemma settled_cases:
  assumes "settled t"
  obtains "t = (IN_START, [])" | w where "t = (IN_WHITESPACE, w)" | w where "t = (IN_ZERO, w)"
    | w where "t = (IN_NONZERO_NUMBER, w)" | w where "t = (IN_KEYWORD, w)"
  using assms by (cases t) (auto simp: settled_def ready_def)

lemma operator_cases:
  "is_operator c \<longleftrightarrow> c = CHR ''{'' \<or> c = CHR ''}'' \<or> c = CHR ''['' \<or> c = CHR '']'' \<or> c = CHR '','' \<or> c = CHR '':''"
  by (simp add: is_operator_def)

lemma delimiter_code:
  assumes "is_operator c \<or> is_space c"
  shows "(of_char c :: nat) \<in> {123, 125, 91, 93, 44, 58, 32, 9, 13, 10}"
  using assms unfolding operator_cases is_space_def by (elim disjE) simp_all

lemma nul_rows:
  "json_lexer IN_ZERO NUL = JSON_INTEGER" "json_lexer IN_NONZERO_NUMBER NUL = JSON_INTEGER"
  "json_lexer IN_KEYWORD NUL = JSON_KEYWORD" "json_lexer IN_WHITESPACE NUL = JSON_SKIP"
  by (simp_all add: json_lexer.simps is_digit_def in_range_def is_space_def TERMINAL_def)

lemma delimiter_rows:
  assumes "is_operator c \<or> is_space c"
  shows "json_lexer IN_ZERO c = JSON_INTEGER" "json_lexer IN_NONZERO_NUMBER c = JSON_INTEGER"
    "json_lexer IN_KEYWORD c = JSON_KEYWORD"
proof -
  have "\<not> is_digit c" "c \<noteq> CHR ''.''" "c \<noteq> CHR ''e''" "c \<noteq> CHR ''E''" "\<not> in_range CHR ''a'' CHR ''z'' c"
    "(of_char c :: nat) \<le> 127"
    using delimiter_code [OF assms] by (auto simp: is_digit_def in_range_def)
  then show "json_lexer IN_ZERO c = JSON_INTEGER" "json_lexer IN_NONZERO_NUMBER c = JSON_INTEGER"
    "json_lexer IN_KEYWORD c = JSON_KEYWORD" by (simp_all add: json_lexer.simps TERMINAL_def)
qed

lemma start_rows:
  "is_operator c \<Longrightarrow> json_lexer IN_START c = JSON_OPERATOR" "is_space c \<Longrightarrow> json_lexer IN_START c = IN_WHITESPACE"
proof -
  show "is_operator c \<Longrightarrow> json_lexer IN_START c = JSON_OPERATOR"
    unfolding operator_cases by (elim disjE) (simp_all add: json_lexer.simps in_range_def is_operator_def)
  show "is_space c \<Longrightarrow> json_lexer IN_START c = IN_WHITESPACE"
    unfolding is_space_def
    by (elim disjE) (simp_all add: json_lexer.simps in_range_def is_operator_def is_space_def)
qed

text \<open>A delimiter completes what is pending and is then read as from the start.\<close>

lemma lex_char_start: "json_lexer IN_START c \<noteq> ERROR \<Longrightarrow>
  lex_char (IN_START, []) c = Some (finish ([], (json_lexer IN_START c, [c])))"
  using start_lookahead(1) by (simp add: lex_char_def Let_def)

lemma lex_char_delimiter:
  assumes "settled t" "is_operator c \<or> is_space c" "fst t = IN_WHITESPACE \<Longrightarrow> \<not> is_space c"
  shows "lex_char t c = Some (finish (pending t, (json_lexer IN_START c, [c])))"
proof -
  have c: "json_lexer IN_START c \<noteq> ERROR" using start_rows assms(2) by fastforce
  have ws: "json_lexer IN_WHITESPACE c = JSON_SKIP" if "\<not> is_space c"
    using that delimiter_code [OF assms(2)] by (auto simp: json_lexer.simps TERMINAL_def)
  show ?thesis
    using assms(1)
    by (cases rule: settled_cases)
      (use c ws assms(3) start_lookahead(1) in
        \<open>simp_all add: lex_char_def Let_def nul_rows delimiter_rows [OF assms(2)]\<close>)
qed

lemma lexes_operator:
  assumes "settled t" "is_operator c"
  shows "lexes t [c] [(JSON_OPERATOR, [c])] (IN_START, [])"
proof -
  have "\<not> is_space c" using assms(2) by (auto simp: operator_cases is_space_def)
  then have "lex_char t c = Some (pending t @ [(JSON_OPERATOR, [c])], (IN_START, []))"
    using lex_char_delimiter [OF assms(1), of c] assms(2) by (simp add: start_rows finish_def is_token_def)
  then show ?thesis using assms(1) by (simp add: lexes_def)
qed

lemma lexes_space_char:
  assumes "settled t" "is_space c"
  shows "\<exists>u. lexes t [c] [] u \<and> ready u"
proof (cases "fst t = IN_WHITESPACE")
  case True
  then have "lex_char t c = Some ([], (IN_WHITESPACE, snd t @ [c]))"
    using assms(2) by (simp add: lex_char_def json_lexer.simps finish_def is_token_def is_space_def TERMINAL_def)
  moreover have "pending t = []" using True by (simp add: ready_def)
  ultimately show ?thesis using assms(1) by (auto simp: lexes_def settled_def ready_def)
next
  case False
  then have "lex_char t c = Some (pending t, (IN_WHITESPACE, [c]))"
    using lex_char_delimiter [OF assms(1), of c] assms(2) by (simp add: start_rows finish_def is_token_def)
  then show ?thesis using assms(1) by (auto simp: lexes_def settled_def ready_def)
qed

lemma lexes_space:
  assumes "settled t" "\<forall>c \<in> set w. is_space c"
  shows "\<exists>u. lexes t w [] u \<and> (w \<noteq> [] \<or> ready t \<longrightarrow> ready u)"
  using assms
proof (induction w arbitrary: t)
  case (Cons c w)
  obtain u where u: "lexes t [c] [] u" "ready u" using lexes_space_char [of t c] Cons.prems by auto
  then obtain x where "lexes u w [] x" "ready x" using Cons.IH [of u] Cons.prems by (auto simp: settled_def)
  then show ?case using lexes_trans [OF u(1), of w "[]" x] by fastforce
next
  case Nil
  then show ?case using lexes_Nil by blast
qed

text \<open>White space before a token does not change how it is read.\<close>

lemma lex_char_ready:
  assumes "ready t" "\<not> is_space c" "(of_char c :: nat) < 128"
  shows "lex_char t c = lex_char (IN_START, []) c"
proof (cases "t = (IN_START, [])")
  case False
  then have t: "fst t = IN_WHITESPACE" using assms(1) by (auto simp: ready_def)
  have "json_lexer IN_WHITESPACE c = JSON_SKIP" using assms(2,3) by (simp add: json_lexer.simps TERMINAL_def)
  then show ?thesis
    using t start_lookahead(1) by (simp add: lex_char_def nul_rows Let_def)
qed simp

lemma lexes_ready:
  assumes "ready t" "\<not> is_space c" "(of_char c :: nat) < 128" "lex_run (c # w) (IN_START, []) = Some (us, u)"
    and "settled u" "us @ pending u = ts"
  shows "lexes t (c # w) ts u"
  using assms(1,4-) lex_char_ready [OF assms(1-3)] by (simp add: lexes_def settled_def)

section \<open>Numbers, keywords and strings\<close>

lemma lex_run_stay:
  assumes "\<And>c. c \<in> set w \<Longrightarrow> json_lexer s c = s" "json_lexer s NUL \<noteq> s" "s \<noteq> ERROR" "\<not> is_token s"
  shows "lex_run w (s, v) = Some ([], (s, v @ w))"
  using assms(1)
proof (induction w arbitrary: v)
  case (Cons c w)
  have "lex_char (s, v) c = Some ([], (s, v @ [c]))"
    using Cons.prems [of c] assms(2-4) by (simp add: lex_char_def finish_def)
  then show ?case using Cons.IH [of "v @ [c]"] Cons.prems by simp
qed simp

lemma digits_leading: "0 < n \<Longrightarrow> \<exists>c w. digits n = c # w \<and> in_range CHR ''1'' CHR ''9'' c \<and> (\<forall>c \<in> set w. is_digit c)"
proof (induction n rule: digits.induct)
  case (1 n)
  show ?case
  proof (cases "n < 10")
    case True
    then have "digits n = [digit n]" by (subst digits.simps) simp
    then show ?thesis using True "1.prems" by (simp add: in_range_def of_char_digit)
  next
    case False
    then have "0 < n div 10" by (simp add: div_greater_zero_iff)
    with 1 False obtain c w where "digits (n div 10) = c # w" "in_range CHR ''1'' CHR ''9'' c" "\<forall>c \<in> set w. is_digit c"
      by blast
    moreover have "digits n = digits (n div 10) @ [digit (n mod 10)]" using False by (subst digits.simps) simp
    ultimately show ?thesis by auto
  qed
qed

lemma leading_digit:
  assumes "in_range CHR ''1'' CHR ''9'' c"
  shows "json_lexer IN_START c = IN_NONZERO_NUMBER" "json_lexer IN_NEG_NONZERO_NUMBER c = IN_NONZERO_NUMBER"
    "\<not> is_space c" "(of_char c :: nat) < 128"
  using assms by (auto simp: json_lexer.simps in_range_def is_space_def)

lemma lex_run_number: "\<forall>c \<in> set w. is_digit c \<Longrightarrow> lex_run w (IN_NONZERO_NUMBER, v) = Some ([], (IN_NONZERO_NUMBER, v @ w))"
  by (rule lex_run_stay) (simp_all add: nul_rows is_token_def, simp add: json_lexer.simps)

lemma lexes_int:
  assumes "ready t"
  shows "\<exists>u. lexes t (print_int i) [(JSON_INTEGER, print_int i)] u"
proof (cases "i = 0")
  case True
  moreover have "print_int 0 = ''0''" by code_simp
  ultimately have p: "print_int i = ''0''" by simp
  have "lex_run ''0'' (IN_START, []) = Some ([], (IN_ZERO, ''0''))"
    using start_lookahead(1) by (simp add: lex_char_def finish_def json_lexer.simps is_token_def)
  from lexes_ready [OF assms _ _ this] show ?thesis unfolding p by (auto simp: is_space_def settled_def)
next
  case False
  define n where "n = nat \<bar>i\<bar>"
  obtain c w where w: "digits n = c # w" and c: "in_range CHR ''1'' CHR ''9'' c" and "\<forall>c \<in> set w. is_digit c"
    using digits_leading [of n] False by (auto simp: n_def)
  note run = lex_run_number [OF this(3)] and lead = leading_digit [OF c]
  show ?thesis
  proof (cases "i < 0")
    case True
    then have p: "print_int i = CHR ''-'' # c # w" using w by (simp add: print_int_def n_def)
    have "lex_char (IN_START, []) CHR ''-'' = Some ([], (IN_NEG_NONZERO_NUMBER, ''-''))"
      by (subst lex_char_start) (simp_all add: json_lexer.simps in_range_def finish_def is_token_def)
    moreover have "lex_char (IN_NEG_NONZERO_NUMBER, ''-'') c = Some ([], (IN_NONZERO_NUMBER, [CHR ''-'', c]))"
      using lead(2) by (simp add: lex_char_def finish_def is_token_def json_lexer.simps in_range_def)
    ultimately have "lex_run (CHR ''-'' # c # w) (IN_START, []) = Some ([], (IN_NONZERO_NUMBER, CHR ''-'' # c # w))"
      using run by simp
    from lexes_ready [OF assms _ _ this] show ?thesis unfolding p by (auto simp: is_space_def settled_def)
  next
    case pos: False
    then have p: "print_int i = c # w" using w by (simp add: print_int_def n_def)
    have "lex_run (c # w) (IN_START, []) = Some ([], (IN_NONZERO_NUMBER, c # w))"
      using run lead(1) by (simp add: lex_char_start finish_def is_token_def)
    from lexes_ready [OF assms lead(3,4) this] show ?thesis unfolding p by (auto simp: settled_def)
  qed
qed

lemma lexes_keyword:
  assumes "ready t" "w \<noteq> []" "\<forall>c \<in> set w. in_range CHR ''a'' CHR ''z'' c"
  shows "\<exists>u. lexes t w [(JSON_KEYWORD, w)] u"
proof -
  obtain c v where w: "w = c # v" using assms(2) by (cases w) auto
  have az: "in_range CHR ''a'' CHR ''z'' c" using assms(3) w by simp
  then have c: "\<not> is_operator c" "\<not> is_space c" "(of_char c :: nat) < 128"
    using delimiter_code [of c] by (auto simp: in_range_def)
  have "c \<noteq> DQ" "c \<noteq> SQ" "c \<noteq> CHR ''0''" "c \<noteq> CHR ''-''" "\<not> in_range CHR ''1'' CHR ''9'' c"
    using az by (auto simp: in_range_def)
  then have start: "json_lexer IN_START c = IN_KEYWORD" using c(1) az by (simp add: json_lexer.simps)
  have "lex_run v (IN_KEYWORD, [c]) = Some ([], (IN_KEYWORD, [c] @ v))"
    using assms(3) w by (intro lex_run_stay) (simp_all add: nul_rows is_token_def, simp add: json_lexer.simps)
  then have "lex_run (c # v) (IN_START, []) = Some ([], (IN_KEYWORD, c # v))"
    using start by (simp add: lex_char_start finish_def is_token_def)
  from lexes_ready [OF assms(1) c(2,3) this] show ?thesis unfolding w by (auto simp: settled_def)
qed

text \<open>The body of a double-quoted string: characters that stand for themselves and escapes.\<close>

inductive dq_body :: "string \<Rightarrow> bool" where
  dq_empty: "dq_body []"
| dq_plain: "dq_body w \<Longrightarrow> c \<noteq> NUL \<Longrightarrow> c \<noteq> DQ \<Longrightarrow> c \<noteq> BACKSLASH \<Longrightarrow> dq_body (c # w)"
| dq_escape: "dq_body w \<Longrightarrow> c \<in> set ''bfnrt/'' \<union> {SQ, DQ, BACKSLASH} \<Longrightarrow> dq_body (BACKSLASH # c # w)"
| dq_unicode: "dq_body w \<Longrightarrow> \<forall>c \<in> {c0, c1, c2, c3}. is_xdigit c \<Longrightarrow> dq_body (BACKSLASH # CHR ''u'' # c0 # c1 # c2 # c3 # w)"

lemma dq_append: "dq_body v \<Longrightarrow> dq_body w \<Longrightarrow> dq_body (v @ w)"
  by (induction v rule: dq_body.induct) (auto intro: dq_body.intros)

lemma lex_char_inner:
  "json_lexer s c = s' \<Longrightarrow> json_lexer s NUL = ERROR \<Longrightarrow> s' \<noteq> ERROR \<Longrightarrow> \<not> is_token s' \<Longrightarrow>
    lex_char (s, v) c = Some ([], (s', v @ [c]))"
  by (simp add: lex_char_def finish_def)

lemma dq_nul:
  "json_lexer IN_DQ_STRING NUL = ERROR" "json_lexer IN_DQ_STRING_ESCAPE NUL = ERROR"
  "json_lexer IN_DQ_UCODE0 NUL = ERROR" "json_lexer IN_DQ_UCODE1 NUL = ERROR"
  "json_lexer IN_DQ_UCODE2 NUL = ERROR" "json_lexer IN_DQ_UCODE3 NUL = ERROR"
  by (simp_all add: json_lexer.simps lex_escape_def is_xdigit_def is_digit_def in_range_def)

lemma lex_run_dq_body: "dq_body w \<Longrightarrow> lex_run w (IN_DQ_STRING, v) = Some ([], (IN_DQ_STRING, v @ w))"
proof (induction w arbitrary: v rule: dq_body.induct)
  case (dq_plain w c)
  then have "lex_char (IN_DQ_STRING, v) c = Some ([], (IN_DQ_STRING, v @ [c]))"
    by (intro lex_char_inner) (simp_all add: json_lexer.simps is_token_def)
  with dq_plain.IH show ?case by simp
next
  case (dq_escape w c)
  have "lex_char (IN_DQ_STRING, v) BACKSLASH = Some ([], (IN_DQ_STRING_ESCAPE, v @ [BACKSLASH]))"
    by (intro lex_char_inner) (simp_all add: json_lexer.simps is_token_def)
  moreover have "lex_char (IN_DQ_STRING_ESCAPE, v @ [BACKSLASH]) c = Some ([], (IN_DQ_STRING, v @ [BACKSLASH, c]))"
    using dq_escape.hyps(2) by (subst lex_char_inner) (auto simp: json_lexer.simps lex_escape_def is_token_def)
  ultimately show ?case using dq_escape.IH by simp
next
  case (dq_unicode w c0 c1 c2 c3)
  have "lex_char (IN_DQ_STRING, v) BACKSLASH = Some ([], (IN_DQ_STRING_ESCAPE, v @ [BACKSLASH]))"
    "lex_char (IN_DQ_STRING_ESCAPE, v @ [BACKSLASH]) CHR ''u'' = Some ([], (IN_DQ_UCODE0, (v @ [BACKSLASH]) @ ''u''))"
    by (intro lex_char_inner; simp add: json_lexer.simps lex_escape_def is_token_def)+
  moreover have
    "lex_char (IN_DQ_UCODE0, x) c0 = Some ([], (IN_DQ_UCODE1, x @ [c0]))"
    "lex_char (IN_DQ_UCODE1, x) c1 = Some ([], (IN_DQ_UCODE2, x @ [c1]))"
    "lex_char (IN_DQ_UCODE2, x) c2 = Some ([], (IN_DQ_UCODE3, x @ [c2]))"
    "lex_char (IN_DQ_UCODE3, x) c3 = Some ([], (IN_DQ_STRING, x @ [c3]))" for x
    using dq_unicode.hyps(2)
    by (intro lex_char_inner; simp add: dq_nul; simp add: json_lexer.simps is_token_def)+
  ultimately show ?case using dq_unicode.IH by simp
qed simp

lemma lexes_string:
  assumes "ready t" "dq_body w"
  shows "lexes t (DQ # w @ [DQ]) [(JSON_STRING, DQ # w @ [DQ])] (IN_START, [])"
proof (rule lexes_ready [OF assms(1)])
  have "lex_char (IN_START, []) DQ = Some ([], (IN_DQ_STRING, [DQ]))"
    by (subst lex_char_start) (simp_all add: json_lexer.simps finish_def is_token_def)
  moreover have "lex_char (IN_DQ_STRING, v) DQ = Some ([(JSON_STRING, v @ [DQ])], (IN_START, []))" for v
    by (simp add: lex_char_def json_lexer.simps finish_def is_token_def)
  ultimately show "lex_run (DQ # w @ [DQ]) (IN_START, []) = Some ([(JSON_STRING, DQ # w @ [DQ])], (IN_START, []))"
    using lex_run_dq_body [OF assms(2)] by (simp add: lex_run_append)
qed (simp_all add: is_space_def)

text \<open>In a single-quoted string the escapes of slash and backslash lead into a double-quoted one.\<close>

lemma single_quote_escape:
  "lex_run (SQ # BACKSLASH # CHR ''/'' # w @ [SQ]) (IN_START, []) =
   lex_run (w @ [SQ]) (IN_DQ_STRING, [SQ, BACKSLASH, CHR ''/''])"
  by (simp add: lex_char_def Let_def finish_def json_lexer.simps lex_escape_def in_range_def is_token_def
      split: option.split)

lemma single_quote_unclosed:
  assumes "\<forall>c \<in> set w. c \<noteq> NUL \<and> c \<noteq> DQ \<and> c \<noteq> BACKSLASH"
  shows "\<exists>v. lex_run (SQ # BACKSLASH # CHR ''/'' # w @ [SQ]) (IN_START, []) = Some ([], (IN_DQ_STRING, v))"
proof -
  have "json_lexer IN_DQ_STRING NUL = ERROR" by (simp add: json_lexer.simps)
  then have "lex_run (w @ [SQ]) (IN_DQ_STRING, u) = Some ([], (IN_DQ_STRING, u @ w @ [SQ]))" for u
    using assms by (intro lex_run_stay) (auto simp: is_token_def json_lexer.simps)
  then show ?thesis unfolding single_quote_escape by blast
qed

end
