(* ===== verification/Json_Parser.thy ===== *)
theory Json_Parser
  imports Json_Lexer
begin

text \<open>
  From characters to objects: \<open>qemu/json-streamer.c\<close>, which collects the tokens of one message, and
  \<open>qemu/json-parser.c\<close>, the recursive descent over them.

  \<^item> A token is the dictionary the C code makes of it, with the entries \<open>type\<close>, \<open>token\<close>, \<open>x\<close> and \<open>y\<close>.
  \<^item> The parser's functions return \<open>None\<close> where the C code aborts on an assertion or reads through a null
    pointer (a token that is not there). Otherwise they return the object or the null pointer, the value
    of \<open>*tokens\<close> after the call, and the arguments of the variadic caller that are left.
  \<^item> The recursion is nested: it continues on the tokens a call has left. That it ends is proved together
    with the bound on what is left.
  \<^item> \<open>strtod\<close> is a parameter.
\<close>

section \<open>Collecting the tokens of a message\<close>

record 'r JSONMessageParser =
  brace_count :: int
  bracket_count :: int
  tokens :: "qobject list"
  client :: 'r

definition make_token :: "string \<Rightarrow> lex_state \<Rightarrow> int \<Rightarrow> int \<Rightarrow> qobject" where
  "make_token w k x y =
    (let dict = qdict_new;
         dict = qdict_put_obj dict ''type'' (QInt (json_token_code k));
         dict = qdict_put_obj dict ''token'' (QString w);
         dict = qdict_put_obj dict ''x'' (QInt x);
         dict = qdict_put_obj dict ''y'' (QInt y)
     in QDict dict)"

definition count_operator :: "string \<Rightarrow> 'r JSONMessageParser \<Rightarrow> 'r JSONMessageParser" where
  "count_operator w p =
    (case w of [] \<Rightarrow> p
     | c # _ \<Rightarrow>
         if c = CHR ''{'' then p\<lparr>brace_count := brace_count p + 1\<rparr>
         else if c = CHR ''}'' then p\<lparr>brace_count := brace_count p - 1\<rparr>
         else if c = CHR ''['' then p\<lparr>bracket_count := bracket_count p + 1\<rparr>
         else if c = CHR '']'' then p\<lparr>bracket_count := bracket_count p - 1\<rparr>
         else p)"

definition json_message_process_token ::
  "(qobject list \<Rightarrow> 'r \<Rightarrow> 'r) \<Rightarrow> string \<Rightarrow> lex_state \<Rightarrow> int \<Rightarrow> int \<Rightarrow> 'r JSONMessageParser \<Rightarrow> 'r JSONMessageParser" where
  "json_message_process_token emit w k x y p =
    (let p = (if k = JSON_OPERATOR then count_operator w p else p);
         p = p\<lparr>tokens := qlist_append_obj (tokens p) (make_token w k x y)\<rparr>
     in if brace_count p = 0 \<and> bracket_count p = 0
        then p\<lparr>client := emit (tokens p) (client p), tokens := []\<rparr>
        else p)"

definition json_message_parser_init :: "'r \<Rightarrow> JSONLexer \<times> 'r JSONMessageParser" where
  "json_message_parser_init r =
    (json_lexer_init, \<lparr>brace_count = 0, bracket_count = 0, tokens = [], client = r\<rparr>)"

definition json_message_parser_feed ::
  "(qobject list \<Rightarrow> 'r \<Rightarrow> 'r) \<Rightarrow> JSONLexer \<times> 'r JSONMessageParser \<Rightarrow> string \<Rightarrow> int \<times> JSONLexer \<times> 'r JSONMessageParser" where
  "json_message_parser_feed emit p buffer =
    json_lexer_feed (json_message_process_token emit) (fst p) buffer (snd p)"

definition json_message_parser_flush ::
  "(qobject list \<Rightarrow> 'r \<Rightarrow> 'r) \<Rightarrow> JSONLexer \<times> 'r JSONMessageParser \<Rightarrow> int \<times> JSONLexer \<times> 'r JSONMessageParser" where
  "json_message_parser_flush emit p = json_lexer_flush (json_message_process_token emit) (fst p) (snd p)"

section \<open>Tokens\<close>

definition token_get_value :: "qobject option \<Rightarrow> string option" where
  "token_get_value obj = Option.bind (Option.bind obj qobject_to_qdict) (\<lambda>d. qdict_get_str d ''token'')"

definition token_get_type :: "qobject option \<Rightarrow> int option" where
  "token_get_type obj = Option.bind (Option.bind obj qobject_to_qdict) (\<lambda>d. qdict_get_int d ''type'')"

definition token_is :: "lex_state \<Rightarrow> qobject option \<Rightarrow> string \<Rightarrow> bool option" where
  "token_is k obj v =
    Option.bind (token_get_type obj)
      (\<lambda>t. if t \<noteq> json_token_code k then Some False
           else Option.bind (token_get_value obj) (\<lambda>w. Some (w = v)))"

definition token_is_operator :: "qobject option \<Rightarrow> char \<Rightarrow> bool option" where
  "token_is_operator obj c = token_is JSON_OPERATOR obj [c]"

definition token_is_keyword :: "qobject option \<Rightarrow> string \<Rightarrow> bool option" where
  "token_is_keyword obj v = token_is JSON_KEYWORD obj v"

definition token_is_escape :: "qobject option \<Rightarrow> string \<Rightarrow> bool option" where
  "token_is_escape obj v = token_is JSON_ESCAPE obj v"

section \<open>Strings\<close>

definition byte :: "8 word \<Rightarrow> char" where
  "byte b = char_of (unat b)"

text \<open>The buffer after the call, up to and including its NUL.\<close>

definition wchar_to_utf8 :: "u16 \<Rightarrow> nat \<Rightarrow> string option" where
  "wchar_to_utf8 wchar buffer_length =
    (if wchar \<le> 0x007F
     then (if buffer_length < 2 then None else Some [byte (ucast (wchar AND 0x7F)), NUL])
     else if wchar \<le> 0x07FF
     then (if buffer_length < 3 then None
           else Some [byte (ucast (0xC0 OR (drop_bit 6 wchar AND 0x1F))), byte (ucast (0x80 OR (wchar AND 0x3F))), NUL])
     else (if buffer_length < 4 then None
           else Some [byte (ucast (0xE0 OR (drop_bit 12 wchar AND 0x0F))),
                      byte (ucast (0x80 OR (drop_bit 6 wchar AND 0x3F))), byte (ucast (0x80 OR (wchar AND 0x3F))), NUL]))"

definition hex2decimal :: "char \<Rightarrow> int" where
  "hex2decimal ch =
    (if is_digit ch then of_char ch - of_char CHR ''0''
     else if in_range CHR ''a'' CHR ''f'' ch then 10 + (of_char ch - of_char CHR ''a'')
     else if in_range CHR ''A'' CHR ''F'' ch then 10 + (of_char ch - of_char CHR ''A'')
     else - 1)"

text \<open>The loop over the four digits, from digit \<open>4 - n\<close>; \<open>None\<close> is the jump to \<open>out\<close>.\<close>

fun read_hex :: "nat \<Rightarrow> u16 \<Rightarrow> string \<Rightarrow> (u16 \<times> string) option" where
  "read_hex 0 u ptr = Some (u, ptr)"
| "read_hex (Suc n) u [] = None"
| "read_hex (Suc n) u (c # ptr) =
    (if is_xdigit c then read_hex n (u OR push_bit (4 * n) (word_of_int (hex2decimal c))) ptr else None)"

lemma read_hex_shorter: "read_hex n u ptr = Some (v, rest) \<Longrightarrow> length rest \<le> length ptr"
  by (induction n u ptr rule: read_hex.induct) (auto split: if_splits)

text \<open>The loop of \<open>qstring_from_escaped_str\<close>; the result \<open>None\<close> is the null pointer.\<close>

definition simple_escape :: "char \<Rightarrow> char option" where
  "simple_escape c =
    (if c = DQ \<or> c = SQ \<or> c = BACKSLASH \<or> c = CHR ''/'' then Some c
     else if c = CHR ''b'' then Some (CHR 0x08) else if c = CHR ''f'' then Some (CHR 0x0C)
     else if c = CHR ''n'' then Some (CHR 0x0A) else if c = CHR ''r'' then Some (CHR 0x0D)
     else if c = CHR ''t'' then Some (CHR 0x09) else None)"

function unescape_loop :: "char \<Rightarrow> string \<Rightarrow> string \<Rightarrow> string option" where
  "unescape_loop quote str ptr =
    (case ptr of [] \<Rightarrow> Some str
     | c # ptr \<Rightarrow>
         if c = quote then Some str
         else if c = BACKSLASH
         then
           (case ptr of [] \<Rightarrow> None
            | e # ptr \<Rightarrow>
                (case simple_escape e of
                   Some d \<Rightarrow> unescape_loop quote (str @ [d]) ptr
                 | None \<Rightarrow>
                     if e = CHR ''u''
                     then
                       (case read_hex 4 0 ptr of None \<Rightarrow> None
                        | Some (u, ptr) \<Rightarrow>
                            (case wchar_to_utf8 u 4 of None \<Rightarrow> None
                             | Some utf8_char \<Rightarrow>
                                 unescape_loop quote (str @ takeWhile (\<lambda>c. c \<noteq> NUL) utf8_char) ptr))
                     else None))
         else unescape_loop quote (str @ [c]) ptr)"
  by pat_completeness auto
termination
  by (relation "measure (\<lambda>(quote, str, ptr). length ptr)") (auto dest: read_hex_shorter)

declare unescape_loop.simps [simp del]

text \<open>\<open>token_get_value\<close> gives the text; the outer \<open>None\<close> is its failure.\<close>

definition qstring_from_escaped_str :: "qobject option \<Rightarrow> string option option" where
  "qstring_from_escaped_str token =
    Option.bind (token_get_value token)
      (\<lambda>ptr. case ptr of [] \<Rightarrow> None
             | c # ptr \<Rightarrow> Some (unescape_loop (if c = DQ then DQ else SQ) [] ptr))"

section \<open>Parsing rules\<close>

datatype va_arg = Va_object "qobject option" | Va_int int | Va_long int | Va_longlong int | Va_str string | Va_double u64

type_synonym va_list = "va_arg list option"

type_synonym 'a parse = "('a option \<times> qobject list \<times> va_list) option"

definition parse_keyword :: "qobject list \<Rightarrow> va_list \<Rightarrow> qobject parse" where
  "parse_keyword ts ap =
    (let (token, working) = qlist_pop (qlist_copy ts)
     in case token_get_type token of None \<Rightarrow> None
        | Some t \<Rightarrow>
            if t \<noteq> json_token_code JSON_KEYWORD then Some (None, ts, ap)
            else (case token_is_keyword token ''true'' of None \<Rightarrow> None
                  | Some True \<Rightarrow> Some (Some (QBool 1), working, ap)
                  | Some False \<Rightarrow>
                      (case token_is_keyword token ''false'' of None \<Rightarrow> None
                       | Some True \<Rightarrow> Some (Some (QBool 0), working, ap)
                       | Some False \<Rightarrow> Some (None, ts, ap))))"

text \<open>Taking an argument of the wrong type, or one that was not passed, is undefined in C.\<close>

fun va_take :: "string \<Rightarrow> va_arg list \<Rightarrow> (qobject option \<times> va_arg list) option" where
  "va_take esc (Va_object obj # args) = (if esc = ''%p'' then Some (obj, args) else None)"
| "va_take esc (Va_int i # args) =
    (if esc = ''%i'' then Some (Some (QBool i), args) else if esc = ''%d'' then Some (Some (QInt i), args) else None)"
| "va_take esc (Va_long i # args) = (if esc = ''%ld'' then Some (Some (QInt i), args) else None)"
| "va_take esc (Va_longlong i # args) =
    (if esc = ''%lld'' \<or> esc = ''%I64d'' then Some (Some (QInt i), args) else None)"
| "va_take esc (Va_str s # args) = (if esc = ''%s'' then Some (Some (QString s), args) else None)"
| "va_take esc (Va_double f # args) = (if esc = ''%f'' then Some (Some (QFloat f), args) else None)"
| "va_take esc [] = None"

definition va_escapes :: "string list" where
  "va_escapes = [''%p'', ''%i'', ''%d'', ''%ld'', ''%lld'', ''%I64d'', ''%s'', ''%f'']"

definition parse_escape :: "qobject list \<Rightarrow> va_list \<Rightarrow> qobject parse" where
  "parse_escape ts ap =
    (case ap of None \<Rightarrow> Some (None, ts, ap)
     | Some args \<Rightarrow>
         (let (token, working) = qlist_pop (qlist_copy ts)
          in case token_get_type token of None \<Rightarrow> None
             | Some t \<Rightarrow>
                 if t \<noteq> json_token_code JSON_ESCAPE then Some (None, ts, ap)
                 else (case token_get_value token of None \<Rightarrow> None
                       | Some esc \<Rightarrow>
                           if esc \<in> set va_escapes
                           then map_option (\<lambda>(obj, args). (obj, working, Some args)) (va_take esc args)
                           else Some (None, ts, ap))))"

definition parse_literal :: "(string \<Rightarrow> u64) \<Rightarrow> qobject list \<Rightarrow> va_list \<Rightarrow> qobject parse" where
  "parse_literal strtod ts ap =
    (let (token, working) = qlist_pop (qlist_copy ts)
     in case token_get_type token of None \<Rightarrow> None
        | Some t \<Rightarrow>
            if t = json_token_code JSON_STRING
            then (case qstring_from_escaped_str token of None \<Rightarrow> None
                  | Some s \<Rightarrow> Some (map_option QString s, working, ap))
            else if t = json_token_code JSON_INTEGER
            then (case token_get_value token of None \<Rightarrow> None
                  | Some w \<Rightarrow> Some (Some (QInt (strtoll w)), working, ap))
            else if t = json_token_code JSON_FLOAT
            then (case token_get_value token of None \<Rightarrow> None
                  | Some w \<Rightarrow> Some (Some (QFloat (strtod w)), working, ap))
            else Some (None, ts, ap))"

function (sequential)
  parse_value :: "(string \<Rightarrow> u64) \<Rightarrow> qobject list \<Rightarrow> va_list \<Rightarrow> qobject parse"
  and parse_object :: "(string \<Rightarrow> u64) \<Rightarrow> qobject list \<Rightarrow> va_list \<Rightarrow> qobject parse"
  and parse_object_loop :: "(string \<Rightarrow> u64) \<Rightarrow> qobject qdict \<Rightarrow> qobject list \<Rightarrow> va_list \<Rightarrow> qobject qdict parse"
  and parse_pair :: "(string \<Rightarrow> u64) \<Rightarrow> qobject qdict \<Rightarrow> qobject list \<Rightarrow> va_list \<Rightarrow> qobject qdict parse"
  and parse_array :: "(string \<Rightarrow> u64) \<Rightarrow> qobject list \<Rightarrow> va_list \<Rightarrow> qobject parse"
  and parse_array_loop :: "(string \<Rightarrow> u64) \<Rightarrow> qobject list \<Rightarrow> qobject list \<Rightarrow> va_list \<Rightarrow> qobject list parse"
where
  "parse_value strtod ts ap =
    (case parse_object strtod ts ap of None \<Rightarrow> None
     | Some (Some obj, r) \<Rightarrow> Some (Some obj, r)
     | Some (None, ts, ap) \<Rightarrow>
         (case parse_array strtod ts ap of None \<Rightarrow> None
          | Some (Some obj, r) \<Rightarrow> Some (Some obj, r)
          | Some (None, ts, ap) \<Rightarrow>
              (case parse_escape ts ap of None \<Rightarrow> None
               | Some (Some obj, r) \<Rightarrow> Some (Some obj, r)
               | Some (None, ts, ap) \<Rightarrow>
                   (case parse_keyword ts ap of None \<Rightarrow> None
                    | Some (Some obj, r) \<Rightarrow> Some (Some obj, r)
                    | Some (None, ts, ap) \<Rightarrow> parse_literal strtod ts ap))))"
| "parse_object strtod ts ap =
    (let (token, working) = qlist_pop (qlist_copy ts)
     in case token_is_operator token CHR ''{'' of None \<Rightarrow> None
        | Some False \<Rightarrow> Some (None, ts, ap)
        | Some True \<Rightarrow>
            (case token_is_operator (qlist_peek working) CHR ''}'' of None \<Rightarrow> None
             | Some True \<Rightarrow> Some (Some (QDict qdict_new), snd (qlist_pop working), ap)
             | Some False \<Rightarrow>
                 (case parse_pair strtod qdict_new working ap of None \<Rightarrow> None
                  | Some (None, _, ap) \<Rightarrow> Some (None, ts, ap)
                  | Some (Some dict, working, ap) \<Rightarrow>
                      (case parse_object_loop strtod dict working ap of None \<Rightarrow> None
                       | Some (None, _, ap) \<Rightarrow> Some (None, ts, ap)
                       | Some (Some dict, working, ap) \<Rightarrow> Some (Some (QDict dict), working, ap)))))"
| "parse_object_loop strtod dict ts ap =
    (let (token, working) = qlist_pop ts
     in case token_is_operator token CHR ''}'' of None \<Rightarrow> None
        | Some True \<Rightarrow> Some (Some dict, working, ap)
        | Some False \<Rightarrow>
            (case token_is_operator token CHR '','' of None \<Rightarrow> None
             | Some False \<Rightarrow> Some (None, ts, ap)
             | Some True \<Rightarrow>
                 (case parse_pair strtod dict working ap of None \<Rightarrow> None
                  | Some (None, _, ap) \<Rightarrow> Some (None, ts, ap)
                  | Some (Some dict, working, ap) \<Rightarrow> parse_object_loop strtod dict working ap)))"
| "parse_pair strtod dict ts ap =
    (case parse_value strtod (qlist_copy ts) ap of None \<Rightarrow> None
     | Some (Some (QString key), working, ap) \<Rightarrow>
         (let (token, working) = qlist_pop working
          in case token_is_operator token CHR '':'' of None \<Rightarrow> None
             | Some False \<Rightarrow> Some (None, ts, ap)
             | Some True \<Rightarrow>
                 (case parse_value strtod working ap of None \<Rightarrow> None
                  | Some (None, _, ap) \<Rightarrow> Some (None, ts, ap)
                  | Some (Some v, working, ap) \<Rightarrow> Some (Some (qdict_put_obj dict key v), working, ap)))
     | Some (_, _, ap) \<Rightarrow> Some (None, ts, ap))"
| "parse_array strtod ts ap =
    (let (token, working) = qlist_pop (qlist_copy ts)
     in case token_is_operator token CHR ''['' of None \<Rightarrow> None
        | Some False \<Rightarrow> Some (None, ts, ap)
        | Some True \<Rightarrow>
            (case token_is_operator (qlist_peek working) CHR '']'' of None \<Rightarrow> None
             | Some True \<Rightarrow> Some (Some (QList []), snd (qlist_pop working), ap)
             | Some False \<Rightarrow>
                 (case parse_value strtod working ap of None \<Rightarrow> None
                  | Some (None, _, ap) \<Rightarrow> Some (None, ts, ap)
                  | Some (Some obj, working, ap) \<Rightarrow>
                      (case parse_array_loop strtod (qlist_append_obj [] obj) working ap of None \<Rightarrow> None
                       | Some (None, _, ap) \<Rightarrow> Some (None, ts, ap)
                       | Some (Some l, working, ap) \<Rightarrow> Some (Some (QList l), working, ap)))))"
| "parse_array_loop strtod l ts ap =
    (let (token, working) = qlist_pop ts
     in case token_is_operator token CHR '']'' of None \<Rightarrow> None
        | Some True \<Rightarrow> Some (Some l, working, ap)
        | Some False \<Rightarrow>
            (case token_is_operator token CHR '','' of None \<Rightarrow> None
             | Some False \<Rightarrow> Some (None, ts, ap)
             | Some True \<Rightarrow>
                 (case parse_value strtod working ap of None \<Rightarrow> None
                  | Some (None, _, ap) \<Rightarrow> Some (None, ts, ap)
                  | Some (Some obj, working, ap) \<Rightarrow> parse_array_loop strtod (qlist_append_obj l obj) working ap)))"
  by pat_completeness auto

text \<open>No function leaves more tokens than it was given. This holds before termination is known, and the
  measure of the termination proof needs it.\<close>

definition at_most :: "nat \<Rightarrow> 'a parse \<Rightarrow> bool" where
  "at_most n r \<longleftrightarrow> (\<forall>v ts ap. r = Some (v, ts, ap) \<longrightarrow> length ts \<le> n)"

lemma at_most_simps [simp]: "at_most n None" "at_most n (Some (v, ts, ap)) \<longleftrightarrow> length ts \<le> n"
  by (simp_all add: at_most_def)

lemma at_most_mono: "at_most m r \<Longrightarrow> m \<le> n \<Longrightarrow> at_most n r"
  by (auto simp: at_most_def)

lemma qlist_pop_simps [simp]:
  "qlist_pop [] = (None, [])" "qlist_pop (t # ts) = (Some t, ts)"
  "qlist_peek [] = None" "qlist_peek (t # ts) = Some t"
  by (simp_all add: qlist_pop_def qlist_peek_def)

lemma token_is_null [simp]: "token_is k None v = None" "token_is_operator None c = None" "token_get_type None = None"
  by (simp_all add: token_is_operator_def token_is_def token_get_type_def)

lemma length_pop_less: "length (snd (qlist_pop ts)) \<le> length ts"
  by (cases ts) simp_all

lemma length_qlist_pop: "qlist_pop ts = (token, working) \<Longrightarrow> length working \<le> length ts"
  by (auto simp: qlist_pop_def split: list.splits)

lemma at_most_leaves:
  "at_most (length ts) (parse_keyword ts ap)" "at_most (length ts) (parse_escape ts ap)"
  "at_most (length ts) (parse_literal strtod ts ap)"
  by (auto simp: at_most_def parse_keyword_def parse_escape_def parse_literal_def Let_def
      split: prod.splits option.splits if_splits bool.splits dest: length_qlist_pop)

lemmas parse_psimps = parse_value.psimps parse_object.psimps parse_object_loop.psimps parse_pair.psimps
  parse_array.psimps parse_array_loop.psimps

lemmas parse_pinduct = parse_value_parse_object_parse_object_loop_parse_pair_parse_array_parse_array_loop.pinduct

abbreviation (input) "parse_dom \<equiv> parse_value_parse_object_parse_object_loop_parse_pair_parse_array_parse_array_loop_dom"

lemma at_most_pop: "qlist_pop ts = (token, working) \<Longrightarrow> at_most (length working) r \<Longrightarrow> at_most (length ts) r"
  by (auto dest: length_qlist_pop intro: at_most_mono)

lemma parse_at_most:
  "parse_dom (Inl (Inl (strtod, ts, ap))) \<Longrightarrow> at_most (length ts) (parse_value strtod ts ap)"
  "parse_dom (Inl (Inr (Inl (strtod1, ts1, ap1)))) \<Longrightarrow> at_most (length ts1) (parse_object strtod1 ts1 ap1)"
  "parse_dom (Inl (Inr (Inr (strtod2, d2, ts2, ap2)))) \<Longrightarrow> at_most (length ts2) (parse_object_loop strtod2 d2 ts2 ap2)"
  "parse_dom (Inr (Inl (strtod3, d3, ts3, ap3))) \<Longrightarrow> at_most (length ts3) (parse_pair strtod3 d3 ts3 ap3)"
  "parse_dom (Inr (Inr (Inl (strtod4, ts4, ap4)))) \<Longrightarrow> at_most (length ts4) (parse_array strtod4 ts4 ap4)"
  "parse_dom (Inr (Inr (Inr (strtod5, l5, ts5, ap5)))) \<Longrightarrow> at_most (length ts5) (parse_array_loop strtod5 l5 ts5 ap5)"
proof (induction strtod ts ap and strtod1 ts1 ap1 and strtod2 d2 ts2 ap2 and strtod3 d3 ts3 ap3
    and strtod4 ts4 ap4 and strtod5 l5 ts5 ap5 rule: parse_pinduct)
  case (1 strtod ts ap)
  note IH = 1(2) 1(3) [OF _ refl refl refl]
  show ?case
    unfolding parse_value.psimps [OF 1(1)]
    using IH at_most_leaves at_most_mono
    by (fastforce simp: at_most_def split: option.splits prod.splits)
next
  case (2 strtod ts ap)
  note IH = 2(2) [OF refl _ _ refl _ refl] 2(3) [OF refl _ _ refl _ refl _ refl refl refl]
  show ?case
  proof (cases ts)
    case (Cons t ws)
    show ?thesis
    proof (cases "token_is_operator (Some t) CHR ''{'' = Some True \<and> token_is_operator (qlist_peek ws) CHR ''}'' = Some False")
      case True
      then have "at_most (length ws) (parse_pair strtod qdict_new ws ap)" using IH(1) Cons by simp
      moreover have "at_most (length ws') (parse_object_loop strtod v ws' ap')" if "parse_pair strtod qdict_new ws ap = Some (Some v, ws', ap')" for v ws' ap'
        using IH(2) Cons True that by simp
      ultimately show ?thesis
        unfolding parse_object.psimps [OF 2(1)]
        using Cons True by (fastforce simp: at_most_def split: option.splits prod.splits)
    next
      case False
      then show ?thesis
        unfolding parse_object.psimps [OF 2(1)]
        using Cons length_pop_less [of ws] by (auto split: option.splits bool.splits)
    qed
  next
    case Nil
    then show ?thesis unfolding parse_object.psimps [OF 2(1)] by simp
  qed
next
  case (3 strtod dict ts ap)
  note IH = 3(2) [OF refl _ _ refl _ refl] 3(3) [OF refl _ _ refl _ refl _ refl refl refl]
  show ?case
    unfolding parse_object_loop.psimps [OF 3(1)]
    using IH
    by (cases ts) (fastforce simp: at_most_def Let_def split: option.splits prod.splits bool.splits)+
next
  case (4 strtod dict ts ap)
  note IH = 4(2) 4(3) [OF _ refl refl refl refl refl _ _ refl]
  show ?case
    unfolding parse_pair.psimps [OF 4(1)]
    using IH
    by (fastforce simp: at_most_def Let_def dest: length_qlist_pop split: option.splits prod.splits bool.splits qobject.splits)
next
  case (5 strtod ts ap)
  note IH = 5(2) [OF refl _ _ refl _ refl] 5(3) [OF refl _ _ refl _ refl _ refl refl refl]
  show ?case
  proof (cases ts)
    case (Cons t ws)
    show ?thesis
    proof (cases "token_is_operator (Some t) CHR ''['' = Some True \<and> token_is_operator (qlist_peek ws) CHR '']'' = Some False")
      case True
      then have "at_most (length ws) (parse_value strtod ws ap)" using IH(1) Cons by simp
      moreover have "at_most (length ws') (parse_array_loop strtod (qlist_append_obj [] v) ws' ap')" if "parse_value strtod ws ap = Some (Some v, ws', ap')" for v ws' ap'
        using IH(2) Cons True that by simp
      ultimately show ?thesis
        unfolding parse_array.psimps [OF 5(1)]
        using Cons True by (fastforce simp: at_most_def split: option.splits prod.splits)
    next
      case False
      then show ?thesis
        unfolding parse_array.psimps [OF 5(1)]
        using Cons length_pop_less [of ws] by (auto split: option.splits bool.splits)
    qed
  next
    case Nil
    then show ?thesis unfolding parse_array.psimps [OF 5(1)] by simp
  qed
next
  case (6 strtod l ts ap)
  note IH = 6(2) [OF refl _ _ refl _ refl] 6(3) [OF refl _ _ refl _ refl _ refl refl refl]
  show ?case
    unfolding parse_array_loop.psimps [OF 6(1)]
    using IH
    by (cases ts) (fastforce simp: at_most_def Let_def split: option.splits prod.splits bool.splits)+
qed

lemma pop_less: "(token, working) = qlist_pop ts \<Longrightarrow> token_is_operator token c = Some b \<Longrightarrow> length working < length ts"
  by (cases ts) auto

lemma parse_left:
  "parse_dom (Inl (Inl (strtod, ts, ap))) \<Longrightarrow> parse_value strtod ts ap = Some (v, ts', ap') \<Longrightarrow> length ts' \<le> length ts"
  "parse_dom (Inl (Inr (Inl (strtod, ts, ap)))) \<Longrightarrow> parse_object strtod ts ap = Some (v, ts', ap') \<Longrightarrow> length ts' \<le> length ts"
  "parse_dom (Inr (Inl (strtod, d, ts, ap))) \<Longrightarrow> parse_pair strtod d ts ap = Some (w, ts', ap') \<Longrightarrow> length ts' \<le> length ts"
  using parse_at_most(1,2) [of strtod ts ap] parse_at_most(4) [of strtod d ts ap] by (auto simp: at_most_def)

termination parse_value
proof (relation "measure (\<lambda>x. case x of
      Inl (Inl (_, ts, _)) \<Rightarrow> 4 * length ts + 2
    | Inl (Inr (Inl (_, ts, _))) \<Rightarrow> 4 * length ts + 1
    | Inl (Inr (Inr (_, _, ts, _))) \<Rightarrow> 4 * length ts
    | Inr (Inl (_, _, ts, _)) \<Rightarrow> 4 * length ts + 3
    | Inr (Inr (Inl (_, ts, _))) \<Rightarrow> 4 * length ts + 1
    | Inr (Inr (Inr (_, _, ts, _))) \<Rightarrow> 4 * length ts)", goal_cases)
qed (auto dest!: pop_less parse_left)

declare parse_value.simps [simp del] parse_object.simps [simp del] parse_object_loop.simps [simp del]
  parse_pair.simps [simp del] parse_array.simps [simp del] parse_array_loop.simps [simp del]

definition json_parser_parse :: "(string \<Rightarrow> u64) \<Rightarrow> qobject list \<Rightarrow> va_list \<Rightarrow> (qobject option \<times> va_list) option" where
  "json_parser_parse strtod ts ap =
    map_option (\<lambda>(result, working, ap). (result, ap)) (parse_value strtod (qlist_copy ts) ap)"

section \<open>The dictionaries of tokens\<close>

definition tok :: "qobject \<Rightarrow> lexeme \<Rightarrow> bool" where
  "tok obj t \<longleftrightarrow> is_token (fst t) \<and>
    (\<exists>d. obj = QDict d \<and> qdict_get d ''type'' = Some (QInt (json_token_code (fst t))) \<and>
      qdict_get d ''token'' = Some (QString (snd t)))"

lemma tok_make_token: "is_token k \<Longrightarrow> tok (make_token w k x y) (k, w)"
  by (simp add: tok_def make_token_def Let_def qdict.get_put qdict.put_inv qdict.new_inv)

lemma token_code_inject: "is_token k \<Longrightarrow> is_token k' \<Longrightarrow> json_token_code k = json_token_code k' \<longleftrightarrow> k = k'"
  by (auto simp: is_token_def)

lemma tok_get:
  assumes "tok obj (k, w)"
  shows "token_get_type (Some obj) = Some (json_token_code k)" "token_get_value (Some obj) = Some w"
  using assms by (auto simp: tok_def token_get_type_def token_get_value_def
      qdict_get_int_iff [THEN iffD2] qdict_get_str_iff [THEN iffD2])

lemma tok_is: "tok obj (k, w) \<Longrightarrow> is_token k' \<Longrightarrow> token_is k' (Some obj) v = Some (k = k' \<and> w = v)"
  using tok_get [of obj k w] token_code_inject [of k k'] by (auto simp: token_is_def tok_def)

lemma tok_is_operator: "tok obj (k, w) \<Longrightarrow> token_is_operator (Some obj) c = Some (k = JSON_OPERATOR \<and> w = [c])"
  by (simp add: token_is_operator_def tok_is is_token_def)

section \<open>The parser never runs off its tokens\<close>

text \<open>The streamer hands over a message when its braces and brackets are balanced in number. That is enough
  for the parser to find a token wherever it looks for one: while it is inside an object or an array, what
  is left closes more than it opens.\<close>

definition token_ok :: "qobject \<Rightarrow> bool" where
  "token_ok obj \<longleftrightarrow> (\<exists>k w. tok obj (k, w) \<and> (k = JSON_STRING \<longrightarrow> w \<noteq> []))"

definition obj_weight :: "qobject \<Rightarrow> int" where
  "obj_weight obj =
    (if token_is_operator (Some obj) CHR ''{'' = Some True \<or> token_is_operator (Some obj) CHR ''['' = Some True then 1
     else if token_is_operator (Some obj) CHR ''}'' = Some True \<or> token_is_operator (Some obj) CHR '']'' = Some True then - 1
     else 0)"

definition depth :: "qobject list \<Rightarrow> int" where
  "depth ts = sum_list (map obj_weight ts)"

definition well :: "qobject list \<Rightarrow> bool" where
  "well ts \<longleftrightarrow> (\<forall>t \<in> set ts. token_ok t)"

lemma well_simps [simp]: "well []" "well (t # ts) \<longleftrightarrow> token_ok t \<and> well ts" "well (ts @ us) \<longleftrightarrow> well ts \<and> well us"
  by (auto simp: well_def)

lemma depth_simps [simp]: "depth [] = 0" "depth (t # ts) = obj_weight t + depth ts" "depth (ts @ us) = depth ts + depth us"
  by (simp_all add: depth_def)

lemma depth_nonempty: "depth ts < 0 \<Longrightarrow> \<exists>t us. ts = t # us"
  by (cases ts) auto

lemma token_ok_operator: "token_ok t \<Longrightarrow> \<exists>b. token_is_operator (Some t) c = Some b"
  using tok_is_operator by (force simp: token_ok_def)

lemma operator_weight:
  assumes "token_ok t"
  shows "token_is_operator (Some t) CHR ''{'' = Some True \<Longrightarrow> obj_weight t = 1"
    "token_is_operator (Some t) CHR ''['' = Some True \<Longrightarrow> obj_weight t = 1"
    "token_is_operator (Some t) CHR ''}'' = Some True \<Longrightarrow> obj_weight t = - 1"
    "token_is_operator (Some t) CHR '']'' = Some True \<Longrightarrow> obj_weight t = - 1"
    "token_is_operator (Some t) CHR '':'' = Some True \<Longrightarrow> obj_weight t = 0"
    "token_is_operator (Some t) CHR '','' = Some True \<Longrightarrow> obj_weight t = 0"
    "token_get_type (Some t) \<noteq> Some (json_token_code JSON_OPERATOR) \<Longrightarrow> obj_weight t = 0"
  using assms by (auto simp: token_ok_def obj_weight_def tok_is_operator tok_get)

definition steps :: "int \<Rightarrow> qobject list \<Rightarrow> 'a parse \<Rightarrow> bool" where
  "steps d ts r \<longleftrightarrow> (\<exists>v us. r = Some (v, us, None) \<and> (v \<noteq> None \<longrightarrow> well us \<and> depth us = depth ts + d))"

lemma steps_Some [simp]:
  "steps d ts (Some (v, us, ap)) \<longleftrightarrow> ap = None \<and> (v \<noteq> None \<longrightarrow> well us \<and> depth us = depth ts + d)" "\<not> steps d ts None"
  by (auto simp: steps_def)

lemma stepsE:
  assumes "steps d ts r"
  obtains us where "r = Some (None, us, None)" | v us where "r = Some (Some v, us, None)" "well us" "depth us = depth ts + d"
  using assms unfolding steps_def by (metis option.exhaust)

lemma keyword_steps: "well (t # ts) \<Longrightarrow> steps 0 (t # ts) (parse_keyword (t # ts) None)"
  using operator_weight(7) [of t]
  by (auto simp: token_ok_def tok_get tok_is token_is_keyword_def parse_keyword_def is_token_def split: bool.splits)

lemma literal_steps: "well (t # ts) \<Longrightarrow> steps 0 (t # ts) (parse_literal strtod (t # ts) None)"
  using operator_weight(7) [of t]
  by (auto simp: token_ok_def tok_get parse_literal_def qstring_from_escaped_str_def split: list.splits)
    (auto simp: tok_def is_token_def)

lemma parse_null_unchanged:
  "parse_object strtod ts ap = Some (None, us, ap') \<Longrightarrow> us = ts"
  "parse_array strtod ts ap = Some (None, us, ap') \<Longrightarrow> us = ts"
  "parse_keyword ts ap = Some (None, us, ap') \<Longrightarrow> us = ts"
  by (auto simp: parse_object.simps parse_array.simps parse_keyword_def Let_def split: option.splits prod.splits bool.splits if_splits)

lemma loop_steps:
  assumes "well ts" "depth ts < 0"
    and closing: "\<And>t. token_ok t \<Longrightarrow> token_is_operator (Some t) close = Some True \<Longrightarrow> obj_weight t = - 1"
    and comma: "\<And>t ws. ts = t # ws \<Longrightarrow> token_is_operator (Some t) close = Some False \<Longrightarrow>
      token_is_operator (Some t) CHR '','' = Some True \<Longrightarrow> steps 1 ws (rest ws)"
  shows "steps 1 ts (let (token, working) = qlist_pop ts
     in case token_is_operator token close of None \<Rightarrow> None
        | Some True \<Rightarrow> Some (Some x, working, None)
        | Some False \<Rightarrow>
            (case token_is_operator token CHR '','' of None \<Rightarrow> None
             | Some False \<Rightarrow> Some (None, ts, None)
             | Some True \<Rightarrow> rest working))"
proof -
  obtain t ws where ts: "ts = t # ws" using depth_nonempty assms(2) by blast
  then have t: "token_ok t" using assms(1) by simp
  obtain a b where ab: "token_is_operator (Some t) close = Some a" "token_is_operator (Some t) CHR '','' = Some b"
    using token_ok_operator [OF t] by metis
  show ?thesis
    using ts t ab assms(1) closing [OF t] comma [OF ts] operator_weight(6) [OF t]
    by (cases a; cases b) (auto simp: steps_def)
qed

lemma open_steps:
  assumes "well ts" "ts \<noteq> []" "depth ts \<le> 0"
    and op: "\<And>t. token_ok t \<Longrightarrow> token_is_operator (Some t) opn = Some True \<Longrightarrow> obj_weight t = 1"
    and closing: "\<And>t. token_ok t \<Longrightarrow> token_is_operator (Some t) close = Some True \<Longrightarrow> obj_weight t = - 1"
    and inner: "\<And>t ws. ts = t # ws \<Longrightarrow> token_is_operator (Some t) opn = Some True \<Longrightarrow>
      token_is_operator (qlist_peek ws) close = Some False \<Longrightarrow> well ws \<Longrightarrow> depth ws < 0 \<Longrightarrow> steps 1 ws (rest ws)"
  shows "steps 0 ts (let (token, working) = qlist_pop (qlist_copy ts)
     in case token_is_operator token opn of None \<Rightarrow> None
        | Some False \<Rightarrow> Some (None, ts, None)
        | Some True \<Rightarrow>
            (case token_is_operator (qlist_peek working) close of None \<Rightarrow> None
             | Some True \<Rightarrow> Some (Some x, snd (qlist_pop working), None)
             | Some False \<Rightarrow> rest working))"
proof -
  obtain t ws where ts: "ts = t # ws" using assms(2) by (cases ts) auto
  then have t: "token_ok t" and ws: "well ws" using assms(1) by simp_all
  obtain a where a: "token_is_operator (Some t) opn = Some a" using token_ok_operator [OF t] by blast
  show ?thesis
  proof (cases a)
    case True
    then have w: "obj_weight t = 1" using op [OF t] a by simp
    then have neg: "depth ws < 0" using assms(3) ts by simp
    then obtain p us where p: "ws = p # us" using depth_nonempty by blast
    then have "token_ok p" using ws by simp
    with token_ok_operator obtain b where b: "token_is_operator (Some p) close = Some b" by blast
    show ?thesis
      using True a b p ts w ws neg closing [OF \<open>token_ok p\<close>] inner [OF ts] by (cases b) (auto simp: steps_def)
  qed (simp add: a ts)
qed

lemma steps_then:
  assumes "steps a ts r" "\<And>v us. r = Some (Some v, us, None) \<Longrightarrow> well us \<Longrightarrow> depth us = depth ts + a \<Longrightarrow> steps b us (f v us None)"
  shows "steps (a + b) ts (case r of None \<Rightarrow> None | Some (None, _, ap) \<Rightarrow> Some (None, vs, ap) | Some (Some v, us, ap) \<Rightarrow> f v us ap)"
  using assms(1)
proof (cases rule: stepsE)
  case (2 v us)
  then show ?thesis using assms(2) [of v us] by (auto simp: steps_def)
qed simp

lemma parse_steps:
  "well ts \<Longrightarrow> ts \<noteq> [] \<Longrightarrow> depth ts \<le> 0 \<Longrightarrow> ap = None \<Longrightarrow> steps 0 ts (parse_value strtod ts ap)"
  "well ts1 \<Longrightarrow> ts1 \<noteq> [] \<Longrightarrow> depth ts1 \<le> 0 \<Longrightarrow> ap1 = None \<Longrightarrow> steps 0 ts1 (parse_object strtod1 ts1 ap1)"
  "well ts2 \<Longrightarrow> depth ts2 < 0 \<Longrightarrow> ap2 = None \<Longrightarrow> steps 1 ts2 (parse_object_loop strtod2 d2 ts2 ap2)"
  "well ts3 \<Longrightarrow> depth ts3 < 0 \<Longrightarrow> ap3 = None \<Longrightarrow> steps 0 ts3 (parse_pair strtod3 d3 ts3 ap3)"
  "well ts4 \<Longrightarrow> ts4 \<noteq> [] \<Longrightarrow> depth ts4 \<le> 0 \<Longrightarrow> ap4 = None \<Longrightarrow> steps 0 ts4 (parse_array strtod4 ts4 ap4)"
  "well ts5 \<Longrightarrow> depth ts5 < 0 \<Longrightarrow> ap5 = None \<Longrightarrow> steps 1 ts5 (parse_array_loop strtod5 l5 ts5 ap5)"
proof (induction strtod ts ap and strtod1 ts1 ap1 and strtod2 d2 ts2 ap2 and strtod3 d3 ts3 ap3
    and strtod4 ts4 ap4 and strtod5 l5 ts5 ap5
    rule: parse_value_parse_object_parse_object_loop_parse_pair_parse_array_parse_array_loop.induct)
  case val: (1 strtod ts ap)
  then obtain t ws where ts: "ts = t # ws" by (cases ts) auto
  note ap = \<open>ap = None\<close>
  from val(1) [OF val.prems] show ?case
  proof (cases rule: stepsE)
    case (1 us)
    then have obj: "parse_object strtod ts None = Some (None, ts, None)" using parse_null_unchanged(1) ap by blast
    with val(2) [of "(None, ts, None)" None "(ts, None)" ts None] val.prems
    have "steps 0 ts (parse_array strtod ts None)" by simp
    then show ?thesis
    proof (cases rule: stepsE)
      case (1 us)
      then have "parse_array strtod ts None = Some (None, ts, None)" using parse_null_unchanged(2) by blast
      moreover have "steps 0 ts (parse_keyword ts None)" "steps 0 ts (parse_literal strtod ts None)"
        using keyword_steps literal_steps val.prems(1) ts by simp_all
      ultimately show ?thesis
        using obj ap parse_null_unchanged(3) [of ts None]
        by (auto simp: parse_value.simps parse_escape_def steps_def split: option.splits)
    qed (simp add: parse_value.simps obj ap)
  qed (simp add: parse_value.simps ap)
next
  case object: (2 strtod ts ap)
  show ?case
    unfolding \<open>ap = None\<close> parse_object.simps [of strtod ts None]
  proof (rule open_steps [OF object.prems(1-3) operator_weight(1,3)])
    fix t ws
    assume t: "ts = t # ws" "token_is_operator (Some t) CHR ''{'' = Some True"
      "token_is_operator (qlist_peek ws) CHR ''}'' = Some False" and ws: "well ws" "depth ws < 0"
    have pair: "steps 0 ws (parse_pair strtod qdict_new ws None)"
      using object(1) [of _ "Some t" ws True False] t ws object.prems(4) by simp
    have loop: "steps 1 us (parse_object_loop strtod d us None)"
      if "parse_pair strtod qdict_new ws None = Some (Some d, us, None)" "well us" "depth us = depth ws + 0" for d us
      using object(2) [of _ "Some t" ws True False _ "Some d" "(us, None)" d us None] that t ws object.prems(4) by simp
    have "steps (0 + 1) ws (case parse_pair strtod qdict_new ws None of None \<Rightarrow> None
        | Some (None, _, ap) \<Rightarrow> Some (None, ts, ap)
        | Some (Some dict, working, ap) \<Rightarrow>
            (case parse_object_loop strtod dict working ap of None \<Rightarrow> None
             | Some (None, _, ap) \<Rightarrow> Some (None, ts, ap)
             | Some (Some dict, working, ap) \<Rightarrow> Some (Some (QDict dict), working, ap)))"
      using pair by (rule steps_then) (use steps_then [OF loop, of _ _ 0 "\<lambda>d us ap. Some (Some (QDict d), us, ap)" ts] in simp)
    then show "steps 1 ws (case parse_pair strtod qdict_new ws None of None \<Rightarrow> None
        | Some (None, _, ap) \<Rightarrow> Some (None, ts, ap)
        | Some (Some dict, working, ap) \<Rightarrow>
            (case parse_object_loop strtod dict working ap of None \<Rightarrow> None
             | Some (None, _, ap) \<Rightarrow> Some (None, ts, ap)
             | Some (Some dict, working, ap) \<Rightarrow> Some (Some (QDict dict), working, ap)))" by simp
  qed simp_all
next
  case object_loop: (3 strtod dict ts ap)
  show ?case
    unfolding \<open>ap = None\<close> parse_object_loop.simps [of strtod dict ts None]
  proof (rule loop_steps [OF object_loop.prems(1,2) operator_weight(3)])
    fix t ws
    assume t: "ts = t # ws" "token_is_operator (Some t) CHR ''}'' = Some False" "token_is_operator (Some t) CHR '','' = Some True"
    then have ws: "well ws" "depth ws < 0" using object_loop.prems operator_weight(6) [of t] by simp_all
    have pair: "steps 0 ws (parse_pair strtod dict ws None)"
      using object_loop(1) [of _ "Some t" ws False True] t ws object_loop.prems(3) by simp
    have loop: "steps 1 us (parse_object_loop strtod d us None)"
      if "parse_pair strtod dict ws None = Some (Some d, us, None)" "well us" "depth us = depth ws + 0" for d us
      using object_loop(2) [of _ "Some t" ws False True _ "Some d" "(us, None)" d us None] that t ws object_loop.prems(3)
      by simp
    show "steps 1 ws (case parse_pair strtod dict ws None of None \<Rightarrow> None
        | Some (None, _, ap) \<Rightarrow> Some (None, ts, ap)
        | Some (Some dict, working, ap) \<Rightarrow> parse_object_loop strtod dict working ap)"
      using steps_then [OF pair, of 1 "parse_object_loop strtod" ts] loop by simp
  qed simp
next
  case pair: (4 strtod dict ts ap)
  from depth_nonempty [OF pair.prems(2)] obtain t ws where ts: "ts = t # ws" by blast
  have "steps 0 ts (parse_value strtod ts None)" using pair(1) pair.prems ts by simp
  then show ?case
  proof (cases rule: stepsE)
    case (2 k us)
    then obtain c vs where us: "us = c # vs" using depth_nonempty [of us] pair.prems(2) by auto
    then have c: "token_ok c" using 2 by simp
    obtain b where b: "token_is_operator (Some c) CHR '':'' = Some b" using token_ok_operator [OF c] by blast
    show ?thesis
    proof (cases "b \<and> (\<exists>key. k = QString key)")
      case True
      then obtain key where k: "k = QString key" by blast
      then have vs: "well vs" "depth vs = depth ts" using 2 us b True operator_weight(5) [OF c] by simp_all
      moreover have "vs \<noteq> []" using vs(2) pair.prems(2) by auto
      ultimately have "steps 0 vs (parse_value strtod vs None)"
        using pair(2) [of _ _ "(us, None)" k key us None _ "Some c" vs True] 2 us b k True pair.prems(2,3) by simp
      then have "steps (0 + 0) vs (case parse_value strtod vs None of None \<Rightarrow> None
          | Some (None, _, ap) \<Rightarrow> Some (None, ts, ap)
          | Some (Some v, working, ap) \<Rightarrow> Some (Some (qdict_put_obj dict key v), working, ap))"
        by (rule steps_then) simp
      then show ?thesis using 2 us b k True vs(2) pair.prems(3) by (simp add: parse_pair.simps steps_def)
    next
      case False
      then show ?thesis using 2 us b pair.prems(3) by (cases k) (auto simp: parse_pair.simps)
    qed
  qed (simp add: parse_pair.simps pair.prems(3))
next
  case array: (5 strtod ts ap)
  show ?case
    unfolding \<open>ap = None\<close> parse_array.simps [of strtod ts None]
  proof (rule open_steps [OF array.prems(1-3) operator_weight(2,4)])
    fix t ws
    assume t: "ts = t # ws" "token_is_operator (Some t) CHR ''['' = Some True"
      "token_is_operator (qlist_peek ws) CHR '']'' = Some False" and ws: "well ws" "depth ws < 0"
    then have "ws \<noteq> []" by auto
    then have value_ok: "steps 0 ws (parse_value strtod ws None)"
      using array(1) [of _ "Some t" ws True False] t ws array.prems(4) by simp
    have loop: "steps 1 us (parse_array_loop strtod (qlist_append_obj [] v) us None)"
      if "parse_value strtod ws None = Some (Some v, us, None)" "well us" "depth us = depth ws + 0" for v us
      using array(2) [of _ "Some t" ws True False _ "Some v" "(us, None)" v us None] that t ws array.prems(4) by simp
    have "steps (1 + 0) us (case parse_array_loop strtod (qlist_append_obj [] v) us None of None \<Rightarrow> None
        | Some (None, _, ap) \<Rightarrow> Some (None, ts, ap)
        | Some (Some l, working, ap) \<Rightarrow> Some (Some (QList l), working, ap))"
      if "parse_value strtod ws None = Some (Some v, us, None)" "well us" "depth us = depth ws + 0" for v us
      using loop [OF that] by (rule steps_then) simp
    then show "steps 1 ws (case parse_value strtod ws None of None \<Rightarrow> None
        | Some (None, _, ap) \<Rightarrow> Some (None, ts, ap)
        | Some (Some obj, working, ap) \<Rightarrow>
            (case parse_array_loop strtod (qlist_append_obj [] obj) working ap of None \<Rightarrow> None
             | Some (None, _, ap) \<Rightarrow> Some (None, ts, ap)
             | Some (Some l, working, ap) \<Rightarrow> Some (Some (QList l), working, ap)))"
      using steps_then [OF value_ok, of 1 "\<lambda>obj working ap.
            (case parse_array_loop strtod (qlist_append_obj [] obj) working ap of None \<Rightarrow> None
             | Some (None, _, ap) \<Rightarrow> Some (None, ts, ap)
             | Some (Some l, working, ap) \<Rightarrow> Some (Some (QList l), working, ap))" ts] by simp
  qed simp_all
next
  case array_loop: (6 strtod l ts ap)
  show ?case
    unfolding \<open>ap = None\<close> parse_array_loop.simps [of strtod l ts None]
  proof (rule loop_steps [OF array_loop.prems(1,2) operator_weight(4)])
    fix t ws
    assume t: "ts = t # ws" "token_is_operator (Some t) CHR '']'' = Some False" "token_is_operator (Some t) CHR '','' = Some True"
    then have ws: "well ws" "depth ws < 0" using array_loop.prems operator_weight(6) [of t] by simp_all
    then have "ws \<noteq> []" by auto
    then have value_ok: "steps 0 ws (parse_value strtod ws None)"
      using array_loop(1) [of _ "Some t" ws False True] t ws array_loop.prems(3) by simp
    have loop: "steps 1 us (parse_array_loop strtod (qlist_append_obj l v) us None)"
      if "parse_value strtod ws None = Some (Some v, us, None)" "well us" "depth us = depth ws + 0" for v us
      using array_loop(2) [of _ "Some t" ws False True _ "Some v" "(us, None)" v us None] that t ws array_loop.prems(3)
      by simp
    show "steps 1 ws (case parse_value strtod ws None of None \<Rightarrow> None
        | Some (None, _, ap) \<Rightarrow> Some (None, ts, ap)
        | Some (Some obj, working, ap) \<Rightarrow> parse_array_loop strtod (qlist_append_obj l obj) working ap)"
      using steps_then [OF value_ok, of 1 "\<lambda>obj. parse_array_loop strtod (qlist_append_obj l obj)" ts] loop by simp
  qed simp
qed

end
