(* ===== verification/Qjson.thy ===== *)
theory Qjson
  imports Json_Parser
begin

text \<open>
  Objects from JSON text and JSON text from objects, \<open>qemu/qjson.c\<close>.

  \<^item> \<open>qobject_from_jsonv\<close> runs lexer, streamer and parser together. Its result is \<open>None\<close> if the parser
    aborts or reads through a null pointer, and otherwise the object or the null pointer.
  \<^item> \<open>to_json\<close> appends to a string; \<open>pretty\<close> adds line breaks and indentation. The plain \<open>char\<close> of C is
    signed, as on the hosts the emulator runs on. \<open>format_double\<close> stands for \<open>snprintf\<close> of a double.
\<close>

section \<open>Reading\<close>

type_synonym json_client = "(va_list \<times> qobject option) option"

definition parse_json :: "(string \<Rightarrow> u64) \<Rightarrow> qobject list \<Rightarrow> json_client \<Rightarrow> json_client" where
  "parse_json strtod ts s =
    Option.bind s (\<lambda>(ap, result). map_option (\<lambda>(result, ap). (ap, result)) (json_parser_parse strtod ts ap))"

definition qobject_from_jsonv :: "(string \<Rightarrow> u64) \<Rightarrow> string \<Rightarrow> va_list \<Rightarrow> qobject option option" where
  "qobject_from_jsonv strtod str ap =
    (let p = json_message_parser_init (Some (ap, None));
         (err, p) = json_message_parser_feed (parse_json strtod) p str;
         (err, p) = json_message_parser_flush (parse_json strtod) p
     in map_option snd (client (snd p)))"

definition qobject_from_json :: "(string \<Rightarrow> u64) \<Rightarrow> string \<Rightarrow> qobject option option" where
  "qobject_from_json strtod str = qobject_from_jsonv strtod str None"

definition qobject_from_jsonf :: "(string \<Rightarrow> u64) \<Rightarrow> string \<Rightarrow> va_arg list \<Rightarrow> qobject option" where
  "qobject_from_jsonf strtod str args = Option.bind (qobject_from_jsonv strtod str (Some args)) (\<lambda>obj. obj)"

section \<open>Reading never crashes\<close>

definition stream_inv :: "json_client JSONMessageParser \<Rightarrow> bool" where
  "stream_inv p \<longleftrightarrow> well (tokens p) \<and> depth (tokens p) = brace_count p + bracket_count p \<and>
    (\<exists>r. client p = Some (None, r))"

lemma process_token_inv: "emit_keeps Q (json_message_process_token (parse_json strtod)) stream_inv"
  unfolding emit_keeps_def
proof (intro allI impI)
  fix w k x y and p :: "json_client JSONMessageParser"
  assume inv: "stream_inv p" and k: "is_token k" "k = JSON_OPERATOR \<longrightarrow> (\<exists>c. w = [c] \<and> is_operator c)"
    "k = JSON_STRING \<longrightarrow> w \<noteq> []"
  define t where "t = make_token w k x y"
  define q where "q = (if k = JSON_OPERATOR then count_operator w p else p)"
  have t: "tok t (k, w)" unfolding t_def using k(1) by (rule tok_make_token)
  then have ok: "token_ok t" using k(3) by (auto simp: token_ok_def)
  have q: "tokens q = tokens p" "client q = client p"
    "brace_count q + bracket_count q = brace_count p + bracket_count p + obj_weight t"
    using t k(2) by (auto simp: q_def count_operator_def obj_weight_def tok_is_operator split: if_splits)
  define ts where "ts = tokens p @ [t]"
  have ts: "well ts" "depth ts = brace_count q + bracket_count q" "ts \<noteq> []"
    using inv ok q(3) by (simp_all add: ts_def stream_inv_def)
  show "stream_inv (json_message_process_token (parse_json strtod) w k x y p)"
  proof (cases "brace_count q = 0 \<and> bracket_count q = 0")
    case True
    then have "steps 0 ts (parse_value strtod ts None)" using ts by (intro parse_steps(1)) simp_all
    then have "\<exists>r. parse_json strtod ts (client p) = Some (None, r)"
      using inv by (auto simp: stream_inv_def parse_json_def json_parser_parse_def steps_def)
    then show ?thesis
      using True q ts by (simp add: json_message_process_token_def Let_def qlist_append_obj_def stream_inv_def
        flip: q_def t_def ts_def)
  next
    case False
    then show ?thesis
      using q ts inv by (auto simp: json_message_process_token_def Let_def qlist_append_obj_def stream_inv_def
        simp flip: q_def t_def ts_def)
  qed
qed

text \<open>C7: Reading any text as JSON returns, with an object or the null pointer: no assertion of the
  parser fails and it never looks at a token that is not there, however malformed the text.\<close>

theorem json_reading_never_crashes: "\<exists>obj. qobject_from_json strtod str = Some obj"
proof -
  let ?e = "json_message_process_token (parse_json strtod)"
  obtain l and p :: "json_client JSONMessageParser"
    where i: "json_message_parser_init (Some (None, None)) = (l, p)" by fastforce
  then have init: "lexer_inv (\<lambda>_. True) l" "stream_inv p"
    by (auto simp: json_message_parser_init_def json_lexer_init_def lexer_inv_def stream_inv_def)
  obtain e1 l1 p1 where f: "json_lexer_feed ?e l str p = (e1, l1, p1)" using prod_cases3 by blast
  then have p1: "lexer_inv (\<lambda>_. True) l1" "stream_inv p1" using feed_invariant [OF process_token_inv init, of str strtod] by simp_all
  obtain e2 l2 p2 where g: "json_lexer_flush ?e l1 p1 = (e2, l2, p2)" using prod_cases3 by blast
  then have "stream_inv p2" using flush_invariant [OF process_token_inv p1, of strtod] by simp
  then obtain r where "client p2 = Some (None, r)" by (auto simp: stream_inv_def)
  then show ?thesis
    using i f g by (simp add: qobject_from_json_def qobject_from_jsonv_def json_message_parser_feed_def json_message_parser_flush_def)
qed

section \<open>Writing\<close>

text \<open>The format \<open>%04X\<close>.\<close>

definition hexdigit :: "nat \<Rightarrow> char" where
  "hexdigit n = (if n < 10 then char_of (48 + n) else char_of (55 + n))"

definition nibble :: "u32 \<Rightarrow> nat \<Rightarrow> char" where
  "nibble w i = hexdigit (unat (drop_bit (4 * i) w AND 0xF))"

definition print_04X :: "u32 \<Rightarrow> string" where
  "print_04X w =
    (let ds = map (nibble w) [7, 6, 5, 4, 3, 2, 1, 0]
     in drop (min 4 (length (takeWhile (\<lambda>c. c = CHR ''0'') ds))) ds)"

text \<open>\<open>snprintf\<close> into the array \<open>escape[7]\<close>.\<close>

definition escape_sequence :: "u32 \<Rightarrow> string" where
  "escape_sequence w = take 6 (BACKSLASH # CHR ''u'' # print_04X w)"

definition to_json_char :: "char \<Rightarrow> string" where
  "to_json_char c =
    (if c = DQ then [BACKSLASH, DQ]
     else if c = BACKSLASH then [BACKSLASH, BACKSLASH]
     else if c = CHR 0x08 then [BACKSLASH, CHR ''b'']
     else if c = CHR 0x0C then [BACKSLASH, CHR ''f'']
     else if c = CHR 0x0A then [BACKSLASH, CHR ''n'']
     else if c = CHR 0x0D then [BACKSLASH, CHR ''r'']
     else if c = CHR 0x09 then [BACKSLASH, CHR ''t'']
     else if sint (of_char c :: u8) \<le> 0x1F then escape_sequence (word_of_int (sint (of_char c :: u8)))
     else [c])"

definition byte_at :: "string \<Rightarrow> nat \<Rightarrow> u8" where
  "byte_at s i = (if i < length s then of_char (s ! i) else 0)"

fun to_json_chars :: "string \<Rightarrow> string" where
  "to_json_chars [] = []"
| "to_json_chars (c # cs) =
    (let p0 = (of_char c :: u8); p1 = byte_at cs 0; p2 = byte_at cs 1
     in if p0 AND 0xE0 = 0xE0 \<and> p1 AND 0x80 \<noteq> 0 \<and> p2 AND 0x80 \<noteq> 0
        then
          (let wchar = push_bit 12 (ucast (p0 AND 0x0F)) OR push_bit 6 (ucast (p1 AND 0x3F)) OR ucast (p2 AND 0x3F) :: u16
           in escape_sequence (ucast wchar) @ to_json_chars (drop 2 cs))
        else if p0 AND 0xE0 = 0xC0 \<and> p1 AND 0x80 \<noteq> 0
        then
          (let wchar = push_bit 6 (ucast (p0 AND 0x1F)) OR ucast (p1 AND 0x3F) :: u16
           in escape_sequence (ucast wchar) @ to_json_chars (drop 1 cs))
        else to_json_char c @ to_json_chars cs)"

declare to_json_chars.simps(2) [simp del]

text \<open>A byte that starts no sequence is compared as a signed character and written as the escape of 0xFFFF.\<close>

lemma stray_byte_text: "to_json_chars [CHR 0x80] = BACKSLASH # ''uFFFF''" "to_json_chars [CHR 0xFE] = BACKSLASH # ''uFFFF''"
  by code_simp+

definition to_json_string :: "string \<Rightarrow> string \<Rightarrow> string" where
  "to_json_string s str = str @ [DQ] @ to_json_chars s @ [DQ]"

text \<open>The trailing zeros of \<open>%f\<close>, and a trailing point, are cut off.\<close>

definition trim_double :: "string \<Rightarrow> string" where
  "trim_double buffer =
    (let b = rev (dropWhile (\<lambda>c. c = CHR ''0'') (rev buffer))
     in if b \<noteq> [] \<and> last b = CHR ''.'' then butlast b else b)"

definition newline_indent :: "bool \<Rightarrow> nat \<Rightarrow> string" where
  "newline_indent pretty indent = (if pretty then CHR 0x0A # concat (replicate indent ''    '') else [])"

definition to_json_list_iter :: "(qobject \<Rightarrow> string \<Rightarrow> string) \<Rightarrow> bool \<Rightarrow> nat \<Rightarrow> qobject \<Rightarrow> nat \<times> string \<Rightarrow> nat \<times> string" where
  "to_json_list_iter print pretty indent obj s =
    (let str = (if fst s \<noteq> 0 then snd s @ '', '' else snd s);
         str = str @ newline_indent pretty indent;
         str = print obj str
     in (fst s + 1, str))"

definition to_json_dict_iter ::
  "(qobject \<Rightarrow> string \<Rightarrow> string) \<Rightarrow> bool \<Rightarrow> nat \<Rightarrow> string \<Rightarrow> qobject \<Rightarrow> nat \<times> string \<Rightarrow> nat \<times> string" where
  "to_json_dict_iter print pretty indent key obj s =
    (let str = (if fst s \<noteq> 0 then snd s @ '', '' else snd s);
         str = str @ newline_indent pretty indent;
         str = to_json_string key str;
         str = str @ '': '';
         str = print obj str
     in (fst s + 1, str))"

lemma list_iter_cong [fundef_cong]:
  "obj = obj' \<Longrightarrow> s = s' \<Longrightarrow> pretty = pretty' \<Longrightarrow> indent = indent' \<Longrightarrow> (\<And>str. print obj' str = print' obj' str) \<Longrightarrow>
    to_json_list_iter print pretty indent obj s = to_json_list_iter print' pretty' indent' obj' s'"
  by (simp add: to_json_list_iter_def)

lemma dict_iter_cong [fundef_cong]:
  "key = key' \<Longrightarrow> obj = obj' \<Longrightarrow> s = s' \<Longrightarrow> pretty = pretty' \<Longrightarrow> indent = indent' \<Longrightarrow>
    (\<And>str. print obj' str = print' obj' str) \<Longrightarrow>
    to_json_dict_iter print pretty indent key obj s = to_json_dict_iter print' pretty' indent' key' obj' s'"
  by (simp add: to_json_dict_iter_def)

lemma list_fold_cong [fundef_cong]:
  "l = l' \<Longrightarrow> s = s' \<Longrightarrow> (\<And>obj s. obj \<in> set l' \<Longrightarrow> f obj s = g obj s) \<Longrightarrow> qlist_iter l f s = qlist_iter l' g s'"
  unfolding qlist_iter_def by (rule fold_cong) (auto simp: fun_eq_iff)

lemma dict_fold_cong [fundef_cong]:
  "d = d' \<Longrightarrow> s = s' \<Longrightarrow> (\<And>key obj s. (key, obj) \<in> set (qdict_entries d') \<Longrightarrow> f key obj s = g key obj s) \<Longrightarrow>
    qdict_iter d f s = qdict_iter d' g s'"
  unfolding qdict_iter_entries by (rule fold_cong) auto

lemma size_entries: "(k, v) \<in> set (qdict_entries d) \<Longrightarrow> f v < size_qdict f d"
proof (cases d)
  case (Qdict n t)
  assume "(k, v) \<in> set (qdict_entries d)"
  then obtain b where b: "b \<in> set t" "(k, v) \<in> set b" using Qdict by (auto simp: qdict_entries_def)
  have "f v \<le> size_list (size_prod (\<lambda>_. 0) f) b" using b(2) by (rule size_list_estimation') simp
  then have "f v \<le> size_list (size_list (size_prod (\<lambda>_. 0) f)) t" using b(1) size_list_estimation' by metis
  then show ?thesis using Qdict by simp
qed

function to_json :: "(u64 \<Rightarrow> string) \<Rightarrow> qobject \<Rightarrow> string \<Rightarrow> bool \<Rightarrow> nat \<Rightarrow> string" where
  "to_json format_double (QInt i) str pretty indent = str @ print_int i"
| "to_json format_double (QString s) str pretty indent = to_json_string s str"
| "to_json format_double (QDict d) str pretty indent =
    (let str = str @ ''{'';
         str = snd (qdict_iter d
           (to_json_dict_iter (\<lambda>obj str. to_json format_double obj str pretty (indent + 1)) pretty (indent + 1)) (0, str));
         str = str @ newline_indent pretty indent
     in str @ ''}'')"
| "to_json format_double (QList l) str pretty indent =
    (let str = str @ ''['';
         str = snd (qlist_iter l
           (to_json_list_iter (\<lambda>obj str. to_json format_double obj str pretty (indent + 1)) pretty (indent + 1)) (0, str));
         str = str @ newline_indent pretty indent
     in str @ '']'')"
| "to_json format_double (QFloat f) str pretty indent = str @ trim_double (format_double f)"
| "to_json format_double (QBool b) str pretty indent = str @ (if b \<noteq> 0 then ''true'' else ''false'')"
| "to_json format_double QError str pretty indent = str"
  by pat_completeness auto
termination
  by (relation "measure (\<lambda>(f, obj, str, pretty, indent). size obj)")
    (auto simp: less_Suc_eq_le intro: size_list_estimation' size_entries [THEN less_imp_le])

definition qobject_to_json :: "(u64 \<Rightarrow> string) \<Rightarrow> qobject \<Rightarrow> string" where
  "qobject_to_json format_double obj = to_json format_double obj '''' False 0"

definition qobject_to_json_pretty :: "(u64 \<Rightarrow> string) \<Rightarrow> qobject \<Rightarrow> string" where
  "qobject_to_json_pretty format_double obj = to_json format_double obj '''' True 0"

end
