(* ===== verification/Json_Types.thy ===== *)
theory Json_Types
  imports Qjson
begin

text \<open>
  What reading a JSON text can give: numbers of 64 bits, strings without NUL, truth values that are zero or
  one and dictionaries that are well formed, at every depth. The invariant goes through the lexer (the
  characters of tokens are those of the text), the streamer and the parser.
\<close>

section \<open>Typed objects\<close>

inductive json_typed :: "qobject \<Rightarrow> bool" where
  "- (2 ^ 63) \<le> i \<Longrightarrow> i < 2 ^ 63 \<Longrightarrow> json_typed (QInt i)"
| "c_string s \<Longrightarrow> json_typed (QString s)"
| "qdict_inv d \<Longrightarrow> (\<And>k v. qdict_get d k = Some v \<Longrightarrow> c_string k \<and> json_typed v) \<Longrightarrow> json_typed (QDict d)"
| "(\<And>v. v \<in> set l \<Longrightarrow> json_typed v) \<Longrightarrow> json_typed (QList l)"
| "json_typed (QFloat f)"
| "b \<in> {0, 1} \<Longrightarrow> json_typed (QBool b)"

inductive_simps json_typed_simps [simp]:
  "json_typed (QInt i)" "json_typed (QString s)" "json_typed (QDict d)" "json_typed (QList l)" "json_typed (QBool b)"

lemma json_typed_new: "json_typed (QDict qdict_new)"
  by (simp add: qdict.new_inv qdict.get_new)

lemma json_typed_put:
  "json_typed (QDict d) \<Longrightarrow> c_string k \<Longrightarrow> json_typed v \<Longrightarrow> json_typed (QDict (qdict_put_obj d k v))"
  using qdict.put_inv [of d k v] qdict.get_put [of d k v] by (auto split: if_splits)

section \<open>Literals\<close>

lemma strtoll_range: "- (2 ^ 63) \<le> strtoll w" "strtoll w < 2 ^ 63"
  by (simp_all add: strtoll_def Let_def)

lemma c_string_simps: "c_string (s @ t) \<longleftrightarrow> c_string s \<and> c_string t" "c_string (c # s) \<longleftrightarrow> c \<noteq> NUL \<and> c_string s" "c_string []"
  by (auto simp: c_string_def)

lemma read_hex_rest: "read_hex n u ptr = Some (v, rest) \<Longrightarrow> c_string ptr \<Longrightarrow> c_string rest"
  by (induction n u ptr rule: read_hex.induct) (auto simp: c_string_simps split: if_splits)

lemma simple_escape_char: "simple_escape e = Some d \<Longrightarrow> e \<noteq> NUL \<Longrightarrow> d \<noteq> NUL"
  by (auto simp: simple_escape_def split: if_splits)

lemma unescape_c_string:
  "unescape_loop quote str ptr = Some s \<Longrightarrow> c_string str \<Longrightarrow> c_string ptr \<Longrightarrow> c_string s"
proof (induction quote str ptr rule: unescape_loop.induct)
  case (1 quote str ptr)
  have w: "c_string (takeWhile (\<lambda>c. c \<noteq> NUL) cs)" for cs by (auto simp: c_string_def dest: set_takeWhileD)
  show ?case
  proof (cases "ptr = [] \<or> hd ptr = quote \<or> hd ptr \<noteq> BACKSLASH")
    case True
    then show ?thesis
      using "1.prems" "1.IH"(3) by (subst (asm) unescape_loop.simps) (auto simp: c_string_simps split: list.splits if_splits)
  next
    case False
    then obtain e ptr' where p: "ptr = BACKSLASH # e # ptr'" "quote \<noteq> BACKSLASH"
      using "1.prems"(1) by (subst (asm) unescape_loop.simps) (auto split: list.splits)
    show ?thesis
    proof (cases "simple_escape e")
      case (Some d)
      then show ?thesis
        using "1.prems" "1.IH"(2) [OF p(1) p(2) [symmetric] refl refl Some] p simple_escape_char [OF Some]
        by (subst (asm) unescape_loop.simps) (auto simp: c_string_simps)
    next
      case None
      then show ?thesis
        using "1.prems" "1.IH"(1) [OF p(1) p(2) [symmetric] refl refl None] p w read_hex_rest
        by (subst (asm) unescape_loop.simps) (auto simp: c_string_simps split: if_splits option.splits)
    qed
  qed
qed

section \<open>The parser\<close>

definition token_typed :: "qobject \<Rightarrow> bool" where
  "token_typed t \<longleftrightarrow> (\<exists>k w. tok t (k, w) \<and> c_string w)"

definition typed_result :: "('a \<Rightarrow> bool) \<Rightarrow> 'a parse \<Rightarrow> bool" where
  "typed_result P r \<longleftrightarrow>
    (\<forall>v us ap. r = Some (v, us, ap) \<longrightarrow> ap = None \<and> (\<forall>t \<in> set us. token_typed t) \<and> (\<forall>x. v = Some x \<longrightarrow> P x))"

lemma typed_result_simps [simp]:
  "typed_result P None"
  "typed_result P (Some (v, us, ap)) \<longleftrightarrow> ap = None \<and> (\<forall>t \<in> set us. token_typed t) \<and> (\<forall>x. v = Some x \<longrightarrow> P x)"
  by (auto simp: typed_result_def)

lemma typed_result_then:
  assumes "typed_result P r" "\<forall>t \<in> set vs. token_typed t"
    and "\<And>v us. r = Some (Some v, us, None) \<Longrightarrow> P v \<Longrightarrow> \<forall>t \<in> set us. token_typed t \<Longrightarrow> typed_result Q (f v us None)"
  shows "typed_result Q (case r of None \<Rightarrow> None | Some (None, _, ap) \<Rightarrow> Some (None, vs, ap) | Some (Some v, us, ap) \<Rightarrow> f v us ap)"
proof (cases r)
  case (Some x)
  obtain v us ap where "x = (v, us, ap)" by (cases x)
  with Some assms show ?thesis by (cases v) auto
qed simp

lemma typed_result_else:
  assumes "typed_result P r"
    and "\<And>us. r = Some (None, us, None) \<Longrightarrow> \<forall>t \<in> set us. token_typed t \<Longrightarrow> typed_result P (f us None)"
  shows "typed_result P (case r of None \<Rightarrow> None | Some (Some obj, q) \<Rightarrow> Some (Some obj, q) | Some (None, ts, ap) \<Rightarrow> f ts ap)"
proof (cases r)
  case (Some x)
  obtain v us ap where "x = (v, us, ap)" by (cases x)
  with Some assms show ?thesis by (cases v) auto
qed simp

lemma token_typed_value:
  assumes "token_typed t"
  shows "token_get_value (Some t) = Some w \<Longrightarrow> c_string w"
  using assms tok_get by (auto simp: token_typed_def)

lemma typed_leaves:
  assumes "\<forall>t \<in> set ts. token_typed t"
  shows "typed_result json_typed (parse_keyword ts None)" "typed_result json_typed (parse_escape ts None)"
    "typed_result json_typed (parse_literal strtod ts None)"
proof -
  show "typed_result json_typed (parse_keyword ts None)"
    using assms by (cases ts) (auto simp: parse_keyword_def split: option.splits bool.splits)
  show "typed_result json_typed (parse_escape ts None)" using assms by (simp add: parse_escape_def)
  show "typed_result json_typed (parse_literal strtod ts None)"
  proof (cases ts)
    case (Cons t us)
    have "c_string s" if s: "qstring_from_escaped_str (Some t) = Some (Some s)" for s
    proof -
      obtain c w where w: "token_get_value (Some t) = Some (c # w)" "unescape_loop (if c = DQ then DQ else SQ) [] w = Some s"
        using s by (cases "the (token_get_value (Some t))") (auto simp: qstring_from_escaped_str_def bind_eq_Some_conv)
      then show ?thesis
        using token_typed_value [OF _ w(1)] assms Cons by (intro unescape_c_string [OF w(2)]) (simp_all add: c_string_simps)
    qed
    then show ?thesis
      using assms Cons strtoll_range by (auto simp: parse_literal_def json_typed.intros split: option.splits)
  qed (simp add: parse_literal_def)
qed

lemma typed_pop:
  assumes "\<forall>t \<in> set ts. token_typed t"
  shows "\<forall>t \<in> set (snd (qlist_pop ts)). token_typed t"
  using assms by (cases ts) simp_all

lemma parse_typed:
  "\<forall>t \<in> set ts. token_typed t \<Longrightarrow> ap = None \<Longrightarrow> typed_result json_typed (parse_value strtod ts ap)"
  "\<forall>t \<in> set ts1. token_typed t \<Longrightarrow> ap1 = None \<Longrightarrow> typed_result json_typed (parse_object strtod1 ts1 ap1)"
  "\<forall>t \<in> set ts2. token_typed t \<Longrightarrow> ap2 = None \<Longrightarrow> json_typed (QDict d2) \<Longrightarrow>
    typed_result (\<lambda>d. json_typed (QDict d)) (parse_object_loop strtod2 d2 ts2 ap2)"
  "\<forall>t \<in> set ts3. token_typed t \<Longrightarrow> ap3 = None \<Longrightarrow> json_typed (QDict d3) \<Longrightarrow>
    typed_result (\<lambda>d. json_typed (QDict d)) (parse_pair strtod3 d3 ts3 ap3)"
  "\<forall>t \<in> set ts4. token_typed t \<Longrightarrow> ap4 = None \<Longrightarrow> typed_result json_typed (parse_array strtod4 ts4 ap4)"
  "\<forall>t \<in> set ts5. token_typed t \<Longrightarrow> ap5 = None \<Longrightarrow> json_typed (QList l5) \<Longrightarrow>
    typed_result (\<lambda>l. json_typed (QList l)) (parse_array_loop strtod5 l5 ts5 ap5)"
proof (induction strtod ts ap and strtod1 ts1 ap1 and strtod2 d2 ts2 ap2 and strtod3 d3 ts3 ap3
    and strtod4 ts4 ap4 and strtod5 l5 ts5 ap5
    rule: parse_value_parse_object_parse_object_loop_parse_pair_parse_array_parse_array_loop.induct)
  case val: (1 strtod ts ap)
  note obj = val(1) [OF val.prems]
  have arr: "typed_result json_typed (parse_array strtod us None)"
    if "parse_object strtod ts None = Some (None, us, None)" "\<forall>t \<in> set us. token_typed t" for us
    using val(2) [of "(None, us, None)" None "(us, None)" us None] that val.prems by simp
  show ?case
    unfolding parse_value.simps [of strtod ts ap]
    by (intro typed_result_else obj arr typed_leaves) (use val.prems(2) in simp_all)
next
  case object: (2 strtod ts ap)
  show ?case
  proof (cases ts)
    case (Cons t ws)
    have ws: "\<forall>t \<in> set ws. token_typed t" "\<forall>t \<in> set (snd (qlist_pop ws)). token_typed t"
      using object.prems(1) Cons typed_pop [of ws] by simp_all
    have "typed_result json_typed (case parse_pair strtod qdict_new ws None of None \<Rightarrow> None
        | Some (None, _, ap) \<Rightarrow> Some (None, ts, ap)
        | Some (Some dict, working, ap) \<Rightarrow>
            (case parse_object_loop strtod dict working ap of None \<Rightarrow> None
             | Some (None, _, ap) \<Rightarrow> Some (None, ts, ap)
             | Some (Some dict, working, ap) \<Rightarrow> Some (Some (QDict dict), working, ap)))"
      if "token_is_operator (Some t) CHR ''{'' = Some True" "token_is_operator (qlist_peek ws) CHR ''}'' = Some False"
    proof (rule typed_result_then [OF _ object.prems(1)])
      show "typed_result (\<lambda>d. json_typed (QDict d)) (parse_pair strtod qdict_new ws None)"
        using object(1) [of _ "Some t" ws True False] that Cons ws object.prems(2) json_typed_new by simp
      fix d us
      assume d: "parse_pair strtod qdict_new ws None = Some (Some d, us, None)" "json_typed (QDict d)" "\<forall>t \<in> set us. token_typed t"
      then have "typed_result (\<lambda>d. json_typed (QDict d)) (parse_object_loop strtod d us None)"
        using object(2) [of _ "Some t" ws True False _ "Some d" "(us, None)" d us None] that Cons object.prems(2) by simp
      then show "typed_result json_typed (case parse_object_loop strtod d us None of None \<Rightarrow> None
             | Some (None, _, ap) \<Rightarrow> Some (None, ts, ap)
             | Some (Some dict, working, ap) \<Rightarrow> Some (Some (QDict dict), working, ap))"
        by (rule typed_result_then [OF _ object.prems(1)]) simp
    qed
    then show ?thesis
      using Cons object.prems json_typed_new ws by (auto simp: parse_object.simps [of _ "_ # _"] split: option.split bool.split)
  qed (simp add: parse_object.simps)
next
  case object_loop: (3 strtod dict ts ap)
  show ?case
  proof (cases ts)
    case (Cons t ws)
    have ws: "\<forall>t \<in> set ws. token_typed t" using object_loop.prems(1) Cons by simp
    have "typed_result (\<lambda>d. json_typed (QDict d)) (case parse_pair strtod dict ws None of None \<Rightarrow> None
        | Some (None, _, ap) \<Rightarrow> Some (None, ts, ap)
        | Some (Some dict, working, ap) \<Rightarrow> parse_object_loop strtod dict working ap)"
      if "token_is_operator (Some t) CHR ''}'' = Some False" "token_is_operator (Some t) CHR '','' = Some True"
    proof (rule typed_result_then [OF _ object_loop.prems(1)])
      show "typed_result (\<lambda>d. json_typed (QDict d)) (parse_pair strtod dict ws None)"
        using object_loop(1) [of _ "Some t" ws False True] that Cons ws object_loop.prems(2,3) by simp
    qed (use object_loop(2) [of _ "Some t" ws False True] that Cons object_loop.prems(2) in simp)
    then show ?thesis
      using Cons object_loop.prems ws by (auto simp: parse_object_loop.simps [of _ _ "_ # _"] split: option.split bool.split)
  qed (simp add: parse_object_loop.simps)
next
  case pair: (4 strtod dict ts ap)
  have key: "typed_result json_typed (parse_value strtod ts None)" using pair(1) pair.prems by simp
  have "typed_result (\<lambda>d. json_typed (QDict d)) (case parse_value strtod vs None of None \<Rightarrow> None
      | Some (None, _, ap) \<Rightarrow> Some (None, ts, ap)
      | Some (Some v, working, ap) \<Rightarrow> Some (Some (qdict_put_obj dict key v), working, ap))"
    if k: "parse_value strtod ts None = Some (Some (QString key), c # vs, None)" "token_is_operator (Some c) CHR '':'' = Some True"
    for key c vs
  proof (rule typed_result_then [OF _ pair.prems(1)])
    have vs: "\<forall>t \<in> set vs. token_typed t" "c_string key" using key k(1) by simp_all
    show "typed_result json_typed (parse_value strtod vs None)"
      using pair(2) [of _ _ "(c # vs, None)" "QString key" key "c # vs" None _ "Some c" vs True] k vs pair.prems(2) by simp
    show "typed_result (\<lambda>d. json_typed (QDict d)) (Some (Some (qdict_put_obj dict key v), us, None))"
      if "json_typed v" "\<forall>t \<in> set us. token_typed t" for v us
      using that vs(2) pair.prems(3) json_typed_put by (auto simp del: json_typed_simps)
  qed
  then show ?case
    using key pair.prems(1,2)
    by (auto simp: parse_pair.simps qlist_pop_def split: option.split qobject.split list.split bool.split)
next
  case array: (5 strtod ts ap)
  show ?case
  proof (cases ts)
    case (Cons t ws)
    have ws: "\<forall>t \<in> set ws. token_typed t" "\<forall>t \<in> set (snd (qlist_pop ws)). token_typed t"
      using array.prems(1) Cons typed_pop [of ws] by simp_all
    have "typed_result json_typed (case parse_value strtod ws None of None \<Rightarrow> None
        | Some (None, _, ap) \<Rightarrow> Some (None, ts, ap)
        | Some (Some obj, working, ap) \<Rightarrow>
            (case parse_array_loop strtod (qlist_append_obj [] obj) working ap of None \<Rightarrow> None
             | Some (None, _, ap) \<Rightarrow> Some (None, ts, ap)
             | Some (Some l, working, ap) \<Rightarrow> Some (Some (QList l), working, ap)))"
      if "token_is_operator (Some t) CHR ''['' = Some True" "token_is_operator (qlist_peek ws) CHR '']'' = Some False"
    proof (rule typed_result_then [OF _ array.prems(1)])
      show "typed_result json_typed (parse_value strtod ws None)"
        using array(1) [of _ "Some t" ws True False] that Cons ws array.prems(2) by simp
      fix v us
      assume v: "parse_value strtod ws None = Some (Some v, us, None)" "json_typed v" "\<forall>t \<in> set us. token_typed t"
      then have "typed_result (\<lambda>l. json_typed (QList l)) (parse_array_loop strtod (qlist_append_obj [] v) us None)"
        using array(2) [of _ "Some t" ws True False _ "Some v" "(us, None)" v us None] that Cons array.prems(2)
        by (simp add: qlist_append_obj_def)
      then show "typed_result json_typed (case parse_array_loop strtod (qlist_append_obj [] v) us None of None \<Rightarrow> None
             | Some (None, _, ap) \<Rightarrow> Some (None, ts, ap)
             | Some (Some l, working, ap) \<Rightarrow> Some (Some (QList l), working, ap))"
        by (rule typed_result_then [OF _ array.prems(1)]) simp
    qed
    then show ?thesis
      using Cons array.prems ws by (auto simp: parse_array.simps [of _ "_ # _"] split: option.split bool.split)
  qed (simp add: parse_array.simps)
next
  case array_loop: (6 strtod l ts ap)
  show ?case
  proof (cases ts)
    case (Cons t ws)
    have ws: "\<forall>t \<in> set ws. token_typed t" using array_loop.prems(1) Cons by simp
    have "typed_result (\<lambda>l. json_typed (QList l)) (case parse_value strtod ws None of None \<Rightarrow> None
        | Some (None, _, ap) \<Rightarrow> Some (None, ts, ap)
        | Some (Some obj, working, ap) \<Rightarrow> parse_array_loop strtod (qlist_append_obj l obj) working ap)"
      if "token_is_operator (Some t) CHR '']'' = Some False" "token_is_operator (Some t) CHR '','' = Some True"
    proof (rule typed_result_then [OF _ array_loop.prems(1)])
      show "typed_result json_typed (parse_value strtod ws None)"
        using array_loop(1) [of _ "Some t" ws False True] that Cons ws array_loop.prems(2) by simp
    qed (use array_loop(2) [of _ "Some t" ws False True] that Cons array_loop.prems(2,3) in
        \<open>auto simp: qlist_append_obj_def\<close>)
    then show ?thesis
      using Cons array_loop.prems ws by (auto simp: parse_array_loop.simps [of _ _ "_ # _"] split: option.split bool.split)
  qed (simp add: parse_array_loop.simps)
qed

section \<open>Reading\<close>

definition typed_inv :: "json_client JSONMessageParser \<Rightarrow> bool" where
  "typed_inv p \<longleftrightarrow> (\<forall>t \<in> set (tokens p). token_typed t) \<and>
    (\<forall>ap r. client p = Some (ap, r) \<longrightarrow> ap = None \<and> (\<forall>obj. r = Some obj \<longrightarrow> json_typed obj))"

lemma process_token_typed: "emit_keeps (\<lambda>c. c \<noteq> NUL) (json_message_process_token (parse_json strtod)) typed_inv"
  unfolding emit_keeps_def
proof (intro allI impI)
  fix w k x y and p :: "json_client JSONMessageParser"
  assume inv: "typed_inv p" and k: "is_token k" "\<forall>c \<in> set w. c \<noteq> NUL"
  define t where "t = make_token w k x y"
  define q where "q = (if k = JSON_OPERATOR then count_operator w p else p)"
  have "tok t (k, w)" "c_string w" unfolding t_def using tok_make_token [OF k(1)] k(2) by (auto simp: c_string_def)
  then have "token_typed t" unfolding token_typed_def by blast
  moreover have q: "tokens q = tokens p" "client q = client p"
    by (auto simp: q_def count_operator_def split: list.split)
  moreover define ts where "ts = tokens p @ [t]"
  ultimately have ts: "\<forall>t \<in> set ts. token_typed t" using inv by (auto simp: typed_inv_def)
  have parsed: "ap = None \<and> (\<forall>obj. r = Some obj \<longrightarrow> json_typed obj)"
    if "parse_json strtod ts (client p) = Some (ap, r)" for ap r
  proof -
    obtain a s where c: "client p = Some (a, s)" using \<open>parse_json strtod ts (client p) = Some (ap, r)\<close> by (cases "client p") (auto simp: parse_json_def)
    then have "a = None" using inv by (simp add: typed_inv_def)
    with that c obtain us where "parse_value strtod ts None = Some (r, us, ap)"
      by (auto simp: parse_json_def json_parser_parse_def)
    then show ?thesis using parse_typed(1) [OF ts refl, of strtod] by simp
  qed
  show "typed_inv (json_message_process_token (parse_json strtod) w k x y p)"
  proof (cases "brace_count q = 0 \<and> bracket_count q = 0")
    case True
    then have "json_message_process_token (parse_json strtod) w k x y p =
        q\<lparr>client := parse_json strtod ts (client p), tokens := []\<rparr>"
      unfolding json_message_process_token_def Let_def qlist_append_obj_def
      unfolding q_def [symmetric] t_def [symmetric] by (simp add: q ts_def)
    then show ?thesis using parsed by (simp add: typed_inv_def)
  next
    case False
    then have "json_message_process_token (parse_json strtod) w k x y p = q\<lparr>tokens := ts\<rparr>"
      unfolding json_message_process_token_def Let_def qlist_append_obj_def
      unfolding q_def [symmetric] t_def [symmetric] by (auto simp: q ts_def)
    then show ?thesis using ts q(2) inv by (simp add: typed_inv_def)
  qed
qed

text \<open>C22: Every object read from a JSON text is well formed at every depth: integers of 64 bits,
  strings and keys without NUL, truth values zero or one, consistent dictionaries.\<close>

theorem json_reading_well_typed:
  assumes "c_string str" "qobject_from_json strtod str = Some (Some obj)"
  shows "json_typed obj"
proof -
  let ?e = "json_message_process_token (parse_json strtod)" and ?Q = "\<lambda>c. c \<noteq> NUL"
  obtain l and p :: "json_client JSONMessageParser"
    where i: "json_message_parser_init (Some (None, None)) = (l, p)" by fastforce
  then have init: "lexer_inv ?Q l" "typed_inv p"
    by (auto simp: json_message_parser_init_def json_lexer_init_def lexer_inv_def typed_inv_def)
  have str: "\<forall>c \<in> set str. c \<noteq> NUL" using assms(1) by (auto simp: c_string_def)
  obtain e1 l1 p1 where f: "json_lexer_feed ?e l str p = (e1, l1, p1)" using prod_cases3 by blast
  then have p1: "lexer_inv ?Q l1" "typed_inv p1" using feed_invariant [OF process_token_typed init str, of strtod] by simp_all
  obtain e2 l2 p2 where g: "json_lexer_flush ?e l1 p1 = (e2, l2, p2)" using prod_cases3 by blast
  then have "typed_inv p2" using flush_invariant [OF process_token_typed p1, of strtod] by simp
  moreover have "\<exists>ap. client p2 = Some (ap, Some obj)"
    using assms(2) i f g
    by (auto simp: qobject_from_json_def qobject_from_jsonv_def json_message_parser_feed_def json_message_parser_flush_def)
  ultimately show ?thesis by (auto simp: typed_inv_def)
qed

theorem json_reading_well_typed_witness:
  "c_string ''[7]'' \<and> qobject_from_json (\<lambda>_. 0) ''[7]'' = Some (Some (QList [QInt 7])) \<and> json_typed (QList [QInt 7])"
proof -
  have "c_string ''[7]''" "qobject_from_json (\<lambda>_. 0) ''[7]'' = Some (Some (QList [QInt 7]))"
    by (simp add: c_string_def, code_simp)
  then show ?thesis using json_reading_well_typed by blast
qed

end
