(* ===== verification/Json_Roundtrip.thy ===== *)
theory Json_Roundtrip
  imports Qjson
begin

text \<open>
  What is written is read back: for every object without floating point numbers whose strings are UTF-8 for
  16-bit characters, reading the text that \<open>qobject_to_json\<close> or \<open>qobject_to_json_pretty\<close> wrote gives an
  object of the same value. The proof follows the data through all layers: characters and escapes, the
  lexer, the tokens of a message, the parser.
\<close>

section \<open>Characters\<close>

definition utf8_char :: "u16 \<Rightarrow> string" where
  "utf8_char w = takeWhile (\<lambda>c. c \<noteq> NUL) (case wchar_to_utf8 w 4 of Some s \<Rightarrow> s | None \<Rightarrow> [])"

definition utf8 :: "u16 list \<Rightarrow> string" where
  "utf8 ws = concat (map utf8_char ws)"

lemma nat_of_char_byte [simp]: "(of_char (byte b) :: nat) = unat b"
  using unat_bounds(1) [of b] by (simp add: byte_def)

lemma of_char_byte [simp]: "(of_char (byte b) :: u8) = b"
  using of_nat_of_char [of "byte b", where 'a = u8] by simp

lemma byte_eq: "byte b = c \<longleftrightarrow> b = of_char c"
proof
  assume b: "b = of_char c"
  have "unat (of_nat (of_char c) :: u8) = of_char c" by (simp add: unsigned_of_nat take_bit_nat_eq_self)
  then have "(of_char (byte b) :: nat) = of_char c" by (simp add: b of_nat_of_char)
  then show "byte b = c" by (simp only: of_char_eq_iff)
qed auto

lemma byte_NUL [simp]: "byte b = NUL \<longleftrightarrow> b = 0"
  by (simp add: byte_eq)

text \<open>Words as their bits.\<close>

lemma u8_eqI:
  assumes "\<And>n. n \<in> {0, 1, 2, 3, 4, 5, 6, 7} \<Longrightarrow> bit a n = bit b n"
  shows "a = (b :: u8)"
proof (rule bit_word_eqI)
  have "set [0..<8] = {0, 1, 2, 3, 4, 5, 6, 7 :: nat}" by code_simp
  then have "n < 8 \<Longrightarrow> n \<in> {0, 1, 2, 3, 4, 5, 6, 7}" for n :: nat by (metis atLeastLessThan_iff set_upt zero_le)
  then show "n < LENGTH(8) \<Longrightarrow> bit a n = bit b n" for n using assms by simp
qed

lemma less_16:
  assumes "n < 16"
  shows "n \<in> {0, 1, 2, 3, 4, 5, 6, 7, 8, 9, 10, 11, 12, 13, 14, 15 :: nat}"
proof -
  have "set [0..<16] = {0, 1, 2, 3, 4, 5, 6, 7, 8, 9, 10, 11, 12, 13, 14, 15 :: nat}" by code_simp
  then show ?thesis using assms by (metis atLeastLessThan_iff set_upt zero_le)
qed

lemma u16_eqI:
  assumes "\<And>n. n \<in> {0, 1, 2, 3, 4, 5, 6, 7, 8, 9, 10, 11, 12, 13, 14, 15} \<Longrightarrow> bit a n = bit b n"
  shows "a = (b :: u16)"
proof (rule bit_word_eqI)
  show "n < LENGTH(16) \<Longrightarrow> bit a n = bit b n" for n using assms less_16 by simp
qed

lemma small_bits:
  assumes "unat (w :: u16) < 2 ^ k" "k \<le> n"
  shows "\<not> bit w n"
proof -
  have "(2 :: nat) ^ k \<le> 2 ^ n" using assms(2) by simp
  with assms(1) have "unat w < 2 ^ n" by (rule less_le_trans)
  then have "unat w div 2 ^ n = 0" by (rule div_less)
  then have "\<not> bit (unat w) n" by (simp add: bit_iff_odd)
  then show ?thesis by (simp add: bit_simps)
qed

section \<open>Escapes\<close>

lemma int_of_char_of: "(of_char (char_of (n :: nat)) :: int) = int (n mod 256)"
  by (metis of_char_of of_nat_of_char)

lemma hexdigit_facts:
  assumes "n < 16"
  shows "is_xdigit (hexdigit n)" "hex2decimal (hexdigit n) = int n"
proof -
  from less_16 [OF assms] have "is_xdigit (hexdigit n) \<and> hex2decimal (hexdigit n) = int n"
    by (elim insertE emptyE)
      (simp_all add: hexdigit_def is_xdigit_def hex2decimal_def is_digit_def in_range_def int_of_char_of)
  then show "is_xdigit (hexdigit n)" "hex2decimal (hexdigit n) = int n" by simp_all
qed

lemma unat_nibble: "unat (drop_bit k (w :: u32) AND 0xF) = unat w div 2 ^ k mod 16"
  using unat_and_mask [of 4 "drop_bit k w"] by (simp add: mask_eq_exp_minus_1 unat_drop_bit_div)

definition hex4 :: "u16 \<Rightarrow> string" where
  "hex4 w = map (\<lambda>i. hexdigit (unat w div 2 ^ (4 * i) mod 16)) [3, 2, 1, 0]"

lemma escape_sequence_u16: "escape_sequence (ucast (w :: u16)) = BACKSLASH # CHR ''u'' # hex4 w"
proof -
  have n: "nibble (ucast w) i = hexdigit (unat w div 2 ^ (4 * i) mod 16)" for i
    by (simp only: nibble_def unat_nibble) (simp add: unat_ucast_up)
  have "hexdigit 0 = CHR ''0''" by code_simp
  moreover have "unat w div 2 ^ (4 * i) = 0" if "i \<in> {4, 5, 6, 7}" for i
    using that unat_bounds(2) [of w] by auto
  ultimately have z: "nibble (ucast w) i = CHR ''0''" if "i \<in> {4, 5, 6, 7}" for i
    using that unfolding n by simp
  define ds where "ds = hex4 w"
  have "map (nibble (ucast w)) [7, 6, 5, 4, 3, 2, 1, 0] = ''0000'' @ ds"
    unfolding ds_def hex4_def using z [of 7] z [of 6] z [of 5] z [of 4] by (simp add: n [of 3] n [of 2] n [of "Suc 0"] n [of 0])
  moreover have "length ds = 4" by (simp add: ds_def hex4_def)
  ultimately show ?thesis
    unfolding escape_sequence_def print_04X_def ds_def [symmetric] Let_def by (simp only:) (simp del: list.map)
qed

lemma word_of_digit:
  "(word_of_int (int (unat w div 2 ^ k mod 16)) :: u16) = take_bit 4 (drop_bit k w)"
proof -
  have "unat (take_bit 4 (drop_bit k w)) = unat w div 2 ^ k mod 16"
    by (simp add: unsigned_take_bit_eq unat_drop_bit_div) (simp add: take_bit_eq_mod)
  from this [symmetric] show ?thesis by (simp only:) simp
qed

lemma read_escape: "read_hex 4 0 (hex4 w @ rest) = Some (w, rest)"
proof -
  have "take_bit 4 (drop_bit 0 w) OR push_bit 4 (take_bit 4 (drop_bit 4 w)) OR
      push_bit 8 (take_bit 4 (drop_bit 8 w)) OR push_bit 12 (take_bit 4 (drop_bit 12 w)) = w"
  proof (rule bit_word_eqI)
    fix n
    assume "n < LENGTH(16)"
    then consider "n < 4" | "4 \<le> n" "n < 8" | "8 \<le> n" "n < 12" | "12 \<le> n" "n < 16" by fastforce
    then show "bit (take_bit 4 (drop_bit 0 w) OR push_bit 4 (take_bit 4 (drop_bit 4 w)) OR
        push_bit 8 (take_bit 4 (drop_bit 8 w)) OR push_bit 12 (take_bit 4 (drop_bit 12 w))) n = bit w n"
      by cases (auto simp: bit_or_iff bit_push_bit_iff bit_take_bit_iff bit_drop_bit_eq)
  qed
  then have "((push_bit 12 (take_bit 4 (drop_bit 12 w)) OR push_bit 8 (take_bit 4 (drop_bit 8 w))) OR
      push_bit 4 (take_bit 4 (drop_bit 4 w))) OR take_bit 4 (drop_bit 0 w) = w"
    by (simp only: or.commute or.left_commute or.assoc)
  moreover have "read_hex 4 0 s = read_hex (Suc (Suc (Suc (Suc 0)))) 0 s" for s by (simp add: numeral_eq_Suc)
  ultimately show ?thesis
    using word_of_digit [of w] hexdigit_facts [of "unat w div _ mod 16"]
    by (simp only: hex4_def read_hex.simps list.map append.simps) simp
qed

lemma dq_body_escape: "dq_body (escape_sequence (ucast (w :: u16)))"
  unfolding escape_sequence_u16 hex4_def by (simp add: hexdigit_facts dq_unicode dq_empty)

lemma unescape_escape:
  "unescape_loop DQ str (escape_sequence (ucast (w :: u16)) @ rest) = unescape_loop DQ (str @ utf8_char w) rest"
proof -
  have "\<exists>s. wchar_to_utf8 w 4 = Some s" by (simp add: wchar_to_utf8_def)
  then show ?thesis
    unfolding escape_sequence_u16 append.simps
    by (subst unescape_loop.simps) (auto simp: simple_escape_def read_escape utf8_char_def)
qed

section \<open>One character\<close>

text \<open>The bytes of a character: one below 0x80, two below 0x800, three otherwise.\<close>

abbreviation (input) one_byte :: "u16 \<Rightarrow> u8" where "one_byte w \<equiv> ucast (w AND 0x7F)"
abbreviation (input) lead2 :: "u16 \<Rightarrow> u8" where "lead2 w \<equiv> ucast (0xC0 OR (drop_bit 6 w AND 0x1F))"
abbreviation (input) lead3 :: "u16 \<Rightarrow> u8" where "lead3 w \<equiv> ucast (0xE0 OR (drop_bit 12 w AND 0x0F))"
abbreviation (input) cont :: "u16 \<Rightarrow> u8" where "cont w \<equiv> ucast (0x80 OR (w AND 0x3F))"

lemma lead_bytes:
  "lead2 w AND 0xE0 = 0xC0" "lead3 w AND 0xE0 = 0xE0" "cont w AND 0x80 = 0x80"
  "lead2 w AND 0x1F = ucast (drop_bit 6 w AND 0x1F)" "lead3 w AND 0x0F = ucast (drop_bit 12 w AND 0x0F)"
  "cont w AND 0x3F = ucast (w AND 0x3F)"
  by (rule u8_eqI, auto simp: bit_simps)+

lemma lead_nonzero: "lead2 w \<noteq> 0" "lead3 w \<noteq> 0" "cont w \<noteq> 0"
proof -
  have "b \<noteq> 0" if "b AND m = k" "k \<noteq> 0" for b m k :: u8 using that by auto
  from this [OF lead_bytes(1)] this [OF lead_bytes(2)] this [OF lead_bytes(3)]
  show "lead2 w \<noteq> 0" "lead3 w \<noteq> 0" "cont w \<noteq> 0" by simp_all
qed

lemma utf8_char_cases:
  assumes "w \<noteq> 0"
  obtains (one) "utf8_char w = [byte (one_byte w)]" "unat w < 128" "one_byte w \<noteq> 0"
    | (two) "utf8_char w = [byte (lead2 w), byte (cont w)]" "unat w < 2 ^ 11" "\<not> unat w < 128"
    | (three) "utf8_char w = [byte (lead3 w), byte (cont (drop_bit 6 w)), byte (cont w)]" "\<not> unat w < 128"
proof (cases "w \<le> 0x7F")
  case True
  then have n: "unat w < 128" by (simp add: word_le_nat_alt)
  then have "\<not> bit w n" if "7 \<le> n" for n using small_bits [of w 7 n] that by simp
  then have "w AND 0x7F = w" by (intro u16_eqI) (auto simp: bit_simps)
  then have "(one_byte w :: u8) \<noteq> 0"
    using assms n by (simp add: unat_eq_0 [symmetric] unat_ucast_mod)
  then show ?thesis using one True n by (simp add: utf8_char_def wchar_to_utf8_def)
next
  case False
  then have high: "\<not> unat w < 128" by (simp add: word_le_nat_alt)
  show ?thesis
  proof (cases "w \<le> 0x7FF")
    case True
    then have "unat w < 2 ^ 11" by (simp add: word_le_nat_alt)
    then show ?thesis using two high False True lead_nonzero [of w] by (simp add: utf8_char_def wchar_to_utf8_def)
  next
    case b: False
    then show ?thesis
      using three high False lead_nonzero [of w] lead_nonzero(3) [of "drop_bit 6 w"]
      by (simp add: utf8_char_def wchar_to_utf8_def)
  qed
qed

text \<open>How a character is written.\<close>

definition char_text :: "u16 \<Rightarrow> string" where
  "char_text w = (if unat w < 128 then to_json_char (byte (one_byte w)) else escape_sequence (ucast w))"

lemma one_byte_high: "\<not> bit (one_byte w) 7" "one_byte w AND 0xE0 \<noteq> 0xE0" "one_byte w AND 0xE0 \<noteq> 0xC0"
proof -
  show 7: "\<not> bit (one_byte w) 7" by (simp add: bit_simps)
  have "bit b 7" if "b AND 0xE0 = k" "bit k 7" for b k :: u8 using that by (auto simp: bit_and_iff)
  with 7 show "one_byte w AND 0xE0 \<noteq> 0xE0" "one_byte w AND 0xE0 \<noteq> 0xC0" by fastforce+
qed

lemma low_bits: "x AND 0x1F = take_bit 5 (x :: u16)" "x AND 0x3F = take_bit 6 x" "x AND 0x0F = take_bit 4 x"
  by (simp_all add: take_bit_eq_mask mask_eq_exp_minus_1)

lemma decode2:
  assumes "unat w < 2 ^ 11"
  shows "push_bit 6 (ucast (lead2 w AND 0x1F)) OR ucast (cont w AND 0x3F) = (w :: u16)"
  unfolding lead_bytes unfolding low_bits
proof (rule bit_word_eqI, goal_cases)
  case (1 n)
  then consider "n < 6" | "6 \<le> n" "n < 11" | "11 \<le> n" "n < 16" by fastforce
  then show ?case
    using small_bits [OF assms, of n] by cases (auto simp: bit_simps)
qed

lemma decode3:
  "push_bit 12 (ucast (lead3 w AND 0x0F)) OR push_bit 6 (ucast (cont (drop_bit 6 w) AND 0x3F)) OR ucast (cont w AND 0x3F) = (w :: u16)"
  unfolding lead_bytes unfolding low_bits
proof (rule bit_word_eqI, goal_cases)
  case (1 n)
  then consider "n < 6" | "6 \<le> n" "n < 12" | "12 \<le> n" "n < 16" by fastforce
  then show ?case
    by cases (auto simp: bit_simps)
qed

lemma to_json_chars_utf8:
  assumes "w \<noteq> 0"
  shows "to_json_chars (utf8_char w @ s) = char_text w @ to_json_chars s"
  using assms
proof (cases rule: utf8_char_cases)
  case one
  then show ?thesis using one_byte_high [of w] by (simp add: to_json_chars.simps(2) char_text_def)
next
  case two
  have "lead2 w AND 0xE0 \<noteq> 0xE0" "lead2 w AND 0xE0 = 0xC0" "cont w AND 0x80 \<noteq> 0" using lead_bytes(1,3) by simp_all
  with two decode2 [of w] show ?thesis
    by (simp add: to_json_chars.simps(2) byte_at_def char_text_def Let_def)
next
  case three
  have "lead3 w AND 0xE0 = 0xE0" "cont w AND 0x80 \<noteq> 0" "cont (drop_bit 6 w) AND 0x80 \<noteq> 0" using lead_bytes(2,3) by simp_all
  with three decode3 [of w] show ?thesis
    by (simp add: to_json_chars.simps(2) byte_at_def char_text_def Let_def)
qed

lemma small_byte:
  assumes "unat (w :: u16) < 128"
  shows "unat (one_byte w) = unat w"
proof -
  have "\<not> bit w n" if "7 \<le> n" for n using small_bits [of w 7 n] assms that by simp
  then have "w AND 0x7F = w" by (intro u16_eqI) (auto simp: bit_simps)
  then show ?thesis using assms by (simp add: unat_ucast_mod)
qed

lemma control_code:
  assumes "unat (w :: u16) < 128"
  shows "(word_of_int (sint (one_byte w)) :: u32) = ucast w"
proof -
  have "uint (one_byte w) = int (unat w)" using small_byte [OF assms] by (metis int_nat_eq uint_nat)
  moreover have "signed_take_bit 7 (int (unat w)) = int (unat w)"
  proof (rule signed_take_bit_int_eq_self)
    have "(2 :: int) ^ 7 = 128" by simp
    then show "- (2 ^ 7) \<le> int (unat w)" "int (unat w) < 2 ^ 7" using assms by linarith+
  qed
  ultimately have "sint (one_byte w) = int (unat w)" by (simp add: sint_uint)
  then show ?thesis by (simp add: unsigned_ucast_eq)
qed

lemma to_json_char_cases:
  assumes "unat (w :: u16) < 128" "w \<noteq> 0"
  defines "c \<equiv> byte (one_byte w)"
  obtains (escaped) e where "to_json_char c = [BACKSLASH, e]" "simple_escape e = Some c"
    | (unicode) "to_json_char c = escape_sequence (ucast w)"
    | (plain) "to_json_char c = [c]" "c \<noteq> DQ" "c \<noteq> BACKSLASH"
proof (cases "c \<in> {DQ, BACKSLASH, CHR 0x08, CHR 0x0C, CHR 0x0A, CHR 0x0D, CHR 0x09}")
  case True
  then show ?thesis using escaped by (auto simp: to_json_char_def simple_escape_def)
next
  case False
  then show ?thesis
    using unicode plain control_code [OF assms(1)]
    by (cases "sint (one_byte w) \<le> 0x1F") (simp_all add: to_json_char_def c_def)
qed

lemma unescape_char:
  assumes "w \<noteq> 0"
  shows "unescape_loop DQ str (char_text w @ rest) = unescape_loop DQ (str @ utf8_char w) rest"
proof (cases "unat w < 128")
  case True
  then have c: "utf8_char w = [byte (one_byte w)]" by (cases rule: utf8_char_cases [OF assms]) (use True in auto)
  from True assms show ?thesis
  proof (cases rule: to_json_char_cases)
    case (escaped e)
    then show ?thesis using True c by (subst unescape_loop.simps) (simp add: char_text_def)
  next
    case unicode
    then show ?thesis using True unescape_escape by (simp add: char_text_def)
  next
    case plain
    then show ?thesis using True c by (subst unescape_loop.simps) (simp add: char_text_def)
  qed
qed (simp add: char_text_def unescape_escape)

lemma dq_body_char:
  assumes "w \<noteq> 0"
  shows "dq_body (char_text w)"
proof (cases "unat w < 128")
  case True
  then have nz: "byte (one_byte w) \<noteq> NUL" by (cases rule: utf8_char_cases [OF assms]) (use True in auto)
  from True assms show ?thesis
  proof (cases rule: to_json_char_cases)
    case (escaped e)
    then have "e \<in> set ''bfnrt/'' \<union> {SQ, DQ, BACKSLASH}" by (auto simp: simple_escape_def split: if_splits)
    with escaped True show ?thesis by (simp add: char_text_def dq_escape dq_empty)
  qed (use True nz in \<open>simp_all add: char_text_def dq_body_escape dq_plain dq_empty\<close>)
qed (simp add: char_text_def dq_body_escape)

section \<open>Strings\<close>

lemma utf8_simps [simp]: "utf8 [] = []" "utf8 (w # ws) = utf8_char w @ utf8 ws"
  by (simp_all add: utf8_def)

lemma to_json_chars_string: "0 \<notin> set ws \<Longrightarrow> to_json_chars (utf8 ws) = concat (map char_text ws)"
  by (induction ws) (simp_all add: to_json_chars_utf8)

lemma dq_body_string: "0 \<notin> set ws \<Longrightarrow> dq_body (to_json_chars (utf8 ws))"
  by (induction ws) (auto simp: to_json_chars_utf8 dq_empty intro: dq_append dq_body_char)

lemma unescape_string:
  assumes "0 \<notin> set ws"
  shows "unescape_loop DQ str (to_json_chars (utf8 ws) @ [DQ]) = Some (str @ utf8 ws)"
  using assms
proof (induction ws arbitrary: str)
  case Nil
  then show ?case by (subst unescape_loop.simps) simp
next
  case (Cons w ws)
  then show ?case by (simp add: to_json_chars_utf8 unescape_char)
qed

section \<open>The text of an object\<close>

text \<open>Objects whose text can be read back: numbers of 64 bits, strings of UTF-8, no floating point.\<close>

definition utf8_string :: "string \<Rightarrow> bool" where
  "utf8_string s \<longleftrightarrow> (\<exists>ws. s = utf8 ws \<and> 0 \<notin> set ws)"

inductive writable :: "qobject \<Rightarrow> bool" where
  "- (2 ^ 63) \<le> i \<Longrightarrow> i < 2 ^ 63 \<Longrightarrow> writable (QInt i)"
| "utf8_string s \<Longrightarrow> writable (QString s)"
| "qdict_inv d \<Longrightarrow> (\<And>k v. (k, v) \<in> set (qdict_entries d) \<Longrightarrow> utf8_string k \<and> writable v) \<Longrightarrow> writable (QDict d)"
| "(\<And>v. v \<in> set l \<Longrightarrow> writable v) \<Longrightarrow> writable (QList l)"
| "writable (QBool b)"

text \<open>Items with a separator between them, for texts and for tokens.\<close>

fun separate :: "'a list \<Rightarrow> bool \<Rightarrow> 'a list list \<Rightarrow> 'a list" where
  "separate sep first [] = []"
| "separate sep first (x # xs) = (if first then x else sep @ x) @ separate sep False xs"

abbreviation json_text :: "(u64 \<Rightarrow> string) \<Rightarrow> bool \<Rightarrow> nat \<Rightarrow> qobject \<Rightarrow> string" where
  "json_text fd pretty indent obj \<equiv> to_json fd obj [] pretty indent"

definition string_text :: "string \<Rightarrow> string" where
  "string_text s = DQ # to_json_chars s @ [DQ]"

lemma fold_items:
  assumes "\<And>x n str. x \<in> set xs \<Longrightarrow> f x (n, str) = (n + 1, (if n \<noteq> 0 then str @ '', '' else str) @ item x)"
  shows "fold f xs (n :: nat, str) = (n + length xs, str @ separate '', '' (n = 0) (map item xs))"
  using assms by (induction xs arbitrary: n str) simp_all

definition list_item :: "(u64 \<Rightarrow> string) \<Rightarrow> bool \<Rightarrow> nat \<Rightarrow> qobject \<Rightarrow> string" where
  "list_item fd pretty indent obj = newline_indent pretty indent @ json_text fd pretty indent obj"

definition dict_item :: "(u64 \<Rightarrow> string) \<Rightarrow> bool \<Rightarrow> nat \<Rightarrow> string \<times> qobject \<Rightarrow> string" where
  "dict_item fd pretty indent e =
    newline_indent pretty indent @ string_text (fst e) @ '': '' @ json_text fd pretty indent (snd e)"

lemma to_json_composite:
  shows "(\<And>v str. v \<in> set l \<Longrightarrow> to_json fd v str pretty (indent + 1) = str @ json_text fd pretty (indent + 1) v) \<Longrightarrow>
    to_json fd (QList l) str pretty indent =
      str @ ''['' @ separate '', '' True (map (list_item fd pretty (indent + 1)) l) @ newline_indent pretty indent @ '']''"
    "(\<And>v str. v \<in> set_qdict d \<Longrightarrow> to_json fd v str pretty (indent + 1) = str @ json_text fd pretty (indent + 1) v) \<Longrightarrow>
    to_json fd (QDict d) str pretty indent =
      str @ ''{'' @ separate '', '' True (map (dict_item fd pretty (indent + 1)) (qdict_entries d)) @ newline_indent pretty indent @ ''}''"
proof -
  assume IH: "\<And>v str. v \<in> set l \<Longrightarrow> to_json fd v str pretty (indent + 1) = str @ json_text fd pretty (indent + 1) v"
  have "fold (to_json_list_iter (\<lambda>obj str. to_json fd obj str pretty (indent + 1)) pretty (indent + 1)) l (n, str) =
      (n + length l, str @ separate '', '' (n = 0) (map (list_item fd pretty (indent + 1)) l))" for n str
  proof (rule fold_items)
    fix v str and n :: nat
    assume "v \<in> set l"
    from IH [OF this, of "(if n \<noteq> 0 then str @ '', '' else str) @ newline_indent pretty (indent + 1)"]
    show "to_json_list_iter (\<lambda>obj str. to_json fd obj str pretty (indent + 1)) pretty (indent + 1) v (n, str) =
        (n + 1, (if n \<noteq> 0 then str @ '', '' else str) @ list_item fd pretty (indent + 1) v)"
      by (cases "n = 0") (simp_all add: to_json_list_iter_def list_item_def Let_def)
  qed
  then show "to_json fd (QList l) str pretty indent =
      str @ ''['' @ separate '', '' True (map (list_item fd pretty (indent + 1)) l) @ newline_indent pretty indent @ '']''"
    by (simp add: qlist_iter_def Let_def)
next
  assume IH: "\<And>v str. v \<in> set_qdict d \<Longrightarrow> to_json fd v str pretty (indent + 1) = str @ json_text fd pretty (indent + 1) v"
  have "fold (\<lambda>(k, v). to_json_dict_iter (\<lambda>obj str. to_json fd obj str pretty (indent + 1)) pretty (indent + 1) k v)
      (qdict_entries d) (n, str) =
      (n + length (qdict_entries d), str @ separate '', '' (n = 0) (map (dict_item fd pretty (indent + 1)) (qdict_entries d)))"
    for n str
  proof (rule fold_items)
    fix e str and n :: nat
    assume "e \<in> set (qdict_entries d)"
    then have "snd e \<in> set_qdict d" by (simp add: set_qdict_entries)
    from IH [OF this, of "to_json_string (fst e) ((if n \<noteq> 0 then str @ '', '' else str) @ newline_indent pretty (indent + 1)) @ '': ''"]
    show "(case e of (k, v) \<Rightarrow> to_json_dict_iter (\<lambda>obj str. to_json fd obj str pretty (indent + 1)) pretty (indent + 1) k v) (n, str) =
        (n + 1, (if n \<noteq> 0 then str @ '', '' else str) @ dict_item fd pretty (indent + 1) e)"
      by (cases e; cases "n = 0")
        (simp_all add: to_json_dict_iter_def dict_item_def Let_def to_json_string_def string_text_def)
  qed
  then show "to_json fd (QDict d) str pretty indent =
      str @ ''{'' @ separate '', '' True (map (dict_item fd pretty (indent + 1)) (qdict_entries d)) @ newline_indent pretty indent @ ''}''"
    by (simp add: qdict_iter_entries Let_def)
qed

lemma to_json_append: "to_json fd obj str pretty indent = str @ json_text fd pretty indent obj"
proof (induction obj arbitrary: str indent)
  case (QDict d)
  show ?case by (simp add: to_json_composite(2) [OF QDict.IH] del: to_json.simps)
next
  case (QList l)
  show ?case by (simp add: to_json_composite(1) [OF QList.IH] del: to_json.simps)
qed (simp_all add: to_json_string_def)

lemma json_text_simps:
  "json_text fd pretty indent (QInt i) = print_int i"
  "json_text fd pretty indent (QString s) = string_text s"
  "json_text fd pretty indent (QBool b) = (if b \<noteq> 0 then ''true'' else ''false'')"
  "json_text fd pretty indent (QList l) =
    ''['' @ separate '', '' True (map (list_item fd pretty (indent + 1)) l) @ newline_indent pretty indent @ '']''"
  "json_text fd pretty indent (QDict d) =
    ''{'' @ separate '', '' True (map (dict_item fd pretty (indent + 1)) (qdict_entries d)) @ newline_indent pretty indent @ ''}''"
  using to_json_composite(1) [OF to_json_append, where str = "[]"] to_json_composite(2) [OF to_json_append, where str = "[]"]
  by (simp_all add: to_json_string_def string_text_def)

section \<open>The text lexes to the tokens of the object\<close>

abbreviation (input) operator :: "char \<Rightarrow> lexeme" where "operator c \<equiv> (JSON_OPERATOR, [c])"

function json_tokens :: "qobject \<Rightarrow> lexeme list" where
  "json_tokens (QInt i) = [(JSON_INTEGER, print_int i)]"
| "json_tokens (QString s) = [(JSON_STRING, string_text s)]"
| "json_tokens (QBool b) = [(JSON_KEYWORD, if b \<noteq> 0 then ''true'' else ''false'')]"
| "json_tokens (QList l) =
    [operator CHR ''[''] @ separate [operator CHR '',''] True (map json_tokens l) @ [operator CHR '']'']"
| "json_tokens (QDict d) =
    [operator CHR ''{''] @
    separate [operator CHR '',''] True
      (map (\<lambda>e. [(JSON_STRING, string_text (fst e)), operator CHR '':''] @ json_tokens (snd e)) (qdict_entries d)) @
    [operator CHR ''}'']"
| "json_tokens (QFloat f) = []"
| "json_tokens QError = []"
  by pat_completeness auto
termination
  by (relation "measure size")
    (auto simp: less_Suc_eq_le intro: size_list_estimation' size_entries [THEN less_imp_le])

definition pair_tokens :: "string \<times> qobject \<Rightarrow> lexeme list" where
  "pair_tokens e = [(JSON_STRING, string_text (fst e)), operator CHR '':''] @ json_tokens (snd e)"

lemma json_tokens_dict:
  "json_tokens (QDict d) =
    [operator CHR ''{''] @ separate [operator CHR '',''] True (map pair_tokens (qdict_entries d)) @ [operator CHR ''}'']"
  by (simp add: pair_tokens_def [abs_def])

text \<open>Texts that lex to given tokens wherever a token may start.\<close>

definition reads_as :: "string \<Rightarrow> lexeme list \<Rightarrow> bool" where
  "reads_as w ts \<longleftrightarrow> (\<forall>t. ready t \<longrightarrow> (\<exists>u. lexes t w ts u))"

lemma lexes_settled: "lexes t w ts u \<Longrightarrow> settled u"
  by (simp add: lexes_def)

lemma ready_settled: "ready t \<Longrightarrow> settled t"
  by (simp add: settled_def)

lemma reads_as_operator:
  assumes "reads_as w ts" "is_operator c"
  shows "reads_as (w @ [c]) (ts @ [operator c])" "reads_as ([c] @ w) (operator c # ts)"
proof -
  show "reads_as (w @ [c]) (ts @ [operator c])"
    using assms lexes_trans lexes_operator lexes_settled unfolding reads_as_def by metis
  show "reads_as ([c] @ w) (operator c # ts)"
    unfolding reads_as_def
  proof (intro allI impI)
    fix t
    assume "ready t"
    then have "lexes t [c] [operator c] (IN_START, [])" by (intro lexes_operator ready_settled assms(2))
    moreover obtain u where "lexes (IN_START, []) w ts u" using assms(1) settled_start(1) unfolding reads_as_def by blast
    ultimately show "\<exists>u. lexes t ([c] @ w) (operator c # ts) u" using lexes_trans by fastforce
  qed
qed

lemma reads_as_space:
  assumes "reads_as w ts" "\<forall>c \<in> set s. is_space c"
  shows "reads_as (s @ w) ts" "reads_as (w @ s) ts"
proof -
  show "reads_as (s @ w) ts"
    unfolding reads_as_def
  proof (intro allI impI)
    fix t
    assume "ready t"
    then obtain u where "lexes t s [] u" "ready u" using lexes_space [of t s] assms(2) by (auto simp: settled_def)
    moreover from \<open>ready u\<close> obtain x where "lexes u w ts x" using assms(1) unfolding reads_as_def by blast
    ultimately show "\<exists>u. lexes t (s @ w) ts u" using lexes_trans [of t s "[]" u w ts x] unfolding append_Nil by blast
  qed
  show "reads_as (w @ s) ts"
    unfolding reads_as_def
  proof (intro allI impI)
    fix t
    assume "ready t"
    then obtain u where u: "lexes t w ts u" using assms(1) unfolding reads_as_def by blast
    then obtain x where "lexes u s [] x" using lexes_space [OF lexes_settled [OF u] assms(2)] by blast
    with u show "\<exists>u. lexes t (w @ s) ts u" using lexes_trans by fastforce
  qed
qed

text \<open>Two texts in a row, where the first ends with a space or an operator.\<close>

lemma reads_as_after_operator:
  assumes "reads_as v ts" "is_operator c" "\<forall>c \<in> set s. is_space c" "reads_as w us"
  shows "reads_as (v @ [c] @ s @ w) (ts @ [operator c] @ us)"
  unfolding reads_as_def
proof (intro allI impI)
  fix t
  assume "ready t"
  then obtain u where u: "lexes t (v @ [c]) (ts @ [operator c]) (IN_START, [])"
    using assms(1,2) lexes_trans lexes_operator lexes_settled unfolding reads_as_def by metis
  obtain x where "lexes (IN_START, []) (s @ w) us x"
    using reads_as_space(1) [OF assms(4,3)] settled_start(1) unfolding reads_as_def by blast
  from lexes_trans [OF u this] show "\<exists>u. lexes t (v @ [c] @ s @ w) (ts @ [operator c] @ us) u"
    unfolding append.assoc by blast
qed

lemma reads_as_separate:
  assumes "list_all2 reads_as (x # xs) (t # ts)"
  shows "reads_as (separate '', '' True (x # xs)) (separate [operator CHR '',''] True (t # ts))"
  using assms
proof (induction xs arbitrary: x t ts)
  case Nil
  then show ?case by simp
next
  case (Cons y xs)
  then obtain u us where ts: "ts = u # us" by (cases ts) auto
  with Cons have "reads_as (separate '', '' True (y # xs)) (separate [operator CHR '',''] True (u # us))"
    by (intro Cons.IH) simp
  moreover have "reads_as x t" using Cons.prems by simp
  moreover have "\<forall>c \<in> set '' ''. is_space c" by (simp add: is_space_def)
  ultimately have "reads_as (x @ '','' @ '' '' @ separate '', '' True (y # xs)) (t @ [operator CHR '',''] @ separate [operator CHR '',''] True (u # us))"
    by (intro reads_as_after_operator) (simp_all add: is_operator_def)
  then show ?case by (simp add: ts)
qed

lemma reads_as_composite:
  assumes "list_all2 reads_as xs ts" "is_operator c" "is_operator d"
  shows "reads_as ([c] @ separate '', '' True xs @ newline_indent pretty indent @ [d])
    ([operator c] @ separate [operator CHR '',''] True ts @ [operator d])"
proof -
  have nl: "\<forall>c \<in> set (newline_indent pretty indent). is_space c"
    by (auto simp: newline_indent_def is_space_def split: if_splits)
  have "reads_as (separate '', '' True xs) (separate [operator CHR '',''] True ts)"
  proof (cases xs)
    case Nil
    have "reads_as [] []" unfolding reads_as_def using lexes_Nil ready_settled by blast
    with Nil show ?thesis using assms(1) by simp
  next
    case (Cons y ys)
    then obtain u us where "ts = u # us" using assms(1) by (cases ts) auto
    then show ?thesis using assms(1) Cons reads_as_separate by simp
  qed
  from reads_as_operator(2) [OF reads_as_operator(1) [OF reads_as_space(2) [OF this nl] assms(3)] assms(2)]
  show ?thesis by simp
qed

lemma reads_as_string: "utf8_string s \<Longrightarrow> reads_as (string_text s) [(JSON_STRING, string_text s)]"
  unfolding reads_as_def utf8_string_def string_text_def using lexes_string dq_body_string by blast

lemma reads_as_pair:
  assumes "utf8_string k" "reads_as w ts"
  shows "reads_as (string_text k @ '': '' @ w) ([(JSON_STRING, string_text k), operator CHR '':''] @ ts)"
proof -
  have "\<forall>c \<in> set '' ''. is_space c" by (simp add: is_space_def)
  from reads_as_after_operator [OF reads_as_string [OF assms(1)] _ this assms(2), of "CHR '':''"]
  show ?thesis by (simp add: is_operator_def)
qed

lemma reads_as_indented:
  assumes "reads_as w ts"
  shows "reads_as (newline_indent pretty indent @ w) ts"
  by (rule reads_as_space(1) [OF assms]) (auto simp: newline_indent_def is_space_def split: if_splits)

lemma text_reads_as:
  assumes "writable obj"
  shows "reads_as (json_text fd pretty indent obj) (json_tokens obj)"
  using assms
proof (induction arbitrary: indent rule: writable.induct)
  case (1 i)
  then show ?case unfolding json_text_simps json_tokens.simps reads_as_def using lexes_int by blast
next
  case (2 s)
  then show ?case unfolding json_text_simps json_tokens.simps by (rule reads_as_string)
next
  case (3 d)
  then have "list_all2 reads_as (map (dict_item fd pretty (indent + 1)) (qdict_entries d)) (map pair_tokens (qdict_entries d))"
    by (auto simp: list_all2_map1 list_all2_map2 list_all2_same dict_item_def pair_tokens_def
        intro!: reads_as_indented reads_as_pair [simplified])
  from reads_as_composite [OF this] show ?case unfolding json_text_simps json_tokens_dict
    by (simp add: is_operator_def)
next
  case (4 l)
  then have "list_all2 reads_as (map (list_item fd pretty (indent + 1)) l) (map json_tokens l)"
    by (auto simp: list_all2_map1 list_all2_map2 list_all2_same list_item_def intro!: reads_as_indented)
  from reads_as_composite [OF this] show ?case unfolding json_text_simps json_tokens.simps
    by (simp add: is_operator_def)
next
  case (5 b)
  then show ?case unfolding json_text_simps json_tokens.simps reads_as_def
    using lexes_keyword [of _ "if b \<noteq> 0 then ''true'' else ''false''"] by (auto simp: in_range_def)
qed

section \<open>The tokens parse to the value of the object\<close>

text \<open>What the parser builds from the tokens of an object: the same object, with its dictionaries filled anew
  in the order of iteration.\<close>

definition rebuild :: "'v qdict \<Rightarrow> 'v qdict" where
  "rebuild d = fold (\<lambda>(k, v) d. qdict_put_obj d k v) (qdict_entries d) qdict_new"

primrec reread :: "qobject \<Rightarrow> qobject" where
  "reread (QInt i) = QInt i"
| "reread (QString s) = QString s"
| "reread (QDict d) = QDict (rebuild (map_qdict reread d))"
| "reread (QList l) = QList (map reread l)"
| "reread (QFloat f) = QFloat f"
| "reread (QBool b) = QBool (if b \<noteq> 0 then 1 else 0)"
| "reread QError = QError"

lemma entries_map: "qdict_entries (map_qdict f d) = map (map_prod id f) (qdict_entries d)"
  by (cases d) (simp add: qdict_entries_def map_concat)

lemma rebuild_get:
  assumes "qdict_inv d"
  shows "qdict_inv (rebuild (map_qdict f d))" "qdict_get (rebuild (map_qdict f d)) k = map_option f (qdict_get d k)"
proof -
  have r: "rebuild (map_qdict f d) = qdict.put_all (map (map_prod id f) (qdict_entries d)) qdict_new"
    by (simp add: rebuild_def qdict.put_all_def entries_map)
  have "distinct (map fst (map (map_prod id f) (qdict_entries d)))" using qdict.entries_distinct [OF assms] by simp
  from qdict.get_rebuild [OF this] qdict.entries_get [OF assms]
  show "qdict_get (rebuild (map_qdict f d)) k = map_option f (qdict_get d k)" by (simp add: r map_of_map_prod)
  show "qdict_inv (rebuild (map_qdict f d))" unfolding r by (intro qdict.put_all_inv qdict.new_inv)
qed

lemma reread_value: "writable obj \<Longrightarrow> json_value_of (reread obj) = json_value_of obj"
proof (induction rule: writable.induct)
  case (3 d)
  have "qdict_get (map_qdict json_value_of (rebuild (map_qdict reread d))) k = qdict_get (map_qdict json_value_of d) k" for k
  proof (cases "qdict_get d k")
    case (Some v)
    then have "(k, v) \<in> set (qdict_entries d)" using qdict.entries_get [OF 3(1)] by (metis map_of_SomeD)
    then show ?thesis using Some 3 by (auto simp: qdict_get_map rebuild_get)
  qed (use 3(1) in \<open>simp add: qdict_get_map rebuild_get\<close>)
  then show ?case by (simp add: fun_eq_iff)
qed simp_all

definition parses_back :: "(string \<Rightarrow> u64) \<Rightarrow> qobject \<Rightarrow> bool" where
  "parses_back strtod obj \<longleftrightarrow> (\<forall>ts rest. list_all2 tok ts (json_tokens obj) \<longrightarrow>
    parse_value strtod (ts @ rest) None = Some (Some (reread obj), rest, None))"

lemma parses_backD:
  "parses_back strtod obj \<Longrightarrow> list_all2 tok ts (json_tokens obj) \<Longrightarrow>
    parse_value strtod (ts @ rest) None = Some (Some (reread obj), rest, None)"
  by (simp add: parses_back_def)

lemma tok_separate:
  assumes "list_all2 tok ts (separate [operator CHR '',''] False (xs # xss) @ [z])"
  obtains c vs us where "ts = c # vs @ us" "tok c (operator CHR '','')" "list_all2 tok vs xs"
    "list_all2 tok us (separate [operator CHR '',''] False xss @ [z])"
proof -
  obtain c ws where c: "ts = c # ws" "tok c (operator CHR '','')"
    and ws: "list_all2 tok ws (xs @ separate [operator CHR '',''] False xss @ [z])"
    using assms by (auto simp: list_all2_Cons2)
  from ws obtain vs us where "ws = vs @ us" "list_all2 tok vs xs" "list_all2 tok us (separate [operator CHR '',''] False xss @ [z])"
    unfolding list_all2_append2 by blast
  with c that show thesis by blast
qed

lemma parse_array_items:
  assumes "\<forall>v \<in> set l. parses_back strtod v"
    and "list_all2 tok ts (separate [operator CHR '',''] False (map json_tokens l) @ [operator CHR '']''])"
  shows "parse_array_loop strtod acc (ts @ rest) None = Some (Some (acc @ map reread l), rest, None)"
  using assms
proof (induction l arbitrary: acc ts)
  case Nil
  then show ?case
    by (auto simp: list_all2_Cons2 parse_array_loop.simps [of _ _ "_ # _"] tok_is_operator)
next
  case (Cons v l)
  from tok_separate [OF Cons.prems(2) [unfolded list.map]] obtain c vs us
    where ts: "ts = c # vs @ us" and c: "tok c (operator CHR '','')" and vs: "list_all2 tok vs (json_tokens v)"
      and us: "list_all2 tok us (separate [operator CHR '',''] False (map json_tokens l) @ [operator CHR '']''])" .
  have "parse_value strtod (vs @ us @ rest) None = Some (Some (reread v), us @ rest, None)"
    using parses_backD [OF _ vs] Cons.prems(1) by simp
  moreover have "parse_array_loop strtod (acc @ [reread v]) (us @ rest) None = Some (Some (acc @ reread v # map reread l), rest, None)"
    using Cons.IH [OF _ us, of "acc @ [reread v]"] Cons.prems(1) by simp
  ultimately show ?case
    using c by (simp add: ts parse_array_loop.simps [of _ _ "_ # _"] tok_is_operator qlist_append_obj_def)
qed

lemma parse_value_string:
  assumes "utf8_string k" "tok s (JSON_STRING, string_text k)"
  shows "parse_value strtod (s # us) None = Some (Some (QString k), us, None)"
proof -
  have "unescape_loop DQ [] (to_json_chars k @ [DQ]) = Some k"
    using assms(1) unescape_string [where str = "[]"] by (auto simp: utf8_string_def)
  then show ?thesis
    using assms(2) by (simp add: parse_value.simps parse_object.simps parse_array.simps parse_escape_def parse_keyword_def
        parse_literal_def qstring_from_escaped_str_def tok_is_operator tok_get string_text_def)
qed

lemma parse_pair_back:
  assumes "utf8_string k" "parses_back strtod v" "list_all2 tok ts (pair_tokens (k, v))"
  shows "parse_pair strtod d (ts @ rest) None = Some (Some (qdict_put_obj d k (reread v)), rest, None)"
proof -
  obtain s c vs where ts: "ts = s # c # vs" and s: "tok s (JSON_STRING, string_text k)" and c: "tok c (operator CHR '':'')"
    and vs: "list_all2 tok vs (json_tokens v)"
    using assms(3) by (auto simp: pair_tokens_def list_all2_Cons2)
  show ?thesis
    using c parses_backD [OF assms(2) vs] parse_value_string [OF assms(1) s]
    by (simp add: ts parse_pair.simps tok_is_operator)
qed

lemma parse_object_items:
  assumes "\<forall>(k, v) \<in> set es. utf8_string k \<and> parses_back strtod v"
    and "list_all2 tok ts (separate [operator CHR '',''] False (map pair_tokens es) @ [operator CHR ''}''])"
  shows "parse_object_loop strtod d (ts @ rest) None =
    Some (Some (fold (\<lambda>(k, v) d. qdict_put_obj d k v) (map (map_prod id reread) es) d), rest, None)"
  using assms
proof (induction es arbitrary: d ts)
  case Nil
  then show ?case
    by (auto simp: list_all2_Cons2 parse_object_loop.simps [of _ _ "_ # _"] tok_is_operator)
next
  case (Cons e es)
  obtain k v where e: "e = (k, v)" by (cases e)
  from tok_separate [OF Cons.prems(2) [unfolded list.map]] obtain c vs us
    where ts: "ts = c # vs @ us" and c: "tok c (operator CHR '','')" and vs: "list_all2 tok vs (pair_tokens e)"
      and us: "list_all2 tok us (separate [operator CHR '',''] False (map pair_tokens es) @ [operator CHR ''}''])" .
  have "parse_pair strtod d (vs @ us @ rest) None = Some (Some (qdict_put_obj d k (reread v)), us @ rest, None)"
    using vs Cons.prems(1) unfolding e by (intro parse_pair_back) simp_all
  moreover note Cons.IH [OF _ us, of "qdict_put_obj d k (reread v)"]
  ultimately show ?case
    using c Cons.prems(1) by (simp add: ts e parse_object_loop.simps [of _ _ "_ # _"] tok_is_operator)
qed

text \<open>The first token of an item does not close an array or an object.\<close>

lemma json_tokens_first:
  assumes "writable obj"
  obtains t ts where "json_tokens obj = t # ts" "t \<noteq> operator CHR '']''"
  using assms by cases auto

lemma parse_array_back:
  assumes "\<forall>v \<in> set l. writable v \<and> parses_back strtod v"
  shows "parses_back strtod (QList l)"
  unfolding parses_back_def
proof (intro allI impI)
  fix ts rest
  assume toks: "list_all2 tok ts (json_tokens (QList l))"
  then obtain c us where ts: "ts = c # us" and c: "tok c (operator CHR ''['')"
    and us: "list_all2 tok us (separate [operator CHR '',''] True (map json_tokens l) @ [operator CHR '']''])"
    by (auto simp: list_all2_Cons2)
  have no: "parse_object strtod (c # us @ rest) None = Some (None, c # us @ rest, None)"
    using c by (simp add: parse_object.simps tok_is_operator)
  show "parse_value strtod (ts @ rest) None = Some (Some (reread (QList l)), rest, None)"
  proof (cases l)
    case Nil
    then show ?thesis
      using us c no by (auto simp: ts list_all2_Cons2 parse_value.simps parse_array.simps tok_is_operator)
  next
    case (Cons v l')
    then have v: "writable v" "parses_back strtod v" using assms by simp_all
    from us Cons obtain vs ws where uw: "us = vs @ ws" and vs: "list_all2 tok vs (json_tokens v)"
      and ws: "list_all2 tok ws (separate [operator CHR '',''] False (map json_tokens l') @ [operator CHR '']''])"
      by (auto simp: list_all2_append2 simp del: list_all2_append)
    from v(1) obtain t ts' where "json_tokens v = t # ts'" "t \<noteq> operator CHR '']''" by (rule json_tokens_first)
    with vs obtain p vs' where p: "vs = p # vs'" "token_is_operator (Some p) CHR '']'' = Some False"
      by (cases t) (auto simp: list_all2_Cons2 tok_is_operator)
    have "parse_array_loop strtod [reread v] (ws @ rest) None = Some (Some ([reread v] @ map reread l'), rest, None)"
      using assms Cons by (intro parse_array_items [OF _ ws]) simp
    moreover have "parse_value strtod (vs @ ws @ rest) None = Some (Some (reread v), ws @ rest, None)"
      by (rule parses_backD [OF v(2) vs])
    ultimately have "parse_array strtod (c # us @ rest) None = Some (Some (QList (map reread l)), rest, None)"
      using c p uw Cons by (simp add: parse_array.simps tok_is_operator qlist_append_obj_def)
    then show ?thesis using no by (simp add: ts parse_value.simps [of _ "_ # _"])
  qed
qed

lemma parse_dict_back:
  assumes "\<forall>(k, v) \<in> set (qdict_entries d). utf8_string k \<and> parses_back strtod v"
  shows "parses_back strtod (QDict d)"
  unfolding parses_back_def
proof (intro allI impI)
  fix ts rest
  assume toks: "list_all2 tok ts (json_tokens (QDict d))"
  then obtain c us where ts: "ts = c # us" and c: "tok c (operator CHR ''{'')"
    and us: "list_all2 tok us (separate [operator CHR '',''] True (map pair_tokens (qdict_entries d)) @ [operator CHR ''}''])"
    unfolding json_tokens_dict by (auto simp: list_all2_Cons2)
  define put where "put = (\<lambda>(k :: string, v :: qobject) d. qdict_put_obj d k v)"
  have r: "rebuild (map_qdict reread d) = fold put (map (map_prod id reread) (qdict_entries d)) qdict_new"
    by (simp add: rebuild_def entries_map put_def)
  have "parse_object strtod (c # us @ rest) None = Some (Some (QDict (rebuild (map_qdict reread d))), rest, None)"
  proof (cases "qdict_entries d")
    case Nil
    then show ?thesis using us c by (auto simp: r list_all2_Cons2 parse_object.simps tok_is_operator)
  next
    case (Cons e es)
    obtain k v where e: "e = (k, v)" by (cases e)
    from us Cons obtain vs ws where uw: "us = vs @ ws" and vs: "list_all2 tok vs (pair_tokens e)"
      and ws: "list_all2 tok ws (separate [operator CHR '',''] False (map pair_tokens es) @ [operator CHR ''}''])"
      by (auto simp: list_all2_append2 simp del: list_all2_append)
    from vs obtain p vs' where p: "vs = p # vs'" "token_is_operator (Some p) CHR ''}'' = Some False"
      by (auto simp: pair_tokens_def list_all2_Cons2 tok_is_operator)
    have "parse_pair strtod qdict_new (vs @ ws @ rest) None = Some (Some (qdict_put_obj qdict_new k (reread v)), ws @ rest, None)"
      using assms Cons e vs by (intro parse_pair_back) auto
    moreover have "parse_object_loop strtod (qdict_put_obj qdict_new k (reread v)) (ws @ rest) None =
        Some (Some (fold put (map (map_prod id reread) es) (qdict_put_obj qdict_new k (reread v))), rest, None)"
      using assms Cons unfolding put_def by (intro parse_object_items [OF _ ws]) auto
    ultimately show ?thesis
      using c p uw Cons e by (simp add: r parse_object.simps [of _ "_ # _"] tok_is_operator) (simp add: put_def)
  qed
  then show "parse_value strtod (ts @ rest) None = Some (Some (reread (QDict d)), rest, None)"
    by (simp add: ts parse_value.simps [of _ "_ # _"])
qed

lemma writable_parses_back: "writable obj \<Longrightarrow> parses_back strtod obj"
proof (induction rule: writable.induct)
  case (1 i)
  then show ?case
    by (auto simp: parses_back_def list_all2_Cons2 parse_value.simps parse_object.simps parse_array.simps parse_escape_def
        parse_keyword_def parse_literal_def tok_is_operator tok_get strtoll_print_int)
next
  case (2 s)
  then show ?case by (auto simp: parses_back_def list_all2_Cons2 parse_value_string)
next
  case (3 d)
  then show ?case by (intro parse_dict_back) auto
next
  case (4 l)
  then show ?case by (intro parse_array_back) auto
next
  case (5 b)
  then show ?case
    by (auto simp: parses_back_def list_all2_Cons2 parse_value.simps parse_object.simps parse_array.simps parse_escape_def
        parse_keyword_def token_is_keyword_def tok_is tok_is_operator tok_get is_token_def)
qed

section \<open>The streamer collects the tokens of one object\<close>

text \<open>Tokens that leave the streamer inside the message it is collecting.\<close>

definition absorbed :: "(qobject list \<Rightarrow> 'r \<Rightarrow> 'r) \<Rightarrow> lexeme list \<Rightarrow> bool" where
  "absorbed emit ls \<longleftrightarrow>
    (\<forall>us p. map fst us = ls \<longrightarrow> 0 \<le> brace_count p \<longrightarrow> 0 \<le> bracket_count p \<longrightarrow> 0 < brace_count p + bracket_count p \<longrightarrow>
      (\<exists>ts. list_all2 tok ts ls \<and>
        emit_all (json_message_process_token emit) us p = p\<lparr>tokens := tokens p @ ts\<rparr>))"

lemma emit_all_simps [simp]:
  "emit_all e [] s = s" "emit_all e (((k, w), x, y) # us) s = emit_all e us (e w k x y s)"
  by (simp_all add: emit_all_def)

lemma absorbed_append:
  assumes "absorbed emit ls" "absorbed emit ms"
  shows "absorbed emit (ls @ ms)"
  unfolding absorbed_def
proof (intro allI impI)
  fix us :: "(lexeme \<times> int \<times> int) list" and p :: "'a JSONMessageParser"
  assume us: "map fst us = ls @ ms" and p: "0 \<le> brace_count p" "0 \<le> bracket_count p" "0 < brace_count p + bracket_count p"
  then obtain vs ws where vw: "us = vs @ ws" "map fst vs = ls" "map fst ws = ms" by (auto simp: map_eq_append_conv)
  obtain ts where ts: "list_all2 tok ts ls" "emit_all (json_message_process_token emit) vs p = p\<lparr>tokens := tokens p @ ts\<rparr>"
    using assms(1) vw(2) p unfolding absorbed_def by blast
  obtain ts' where "list_all2 tok ts' ms"
      "emit_all (json_message_process_token emit) ws (p\<lparr>tokens := tokens p @ ts\<rparr>) = p\<lparr>tokens := tokens p @ ts @ ts'\<rparr>"
    using assms(2) [unfolded absorbed_def, rule_format, OF vw(3), of "p\<lparr>tokens := tokens p @ ts\<rparr>"] p by auto
  with ts have "list_all2 tok (ts @ ts') (ls @ ms)"
      "emit_all (json_message_process_token emit) us p = p\<lparr>tokens := tokens p @ ts @ ts'\<rparr>"
    by (simp_all add: vw(1) emit_all_append list_all2_appendI)
  then show "\<exists>ts. list_all2 tok ts (ls @ ms) \<and> emit_all (json_message_process_token emit) us p = p\<lparr>tokens := tokens p @ ts\<rparr>"
    by blast
qed

definition unnested :: "lexeme \<Rightarrow> bool" where
  "unnested t \<longleftrightarrow> is_token (fst t) \<and> (fst t = JSON_OPERATOR \<longrightarrow> snd t \<in> {'','', '':''})"

lemma process_unnested:
  assumes "unnested (k, w)"
  shows "json_message_process_token emit w k x y p =
    (let p = p\<lparr>tokens := tokens p @ [make_token w k x y]\<rparr>
     in if brace_count p = 0 \<and> bracket_count p = 0 then p\<lparr>client := emit (tokens p) (client p), tokens := []\<rparr> else p)"
  using assms by (auto simp: unnested_def json_message_process_token_def count_operator_def qlist_append_obj_def Let_def)

lemma absorbed_unnested:
  assumes "unnested t"
  shows "absorbed emit [t]"
proof -
  obtain k w where t: "t = (k, w)" by (cases t)
  show ?thesis
    unfolding absorbed_def t
  proof (intro allI impI)
    fix us :: "(lexeme \<times> int \<times> int) list" and p :: "'a JSONMessageParser"
    assume "map fst us = [(k, w)]" and p: "0 < brace_count p + bracket_count p"
    then obtain x y where us: "us = [((k, w), x, y)]" by auto
    have "tok (make_token w k x y) (k, w)" using assms tok_make_token by (simp add: t unnested_def)
    moreover have "json_message_process_token emit w k x y p = p\<lparr>tokens := tokens p @ [make_token w k x y]\<rparr>"
      using p by (subst process_unnested [OF assms [unfolded t]]) (auto simp: Let_def)
    ultimately show "\<exists>ts. list_all2 tok ts [(k, w)] \<and> emit_all (json_message_process_token emit) us p = p\<lparr>tokens := tokens p @ ts\<rparr>"
      by (intro exI [of _ "[make_token w k x y]"]) (simp add: us)
  qed
qed

definition brackets :: "char \<Rightarrow> char \<Rightarrow> bool" where
  "brackets c d \<longleftrightarrow> (c, d) \<in> {(CHR ''['', CHR '']''), (CHR ''{'', CHR ''}'')}"

text \<open>A bracketed sequence: inside a message it is absorbed, and outside of one it is a message.\<close>

lemma bracketed:
  fixes p :: "'r JSONMessageParser"
  assumes "absorbed emit ls" "brackets c d" "map fst us = [operator c] @ ls @ [operator d]"
    and "0 \<le> brace_count p" "0 \<le> bracket_count p"
  obtains ts where "list_all2 tok ts ([operator c] @ ls @ [operator d])"
    "emit_all (json_message_process_token emit) us p =
      (if brace_count p = 0 \<and> bracket_count p = 0 then p\<lparr>client := emit (tokens p @ ts) (client p), tokens := []\<rparr>
       else p\<lparr>tokens := tokens p @ ts\<rparr>)"
proof -
  let ?e = "json_message_process_token emit"
  obtain x y vs x' y' where us: "us = ((JSON_OPERATOR, [c]), x, y) # vs @ [((JSON_OPERATOR, [d]), x', y')]" "map fst vs = ls"
    using assms(3) by (auto simp: map_eq_Cons_conv map_eq_append_conv)
  define a where "a = make_token [c] JSON_OPERATOR x y"
  define b where "b = make_token [d] JSON_OPERATOR x' y'"
  have tok: "tok a (operator c)" "tok b (operator d)" by (simp_all add: a_def b_def tok_make_token is_token_def)
  define q where "q = ?e [c] JSON_OPERATOR x y p"
  have q: "q = count_operator [c] (p\<lparr>tokens := tokens p @ [a]\<rparr>)" "0 \<le> brace_count q" "0 \<le> bracket_count q"
      "0 < brace_count q + bracket_count q"
    using assms(2,4,5) unfolding q_def a_def
    by (auto simp: json_message_process_token_def count_operator_def qlist_append_obj_def brackets_def Let_def)
  obtain ts where ts: "list_all2 tok ts ls" "emit_all ?e vs q = q\<lparr>tokens := tokens q @ ts\<rparr>"
    using assms(1) us(2) q(2-) unfolding absorbed_def by blast
  have "list_all2 tok ([a] @ ts @ [b]) ([operator c] @ ls @ [operator d])"
    using tok ts(1) by (simp add: list_all2_appendI)
  moreover have "emit_all ?e us p = ?e [d] JSON_OPERATOR x' y' (q\<lparr>tokens := tokens q @ ts\<rparr>)"
    using ts(2) by (simp add: us(1) emit_all_append q_def)
  moreover have "\<dots> = (if brace_count p = 0 \<and> bracket_count p = 0
      then p\<lparr>client := emit (tokens p @ [a] @ ts @ [b]) (client p), tokens := []\<rparr> else p\<lparr>tokens := tokens p @ [a] @ ts @ [b]\<rparr>)"
    using assms(2) unfolding q(1) b_def brackets_def insert_iff empty_iff prod.inject
    by (elim disjE conjE FalseE)
      (simp_all add: json_message_process_token_def count_operator_def qlist_append_obj_def Let_def)
  ultimately show thesis using that by metis
qed

lemma absorbed_bracketed:
  assumes "absorbed emit ls" "brackets c d"
  shows "absorbed emit ([operator c] @ ls @ [operator d])"
  unfolding absorbed_def
proof (intro allI impI)
  fix us :: "(lexeme \<times> int \<times> int) list" and p :: "'a JSONMessageParser"
  assume us: "map fst us = [operator c] @ ls @ [operator d]" and p: "0 \<le> brace_count p" "0 \<le> bracket_count p"
    and pos: "0 < brace_count p + bracket_count p"
  show "\<exists>ts. list_all2 tok ts ([operator c] @ ls @ [operator d]) \<and>
      emit_all (json_message_process_token emit) us p = p\<lparr>tokens := tokens p @ ts\<rparr>"
    by (rule bracketed [OF assms us p]) (use pos in auto)
qed

lemma absorbed_separate:
  assumes "\<forall>ls \<in> set lss. absorbed emit ls"
  shows "absorbed emit (separate [operator CHR '',''] first lss)"
  using assms
proof (induction lss arbitrary: first)
  case Nil
  then show ?case by (simp add: absorbed_def)
next
  case (Cons ls lss)
  have "unnested (operator CHR '','')" by (simp add: unnested_def is_token_def)
  then have "absorbed emit (operator CHR '','' # ls)"
    using absorbed_append [OF absorbed_unnested, of "operator CHR '',''" emit ls] Cons.prems by simp
  then show ?case using Cons.IH Cons.prems by (auto intro!: absorbed_append [of _ "_ # _", simplified] absorbed_append)
qed

lemma absorbed_pair: "absorbed emit (json_tokens (snd e)) \<Longrightarrow> absorbed emit (pair_tokens e)"
  unfolding pair_tokens_def
  using absorbed_append [OF absorbed_append [OF absorbed_unnested absorbed_unnested], of "(JSON_STRING, string_text (fst e))" "operator CHR '':''"]
  by (simp add: unnested_def is_token_def)

lemma absorbed_object: "writable obj \<Longrightarrow> absorbed emit (json_tokens obj)"
proof (induction rule: writable.induct)
  case (3 d)
  then show ?case
    unfolding json_tokens_dict
    by (intro absorbed_bracketed absorbed_separate) (auto simp: brackets_def intro: absorbed_pair)
next
  case (4 l)
  then show ?case
    unfolding json_tokens.simps by (intro absorbed_bracketed absorbed_separate) (auto simp: brackets_def)
qed (simp_all add: absorbed_unnested unnested_def is_token_def)

text \<open>Outside of a message, the tokens of an object are one message.\<close>

lemma object_message:
  fixes p :: "'r JSONMessageParser"
  assumes "writable obj" "map fst us = json_tokens obj" "brace_count p = 0" "bracket_count p = 0"
  obtains ts where "list_all2 tok ts (json_tokens obj)"
    "emit_all (json_message_process_token emit) us p = p\<lparr>client := emit (tokens p @ ts) (client p), tokens := []\<rparr>"
proof (cases "\<exists>c d ls. brackets c d \<and> absorbed emit ls \<and> json_tokens obj = [operator c] @ ls @ [operator d]")
  case True
  then obtain c d ls where ls: "absorbed emit ls" "brackets c d" "json_tokens obj = [operator c] @ ls @ [operator d]" by blast
  show thesis
    by (rule bracketed [OF ls(1,2) assms(2) [unfolded ls(3)], of p]) (use assms(3,4) ls(3) that in auto)
next
  case False
  have "brackets CHR ''{'' CHR ''}''" "brackets CHR ''['' CHR '']''" by (simp_all add: brackets_def)
  moreover have "absorbed emit (separate [operator CHR '',''] True (map json_tokens l))" if "obj = QList l" for l
    using assms(1) that by (intro absorbed_separate) (auto elim: writable.cases intro: absorbed_object)
  moreover have "absorbed emit (separate [operator CHR '',''] True (map pair_tokens (qdict_entries d)))" if "obj = QDict d" for d
    using assms(1) that by (intro absorbed_separate) (auto elim: writable.cases intro!: absorbed_pair absorbed_object)
  ultimately have "(\<forall>l. obj \<noteq> QList l) \<and> (\<forall>d. obj \<noteq> QDict d)"
    using False json_tokens.simps(4) json_tokens_dict by metis
  then obtain k w where kw: "json_tokens obj = [(k, w)]" "unnested (k, w)"
    using assms(1) by (cases obj) (auto simp: unnested_def is_token_def elim: writable.cases)
  then obtain x y where us: "us = [((k, w), x, y)]" using assms(2) by auto
  have "list_all2 tok [make_token w k x y] (json_tokens obj)" using kw tok_make_token by (simp add: unnested_def)
  moreover have "json_message_process_token emit w k x y p =
      p\<lparr>client := emit (tokens p @ [make_token w k x y]) (client p), tokens := []\<rparr>"
    using assms(3,4) by (subst process_unnested [OF kw(2)]) (simp add: Let_def)
  ultimately show thesis using that us by simp
qed

section \<open>Reading back what was written\<close>

text \<open>At the end of the text, what is still pending becomes a token.\<close>

lemma loop_at_end: "json_lexer_loop emit NUL (l\<lparr>lstate := IN_START\<rparr>) s = (- 22, l\<lparr>lstate := IN_START\<rparr>, s)"
  by (subst json_lexer_loop.simps) (simp add: start_lookahead(1))

lemma flush_settled:
  assumes "settled (lstate l, ltoken l)"
  shows "\<exists>e l'. json_lexer_flush emit l s =
    (e, l', emit_all emit (map (\<lambda>v. (v, lx l + 1, ly l)) (pending (lstate l, ltoken l))) s)"
proof -
  define m where "m = l\<lparr>lx := lx l + 1\<rparr>"
  have f: "json_lexer_feed_char emit l NUL s = json_lexer_loop emit NUL m s"
    by (simp add: json_lexer_feed_char_def m_def)
  have m: "lstate m = lstate l" "ltoken m = ltoken l" "lx m = lx l + 1" "ly m = ly l" by (simp_all add: m_def)
  from assms show ?thesis
    by (cases rule: settled_cases)
      (use loop_at_end [of emit "m\<lparr>ltoken := ''''\<rparr>"] in
        \<open>simp_all add: json_lexer_flush_def f json_lexer_loop.simps [of emit NUL m] m nul_rows is_token_def
          lookahead_terminal\<close>)
qed

lemma written_object_is_read:
  assumes "writable obj"
  shows "qobject_from_json strtod (json_text format_double pretty 0 obj) = Some (Some (reread obj))"
proof -
  let ?w = "json_text format_double pretty 0 obj" and ?e = "json_message_process_token (parse_json strtod)"
  obtain l and p :: "json_client JSONMessageParser"
    where i: "json_message_parser_init (Some (None, None)) = (l, p)" by fastforce
  then have l: "lstate l = IN_START" "ltoken l = []"
    and p: "brace_count p = 0" "bracket_count p = 0" "tokens p = []" "client p = Some (None, None)"
    by (auto simp: json_message_parser_init_def json_lexer_init_def)
  obtain u vs where run: "lex_run ?w (IN_START, []) = Some (vs, u)" "vs @ pending u = json_tokens obj" "settled u"
    using text_reads_as [OF assms] settled_start(1) unfolding reads_as_def lexes_def by fastforce
  then obtain x y us where us: "map fst us = vs" and feed: "json_lexer_feed ?e l ?w p =
      (0, l\<lparr>lstate := fst u, ltoken := snd u, lx := x, ly := y\<rparr>, emit_all ?e us p)"
    using lex_run_feed [of ?w l vs u ?e p] l by auto
  define l' where "l' = l\<lparr>lstate := fst u, ltoken := snd u, lx := x, ly := y\<rparr>"
  have u: "(lstate l', ltoken l') = u" by (simp add: l'_def)
  then obtain e k where "json_lexer_flush ?e l' (emit_all ?e us p) =
      (e, k, emit_all ?e (map (\<lambda>v. (v, lx l' + 1, ly l')) (pending u)) (emit_all ?e us p))"
    using flush_settled [of l' ?e "emit_all ?e us p"] run(3) by auto
  moreover define ws where "ws = us @ map (\<lambda>v. (v, lx l' + 1, ly l')) (pending u)"
  ultimately have flush: "json_lexer_flush ?e l' (emit_all ?e us p) = (e, k, emit_all ?e ws p)"
    by (simp add: emit_all_append)
  have "map fst ws = json_tokens obj" using us run(2) by (simp add: ws_def comp_def)
  then obtain ts where ts: "list_all2 tok ts (json_tokens obj)"
    and "emit_all ?e ws p = p\<lparr>client := parse_json strtod (tokens p @ ts) (client p), tokens := []\<rparr>"
    using object_message [OF assms _ p(1,2), of ws] by metis
  moreover have "parse_value strtod ts None = Some (Some (reread obj), [], None)"
    using parses_backD [OF writable_parses_back [OF assms] ts, of _ "[]"] by simp
  ultimately have "client (emit_all ?e ws p) = Some (None, Some (reread obj))"
    using p by (simp add: parse_json_def json_parser_parse_def)
  then show ?thesis
    using i feed flush by (simp add: qobject_from_json_def qobject_from_jsonv_def json_message_parser_feed_def
        json_message_parser_flush_def l'_def)
qed

text \<open>C1: For every object without floating-point numbers whose strings are UTF-8 text of 16-bit
  characters, the text that \<open>qobject_to_json\<close> or
  \<open>qobject_to_json_pretty\<close> writes is read back by \<open>qobject_from_json\<close>
  as one object of the same value: through escapes, lexer, streamer and parser, for nested lists
  and dictionaries.\<close>

theorem json_roundtrip:
  assumes "writable obj"
  shows "\<exists>a b.
    qobject_from_json strtod (qobject_to_json format_double obj) = Some (Some a) \<and> json_value_of a = json_value_of obj \<and>
    qobject_from_json strtod (qobject_to_json_pretty format_double obj) = Some (Some b) \<and> json_value_of b = json_value_of obj"
  using written_object_is_read [OF assms] reread_value [OF assms]
  by (simp add: qobject_to_json_def qobject_to_json_pretty_def)

lemma writable_dict:
  assumes "qdict_inv d" "\<And>k v. qdict_get d k = Some v \<Longrightarrow> utf8_string k \<and> writable v"
  shows "writable (QDict d)"
proof (rule writable.intros(3) [OF assms(1)])
  fix k v
  assume "(k, v) \<in> set (qdict_entries d)"
  then have "qdict_get d k = Some v"
    using qdict.entries_get [OF assms(1)] qdict.entries_distinct [OF assms(1)] by (metis map_of_is_SomeI)
  then show "utf8_string k \<and> writable v" by (rule assms(2))
qed

definition sample_object :: qobject where
  "sample_object =
    QDict (qdict_put_obj (qdict_put_obj qdict_new ''id'' (QInt (- 42)))
      ''args'' (QList [QString ''a\"/'', QBool 1, QString [CHR 0xC3, CHR 0xA9, CHR 0x0A], QList []]))"

lemma writable_sample: "writable sample_object"
proof -
  have s: "utf8_string ''id''" "utf8_string ''args''" "utf8_string ''a\"/''" "utf8_string [CHR 0xC3, CHR 0xA9, CHR 0x0A]"
    unfolding utf8_string_def
    by (rule exI [of _ "[105, 100]"], code_simp, rule exI [of _ "[97, 114, 103, 115]"], code_simp,
        rule exI [of _ "[97, 34, 47]"], code_simp, rule exI [of _ "[233, 10]"], code_simp)
  have l: "writable (QList [QString ''a\"/'', QBool 1, QString [CHR 0xC3, CHR 0xA9, CHR 0x0A], QList []])"
    using s by (intro writable.intros(4)) (auto intro: writable.intros)
  have "writable (QInt (- 42))" by (simp add: writable.intros)
  with l show ?thesis
    unfolding sample_object_def
    by (intro writable_dict qdict.put_inv qdict.new_inv)
      (auto simp: qdict.get_put qdict.put_inv qdict.new_inv qdict.get_new s split: if_splits)
qed

theorem json_roundtrip_witness:
  "writable sample_object \<and>
   (\<exists>a b.
     qobject_from_json (\<lambda>_. 0) (qobject_to_json (\<lambda>_. []) sample_object) = Some (Some a) \<and>
     json_value_of a = json_value_of sample_object \<and>
     qobject_from_json (\<lambda>_. 0) (qobject_to_json_pretty (\<lambda>_. []) sample_object) = Some (Some b) \<and>
     json_value_of b = json_value_of sample_object)"
  using json_roundtrip [OF writable_sample, of "\<lambda>_. 0" "\<lambda>_. []"] writable_sample by blast

end
