(* ===== verification/Pckbd.thy ===== *)
theory Pckbd
  imports Ps2
begin

text \<open>
  The 8042 keyboard controller, \<open>qemu/hw/pckbd.c\<close>, with the keyboard and the mouse of \<open>Ps2\<close> attached.

  \<^item> \<open>KBDState\<close> is the struct of the same name. \<open>irq_kbd\<close>, \<open>irq_mouse\<close> and the A20 output are the levels
    driven on the lines, newest first; the A20 output may not be connected. \<open>reset_requests\<close> counts the
    calls of \<open>qemu_system_reset_request\<close>.
  \<^item> The devices call back into the controller (\<open>kbd_update_kbd_irq\<close>, \<open>kbd_update_aux_irq\<close>). A callback
    does not touch the device, so \<open>on_kbd\<close> and \<open>on_mouse\<close> run the device and then the calls it made.
  \<^item> The ports are a byte wide.
\<close>

unbundle bit_operations_syntax

section \<open>What the controller relies on\<close>

text \<open>A device reports through its callback whether it has data. An operation of the device keeps its
  invariant and only adds calls.\<close>

locale irq_source =
  fixes inv :: "'d \<Rightarrow> bool" and bytes :: "'d \<Rightarrow> u8 list" and calls :: "'d \<Rightarrow> bool list"
  assumes level: "inv d \<Longrightarrow> line_level (calls d) \<longleftrightarrow> bytes d \<noteq> []"
begin

definition operation :: "('d \<Rightarrow> 'd) \<Rightarrow> bool" where
  "operation f \<longleftrightarrow> (\<forall>d. inv d \<longrightarrow> inv (f d) \<and> (\<exists>cs. calls (f d) = cs @ calls d))"

lemma operationI: "(\<And>d. inv d \<Longrightarrow> inv (f d)) \<Longrightarrow> (\<And>d. inv d \<Longrightarrow> \<exists>cs. calls (f d) = cs @ calls d) \<Longrightarrow> operation f"
  by (simp add: operation_def)

lemma operation_inv: "operation f \<Longrightarrow> inv d \<Longrightarrow> inv (f d)"
  by (simp add: operation_def)

lemma operation_comp: "operation f \<Longrightarrow> operation g \<Longrightarrow> operation (\<lambda>d. g (f d))"
  unfolding operation_def by (metis append_assoc)

text \<open>After an operation, the last call tells whether there is data; without a call nothing changed.\<close>

lemma operation_calls:
  assumes "operation f" "inv d"
  obtains cs where "calls (f d) = cs @ calls d" "(if cs = [] then bytes d \<noteq> [] else hd cs) \<longleftrightarrow> bytes (f d) \<noteq> []"
proof -
  obtain cs where cs: "inv (f d)" "calls (f d) = cs @ calls d" using assms by (auto simp: operation_def)
  then have "line_level (cs @ calls d) \<longleftrightarrow> bytes (f d) \<noteq> []" using level by metis
  then show thesis using that [OF cs(2)] level [OF assms(2)] by (cases cs) auto
qed

end

abbreviation kbd_bytes :: "PS2KbdState \<Rightarrow> u8 list" where "kbd_bytes k \<equiv> ps2_bytes (kbd_common k)"
abbreviation kbd_calls :: "PS2KbdState \<Rightarrow> bool list" where "kbd_calls k \<equiv> update_irq (kbd_common k)"
abbreviation mouse_bytes :: "PS2MouseState \<Rightarrow> u8 list" where "mouse_bytes m \<equiv> ps2_bytes (mouse_common m)"
abbreviation mouse_calls :: "PS2MouseState \<Rightarrow> bool list" where "mouse_calls m \<equiv> update_irq (mouse_common m)"

interpretation kbd_irq: irq_source kbd_inv kbd_bytes kbd_calls
  by unfold_locales (simp add: kbd_inv_def ps2_inv_def flip: length_0_conv)

interpretation mouse_irq: irq_source mouse_inv mouse_bytes mouse_calls
  by unfold_locales (simp add: mouse_inv_def ps2_inv_def flip: length_0_conv)

section \<open>State\<close>

record KBDState =
  kbc_write_cmd :: u8
  kbc_status :: u8
  kbc_mode :: u8
  outport :: u8
  kbc_pending :: u8
  kbd :: PS2KbdState
  mouse :: PS2MouseState
  irq_kbd :: "bool list"
  irq_mouse :: "bool list"
  a20_out :: "bool list option"
  mm_mask :: u64
  reset_requests :: nat

section \<open>Interrupts\<close>

definition kbd_update_irq :: "KBDState \<Rightarrow> KBDState" where
  "kbd_update_irq s =
    (let s = s\<lparr>kbc_status := kbc_status s AND NOT 0x21, outport := outport s AND NOT 0x30\<rparr> in
     if kbc_pending s \<noteq> 0
     then
       (let s = s\<lparr>kbc_status := kbc_status s OR 0x01, outport := outport s OR 0x10\<rparr> in
        if kbc_pending s = 2
        then s\<lparr>kbc_status := kbc_status s OR 0x20, outport := outport s OR 0x20,
               irq_kbd := False # irq_kbd s, irq_mouse := (kbc_mode s AND 0x02 \<noteq> 0) # irq_mouse s\<rparr>
        else s\<lparr>irq_kbd := (kbc_mode s AND 0x01 \<noteq> 0 \<and> kbc_mode s AND 0x10 = 0) # irq_kbd s,
               irq_mouse := False # irq_mouse s\<rparr>)
     else s\<lparr>irq_kbd := False # irq_kbd s, irq_mouse := False # irq_mouse s\<rparr>)"

definition kbd_update_kbd_irq :: "bool \<Rightarrow> KBDState \<Rightarrow> KBDState" where
  "kbd_update_kbd_irq l s =
    kbd_update_irq (s\<lparr>kbc_pending := (if l then kbc_pending s OR 1 else kbc_pending s AND NOT 1)\<rparr>)"

definition kbd_update_aux_irq :: "bool \<Rightarrow> KBDState \<Rightarrow> KBDState" where
  "kbd_update_aux_irq l s =
    kbd_update_irq (s\<lparr>kbc_pending := (if l then kbc_pending s OR 2 else kbc_pending s AND NOT 2)\<rparr>)"

text \<open>The calls a device added, oldest first.\<close>

definition new_calls :: "bool list \<Rightarrow> bool list \<Rightarrow> bool list" where
  "new_calls old new = rev (take (length new - length old) new)"

definition on_kbd :: "(PS2KbdState \<Rightarrow> PS2KbdState) \<Rightarrow> KBDState \<Rightarrow> KBDState" where
  "on_kbd f s =
    (let k = f (kbd s) in fold kbd_update_kbd_irq (new_calls (kbd_calls (kbd s)) (kbd_calls k)) (s\<lparr>kbd := k\<rparr>))"

definition on_mouse :: "(PS2MouseState \<Rightarrow> PS2MouseState) \<Rightarrow> KBDState \<Rightarrow> KBDState" where
  "on_mouse f s =
    (let m = f (mouse s) in
     fold kbd_update_aux_irq (new_calls (mouse_calls (mouse s)) (mouse_calls m)) (s\<lparr>mouse := m\<rparr>))"

section \<open>Ports\<close>

definition kbd_read_status :: "KBDState \<Rightarrow> u8" where
  "kbd_read_status s = kbc_status s"

definition i8042_queue :: "u8 \<Rightarrow> bool \<Rightarrow> KBDState \<Rightarrow> KBDState" where
  "i8042_queue b aux s =
    (if aux then on_mouse (\<lambda>m. m\<lparr>mouse_common := ps2_queue b (mouse_common m)\<rparr>) s
     else on_kbd (\<lambda>k. k\<lparr>kbd_common := ps2_queue b (kbd_common k)\<rparr>) s)"

definition set_a20 :: "bool \<Rightarrow> KBDState \<Rightarrow> KBDState" where
  "set_a20 l s = (case a20_out s of None \<Rightarrow> s | Some ls \<Rightarrow> s\<lparr>a20_out := Some (l # ls)\<rparr>)"

definition qemu_system_reset_request :: "KBDState \<Rightarrow> KBDState" where
  "qemu_system_reset_request s = s\<lparr>reset_requests := reset_requests s + 1\<rparr>"

definition outport_write :: "u8 \<Rightarrow> KBDState \<Rightarrow> KBDState" where
  "outport_write v s =
    (let s = set_a20 (drop_bit 1 v AND 1 \<noteq> 0) (s\<lparr>outport := v\<rparr>)
     in if v AND 1 = 0 then qemu_system_reset_request s else s)"

definition kbd_write_command :: "u8 \<Rightarrow> KBDState \<Rightarrow> KBDState" where
  "kbd_write_command v s =
    (let v = (if v AND 0xF0 = 0xF0 then (if v AND 1 = 0 then 0xFE else 0xFF) else v) in
     if v = 0x20 then i8042_queue (kbc_mode s) False s
     else if v = 0x60 \<or> v = 0xD2 \<or> v = 0xD3 \<or> v = 0xD4 \<or> v = 0xD1 then s\<lparr>kbc_write_cmd := v\<rparr>
     else if v = 0xA7 then s\<lparr>kbc_mode := kbc_mode s OR 0x20\<rparr>
     else if v = 0xA8 then s\<lparr>kbc_mode := kbc_mode s AND NOT 0x20\<rparr>
     else if v = 0xA9 then i8042_queue 0x00 False s
     else if v = 0xAA then i8042_queue 0x55 False (s\<lparr>kbc_status := kbc_status s OR 0x04\<rparr>)
     else if v = 0xAB then i8042_queue 0x00 False s
     else if v = 0xAD then kbd_update_irq (s\<lparr>kbc_mode := kbc_mode s OR 0x10\<rparr>)
     else if v = 0xAE then kbd_update_irq (s\<lparr>kbc_mode := kbc_mode s AND NOT 0x10\<rparr>)
     else if v = 0xC0 then i8042_queue 0x00 False s
     else if v = 0xD0 then i8042_queue (outport s) False s
     else if v = 0xDF then (set_a20 True s)\<lparr>outport := outport s OR 0x02\<rparr>
     else if v = 0xDD then (set_a20 False s)\<lparr>outport := outport s AND NOT 0x02\<rparr>
     else if v = 0xFE then qemu_system_reset_request s
     else s)"

definition kbd_read_data :: "KBDState \<Rightarrow> u8 \<times> KBDState" where
  "kbd_read_data s =
    (if kbc_pending s = 2
     then (fst (ps2_read_data (mouse_common (mouse s))),
           on_mouse (\<lambda>m. m\<lparr>mouse_common := snd (ps2_read_data (mouse_common m))\<rparr>) s)
     else (fst (ps2_read_data (kbd_common (kbd s))),
           on_kbd (\<lambda>k. k\<lparr>kbd_common := snd (ps2_read_data (kbd_common k))\<rparr>) s))"

definition kbd_write_data :: "u8 \<Rightarrow> KBDState \<Rightarrow> KBDState" where
  "kbd_write_data v s =
    (let c = kbc_write_cmd s;
         s = (if c = 0 then on_kbd (ps2_write_keyboard (uint v)) s
              else if c = 0x60
              then
                (let s = s\<lparr>kbc_mode := v\<rparr>;
                     s = on_kbd (ps2_keyboard_set_translation (kbc_mode s AND 0x40 \<noteq> 0)) s
                 in kbd_update_irq s)
              else if c = 0xD2 then i8042_queue v False s
              else if c = 0xD3 then i8042_queue v True s
              else if c = 0xD1 then outport_write v s
              else if c = 0xD4 then on_mouse (ps2_write_mouse (uint v)) s
              else s)
     in s\<lparr>kbc_write_cmd := 0\<rparr>)"

definition kbd_reset :: "KBDState \<Rightarrow> KBDState" where
  "kbd_reset s = s\<lparr>kbc_mode := 0x01 OR 0x02, kbc_status := 0x08 OR 0x10, outport := 0x01 OR 0x02\<rparr>"

definition kbd_mm_readb :: "u64 \<Rightarrow> KBDState \<Rightarrow> u8 \<times> KBDState" where
  "kbd_mm_readb addr s = (if addr AND mm_mask s \<noteq> 0 then (kbd_read_status s, s) else kbd_read_data s)"

definition kbd_mm_writeb :: "u64 \<Rightarrow> u32 \<Rightarrow> KBDState \<Rightarrow> KBDState" where
  "kbd_mm_writeb addr v s =
    (if addr AND mm_mask s \<noteq> 0 then kbd_write_command (ucast (v AND 0xff)) s
     else kbd_write_data (ucast (v AND 0xff)) s)"

definition i8042_isa_mouse_fake_event :: "KBDState \<Rightarrow> KBDState" where
  "i8042_isa_mouse_fake_event s = on_mouse ps2_mouse_fake_event s"

definition i8042_setup_a20_line :: "KBDState \<Rightarrow> KBDState" where
  "i8042_setup_a20_line s = s\<lparr>a20_out := Some []\<rparr>"

definition i8042_initfn :: KBDState where
  "i8042_initfn =
    \<lparr>kbc_write_cmd = 0, kbc_status = 0, kbc_mode = 0, outport = 0, kbc_pending = 0,
     kbd = ps2_kbd_init, mouse = ps2_mouse_init, irq_kbd = [], irq_mouse = [], a20_out = None,
     mm_mask = 0, reset_requests = 0\<rparr>"

definition i8042_mm_init :: "u64 \<Rightarrow> KBDState" where
  "i8042_mm_init m = i8042_initfn\<lparr>mm_mask := m\<rparr>"

text \<open>A reset of the machine runs the handlers in the order of their registration.\<close>

definition i8042_system_reset :: "KBDState \<Rightarrow> KBDState" where
  "i8042_system_reset s = kbd_reset (on_mouse ps2_mouse_reset (on_kbd ps2_kbd_reset s))"

section \<open>Interrupt lines and status agree with the pending devices\<close>

lemma u8_flags:
  "(x :: u8) AND 0x01 = 0 \<longleftrightarrow> \<not> bit x 0" "x AND 0x02 = 0 \<longleftrightarrow> \<not> bit x 1" "x AND 0x10 = 0 \<longleftrightarrow> \<not> bit x 4"
  "x AND 0x20 = 0 \<longleftrightarrow> \<not> bit x 5"
  using masked_bit [of x 0] masked_bit [of x 1] masked_bit [of x 4] masked_bit [of x 5] by simp_all

definition kbc_settled :: "KBDState \<Rightarrow> bool" where
  "kbc_settled s \<longleftrightarrow>
    (bit (kbc_status s) 0 \<longleftrightarrow> kbc_pending s \<noteq> 0) \<and> (bit (kbc_status s) 5 \<longleftrightarrow> kbc_pending s = 2) \<and>
    (line_level (irq_kbd s) \<longleftrightarrow> kbc_pending s \<noteq> 0 \<and> kbc_pending s \<noteq> 2 \<and> bit (kbc_mode s) 0 \<and> \<not> bit (kbc_mode s) 4) \<and>
    (line_level (irq_mouse s) \<longleftrightarrow> kbc_pending s = 2 \<and> bit (kbc_mode s) 1)"

lemma kbd_update_irq_settled: "kbc_settled (kbd_update_irq s)"
  by (simp add: kbc_settled_def kbd_update_irq_def Let_def u8_flags bit_simps)

definition pending_of :: "bool \<Rightarrow> bool \<Rightarrow> u8" where
  "pending_of a b = (if a then 1 else 0) OR (if b then 2 else 0)"

lemma pending_of_simps [simp]:
  "pending_of a b = 0 \<longleftrightarrow> \<not> a \<and> \<not> b" "pending_of a b = 2 \<longleftrightarrow> \<not> a \<and> b"
  "pending_of a b OR 1 = pending_of True b" "pending_of a b AND - 2 = pending_of False b"
  "pending_of a b OR 2 = pending_of a True" "pending_of a b AND - 3 = pending_of a False"
  by (auto simp: pending_of_def)

lemma kbd_update_irq_frame [simp]:
  "kbd (kbd_update_irq s) = kbd s" "mouse (kbd_update_irq s) = mouse s"
  "kbc_pending (kbd_update_irq s) = kbc_pending s" "kbc_mode (kbd_update_irq s) = kbc_mode s"
  "kbc_write_cmd (kbd_update_irq s) = kbc_write_cmd s"
  by (simp_all add: kbd_update_irq_def Let_def)

lemma callbacks:
  assumes "kbc_pending s = pending_of a b"
  shows "kbd (fold kbd_update_kbd_irq ls s) = kbd s" "mouse (fold kbd_update_kbd_irq ls s) = mouse s"
    "kbc_mode (fold kbd_update_kbd_irq ls s) = kbc_mode s" "kbc_write_cmd (fold kbd_update_kbd_irq ls s) = kbc_write_cmd s"
    "kbc_pending (fold kbd_update_kbd_irq ls s) = pending_of (if ls = [] then a else last ls) b"
    "kbd (fold kbd_update_aux_irq ls s) = kbd s" "mouse (fold kbd_update_aux_irq ls s) = mouse s"
    "kbc_mode (fold kbd_update_aux_irq ls s) = kbc_mode s" "kbc_write_cmd (fold kbd_update_aux_irq ls s) = kbc_write_cmd s"
    "kbc_pending (fold kbd_update_aux_irq ls s) = pending_of a (if ls = [] then b else last ls)"
proof -
  show "kbc_pending (fold kbd_update_kbd_irq ls s) = pending_of (if ls = [] then a else last ls) b"
    using assms by (induction ls arbitrary: s a) (simp_all add: kbd_update_kbd_irq_def)
  show "kbc_pending (fold kbd_update_aux_irq ls s) = pending_of a (if ls = [] then b else last ls)"
    using assms by (induction ls arbitrary: s b) (simp_all add: kbd_update_aux_irq_def)
qed (induction ls arbitrary: s, simp_all add: kbd_update_kbd_irq_def kbd_update_aux_irq_def)+

lemma callbacks_settled:
  "kbc_settled s \<Longrightarrow> kbc_settled (fold kbd_update_kbd_irq ls s)" "kbc_settled s \<Longrightarrow> kbc_settled (fold kbd_update_aux_irq ls s)"
  by (induction ls arbitrary: s) (simp_all add: kbd_update_kbd_irq_def kbd_update_aux_irq_def kbd_update_irq_settled)

definition kbc_inv :: "KBDState \<Rightarrow> bool" where
  "kbc_inv s \<longleftrightarrow> kbd_inv (kbd s) \<and> mouse_inv (mouse s) \<and> kbc_settled s \<and>
    kbc_pending s = pending_of (kbd_bytes (kbd s) \<noteq> []) (mouse_bytes (mouse s) \<noteq> [])"

lemma new_calls_append [simp]: "new_calls old (cs @ old) = rev cs"
  by (simp add: new_calls_def)

lemma on_kbd_inv:
  assumes "kbd_irq.operation f" "kbc_inv s"
  shows "kbc_inv (on_kbd f s)" "kbd (on_kbd f s) = f (kbd s)" "mouse (on_kbd f s) = mouse s"
    "kbc_mode (on_kbd f s) = kbc_mode s" "kbc_write_cmd (on_kbd f s) = kbc_write_cmd s"
proof -
  let ?s = "s\<lparr>kbd := f (kbd s)\<rparr>"
  have s: "kbd_inv (kbd s)" "kbc_settled ?s" "kbc_pending ?s = pending_of (kbd_bytes (kbd s) \<noteq> []) (mouse_bytes (mouse s) \<noteq> [])"
    using assms(2) by (simp_all add: kbc_inv_def kbc_settled_def)
  obtain cs where cs: "kbd_calls (f (kbd s)) = cs @ kbd_calls (kbd s)"
      "(if cs = [] then kbd_bytes (kbd s) \<noteq> [] else hd cs) \<longleftrightarrow> kbd_bytes (f (kbd s)) \<noteq> []"
    using kbd_irq.operation_calls [OF assms(1) s(1)] .
  have r: "on_kbd f s = fold kbd_update_kbd_irq (rev cs) ?s" by (simp add: on_kbd_def Let_def cs(1))
  show fr: "kbd (on_kbd f s) = f (kbd s)" "mouse (on_kbd f s) = mouse s" "kbc_mode (on_kbd f s) = kbc_mode s"
    "kbc_write_cmd (on_kbd f s) = kbc_write_cmd s"
    unfolding r using callbacks(1-4) [OF s(3)] by simp_all
  have "kbc_pending (on_kbd f s) = pending_of (kbd_bytes (f (kbd s)) \<noteq> []) (mouse_bytes (mouse s) \<noteq> [])"
    unfolding r callbacks(5) [OF s(3)] using cs(2) by (cases "cs = []") (simp_all add: last_rev)
  moreover have "kbc_settled (on_kbd f s)" unfolding r using s(2) by (rule callbacks_settled(1))
  ultimately show "kbc_inv (on_kbd f s)"
    using fr kbd_irq.operation_inv [OF assms(1) s(1)] assms(2) by (simp add: kbc_inv_def)
qed

lemma on_mouse_inv:
  assumes "mouse_irq.operation f" "kbc_inv s"
  shows "kbc_inv (on_mouse f s)" "mouse (on_mouse f s) = f (mouse s)" "kbd (on_mouse f s) = kbd s"
    "kbc_mode (on_mouse f s) = kbc_mode s" "kbc_write_cmd (on_mouse f s) = kbc_write_cmd s"
proof -
  let ?s = "s\<lparr>mouse := f (mouse s)\<rparr>"
  have s: "mouse_inv (mouse s)" "kbc_settled ?s" "kbc_pending ?s = pending_of (kbd_bytes (kbd s) \<noteq> []) (mouse_bytes (mouse s) \<noteq> [])"
    using assms(2) by (simp_all add: kbc_inv_def kbc_settled_def)
  obtain cs where cs: "mouse_calls (f (mouse s)) = cs @ mouse_calls (mouse s)"
      "(if cs = [] then mouse_bytes (mouse s) \<noteq> [] else hd cs) \<longleftrightarrow> mouse_bytes (f (mouse s)) \<noteq> []"
    using mouse_irq.operation_calls [OF assms(1) s(1)] .
  have r: "on_mouse f s = fold kbd_update_aux_irq (rev cs) ?s" by (simp add: on_mouse_def Let_def cs(1))
  show fr: "mouse (on_mouse f s) = f (mouse s)" "kbd (on_mouse f s) = kbd s" "kbc_mode (on_mouse f s) = kbc_mode s"
    "kbc_write_cmd (on_mouse f s) = kbc_write_cmd s"
    unfolding r using callbacks(6-9) [OF s(3)] by simp_all
  have "kbc_pending (on_mouse f s) = pending_of (kbd_bytes (kbd s) \<noteq> []) (mouse_bytes (f (mouse s)) \<noteq> [])"
    unfolding r callbacks(10) [OF s(3)] using cs(2) by (cases "cs = []") (simp_all add: last_rev)
  moreover have "kbc_settled (on_mouse f s)" unfolding r using s(2) by (rule callbacks_settled(2))
  ultimately show "kbc_inv (on_mouse f s)"
    using fr mouse_irq.operation_inv [OF assms(1) s(1)] assms(2) by (simp add: kbc_inv_def)
qed

section \<open>The operations of the devices\<close>

definition adds_calls :: "bool list \<Rightarrow> bool list \<Rightarrow> bool" where
  "adds_calls old new \<longleftrightarrow> (\<exists>cs. new = cs @ old)"

lemma adds_calls_simps [simp]: "adds_calls l l" "adds_calls l l' \<Longrightarrow> adds_calls l (b # l')"
  by (auto simp: adds_calls_def)

lemma adds_ps2:
  "adds_calls l (update_irq s) \<Longrightarrow> adds_calls l (update_irq (ps2_queue b s))"
  "adds_calls l (update_irq s) \<Longrightarrow> adds_calls l (update_irq (snd (ps2_read_data s)))"
  "adds_calls l (update_irq s) \<Longrightarrow> adds_calls l (update_irq (ps2_common_reset s))"
  by (simp_all add: ps2_queue_def ps2_read_data_def ps2_common_reset_def Let_def)

lemma adds_kbd:
  "adds_calls l (kbd_calls k) \<Longrightarrow> adds_calls l (kbd_calls (kbd_queue b k))"
  "adds_calls l (kbd_calls k) \<Longrightarrow> adds_calls l (kbd_calls (kbd_set_cmd c k))"
  "kbd_common (ps2_reset_keyboard k) = kbd_common k"
  by (simp_all add: kbd_queue_def kbd_set_cmd_def ps2_reset_keyboard_def adds_ps2)

lemma adds_put_keycode: "adds_calls l (kbd_calls k) \<Longrightarrow> adds_calls l (kbd_calls (ps2_put_keycode c k))"
  by (simp add: ps2_put_keycode_def Let_def adds_kbd)

lemma adds_write_keyboard: "adds_calls (kbd_calls k) (kbd_calls (ps2_write_keyboard v k))"
  by (simp add: ps2_write_keyboard_def ps2_keyboard_command_def Let_def adds_kbd adds_put_keycode)

lemma kbd_operations:
  "kbd_irq.operation (\<lambda>k. k\<lparr>kbd_common := ps2_queue b (kbd_common k)\<rparr>)"
  "kbd_irq.operation (\<lambda>k. k\<lparr>kbd_common := snd (ps2_read_data (kbd_common k))\<rparr>)"
  "kbd_irq.operation (ps2_put_keycode c)" "kbd_irq.operation (ps2_write_keyboard v)"
  "kbd_irq.operation (ps2_keyboard_set_translation t)" "kbd_irq.operation ps2_kbd_reset"
  using kbd_queue_inv [of _ b] kbd_do_inv [of _ Kbd_read] kbd_do_inv [of _ "Kbd_keycode c"] kbd_do_inv [of _ "Kbd_write v"]
    kbd_do_inv [of _ "Kbd_translation t"] kbd_do_inv [of _ Kbd_reset] adds_write_keyboard
  by (simp_all add: kbd_irq.operation_def kbd_queue_def ps2_keyboard_set_translation_def ps2_kbd_reset_def
      adds_ps2 adds_put_keycode flip: adds_calls_def)

lemma adds_mouse:
  "adds_calls l (mouse_calls m) \<Longrightarrow> adds_calls l (mouse_calls (mouse_queue b m))"
  "adds_calls l (mouse_calls m) \<Longrightarrow> adds_calls l (mouse_calls (mouse_set_cmd c m))"
  "mouse_common (ps2_mouse_detect v m) = mouse_common m"
  by (simp_all add: mouse_queue_def mouse_set_cmd_def ps2_mouse_detect_def adds_ps2)

lemma adds_fold_queue: "adds_calls l (update_irq s) \<Longrightarrow> adds_calls l (update_irq (fold ps2_queue bs s))"
  by (induction bs arbitrary: s) (simp_all add: adds_ps2)

lemma adds_send_packet: "adds_calls l (mouse_calls m) \<Longrightarrow> adds_calls l (mouse_calls (ps2_mouse_send_packet m))"
  by (simp add: send_packet_queue adds_fold_queue)

lemma adds_write_mouse: "adds_calls (mouse_calls m) (mouse_calls (ps2_write_mouse v m))"
  by (simp add: ps2_write_mouse_def ps2_mouse_command_def Let_def adds_mouse adds_send_packet)

lemma adds_mouse_event: "adds_calls (mouse_calls m) (mouse_calls (ps2_mouse_event dx dy dz b m))"
  by (simp add: ps2_mouse_event_def Let_def send_all_queue adds_fold_queue)

lemma mouse_operations:
  "mouse_irq.operation (\<lambda>m. m\<lparr>mouse_common := ps2_queue b (mouse_common m)\<rparr>)"
  "mouse_irq.operation (\<lambda>m. m\<lparr>mouse_common := snd (ps2_read_data (mouse_common m))\<rparr>)"
  "mouse_irq.operation (ps2_mouse_event dx dy dz bs)" "mouse_irq.operation (ps2_write_mouse v)"
  "mouse_irq.operation ps2_mouse_reset" "mouse_irq.operation ps2_mouse_fake_event"
  using mouse_queue_inv [of _ b] mouse_do_inv [of _ Mouse_read] mouse_do_inv [of _ "Mouse_move dx dy dz bs"]
    mouse_do_inv [of _ "Mouse_write v"] mouse_do_inv [of _ Mouse_reset] mouse_do_inv [of _ "Mouse_move 1 0 0 0"]
    adds_write_mouse adds_mouse_event
  by (simp_all add: mouse_irq.operation_def mouse_queue_def ps2_mouse_reset_def ps2_mouse_fake_event_def [abs_def]
      adds_ps2 flip: adds_calls_def)

section \<open>The controller as a device\<close>

datatype kbc_event =
  Kbc_key int
| Kbc_motion int int int u8
| Kbc_read_data
| Kbc_write_data u8
| Kbc_write_command u8
| Kbc_fake_event
| Kbc_reset

fun kbc_do :: "kbc_event \<Rightarrow> KBDState \<Rightarrow> KBDState" where
  "kbc_do (Kbc_key c) s = on_kbd (ps2_put_keycode c) s"
| "kbc_do (Kbc_motion dx dy dz b) s = on_mouse (ps2_mouse_event dx dy dz b) s"
| "kbc_do Kbc_read_data s = snd (kbd_read_data s)"
| "kbc_do (Kbc_write_data v) s = kbd_write_data v s"
| "kbc_do (Kbc_write_command v) s = kbd_write_command v s"
| "kbc_do Kbc_fake_event s = i8042_isa_mouse_fake_event s"
| "kbc_do Kbc_reset s = i8042_system_reset s"

lemma kbc_inv_update:
  "kbc_inv (s\<lparr>kbc_write_cmd := c\<rparr>) = kbc_inv s" "kbc_inv (s\<lparr>outport := p\<rparr>) = kbc_inv s"
  "kbc_inv (s\<lparr>a20_out := a\<rparr>) = kbc_inv s" "kbc_inv (s\<lparr>reset_requests := n\<rparr>) = kbc_inv s"
  "kbc_inv (s\<lparr>mm_mask := k\<rparr>) = kbc_inv s"
  by (simp_all add: kbc_inv_def kbc_settled_def)

lemma set_a20_inv: "kbc_inv (set_a20 l s) = kbc_inv s" "kbc_inv ((set_a20 l s)\<lparr>outport := p\<rparr>) = kbc_inv s"
  by (simp_all add: set_a20_def kbc_inv_update split: option.split)

lemma reprogrammed_inv:
  assumes "kbc_inv s"
  shows "kbc_inv (kbd_update_irq (s\<lparr>kbc_mode := m\<rparr>))"
  using assms kbd_update_irq_settled by (simp add: kbc_inv_def)

lemma outport_write_inv: "kbc_inv s \<Longrightarrow> kbc_inv (outport_write v s)"
  by (simp add: outport_write_def Let_def qemu_system_reset_request_def kbc_inv_update set_a20_inv)

lemma i8042_queue_inv: "kbc_inv s \<Longrightarrow> kbc_inv (i8042_queue b aux s)"
  by (simp add: i8042_queue_def on_kbd_inv(1) [OF kbd_operations(1)] on_mouse_inv(1) [OF mouse_operations(1)])

lemma kbd_write_command_inv:
  assumes "kbc_inv s"
  shows "kbc_inv (kbd_write_command v s)"
proof -
  have "kbc_inv (s\<lparr>kbc_mode := kbc_mode s OR 0x20\<rparr>)" "kbc_inv (s\<lparr>kbc_mode := kbc_mode s AND NOT 0x20\<rparr>)"
      "kbc_inv (s\<lparr>kbc_status := kbc_status s OR 0x04\<rparr>)"
    using assms by (simp_all add: kbc_inv_def kbc_settled_def bit_simps)
  then show ?thesis
    using assms
    by (simp add: kbd_write_command_def Let_def i8042_queue_inv kbc_inv_update set_a20_inv reprogrammed_inv
        qemu_system_reset_request_def)
qed

lemma kbd_read_data_inv: "kbc_inv s \<Longrightarrow> kbc_inv (snd (kbd_read_data s))"
  by (simp add: kbd_read_data_def on_kbd_inv(1) [OF kbd_operations(2)] on_mouse_inv(1) [OF mouse_operations(2)])

lemma kbd_write_data_inv:
  assumes "kbc_inv s"
  shows "kbc_inv (kbd_write_data v s)"
proof -
  have "kbd_update_irq (on_kbd (ps2_keyboard_set_translation t) (s\<lparr>kbc_mode := v\<rparr>)) =
      kbd_update_irq ((on_kbd (ps2_keyboard_set_translation t) s)\<lparr>kbc_mode := v\<rparr>)" for t
    by (cases s) (simp add: on_kbd_def Let_def new_calls_def ps2_keyboard_set_translation_def)
  then show ?thesis
    using assms
    by (simp add: kbd_write_data_def Let_def kbc_inv_update i8042_queue_inv outport_write_inv reprogrammed_inv
        on_kbd_inv(1) [OF kbd_operations(4)] on_kbd_inv(1) [OF kbd_operations(5)] on_mouse_inv(1) [OF mouse_operations(4)])
qed

text \<open>A reset of the machine empties both queues before the controller clears its status.\<close>

lemma reset_bytes: "kbd_bytes (ps2_kbd_reset k) = []" "mouse_bytes (ps2_mouse_reset m) = []"
  by (simp_all add: ps2_kbd_reset_def ps2_mouse_reset_def ps2_common_reset_def ps2_bytes_def ring_def)

lemma i8042_system_reset_inv:
  assumes "kbc_inv s"
  shows "kbc_inv (i8042_system_reset s)"
proof -
  define t where "t = on_kbd ps2_kbd_reset s"
  define u where "u = on_mouse ps2_mouse_reset t"
  note t = on_kbd_inv [OF kbd_operations(6) assms, folded t_def]
  note u = on_mouse_inv [OF mouse_operations(5) t(1), folded u_def]
  have "kbd_bytes (kbd u) = []" "mouse_bytes (mouse u) = []" using t(2) u(2,3) reset_bytes by simp_all
  then have "kbc_pending u = 0" "\<not> line_level (irq_kbd u)" "\<not> line_level (irq_mouse u)"
    using u(1) by (simp_all add: kbc_inv_def kbc_settled_def)
  then show ?thesis
    using u(1) unfolding i8042_system_reset_def t_def [symmetric] u_def [symmetric]
    by (simp add: kbc_inv_def kbc_settled_def kbd_reset_def bit_simps)
qed

lemma kbc_do_inv: "kbc_inv s \<Longrightarrow> kbc_inv (kbc_do e s)"
  by (cases e)
    (simp_all add: kbd_read_data_inv kbd_write_data_inv kbd_write_command_inv i8042_system_reset_inv
      on_kbd_inv(1) [OF kbd_operations(3)] on_mouse_inv(1) [OF mouse_operations(3)] i8042_isa_mouse_fake_event_def
      on_mouse_inv(1) [OF mouse_operations(6)])

definition kbc_init :: "KBDState \<Rightarrow> bool" where
  "kbc_init s \<longleftrightarrow> (\<exists>m. s \<in> {i8042_mm_init m, i8042_setup_a20_line (i8042_mm_init m)})"

interpretation kbc: device kbc_init "\<lambda>s t. \<exists>e. t = kbc_do e s" kbc_inv
proof
  show "kbc_inv s" if "kbc_init s" for s
  proof -
    have "kbd_bytes ps2_kbd_init = []" "mouse_bytes ps2_mouse_init = []"
      by (simp_all add: ps2_kbd_init_def ps2_mouse_init_def ps2_zero_def ps2_bytes_def ring_def)
    then have "kbc_inv i8042_initfn"
      using kbd.init_inv [OF refl] mouse.init_inv [OF refl] by (simp add: kbc_inv_def kbc_settled_def i8042_initfn_def)
    then show ?thesis using that
      by (auto simp: kbc_init_def i8042_mm_init_def i8042_setup_a20_line_def kbc_inv_update)
  qed
qed (auto intro: kbc_do_inv)

abbreviation kbc_reachable :: "KBDState \<Rightarrow> bool" where
  "kbc_reachable \<equiv> reach kbc_init (\<lambda>s t. \<exists>e. t = kbc_do e s)"

text \<open>C14: In every reachable state of the keyboard controller its status says whether keyboard or
  mouse data is waiting, and the two interrupt lines are up exactly when the device whose data
  comes next may interrupt; the keyboard comes first.\<close>

theorem kbc_irq_reflects_data:
  assumes "kbc_reachable s"
  shows "(kbd_read_status s AND 0x01 \<noteq> 0 \<longleftrightarrow> kbd_bytes (kbd s) \<noteq> [] \<or> mouse_bytes (mouse s) \<noteq> []) \<and>
    (kbd_read_status s AND 0x20 \<noteq> 0 \<longleftrightarrow> kbd_bytes (kbd s) = [] \<and> mouse_bytes (mouse s) \<noteq> []) \<and>
    (line_level (irq_kbd s) \<longleftrightarrow> kbd_bytes (kbd s) \<noteq> [] \<and> kbc_mode s AND 0x01 \<noteq> 0 \<and> kbc_mode s AND 0x10 = 0) \<and>
    (line_level (irq_mouse s) \<longleftrightarrow> kbd_bytes (kbd s) = [] \<and> mouse_bytes (mouse s) \<noteq> [] \<and> kbc_mode s AND 0x02 \<noteq> 0)"
  using kbc.reachable_inv [OF assms]
  by (auto simp: kbc_inv_def kbc_settled_def kbd_read_status_def u8_flags)

section \<open>Reading the data port\<close>

lemma read_kbd_byte:
  assumes "kbc_inv s" "kbd_bytes (kbd s) = b # bs"
  shows "fst (kbd_read_data s) = b" "kbd_bytes (kbd (snd (kbd_read_data s))) = bs"
    "mouse (snd (kbd_read_data s)) = mouse s" "kbc_inv (snd (kbd_read_data s))"
    "kbc_mode (snd (kbd_read_data s)) = kbc_mode s"
proof -
  have p: "kbc_pending s \<noteq> 2" and inv: "ps2_inv (kbd_common (kbd s))" using assms by (simp_all add: kbc_inv_def kbd_inv_def)
  have r: "fst (ps2_read_data (kbd_common (kbd s))) = b" "ps2_bytes (snd (ps2_read_data (kbd_common (kbd s)))) = bs"
    using ps2_read_first [OF inv] assms(2) by simp_all
  note k = on_kbd_inv [OF kbd_operations(2) assms(1)]
  show "fst (kbd_read_data s) = b" "kbd_bytes (kbd (snd (kbd_read_data s))) = bs" "mouse (snd (kbd_read_data s)) = mouse s"
    "kbc_inv (snd (kbd_read_data s))" "kbc_mode (snd (kbd_read_data s)) = kbc_mode s"
    using p r k by (simp_all add: kbd_read_data_def)
qed

lemma read_mouse_byte:
  assumes "kbc_inv s" "kbd_bytes (kbd s) = []" "mouse_bytes (mouse s) = b # bs"
  shows "fst (kbd_read_data s) = b" "mouse_bytes (mouse (snd (kbd_read_data s))) = bs"
    "kbd (snd (kbd_read_data s)) = kbd s" "kbc_inv (snd (kbd_read_data s))"
    "kbc_mode (snd (kbd_read_data s)) = kbc_mode s"
proof -
  have p: "kbc_pending s = 2" and inv: "ps2_inv (mouse_common (mouse s))" using assms by (simp_all add: kbc_inv_def mouse_inv_def)
  have r: "fst (ps2_read_data (mouse_common (mouse s))) = b" "ps2_bytes (snd (ps2_read_data (mouse_common (mouse s)))) = bs"
    using ps2_read_first [OF inv] assms(3) by simp_all
  note m = on_mouse_inv [OF mouse_operations(2) assms(1)]
  show "fst (kbd_read_data s) = b" "mouse_bytes (mouse (snd (kbd_read_data s))) = bs" "kbd (snd (kbd_read_data s)) = kbd s"
    "kbc_inv (snd (kbd_read_data s))" "kbc_mode (snd (kbd_read_data s)) = kbc_mode s"
    using p r m by (simp_all add: kbd_read_data_def)
qed

fun read_many :: "nat \<Rightarrow> KBDState \<Rightarrow> u8 list \<times> KBDState" where
  "read_many 0 s = ([], s)"
| "read_many (Suc n) s = (let (b, s) = kbd_read_data s; (bs, s) = read_many n s in (b # bs, s))"

lemma read_many_bytes:
  assumes "kbc_inv s" "kbd_bytes (kbd s) @ mouse_bytes (mouse s) = bs"
  shows "fst (read_many (length bs) s) = bs \<and> kbc_inv (snd (read_many (length bs) s)) \<and>
    kbc_pending (snd (read_many (length bs) s)) = 0"
  using assms
proof (induction bs arbitrary: s)
  case Nil
  then show ?case by (simp add: kbc_inv_def)
next
  case (Cons b bs)
  obtain x t where t: "kbd_read_data s = (x, t)" by fastforce
  have "x = b \<and> kbc_inv t \<and> kbd_bytes (kbd t) @ mouse_bytes (mouse t) = bs"
  proof (cases "kbd_bytes (kbd s)")
    case Nil
    then show ?thesis using read_mouse_byte [OF Cons.prems(1) Nil] Cons.prems(2) t by simp
  next
    case (Cons c cs)
    then show ?thesis using read_kbd_byte [OF \<open>kbc_inv s\<close> Cons] Cons.prems(2) t by simp
  qed
  with Cons.IH [of t] t show ?case by (auto simp: Let_def split_beta)
qed

text \<open>C31: Reading the data port as often as bytes are waiting gives the keyboard's bytes in order
  and then the mouse's, and leaves the status clear and both lines down.\<close>

theorem kbc_drains_in_order:
  assumes "kbc_reachable s"
  defines "n \<equiv> length (kbd_bytes (kbd s)) + length (mouse_bytes (mouse s))"
  shows "fst (read_many n s) = kbd_bytes (kbd s) @ mouse_bytes (mouse s) \<and>
    kbd_read_status (snd (read_many n s)) AND 0x01 = 0 \<and>
    \<not> line_level (irq_kbd (snd (read_many n s))) \<and> \<not> line_level (irq_mouse (snd (read_many n s)))"
  using read_many_bytes [OF kbc.reachable_inv [OF assms(1)] refl] unfolding n_def
  by (auto simp: kbc_inv_def kbc_settled_def kbd_read_status_def u8_flags)

text \<open>The interrupt controllers see edges.\<close>

fun edges :: "bool list \<Rightarrow> nat" where
  "edges [] = 0"
| "edges (b # l) = (if b \<and> \<not> line_level l then Suc (edges l) else edges l)"

lemma update_irq_lines:
  "irq_kbd (kbd_update_irq s) =
    (kbc_pending s \<noteq> 0 \<and> kbc_pending s \<noteq> 2 \<and> bit (kbc_mode s) 0 \<and> \<not> bit (kbc_mode s) 4) # irq_kbd s"
  "irq_mouse (kbd_update_irq s) = (kbc_pending s = 2 \<and> bit (kbc_mode s) 1) # irq_mouse s"
  by (simp_all add: kbd_update_irq_def Let_def u8_flags)

lemma read_calls:
  assumes "ps2_bytes s \<noteq> []"
  shows "update_irq (snd (ps2_read_data s)) = [ps2_bytes (snd (ps2_read_data s)) \<noteq> [], False] @ update_irq s"
proof -
  have "count (queue s) \<noteq> 0" using assms length_ps2_bytes [of s] by (metis length_0_conv)
  then have "update_irq (snd (ps2_read_data s)) = [count (queue (snd (ps2_read_data s))) \<noteq> 0, False] @ update_irq s"
    by (auto simp: ps2_read_data_def Let_def)
  moreover have "count (queue (snd (ps2_read_data s))) \<noteq> 0 \<longleftrightarrow> ps2_bytes (snd (ps2_read_data s)) \<noteq> []"
    using length_ps2_bytes [of "snd (ps2_read_data s)"] by (metis length_0_conv)
  ultimately show ?thesis by simp
qed

text \<open>C30: Reading a byte from the keyboard controller while more is waiting produces a new rising
  edge on the line of the device whose byte is next, so an edge-triggered interrupt controller
  sees every byte.\<close>

theorem kbc_every_byte_interrupts:
  assumes "kbc_reachable s"
  defines "t \<equiv> snd (kbd_read_data s)"
  shows "(kbd_bytes (kbd t) \<noteq> [] \<and> kbc_mode s AND 0x01 \<noteq> 0 \<and> kbc_mode s AND 0x10 = 0 \<longrightarrow>
      edges (irq_kbd s) < edges (irq_kbd t)) \<and>
    (kbd_bytes (kbd t) = [] \<and> mouse_bytes (mouse t) \<noteq> [] \<and> kbc_mode s AND 0x02 \<noteq> 0 \<longrightarrow>
      edges (irq_mouse s) < edges (irq_mouse t))"
proof -
  have inv: "kbc_inv s" by (rule kbc.reachable_inv [OF assms(1)])
  then have p: "kbc_pending s = pending_of (kbd_bytes (kbd s) \<noteq> []) (mouse_bytes (mouse s) \<noteq> [])" by (simp add: kbc_inv_def)
  show ?thesis
  proof (cases "kbd_bytes (kbd s)")
    case (Cons b bs)
    let ?k = "(kbd s)\<lparr>kbd_common := snd (ps2_read_data (kbd_common (kbd s)))\<rparr>"
    have bs: "kbd_bytes ?k = bs" and m: "mouse t = mouse s"
      using read_kbd_byte(2,3) [OF inv Cons] on_kbd_inv(2) [OF kbd_operations(2) inv] p Cons
      by (simp_all add: kbd_read_data_def t_def)
    have "t = kbd_update_kbd_irq (bs \<noteq> []) (kbd_update_kbd_irq False (s\<lparr>kbd := ?k\<rparr>))"
      using read_calls [of "kbd_common (kbd s)"] Cons bs p
      by (simp add: t_def kbd_read_data_def on_kbd_def Let_def new_calls_def)
    moreover have "\<not> line_level (irq_mouse s)" using inv p Cons by (simp add: kbc_inv_def kbc_settled_def)
    ultimately show ?thesis
      using p Cons bs m by (auto simp: kbd_update_kbd_irq_def update_irq_lines u8_flags)
  next
    case Nil
    show ?thesis
    proof (cases "mouse_bytes (mouse s)")
      case m: (Cons b bs)
      let ?m = "(mouse s)\<lparr>mouse_common := snd (ps2_read_data (mouse_common (mouse s)))\<rparr>"
      have bs: "mouse_bytes ?m = bs" and k: "kbd t = kbd s"
        using read_mouse_byte(2,3) [OF inv Nil m] on_mouse_inv(2) [OF mouse_operations(2) inv] p Nil m
        by (simp_all add: kbd_read_data_def t_def)
      have "t = kbd_update_aux_irq (bs \<noteq> []) (kbd_update_aux_irq False (s\<lparr>mouse := ?m\<rparr>))"
        using read_calls [of "mouse_common (mouse s)"] m bs p Nil
        by (simp add: t_def kbd_read_data_def on_mouse_def Let_def new_calls_def)
      then show ?thesis
        using p Nil m bs k by (auto simp: kbd_update_aux_irq_def update_irq_lines u8_flags)
    next
      case none: Nil
      have "count (queue (kbd_common (kbd s))) = 0" using Nil length_ps2_bytes [of "kbd_common (kbd s)"] by simp
      then have "t = s" using p Nil none by (simp add: t_def kbd_read_data_def on_kbd_def new_calls_def ps2_read_data_def Let_def)
      then show ?thesis using Nil none by simp
    qed
  qed
qed

section \<open>Registers of the controller\<close>

lemma queued_byte:
  assumes "kbc_inv s" "kbd_bytes (kbd s) = []"
  shows "kbd_bytes (kbd (i8042_queue b False s)) = [b]" "kbc_inv (i8042_queue b False s)"
proof -
  have "ps2_inv (kbd_common (kbd s))" using assms(1) by (simp add: kbc_inv_def kbd_inv_def)
  with ps2q.put_room [of "kbd_common (kbd s)"] assms(2)
  have "ps2_bytes (ps2_queue b (kbd_common (kbd s))) = [b]" by simp
  then show "kbd_bytes (kbd (i8042_queue b False s)) = [b]"
    using on_kbd_inv(2) [OF kbd_operations(1) assms(1)] by (simp add: i8042_queue_def)
qed (rule i8042_queue_inv [OF assms(1)])

lemma queued_aux_byte:
  assumes "kbc_inv s" "kbd_bytes (kbd s) = []" "mouse_bytes (mouse s) = []"
  shows "mouse_bytes (mouse (i8042_queue b True s)) = [b]" "kbd_bytes (kbd (i8042_queue b True s)) = []"
    "kbc_inv (i8042_queue b True s)"
proof -
  have "ps2_inv (mouse_common (mouse s))" using assms(1) by (simp add: kbc_inv_def mouse_inv_def)
  with ps2q.put_room [of "mouse_common (mouse s)"] assms(3)
  have "ps2_bytes (ps2_queue b (mouse_common (mouse s))) = [b]" by simp
  then show "mouse_bytes (mouse (i8042_queue b True s)) = [b]" "kbd_bytes (kbd (i8042_queue b True s)) = []"
    using on_mouse_inv(2,3) [OF mouse_operations(1) assms(1)] assms(2) by (simp_all add: i8042_queue_def)
qed (rule i8042_queue_inv [OF assms(1)])

text \<open>A command that announces a data byte, and the byte.\<close>

definition kbc_command :: "u8 \<Rightarrow> u8 \<Rightarrow> KBDState \<Rightarrow> KBDState" where
  "kbc_command c v s = kbd_write_data v (kbd_write_command c s)"

lemma kbc_command_cases:
  "kbc_command 0x60 v s = (kbd_update_irq (on_kbd (ps2_keyboard_set_translation (v AND 0x40 \<noteq> 0)) (s\<lparr>kbc_write_cmd := 0x60, kbc_mode := v\<rparr>)))\<lparr>kbc_write_cmd := 0\<rparr>"
  "kbc_command 0xD1 v s = (outport_write v (s\<lparr>kbc_write_cmd := 0xD1\<rparr>))\<lparr>kbc_write_cmd := 0\<rparr>"
  "kbc_command 0xD2 v s = (i8042_queue v False (s\<lparr>kbc_write_cmd := 0xD2\<rparr>))\<lparr>kbc_write_cmd := 0\<rparr>"
  "kbc_command 0xD3 v s = (i8042_queue v True (s\<lparr>kbc_write_cmd := 0xD3\<rparr>))\<lparr>kbc_write_cmd := 0\<rparr>"
  by (simp_all add: kbc_command_def kbd_write_command_def kbd_write_data_def Let_def)

lemma kbc_command_inv: "kbc_inv s \<Longrightarrow> kbc_inv (kbc_command c v s)"
  by (simp add: kbc_command_def kbd_write_data_inv kbd_write_command_inv)

theorem kbc_register_roundtrips:
  assumes "kbc_reachable s" "kbd_bytes (kbd s) = []" "mouse_bytes (mouse s) = []"
  shows "fst (kbd_read_data (kbd_write_command 0x20 (kbc_command 0x60 v s))) = v \<and>
    fst (kbd_read_data (kbd_write_command 0xD0 (kbc_command 0xD1 v s))) = v \<and>
    fst (kbd_read_data (kbc_command 0xD2 v s)) = v \<and> fst (kbd_read_data (kbc_command 0xD3 v s)) = v"
proof (intro conjI)
  have inv: "kbc_inv s" by (rule kbc.reachable_inv [OF assms(1)])
  have queued: "fst (kbd_read_data (i8042_queue b False t)) = b" if "kbc_inv t" "kbd_bytes (kbd t) = []" for b t
    using read_kbd_byte(1) [OF queued_byte(2,1) [OF that]] .
  have mode: "kbd_bytes (kbd (kbc_command 0x60 v s)) = []" "kbc_mode (kbc_command 0x60 v s) = v"
    using assms(2)
    by (simp_all add: kbc_command_cases on_kbd_def new_calls_def ps2_keyboard_set_translation_def Let_def)
  show "fst (kbd_read_data (kbd_write_command 0x20 (kbc_command 0x60 v s))) = v"
    using queued [OF kbc_command_inv [OF inv] mode(1)] mode(2) by (simp add: kbd_write_command_def)
  have out: "kbd (kbc_command 0xD1 v s) = kbd s" "outport (kbc_command 0xD1 v s) = v"
    by (simp_all add: kbc_command_cases outport_write_def set_a20_def qemu_system_reset_request_def Let_def split: option.split)
  show "fst (kbd_read_data (kbd_write_command 0xD0 (kbc_command 0xD1 v s))) = v"
    using queued [OF kbc_command_inv [OF inv, of "0xD1" v]] out assms(2) by (simp add: kbd_write_command_def)
  have frame: "fst (kbd_read_data (t\<lparr>kbc_write_cmd := 0\<rparr>)) = fst (kbd_read_data t)" for t
    by (simp add: kbd_read_data_def)
  show "fst (kbd_read_data (kbc_command 0xD2 v s)) = v"
    unfolding kbc_command_cases frame using inv assms(2) by (intro queued) (simp_all add: kbc_inv_update)
  have "kbc_inv (s\<lparr>kbc_write_cmd := 0xD3\<rparr>)" "kbd_bytes (kbd (s\<lparr>kbc_write_cmd := 0xD3\<rparr>)) = []"
    "mouse_bytes (mouse (s\<lparr>kbc_write_cmd := 0xD3\<rparr>)) = []" using inv assms(2,3) by (simp_all add: kbc_inv_update)
  from read_mouse_byte(1) [OF queued_aux_byte(3,2,1) [OF this]] show "fst (kbd_read_data (kbc_command 0xD3 v s)) = v"
    unfolding kbc_command_cases frame .
qed

section \<open>Witnesses\<close>

definition kbc_boot :: KBDState where
  "kbc_boot = i8042_system_reset (i8042_setup_a20_line (i8042_mm_init 0))"

definition kbc_busy :: KBDState where
  "kbc_busy = fold kbc_do [Kbc_write_command 0xD3, Kbc_write_data 0x08, Kbc_key 0x1e, Kbc_key 0x9e] kbc_boot"

lemma kbc_boot_reachable: "kbc_reachable kbc_boot"
proof -
  have "kbc_reachable (i8042_setup_a20_line (i8042_mm_init 0))" by (rule reach_init) (unfold kbc_init_def, blast)
  then show ?thesis unfolding kbc_boot_def by (rule reach_step) (rule exI [of _ Kbc_reset], simp)
qed

lemma kbc_events_reachable: "kbc_reachable s \<Longrightarrow> kbc_reachable (fold kbc_do es s)"
proof (induction es arbitrary: s)
  case (Cons e es)
  from Cons.prems have "kbc_reachable (kbc_do e s)" by (rule reach_step) blast
  then show ?case using Cons.IH by simp
qed simp

lemma kbc_busy_reachable: "kbc_reachable kbc_busy"
  unfolding kbc_busy_def using kbc_boot_reachable by (rule kbc_events_reachable)

lemma kbc_busy_bytes:
  "kbd_bytes (kbd kbc_busy) = [0x1e, 0x9e]" "mouse_bytes (mouse kbc_busy) = [0x08]"
  "kbc_mode kbc_busy = 3"
  by code_simp+

lemma kbc_boot_bytes: "kbd_bytes (kbd kbc_boot) = []" "mouse_bytes (mouse kbc_boot) = []"
  by code_simp+

theorem kbc_irq_reflects_data_witness:
  "kbc_reachable kbc_busy \<and> line_level (irq_kbd kbc_busy) \<and> \<not> line_level (irq_mouse kbc_busy) \<and>
   kbd_read_status kbc_busy AND 0x01 \<noteq> 0"
  using kbc_irq_reflects_data [OF kbc_busy_reachable] kbc_busy_reachable by (simp add: kbc_busy_bytes)

theorem kbc_drains_in_order_witness:
  "kbc_reachable kbc_busy \<and> fst (read_many 3 kbc_busy) = [0x1e, 0x9e, 0x08] \<and>
   \<not> line_level (irq_mouse (snd (read_many 3 kbc_busy)))"
  using kbc_drains_in_order [OF kbc_busy_reachable] kbc_busy_reachable by (simp add: kbc_busy_bytes eval_nat_numeral)

theorem kbc_every_byte_interrupts_witness:
  "kbc_reachable kbc_busy \<and> edges (irq_kbd kbc_busy) < edges (irq_kbd (snd (kbd_read_data kbc_busy)))"
proof -
  have "kbd_bytes (kbd (snd (kbd_read_data kbc_busy))) = [0x9e]"
    using read_kbd_byte(2) [OF kbc.reachable_inv [OF kbc_busy_reachable] kbc_busy_bytes(1)] .
  then show ?thesis
    using kbc_every_byte_interrupts [OF kbc_busy_reachable] kbc_busy_reachable by (simp add: kbc_busy_bytes)
qed

theorem kbc_register_roundtrips_witness:
  "kbc_reachable kbc_boot \<and> fst (kbd_read_data (kbd_write_command 0x20 (kbc_command 0x60 0x47 kbc_boot))) = 0x47"
  using kbc_register_roundtrips [OF kbc_boot_reachable kbc_boot_bytes, of "0x47"] kbc_boot_reachable by blast

end
