(* ===== verification/Key_Path.thy ===== *)
theory Key_Path
  imports Pckbd I8259
begin

text \<open>
  The keyboard controller wired to the interrupt controllers: lines 1 and 12 of the ISA bus, as
  \<open>i8042_initfn\<close> in \<open>qemu/hw/pckbd.c\<close> connects them. A key that is pressed reaches the processor as the
  vector programmed for line 1, and the data port then gives its code.
\<close>

unbundle bit_operations_syntax

text \<open>Every call of \<open>kbd_update_irq\<close> drives the two lines in turn; \<open>forward\<close> passes on what was driven from
  state \<open>s\<close> to state \<open>t\<close> of the controller.\<close>

definition forward :: "KBDState \<Rightarrow> KBDState \<Rightarrow> PicState2 \<Rightarrow> PicState2" where
  "forward s t p =
    fold (\<lambda>(a, b) p. i8259_set_irq (i8259_set_irq p 1 a) 12 b)
      (zip (new_calls (irq_kbd s) (irq_kbd t)) (new_calls (irq_mouse s) (irq_mouse t))) p"

lemma lower_idle:
  assumes "pic_idle p"
  shows "pic_set_irq1 p n False = p"
  using assms by (simp add: pic_set_irq1_def Let_def pic_idle_def)

lemma lower_idle_slave:
  assumes "pic_idle (pics p 1)"
  shows "pics (i8259_set_irq p 12 False) = pics p"
    "pic_get_irq 0 (pics p 0) = Some n \<Longrightarrow> parent_irq (i8259_set_irq p 12 False) = True # parent_irq p"
proof -
  have s: "set_pic p (Suc 0) (pics p (Suc 0)) = p" by (cases p) (simp add: set_pic_def)
  have n: "pic_get_irq 1 (pics p 1) = None" using assms by (simp add: pic_idle_def irr_zero_None)
  show "pics (i8259_set_irq p 12 False) = pics p"
    "pic_get_irq 0 (pics p 0) = Some n \<Longrightarrow> parent_irq (i8259_set_irq p 12 False) = True # parent_irq p"
    using n lower_idle [OF assms] s
    by (simp_all add: i8259_set_irq_def pic_update_irq_def qemu_irq_raise_def Let_def split: option.split)
qed

lemma read_irq_cong: "pics p = pics q \<Longrightarrow> snd (pic_read_irq p) = snd (pic_read_irq q)"
  by (simp add: pic_read_irq_def Let_def set_pic_def split: option.split)

lemma key_byte:
  fixes c :: int
  assumes "kbc_inv s" "kbd_bytes (kbd s) = []" "translate (kbd s) \<or> scancode_set (kbd s) \<noteq> 2"
    and "bit (kbc_mode s) 0" "\<not> bit (kbc_mode s) 4"
  defines "t \<equiv> kbc_do (Kbc_key c) s"
  shows "kbd_bytes (kbd t) = [word_of_int c]" "irq_kbd t = True # irq_kbd s" "irq_mouse t = False # irq_mouse s"
proof -
  have inv: "ps2_inv (kbd_common (kbd s))" using assms(1) by (simp add: kbc_inv_def kbd_inv_def)
  then have empty: "count (queue (kbd_common (kbd s))) = 0"
    using assms(2) length_ps2_bytes [of "kbd_common (kbd s)"] by simp
  have k: "ps2_put_keycode c (kbd s) = (kbd s)\<lparr>kbd_common := ps2_queue (word_of_int c) (kbd_common (kbd s))\<rparr>"
    using assms(3) by (auto simp: ps2_put_keycode_def kbd_queue_def)
  have calls: "update_irq (ps2_queue b (kbd_common (kbd s))) = True # kbd_calls (kbd s)" for b
    using empty by (simp add: ps2_queue_def Let_def)
  have t: "t = kbd_update_kbd_irq True (s\<lparr>kbd := ps2_put_keycode c (kbd s)\<rparr>)"
    using k calls by (simp add: t_def on_kbd_def Let_def new_calls_def)
  have "kbc_pending s = pending_of False (mouse_bytes (mouse s) \<noteq> [])" using assms(1,2) by (simp add: kbc_inv_def)
  then show "irq_kbd t = True # irq_kbd s" "irq_mouse t = False # irq_mouse s"
    using assms(4,5) by (simp_all add: t kbd_update_kbd_irq_def update_irq_lines)
  show "kbd_bytes (kbd t) = [word_of_int c]"
    using k ps2q.put_room [OF inv, of "word_of_int c"] assms(2) by (simp add: t kbd_update_kbd_irq_def)
qed

text \<open>C3: Across the keyboard controller and the interrupt controllers, both idle with line 1
  unmasked, and with the keyboard interrupt enabled and the keyboard not disabled: a key pressed
  while nothing is queued raises the processor's line, the acknowledge returns the vector of
  line 1, and the data port then gives the key code (translated, or in scan code set 1 or 3) and
  releases the line.\<close>

theorem key_press_reaches_processor:
  fixes c :: int
  assumes "kbc_reachable s" "kbd_bytes (kbd s) = []" "translate (kbd s) \<or> scancode_set (kbd s) \<noteq> 2"
    and "kbc_mode s AND 0x01 \<noteq> 0" "kbc_mode s AND 0x10 = 0"
    and "pic_idle (pics p 0)" "pic_idle (pics p 1)" "\<not> bit (imr (pics p 0)) 1"
  defines "t \<equiv> kbc_do (Kbc_key c) s"
  shows "line_level (parent_irq (forward s t p)) \<and>
    snd (pic_read_irq (forward s t p)) = unat (irq_base (pics p 0)) + 1 \<and>
    fst (kbd_read_data t) = word_of_int c \<and> \<not> line_level (irq_kbd (snd (kbd_read_data t)))"
proof -
  have inv: "kbc_inv s" by (rule kbc.reachable_inv [OF assms(1)])
  have t: "kbd_bytes (kbd t) = [word_of_int c]" "irq_kbd t = True # irq_kbd s" "irq_mouse t = False # irq_mouse s"
    unfolding t_def using key_byte [OF inv assms(2,3)] assms(4,5) by (simp_all add: u8_flags)
  have t_inv: "kbc_inv t" unfolding t_def by (rule kbc_do_inv [OF inv])
  let ?q = "i8259_set_irq p 1 True"
  have f: "forward s t p = i8259_set_irq ?q 12 False" by (simp add: forward_def t(2,3) new_calls_def)
  have q: "pics ?q 1 = pics p 1" "pic_get_irq 0 (pics ?q 0) = Some 1"
    using master_request [OF assms(6,7) _ assms(8)] by simp_all
  obtain u v where uv: "pic_read_irq ?q = (u, v)" by fastforce
  then have v: "v = unat (irq_base (pics p 0)) + 1" using master_delivery [OF assms(6,7) _ _ assms(8) uv] by simp
  have s: "pics (forward s t p) = pics ?q" "parent_irq (forward s t p) = True # parent_irq ?q"
    unfolding f using lower_idle_slave [of ?q] q assms(7) by simp_all
  note r = read_kbd_byte [OF t_inv t(1)]
  have "\<not> line_level (irq_kbd (snd (kbd_read_data t)))"
    using r(2,4) by (simp add: kbc_inv_def kbc_settled_def)
  then show ?thesis using s read_irq_cong [OF s(1)] uv v r(1) by simp
qed

theorem key_press_reaches_processor_witness:
  "kbc_reachable kbc_boot \<and>
   snd (pic_read_irq (forward kbc_boot (kbc_do (Kbc_key 0x1e) kbc_boot) i8259_init)) = 1 \<and>
   fst (kbd_read_data (kbc_do (Kbc_key 0x1e) kbc_boot)) = 0x1e"
proof -
  have "scancode_set (kbd kbc_boot) \<noteq> 2" "kbc_mode kbc_boot AND 0x01 \<noteq> 0" "kbc_mode kbc_boot AND 0x10 = 0" by code_simp+
  moreover have "pic_idle (pics i8259_init 0)" "pic_idle (pics i8259_init 1)" "\<not> bit (imr (pics i8259_init 0)) 1"
    "irq_base (pics i8259_init 0) = 0"
    by (simp_all add: i8259_init_def pic_zero_def pic_idle_def)
  ultimately show ?thesis
    using key_press_reaches_processor [OF kbc_boot_reachable kbc_boot_bytes(1), of i8259_init "0x1e"] kbc_boot_reachable
    by simp
qed

end
