(* ===== verification/Dma.thy ===== *)
theory Dma
  imports Machine Memory
begin

text \<open>
  The two 8237 DMA controllers, \<open>qemu/hw/dma.c\<close>.

  \<^item> \<open>dma_regs\<close> and \<open>dma_cont\<close> are the structs of the same names, without the fields \<open>dack\<close> and \<open>eop\<close> that
    no function uses. \<open>dma_sys\<close> adds what the file shares with its surroundings: memory, whether the bottom
    half is scheduled, how often \<open>cpu_request_exit\<close> was pulsed, and the state of the devices.
  \<^item> The devices' transfer handlers are a parameter: a handler gets channel, position and length, may change
    the whole system, and returns the new position. A channel without a device has the phony handler.
  \<^item> \<open>int\<close> fields are integers; ports and registers are a byte wide. Memory is the flat memory of \<open>Memory\<close>.
\<close>

unbundle bit_operations_syntax

section \<open>State\<close>

record dma_regs =
  now_addr :: int
  now_count :: int
  base_addr :: u16
  base_count :: u16
  dma_mode :: u8
  page :: u8
  pageh :: u8
  registered :: bool

record dma_cont =
  dma_status :: u8
  dma_command :: u8
  dma_mask :: u8
  flip_flop :: bool
  dshift :: nat
  regs :: "dma_regs list"

record 'w dma_sys =
  conts :: "nat \<Rightarrow> dma_cont"
  ram :: mem
  bh_scheduled :: bool
  exit_pulses :: nat
  devices :: 'w

type_synonym 'w dma_handlers = "nat \<Rightarrow> int \<Rightarrow> int \<Rightarrow> 'w dma_sys \<Rightarrow> int \<times> 'w dma_sys"

definition set_cont :: "nat \<Rightarrow> dma_cont \<Rightarrow> 'w dma_sys \<Rightarrow> 'w dma_sys" where
  "set_cont i d s = s\<lparr>conts := (conts s)(i := d)\<rparr>"

definition set_reg :: "nat \<Rightarrow> dma_regs \<Rightarrow> dma_cont \<Rightarrow> dma_cont" where
  "set_reg i r d = d\<lparr>regs := (regs d)[i := r]\<rparr>"

section \<open>Ports\<close>

definition channels :: "int list" where
  "channels = [- 1, 2, 3, 1, - 1, - 1, - 1, 0]"

definition port_channel :: "nat \<Rightarrow> int" where
  "port_channel nport = channels ! (nport AND 7)"

definition write_page :: "nat \<Rightarrow> u8 \<Rightarrow> dma_cont \<Rightarrow> dma_cont" where
  "write_page nport v d =
    (let ichan = port_channel nport
     in if ichan = - 1 then d else set_reg (nat ichan) ((regs d ! nat ichan)\<lparr>page := v\<rparr>) d)"

definition write_pageh :: "nat \<Rightarrow> u8 \<Rightarrow> dma_cont \<Rightarrow> dma_cont" where
  "write_pageh nport v d =
    (let ichan = port_channel nport
     in if ichan = - 1 then d else set_reg (nat ichan) ((regs d ! nat ichan)\<lparr>pageh := v\<rparr>) d)"

definition read_page :: "nat \<Rightarrow> dma_cont \<Rightarrow> u8" where
  "read_page nport d = (let ichan = port_channel nport in if ichan = - 1 then 0 else page (regs d ! nat ichan))"

definition read_pageh :: "nat \<Rightarrow> dma_cont \<Rightarrow> u8" where
  "read_pageh nport d = (let ichan = port_channel nport in if ichan = - 1 then 0 else pageh (regs d ! nat ichan))"

definition init_chan :: "nat \<Rightarrow> dma_cont \<Rightarrow> dma_cont" where
  "init_chan ichan d =
    (let r = regs d ! ichan in set_reg ichan (r\<lparr>now_addr := push_bit (dshift d) (uint (base_addr r)), now_count := 0\<rparr>) d)"

definition getff :: "dma_cont \<Rightarrow> bool \<times> dma_cont" where
  "getff d = (flip_flop d, d\<lparr>flip_flop := \<not> flip_flop d\<rparr>)"

definition read_chan :: "nat \<Rightarrow> dma_cont \<Rightarrow> u8 \<times> dma_cont" where
  "read_chan nport d =
    (let iport = drop_bit (dshift d) nport AND 0x0f;
         ichan = drop_bit 1 iport; nreg = iport AND 1;
         r = regs d ! ichan;
         dir = (if drop_bit 5 (dma_mode r) AND 1 \<noteq> 0 then - 1 else 1);
         (ff, d) = getff d;
         v = (if nreg \<noteq> 0 then push_bit (dshift d) (uint (base_count r)) - now_count r
              else now_addr r + now_count r * dir)
     in (word_of_int (drop_bit (dshift d + (if ff then 8 else 0)) v AND 0xff), d))"

definition write_chan :: "nat \<Rightarrow> u8 \<Rightarrow> dma_cont \<Rightarrow> dma_cont" where
  "write_chan nport v d =
    (let iport = drop_bit (dshift d) nport AND 0x0f;
         ichan = drop_bit 1 iport; nreg = iport AND 1;
         r = regs d ! ichan;
         (ff, d) = getff d
     in if ff
        then
          (let low = (\<lambda>b :: u16. b AND 0xff OR (push_bit 8 (ucast v) AND 0xff00));
               r = (if nreg \<noteq> 0 then r\<lparr>base_count := low (base_count r)\<rparr> else r\<lparr>base_addr := low (base_addr r)\<rparr>)
           in init_chan ichan (set_reg ichan r d))
        else
          (let high = (\<lambda>b :: u16. b AND 0xff00 OR (ucast v AND 0xff));
               r = (if nreg \<noteq> 0 then r\<lparr>base_count := high (base_count r)\<rparr> else r\<lparr>base_addr := high (base_addr r)\<rparr>)
           in set_reg ichan r d))"

definition CMD_NOT_SUPPORTED :: u8 where
  "CMD_NOT_SUPPORTED = 0x01 OR 0x02 OR 0x08 OR 0x10 OR 0x20 OR 0x40 OR 0x80"

section \<open>Transfers\<close>

definition dma_phony_handler :: "nat \<Rightarrow> int \<Rightarrow> int \<Rightarrow> 'w dma_sys \<Rightarrow> int \<times> 'w dma_sys" where
  "dma_phony_handler nchan dma_pos dma_len s = (dma_pos, s)"

definition channel_run :: "'w dma_handlers \<Rightarrow> nat \<Rightarrow> nat \<Rightarrow> 'w dma_sys \<Rightarrow> 'w dma_sys" where
  "channel_run H ncont ichan s =
    (let r = regs (conts s ncont) ! ichan;
         nchan = ichan + push_bit 2 ncont;
         (n, s) = (if registered r then H nchan else dma_phony_handler nchan)
                    (now_count r) (push_bit ncont (uint (base_count r) + 1)) s;
         d = conts s ncont
     in set_cont ncont (set_reg ichan ((regs d ! ichan)\<lparr>now_count := n\<rparr>) d) s)"

definition dma_requested :: "'w dma_sys \<Rightarrow> nat \<times> nat \<Rightarrow> bool" where
  "dma_requested s c =
    (case c of (icont, ichan) \<Rightarrow>
       dma_mask (conts s icont) AND bitmask ichan = 0 \<and> dma_status (conts s icont) AND push_bit 4 (bitmask ichan) \<noteq> 0)"

definition dma_channels :: "(nat \<times> nat) list" where
  "dma_channels = [(0, 0), (0, 1), (0, 2), (0, 3), (1, 0), (1, 1), (1, 2), (1, 3)]"

definition DMA_run :: "'w dma_handlers \<Rightarrow> 'w dma_sys \<Rightarrow> 'w dma_sys" where
  "DMA_run H s =
    (let (s, rearm) =
       fold (\<lambda>(icont, ichan) (s, rearm).
           if dma_requested s (icont, ichan) then (channel_run H icont ichan s, True) else (s, rearm))
         dma_channels (s, False)
     in if rearm then s\<lparr>bh_scheduled := True\<rparr> else s)"

definition DMA_run_bh :: "'w dma_handlers \<Rightarrow> 'w dma_sys \<Rightarrow> 'w dma_sys" where
  "DMA_run_bh H s = DMA_run H (s\<lparr>bh_scheduled := False\<rparr>)"

definition write_cont :: "'w dma_handlers \<Rightarrow> nat \<Rightarrow> nat \<Rightarrow> u8 \<Rightarrow> 'w dma_sys \<Rightarrow> 'w dma_sys" where
  "write_cont H c nport v s =
    (let d = conts s c;
         iport = drop_bit (dshift d) nport AND 0x0f
     in if iport = 0x08
        then (if v \<noteq> 0 \<and> v AND CMD_NOT_SUPPORTED \<noteq> 0 then s else set_cont c (d\<lparr>dma_command := v\<rparr>) s)
        else if iport = 0x09
        then
          (let ichan = unat (v AND 3);
               st = (if v AND 4 \<noteq> 0 then dma_status d OR bitmask (ichan + 4) else dma_status d AND NOT (bitmask (ichan + 4)));
               st = st AND NOT (bitmask ichan)
           in DMA_run H (set_cont c (d\<lparr>dma_status := st\<rparr>) s))
        else if iport = 0x0a
        then
          DMA_run H (set_cont c (d\<lparr>dma_mask :=
            (if v AND 4 \<noteq> 0 then dma_mask d OR bitmask (unat (v AND 3)) else dma_mask d AND NOT (bitmask (unat (v AND 3))))\<rparr>) s)
        else if iport = 0x0b
        then (let ichan = unat (v AND 3) in set_cont c (set_reg ichan ((regs d ! ichan)\<lparr>dma_mode := v\<rparr>) d) s)
        else if iport = 0x0c then set_cont c (d\<lparr>flip_flop := False\<rparr>) s
        else if iport = 0x0d
        then set_cont c (d\<lparr>flip_flop := False, dma_mask := NOT 0, dma_status := 0, dma_command := 0\<rparr>) s
        else if iport = 0x0e then DMA_run H (set_cont c (d\<lparr>dma_mask := 0\<rparr>) s)
        else if iport = 0x0f then DMA_run H (set_cont c (d\<lparr>dma_mask := v\<rparr>) s)
        else s)"

definition read_cont :: "nat \<Rightarrow> dma_cont \<Rightarrow> u8 \<times> dma_cont" where
  "read_cont nport d =
    (let iport = drop_bit (dshift d) nport AND 0x0f
     in if iport = 0x08 then (dma_status d, d\<lparr>dma_status := dma_status d AND 0xf0\<rparr>)
        else if iport = 0x0f then (dma_mask d, d) else (0, d))"

section \<open>The interface of the devices\<close>

abbreviation (input) cont_of :: "nat \<Rightarrow> nat" where "cont_of nchan \<equiv> if nchan > 3 then 1 else 0"

definition chan_regs :: "'w dma_sys \<Rightarrow> nat \<Rightarrow> dma_regs" where
  "chan_regs s nchan = regs (conts s (cont_of nchan)) ! (nchan AND 3)"

definition DMA_get_channel_mode :: "nat \<Rightarrow> 'w dma_sys \<Rightarrow> u8" where
  "DMA_get_channel_mode nchan s = dma_mode (chan_regs s nchan)"

definition DMA_hold_DREQ :: "'w dma_handlers \<Rightarrow> nat \<Rightarrow> 'w dma_sys \<Rightarrow> 'w dma_sys" where
  "DMA_hold_DREQ H nchan s =
    (let c = cont_of nchan; d = conts s c
     in DMA_run H (set_cont c (d\<lparr>dma_status := dma_status d OR bitmask ((nchan AND 3) + 4)\<rparr>) s))"

definition DMA_release_DREQ :: "'w dma_handlers \<Rightarrow> nat \<Rightarrow> 'w dma_sys \<Rightarrow> 'w dma_sys" where
  "DMA_release_DREQ H nchan s =
    (let c = cont_of nchan; d = conts s c
     in DMA_run H (set_cont c (d\<lparr>dma_status := dma_status d AND NOT (bitmask ((nchan AND 3) + 4))\<rparr>) s))"

definition DMA_register_channel :: "nat \<Rightarrow> 'w dma_sys \<Rightarrow> 'w dma_sys" where
  "DMA_register_channel nchan s =
    (let c = cont_of nchan; i = nchan AND 3; d = conts s c
     in set_cont c (set_reg i ((regs d ! i)\<lparr>registered := True\<rparr>) d) s)"

definition dma_addr :: "dma_regs \<Rightarrow> int" where
  "dma_addr r = push_bit 24 (uint (pageh r AND 0x7f)) OR push_bit 16 (uint (page r)) OR now_addr r"

text \<open>The loops of the address decrement mode, on the device's buffer.\<close>

definition mirror_loop :: "nat \<Rightarrow> u8 list \<Rightarrow> u8 list" where
  "mirror_loop n p = fold (\<lambda>i p. p[i := p ! (length p - i - 1)]) [0..<n] p"

definition DMA_read_memory :: "nat \<Rightarrow> int \<Rightarrow> nat \<Rightarrow> 'w dma_sys \<Rightarrow> u8 list" where
  "DMA_read_memory nchan pos len s =
    (let r = chan_regs s nchan; addr = dma_addr r
     in if dma_mode r AND 0x20 \<noteq> 0
        then mirror_loop (len div 2) (region (ram s) (nat ((addr - pos - int len) mod 2 ^ 64)) len)
        else region (ram s) (nat ((addr + pos) mod 2 ^ 64)) len)"

definition DMA_write_memory :: "nat \<Rightarrow> u8 list \<Rightarrow> int \<Rightarrow> 'w dma_sys \<Rightarrow> u8 list \<times> 'w dma_sys" where
  "DMA_write_memory nchan buf pos s =
    (let r = chan_regs s nchan; addr = dma_addr r; len = length buf
     in if dma_mode r AND 0x20 \<noteq> 0
        then (mirror_loop len buf, s\<lparr>ram := mem_write (ram s) (nat ((addr - pos - int len) mod 2 ^ 64)) buf\<rparr>)
        else (buf, s\<lparr>ram := mem_write (ram s) (nat ((addr + pos) mod 2 ^ 64)) buf\<rparr>))"

definition DMA_schedule :: "nat \<Rightarrow> 'w dma_sys \<Rightarrow> 'w dma_sys" where
  "DMA_schedule nchan s = s\<lparr>exit_pulses := exit_pulses s + 1\<rparr>"

definition dma_reset :: "'w dma_handlers \<Rightarrow> nat \<Rightarrow> 'w dma_sys \<Rightarrow> 'w dma_sys" where
  "dma_reset H c s = write_cont H c (push_bit (dshift (conts s c)) 0x0d) 0 s"

definition dma_post_load :: "'w dma_handlers \<Rightarrow> 'w dma_sys \<Rightarrow> 'w dma_sys" where
  "dma_post_load H s = DMA_run H s"

definition dma_zero_regs :: dma_regs where
  "dma_zero_regs = \<lparr>now_addr = 0, now_count = 0, base_addr = 0, base_count = 0, dma_mode = 0, page = 0, pageh = 0, registered = False\<rparr>"

definition dma_init2 :: "'w dma_handlers \<Rightarrow> nat \<Rightarrow> nat \<Rightarrow> 'w dma_sys \<Rightarrow> 'w dma_sys" where
  "dma_init2 H c n s =
    (let s = dma_reset H c (set_cont c ((conts s c)\<lparr>dshift := n\<rparr>) s); d = conts s c
     in set_cont c (d\<lparr>regs := map (\<lambda>r. r\<lparr>registered := False\<rparr>) (regs d)\<rparr>) s)"

definition dma_zero_cont :: dma_cont where
  "dma_zero_cont = \<lparr>dma_status = 0, dma_command = 0, dma_mask = 0, flip_flop = False, dshift = 0, regs = replicate 4 dma_zero_regs\<rparr>"

definition DMA_init :: "'w dma_handlers \<Rightarrow> mem \<Rightarrow> 'w \<Rightarrow> 'w dma_sys" where
  "DMA_init H m w =
    dma_init2 H 1 1 (dma_init2 H 0 0
      \<lparr>conts = (\<lambda>_. dma_zero_cont), ram = m, bh_scheduled = False, exit_pulses = 0, devices = w\<rparr>)"

section \<open>Registers\<close>

lemma regs_set_reg [simp]: "regs (set_reg i r d) = (regs d)[i := r]"
  by (simp add: set_reg_def)

lemma set_reg_frame [simp]:
  "dma_status (set_reg i r d) = dma_status d" "dma_mask (set_reg i r d) = dma_mask d"
  "flip_flop (set_reg i r d) = flip_flop d" "dshift (set_reg i r d) = dshift d"
  by (simp_all add: set_reg_def)

lemma conts_set_cont [simp]: "conts (set_cont c d s) = (conts s)(c := d)"
  by (simp add: set_cont_def)

lemma set_cont_frame [simp]:
  "ram (set_cont c d s) = ram s" "bh_scheduled (set_cont c d s) = bh_scheduled s"
  "devices (set_cont c d s) = devices s" "exit_pulses (set_cont c d s) = exit_pulses s"
  by (simp_all add: set_cont_def)

text \<open>The two bytes of a 16-bit register, written through the flip-flop.\<close>

definition two_bytes :: "u8 \<Rightarrow> u8 \<Rightarrow> u16" where
  "two_bytes lo hi = ucast lo OR push_bit 8 (ucast hi)"

lemma u16_bytes_eqI: "(\<And>n. n < 16 \<Longrightarrow> bit a n = bit b n) \<Longrightarrow> (a :: u16) = b"
  by (rule bit_word_eqI) simp

lemma two_bytes_written:
  "((b AND 0xff00) OR (ucast lo AND 0xff)) AND 0xff OR (push_bit 8 (ucast hi) AND 0xff00) = two_bytes lo hi"
proof (rule u16_bytes_eqI)
  fix n :: nat
  assume n: "n < 16"
  have m: "(0xff :: u16) = mask 8" "(0xff00 :: u16) = push_bit 8 (mask 8)" by (simp_all add: mask_eq_exp_minus_1 push_bit_eq_mult)
  show "bit (((b AND 0xff00) OR (ucast lo AND 0xff)) AND 0xff OR (push_bit 8 (ucast hi) AND 0xff00)) n = bit (two_bytes lo hi) n"
    unfolding m two_bytes_def using n
    by (auto simp: bit_simps dest: bit_u8_less)
qed

lemma two_bytes_read:
  "(word_of_int (uint (two_bytes lo hi) AND 0xff) :: u8) = lo"
  "(word_of_int (drop_bit 8 (uint (two_bytes lo hi)) AND 0xff) :: u8) = hi"
proof -
  have m: "(0xff :: int) = mask 8" by (simp add: mask_eq_exp_minus_1)
  show "(word_of_int (uint (two_bytes lo hi) AND 0xff) :: u8) = lo" "(word_of_int (drop_bit 8 (uint (two_bytes lo hi)) AND 0xff) :: u8) = hi"
    unfolding m two_bytes_def by (rule bit_word_eqI; auto simp: bit_simps dest: bit_u8_less)+
qed

definition write_pair :: "nat \<Rightarrow> u8 \<Rightarrow> u8 \<Rightarrow> dma_cont \<Rightarrow> dma_cont" where
  "write_pair nport lo hi d = write_chan nport hi (write_chan nport lo d)"

definition read_pair :: "nat \<Rightarrow> dma_cont \<Rightarrow> u8 \<times> u8" where
  "read_pair nport d = (let (lo, d) = read_chan nport d; (hi, d) = read_chan nport d in (lo, hi))"

lemma write_pair_regs:
  assumes "\<not> flip_flop d" "i < length (regs d)" "drop_bit (dshift d) nport AND 0x0f = 2 * i + j" "j < 2"
  shows "write_pair nport lo hi d =
    d\<lparr>regs := (regs d)[i := (if j = 1 then (regs d ! i)\<lparr>base_count := two_bytes lo hi\<rparr>
                              else (regs d ! i)\<lparr>base_addr := two_bytes lo hi\<rparr>)
       \<lparr>now_addr := push_bit (dshift d) (uint (if j = 1 then base_addr (regs d ! i) else two_bytes lo hi)), now_count := 0\<rparr>]\<rparr>"
proof -
  have "drop_bit 1 (2 * i + j) = i" "(2 * i + j) AND 1 = j"
    using assms(4) by (simp_all add: drop_bit_eq_div and_one_eq mod2_eq_if less_2_cases_iff) auto
  then show ?thesis
    using assms two_bytes_written [of _ lo hi]
    by (cases "j = 1") (auto simp: write_pair_def write_chan_def getff_def init_chan_def set_reg_def Let_def)
qed

lemma read_pair_addr:
  assumes "\<not> flip_flop d" "drop_bit (dshift d) nport AND 0x0f = 2 * i" "now_count (regs d ! i) = 0"
    and "now_addr (regs d ! i) = push_bit (dshift d) (uint (two_bytes lo hi))"
  shows "read_pair nport d = (lo, hi)"
proof -
  have "drop_bit 1 (2 * i) = i" "(2 * i) AND 1 = 0" by (simp_all add: drop_bit_eq_div and_one_eq)
  moreover have "drop_bit (n + 8) (push_bit n x) = drop_bit 8 x" "drop_bit n (push_bit n x) = x" for n and x :: int
    by (simp_all add: drop_bit_push_bit)
  ultimately show ?thesis
    using assms two_bytes_read [of lo hi] by (simp add: read_pair_def read_chan_def getff_def Let_def add.commute)
qed

lemma read_pair_count:
  assumes "\<not> flip_flop d" "drop_bit (dshift d) nport AND 0x0f = 2 * i + 1" "now_count (regs d ! i) = 0"
    and "base_count (regs d ! i) = two_bytes lo hi"
  shows "read_pair nport d = (lo, hi)"
proof -
  have "drop_bit 1 (2 * i + 1) = i" "(2 * i + 1) AND 1 = 1" by (simp_all add: drop_bit_eq_div and_one_eq)
  moreover have "drop_bit (n + 8) (push_bit n x) = drop_bit 8 x" "drop_bit n (push_bit n x) = x" for n and x :: int
    by (simp_all add: drop_bit_push_bit)
  ultimately show ?thesis
    using assms two_bytes_read [of lo hi] by (simp add: read_pair_def read_chan_def getff_def Let_def add.commute)
qed

text \<open>C32: With the flip-flop clear, programming address and count of a DMA channel byte by byte
  sets exactly the two 16-bit registers of that channel, restarts the transfer there, and
  reading the ports byte by byte gives the same bytes back; no other channel changes.\<close>

theorem dma_program_channel:
  fixes al ah cl ch :: u8
  assumes "\<not> flip_flop d" "i < length (regs d)"
    and "drop_bit (dshift d) pa AND 0x0f = 2 * i" "drop_bit (dshift d) pc AND 0x0f = 2 * i + 1"
  defines "t \<equiv> write_pair pc cl ch (write_pair pa al ah d)"
  shows "base_addr (regs t ! i) = two_bytes al ah \<and> base_count (regs t ! i) = two_bytes cl ch \<and>
    now_addr (regs t ! i) = push_bit (dshift d) (uint (two_bytes al ah)) \<and> now_count (regs t ! i) = 0 \<and>
    read_pair pa t = (al, ah) \<and> read_pair pc t = (cl, ch) \<and> (\<forall>j. j \<noteq> i \<longrightarrow> regs t ! j = regs d ! j)"
proof -
  define u where "u = write_pair pa al ah d"
  have u: "u = d\<lparr>regs := (regs d)[i := (regs d ! i)\<lparr>base_addr := two_bytes al ah,
      now_addr := push_bit (dshift d) (uint (two_bytes al ah)), now_count := 0\<rparr>]\<rparr>"
    unfolding u_def using write_pair_regs [of d i pa 0 al ah] assms(1-3) by simp
  have t: "t = d\<lparr>regs := (regs d)[i := (regs d ! i)\<lparr>base_addr := two_bytes al ah, base_count := two_bytes cl ch,
      now_addr := push_bit (dshift d) (uint (two_bytes al ah)), now_count := 0\<rparr>]\<rparr>"
    unfolding t_def u_def [symmetric]
    using write_pair_regs [of u i pc 1 cl ch] assms(1,2,4) by (simp add: u)
  have "\<not> flip_flop t" "dshift t = dshift d" using assms(1) by (simp_all add: t)
  then show ?thesis
    using assms(2-4) read_pair_addr [of t pa i al ah] read_pair_count [of t pc i cl ch] by (simp add: t)
qed

section \<open>Running the channels\<close>

text \<open>Devices whose handlers leave the controllers alone, and may change anything else.\<close>

definition hands_off :: "'w dma_handlers \<Rightarrow> bool" where
  "hands_off H \<longleftrightarrow> (\<forall>n pos len s. conts (snd (H n pos len s)) = conts s)"

lemma channel_run_hands_off:
  assumes "hands_off H"
  shows "\<exists>n. conts (channel_run H c i s) = (conts s)(c := set_reg i ((regs (conts s c) ! i)\<lparr>now_count := n\<rparr>) (conts s c))"
proof -
  let ?r = "regs (conts s c) ! i"
  obtain n t where h: "(if registered ?r then H (i + push_bit 2 c) else dma_phony_handler (i + push_bit 2 c))
      (now_count ?r) (push_bit c (uint (base_count ?r) + 1)) s = (n, t)" by fastforce
  have "conts t = conts s"
  proof (cases "registered ?r")
    case True
    then have "t = snd (H (i + push_bit 2 c) (now_count ?r) (push_bit c (uint (base_count ?r) + 1)) s)" using h by simp
    then show ?thesis using assms by (simp add: hands_off_def)
  qed (use h in \<open>simp add: dma_phony_handler_def\<close>)
  then show ?thesis using h by (intro exI [of _ n]) (simp add: channel_run_def Let_def)
qed

lemma requested_after_run:
  assumes "hands_off H"
  shows "dma_requested (channel_run H c i s) x = dma_requested s x"
proof -
  obtain n where "conts (channel_run H c i s) = (conts s)(c := set_reg i ((regs (conts s c) ! i)\<lparr>now_count := n\<rparr>) (conts s c))"
    using channel_run_hands_off [OF assms] by blast
  then show ?thesis by (cases x) (simp add: dma_requested_def)
qed

theorem dma_runs_requested:
  assumes "hands_off H"
  shows "DMA_run H s =
    (let cs = filter (dma_requested s) dma_channels; t = fold (\<lambda>(c, i). channel_run H c i) cs s
     in if cs = [] then t else t\<lparr>bh_scheduled := True\<rparr>)"
proof -
  have "fold (\<lambda>(c, i) (s, rearm). if dma_requested s (c, i) then (channel_run H c i s, True) else (s, rearm)) xs (s, b) =
      (fold (\<lambda>(c, i). channel_run H c i) (filter (dma_requested s) xs) s, b \<or> filter (dma_requested s) xs \<noteq> [])" for xs s b
  proof (induction xs arbitrary: s b)
    case (Cons x xs)
    obtain c i where x: "x = (c, i)" by (cases x)
    have "filter (dma_requested (channel_run H c i s)) xs = filter (dma_requested s) xs"
      using requested_after_run [OF assms] by (intro filter_cong) simp_all
    with Cons [of "channel_run H c i s"] Cons [of s] show ?case by (simp add: x)
  qed simp
  then show ?thesis by (simp add: DMA_run_def Let_def split_beta)
qed

section \<open>A whole transfer\<close>

text \<open>A device on channel \<open>nchan\<close> that hands over its data in pieces of at most \<open>k\<close> bytes.\<close>

definition streams :: "'w dma_handlers \<Rightarrow> nat \<Rightarrow> u8 list \<Rightarrow> nat \<Rightarrow> bool" where
  "streams H nchan data k \<longleftrightarrow>
    (\<forall>pos len s. H nchan pos len s =
      (let m = min (int k) (len - pos)
       in (pos + m, snd (DMA_write_memory nchan (take (nat m) (drop (nat pos) data)) pos s))))"

text \<open>The state in which \<open>p\<close> bytes have been transferred by channel \<open>i\<close> of controller \<open>c\<close>.\<close>

definition transferred :: "nat \<Rightarrow> nat \<Rightarrow> nat \<Rightarrow> u8 list \<Rightarrow> bool \<Rightarrow> nat \<Rightarrow> 'w dma_sys \<Rightarrow> 'w dma_sys" where
  "transferred c i a data b p s =
    (let d = conts s c
     in (set_cont c (set_reg i ((regs d ! i)\<lparr>now_count := int p\<rparr>) d) s)
        \<lparr>ram := mem_write (ram s) a (take p data), bh_scheduled := b\<rparr>)"

definition only_requested :: "'w dma_sys \<Rightarrow> nat \<Rightarrow> nat \<Rightarrow> bool" where
  "only_requested s c i \<longleftrightarrow> filter (dma_requested s) dma_channels = [(c, i)]"

lemma channel_number:
  assumes "c < 2" "i < 4"
  shows "cont_of (i + push_bit 2 c) = c" "(i + push_bit 2 c) AND 3 = i"
proof -
  have "c = 0 \<or> c = 1" "i = 0 \<or> i = 1 \<or> i = 2 \<or> i = 3" using assms by auto
  then show "cont_of (i + push_bit 2 c) = c" "(i + push_bit 2 c) AND 3 = i" by (elim disjE; simp)+
qed

lemma dma_addr_range:
  assumes "0 \<le> now_addr r" "now_addr r < 2 ^ 17"
  shows "0 \<le> dma_addr r" "dma_addr r < 2 ^ 31"
proof -
  have "unat (pageh r AND 0x7f) < 2 ^ 7" using unat_and_mask [of 7 "pageh r"] by (simp add: mask_eq_exp_minus_1)
  then have "uint (pageh r AND 0x7f) < 2 ^ 7" by (simp add: uint_nat del: of_nat_unat)
  then have h: "push_bit 24 (uint (pageh r AND 0x7f)) < 2 ^ 31" by (simp add: push_bit_eq_mult)
  have "uint (page r) < 2 ^ 8" using uint_lt2p [of "page r"] by simp
  then have "push_bit 16 (uint (page r)) < 2 ^ 31" by (simp add: push_bit_eq_mult)
  with h show "dma_addr r < 2 ^ 31" unfolding dma_addr_def using assms by (intro OR_upper) (simp_all add: or_nonnegative_int_iff)
  show "0 \<le> dma_addr r" using assms(1) by (simp add: dma_addr_def or_nonnegative_int_iff)
qed

lemma transfer_step:
  fixes s :: "'w dma_sys"
  assumes H: "hands_off H" "streams H (i + push_bit 2 c) data k"
    and ci: "c < 2" "i < 4" "length (regs (conts s c)) = 4" "only_requested s c i"
    and r: "registered (regs (conts s c) ! i)" "dma_mode (regs (conts s c) ! i) AND 0x20 = 0"
      "0 \<le> now_addr (regs (conts s c) ! i)" "now_addr (regs (conts s c) ! i) < 2 ^ 17"
    and n: "int (length data) = push_bit c (uint (base_count (regs (conts s c) ! i)) + 1)" "p \<le> length data"
  defines "a \<equiv> nat (dma_addr (regs (conts s c) ! i))"
  shows "DMA_run_bh H (transferred c i a data b p s) = transferred c i a data True (min (p + k) (length data)) s"
proof -
  let ?d = "conts s c" let ?r = "regs (conts s c) ! i"
  define u where "u = (transferred c i a data b p s)\<lparr>bh_scheduled := False\<rparr>"
  have u: "conts u = (conts s)(c := set_reg i (?r\<lparr>now_count := int p\<rparr>) ?d)" "ram u = mem_write (ram s) a (take p data)"
    by (simp_all add: u_def transferred_def Let_def)
  have "dma_requested u x = dma_requested s x" for x by (cases x) (auto simp: dma_requested_def u(1))
  then have "dma_requested u = dma_requested s" by (rule ext)
  then have only: "filter (dma_requested u) dma_channels = [(c, i)]" using ci(4) by (simp add: only_requested_def)
  have ri: "regs (conts u c) ! i = ?r\<lparr>now_count := int p\<rparr>" using ci by (simp add: u(1))
  define m where "m = min k (length data - p)"
  have m: "min (int k) (int (length data) - int p) = int m" using n(2) by (simp add: m_def)
  have "chan_regs u (i + push_bit 2 c) = ?r\<lparr>now_count := int p\<rparr>"
    using channel_number [OF ci(1,2)] ri by (simp add: chan_regs_def)
  moreover have "dma_addr (?r\<lparr>now_count := int p\<rparr>) = dma_addr ?r" by (simp add: dma_addr_def)
  moreover have "nat ((dma_addr ?r + int p) mod 2 ^ 64) = a + p"
  proof -
    have "uint (base_count ?r) < 2 ^ 16" using uint_lt2p [of "base_count ?r"] by simp
    moreover have "c = 0 \<or> c = 1" using ci(1) by auto
    ultimately have "int p < 2 ^ 18" using n by (auto simp: push_bit_eq_mult)
    with dma_addr_range [OF r(3,4)] show ?thesis by (simp add: a_def nat_add_distrib)
  qed
  ultimately have h: "H (i + push_bit 2 c) (int p) (int (length data)) u =
      (int (p + m), u\<lparr>ram := mem_write (ram u) (a + p) (take m (drop p data))\<rparr>)"
    using H(2) r(2) by (simp add: streams_def Let_def m DMA_write_memory_def)
  have w: "mem_write (ram u) (a + p) (take m (drop p data)) = mem_write (ram s) a (take (p + m) data)"
    using n(2) by (simp add: u(2) take_add mem_write_append)
  have pm: "p + m = min (p + k) (length data)" using n(2) by (simp add: m_def)
  have "channel_run H c i u = set_cont c (set_reg i (?r\<lparr>now_count := int (p + m)\<rparr>) ?d)
      (u\<lparr>ram := mem_write (ram s) a (take (p + m) data)\<rparr>)"
    using h r(1) ri n(1) ci by (simp add: channel_run_def Let_def w) (simp add: u(1) set_reg_def)
  then have "DMA_run H u = (set_cont c (set_reg i (?r\<lparr>now_count := int (p + m)\<rparr>) ?d)
      (u\<lparr>ram := mem_write (ram s) a (take (p + m) data)\<rparr>))\<lparr>bh_scheduled := True\<rparr>"
    using dma_runs_requested [OF H(1), of u] only by simp
  also have "\<dots> = transferred c i a data True (min (p + k) (length data)) s"
    unfolding pm [symmetric] by (simp add: transferred_def Let_def u_def set_cont_def set_reg_def)
  finally show ?thesis by (simp add: DMA_run_bh_def u_def)
qed

lemma transfer_runs:
  fixes s :: "'w dma_sys"
  assumes H: "hands_off H" "streams H (i + push_bit 2 c) data k"
    and ci: "c < 2" "i < 4" "length (regs (conts s c)) = 4" "only_requested s c i"
    and r: "registered (regs (conts s c) ! i)" "dma_mode (regs (conts s c) ! i) AND 0x20 = 0"
      "0 \<le> now_addr (regs (conts s c) ! i)" "now_addr (regs (conts s c) ! i) < 2 ^ 17"
    and n: "int (length data) = push_bit c (uint (base_count (regs (conts s c) ! i)) + 1)"
    and s: "now_count (regs (conts s c) ! i) = 0"
  defines "a \<equiv> nat (dma_addr (regs (conts s c) ! i))"
  shows "(DMA_run_bh H ^^ j) s = transferred c i a data (j > 0 \<or> bh_scheduled s) (min (j * k) (length data)) s"
proof (induction j)
  case 0
  have "(regs (conts s c) ! i)\<lparr>now_count := 0\<rparr> = regs (conts s c) ! i"
    using s by (cases "regs (conts s c) ! i") simp
  then have "set_reg i ((regs (conts s c) ! i)\<lparr>now_count := 0\<rparr>) (conts s c) = conts s c"
    by (simp add: set_reg_def)
  then show ?case by (simp add: transferred_def Let_def set_cont_def)
next
  case (Suc j)
  have "min (min (j * k) (length data) + k) (length data) = min (Suc j * k) (length data)" by auto
  with Suc transfer_step [OF H ci r n, of "min (j * k) (length data)" "j > 0 \<or> bh_scheduled s"]
  show ?case by (simp add: a_def)
qed

text \<open>C25: In address increment mode, a device on the one requested channel that hands over its data
  in pieces from the start of the transfer: after as many rounds of the bottom half as there are
  pieces, the programmed region of memory holds exactly the data, the count is the whole length,
  nothing else of the memory changed, and the next round is scheduled.\<close>

theorem dma_transfer_completes:
  fixes s :: "'w dma_sys"
  assumes "hands_off H" "streams H (i + push_bit 2 c) data k" "length data \<le> j * k"
    and "c < 2" "i < 4" "length (regs (conts s c)) = 4" "only_requested s c i"
    and "registered (regs (conts s c) ! i)" "dma_mode (regs (conts s c) ! i) AND 0x20 = 0"
    and "0 \<le> now_addr (regs (conts s c) ! i)" "now_addr (regs (conts s c) ! i) < 2 ^ 17"
    and "int (length data) = push_bit c (uint (base_count (regs (conts s c) ! i)) + 1)"
    and "now_count (regs (conts s c) ! i) = 0"
  defines "a \<equiv> nat (dma_addr (regs (conts s c) ! i))" and "t \<equiv> (DMA_run_bh H ^^ j) s"
  shows "region (ram t) a (length data) = data \<and> now_count (regs (conts t c) ! i) = int (length data) \<and>
    (\<forall>x. x < a \<or> a + length data \<le> x \<longrightarrow> ram t x = ram s x) \<and> bh_scheduled t"
proof -
  have "0 < length data"
  proof -
    have "0 < uint (base_count (regs (conts s c) ! i)) + 1" by (simp add: add.commute add_pos_nonneg)
    then have "0 < int (length data)" using assms(12) by (simp add: push_bit_eq_mult)
    then show ?thesis by simp
  qed
  then have j: "0 < j" using assms(3) by (cases j) simp_all
  have "t = transferred c i a data True (length data) s"
    unfolding t_def a_def using transfer_runs [OF assms(1,2,4-13), of j] j assms(3) by simp
  then show ?thesis
    using assms(5,6) by (simp add: transferred_def Let_def) (simp add: mem_write_def)
qed

section \<open>Address decrement mode\<close>

text \<open>The loop that is meant to reverse the buffer only mirrors its second half onto the first.\<close>

lemma mirror_loop_nth:
  assumes "2 * n \<le> length p" "j < length p"
  shows "length (mirror_loop n p) = length p" "mirror_loop n p ! j = (if j < n then p ! (length p - j - 1) else p ! j)"
proof -
  have "length (mirror_loop n p) = length p \<and> (\<forall>j < length p. mirror_loop n p ! j = (if j < n then p ! (length p - j - 1) else p ! j))"
    using assms(1)
  proof (induction n)
    case 0
    then show ?case by (simp add: mirror_loop_def)
  next
    case (Suc n)
    have "mirror_loop (Suc n) p = (mirror_loop n p)[n := mirror_loop n p ! (length (mirror_loop n p) - n - 1)]"
      by (simp add: mirror_loop_def)
    with Suc show ?case by (auto simp: nth_list_update less_Suc_eq)
  qed
  then show "length (mirror_loop n p) = length p" "mirror_loop n p ! j = (if j < n then p ! (length p - j - 1) else p ! j)"
    using assms(2) by blast+
qed

lemma dma_decrement_read:
  fixes pos :: int
  assumes "dma_mode (chan_regs s nchan) AND 0x20 \<noteq> 0" "j < len"
  defines "bs \<equiv> region (ram s) (nat ((dma_addr (chan_regs s nchan) - pos - int len) mod 2 ^ 64)) len"
  shows "DMA_read_memory nchan pos len s ! j = (if j < len div 2 then bs ! (len - j - 1) else bs ! j)"
  using assms mirror_loop_nth(2) [of "len div 2" bs j] by (simp add: DMA_read_memory_def Let_def)

lemma dma_decrement_read_not_reversed:
  "\<exists>s :: unit dma_sys. dma_mode (chan_regs s 0) AND 0x20 \<noteq> 0 \<and>
    DMA_read_memory 0 0 2 s \<noteq> rev (region (ram s) (nat ((dma_addr (chan_regs s 0) - 0 - int 2) mod 2 ^ 64)) 2)"
proof -
  let ?s = "\<lparr>conts = (\<lambda>_. dma_zero_cont\<lparr>regs := replicate 4 (dma_zero_regs\<lparr>dma_mode := 0x20, now_addr := 16\<rparr>)\<rparr>),
    ram = (\<lambda>x. of_nat x), bh_scheduled = False, exit_pulses = 0, devices = ()\<rparr> :: unit dma_sys"
  have "dma_mode (chan_regs ?s 0) AND 0x20 \<noteq> 0 \<and> DMA_read_memory 0 0 2 ?s = [15, 15] \<and>
      rev (region (ram ?s) (nat ((dma_addr (chan_regs ?s 0) - 0 - int 2) mod 2 ^ 64)) 2) = [15, 14]"
    by code_simp
  then show ?thesis by (intro exI [of _ ?s]) simp
qed

section \<open>Reachable states\<close>

definition cont_inv :: "nat \<Rightarrow> dma_cont \<Rightarrow> bool" where
  "cont_inv c d \<longleftrightarrow> length (regs d) = 4 \<and> dshift d = c \<and> dma_status d AND 0x0f = 0 \<and>
    (\<forall>r \<in> set (regs d). 0 \<le> now_addr r \<and> now_addr r < 2 ^ 17)"

definition dma_inv :: "'w dma_sys \<Rightarrow> bool" where
  "dma_inv s \<longleftrightarrow> cont_inv 0 (conts s 0) \<and> cont_inv 1 (conts s 1)"

text \<open>Handlers that use the controllers only through their interface keep the invariant.\<close>

definition well_behaved :: "'w dma_handlers \<Rightarrow> bool" where
  "well_behaved H \<longleftrightarrow> (\<forall>n pos len s. dma_inv s \<longrightarrow> dma_inv (snd (H n pos len s)))"

lemma set_reg_inv:
  assumes "cont_inv c d" "i < 4 \<Longrightarrow> 0 \<le> now_addr r \<and> now_addr r < 2 ^ 17"
  shows "cont_inv c (set_reg i r d)"
proof -
  have "\<forall>x \<in> set ((regs d)[i := r]). 0 \<le> now_addr x \<and> now_addr x < 2 ^ 17"
  proof (cases "i < 4")
    case True
    then show ?thesis using assms set_update_subset_insert [of "regs d" i r] by (auto simp: cont_inv_def)
  next
    case False
    then have "(regs d)[i := r] = regs d" using assms(1) by (intro list_update_beyond) (simp add: cont_inv_def)
    then show ?thesis using assms(1) by (simp add: cont_inv_def)
  qed
  then show ?thesis using assms(1) by (simp add: cont_inv_def)
qed

lemma cont_inv_reg: "cont_inv c d \<Longrightarrow> i < 4 \<Longrightarrow> 0 \<le> now_addr (regs d ! i) \<and> now_addr (regs d ! i) < 2 ^ 17"
  by (simp add: cont_inv_def)

lemma cont_inv_update:
  "cont_inv c (d\<lparr>dma_mask := m\<rparr>) = cont_inv c d" "cont_inv c (d\<lparr>flip_flop := f\<rparr>) = cont_inv c d"
  "cont_inv c (d\<lparr>dma_command := v\<rparr>) = cont_inv c d"
  by (simp_all add: cont_inv_def)

lemma set_cont_inv: "dma_inv s \<Longrightarrow> c < 2 \<Longrightarrow> cont_inv c d \<Longrightarrow> dma_inv (set_cont c d s)"
  by (auto simp: dma_inv_def less_2_cases_iff)

lemma dma_inv_cont: "dma_inv s \<Longrightarrow> c < 2 \<Longrightarrow> cont_inv c (conts s c)"
  by (auto simp: dma_inv_def less_2_cases_iff)

lemma dma_inv_update [simp]:
  "dma_inv (s\<lparr>ram := m\<rparr>) = dma_inv s" "dma_inv (s\<lparr>bh_scheduled := b\<rparr>) = dma_inv s"
  "dma_inv (s\<lparr>exit_pulses := n\<rparr>) = dma_inv s"
  by (simp_all add: dma_inv_def)

lemma channel_run_inv:
  assumes "well_behaved H" "dma_inv s" "c < 2" "i < 4"
  shows "dma_inv (channel_run H c i s)"
proof -
  let ?r = "regs (conts s c) ! i"
  obtain n t where h: "(if registered ?r then H (i + push_bit 2 c) else dma_phony_handler (i + push_bit 2 c))
      (now_count ?r) (push_bit c (uint (base_count ?r) + 1)) s = (n, t)" by fastforce
  have t: "dma_inv t"
  proof (cases "registered ?r")
    case True
    then have "t = snd (H (i + push_bit 2 c) (now_count ?r) (push_bit c (uint (base_count ?r) + 1)) s)" using h by simp
    then show ?thesis using assms(1,2) by (simp add: well_behaved_def)
  qed (use h assms(2) in \<open>simp add: dma_phony_handler_def\<close>)
  have "cont_inv c (set_reg i ((regs (conts t c) ! i)\<lparr>now_count := n\<rparr>) (conts t c))"
    using dma_inv_cont [OF t assms(3)] cont_inv_reg by (intro set_reg_inv) simp_all
  then show ?thesis using h set_cont_inv [OF t assms(3)] by (simp add: channel_run_def Let_def)
qed

lemma DMA_run_inv:
  assumes "well_behaved H" "dma_inv s"
  shows "dma_inv (DMA_run H s)"
proof -
  have "\<forall>(c, i) \<in> set xs. c < 2 \<and> i < 4 \<Longrightarrow> dma_inv s \<Longrightarrow>
      dma_inv (fst (fold (\<lambda>(c, i) (s, rearm). if dma_requested s (c, i) then (channel_run H c i s, True) else (s, rearm)) xs (s, b)))"
    for xs s b
  proof (induction xs arbitrary: s b)
    case (Cons x xs)
    obtain c i where x: "x = (c, i)" by (cases x)
    have "dma_inv (channel_run H c i s)" using channel_run_inv [OF assms(1)] Cons.prems x by simp
    with Cons show ?case by (simp add: x)
  qed simp
  moreover have "\<forall>(c, i) \<in> set dma_channels. c < 2 \<and> i < 4" by (simp add: dma_channels_def)
  ultimately have "dma_inv (fst (fold (\<lambda>(c, i) (s, rearm). if dma_requested s (c, i) then (channel_run H c i s, True) else (s, rearm))
      dma_channels (s, False)))" using assms(2) by blast
  then show ?thesis by (simp add: DMA_run_def Let_def split_beta)
qed

lemma port_channel_less: "port_channel n \<noteq> - 1 \<Longrightarrow> nat (port_channel n) < 4"
proof -
  have "n AND 7 < 8" using take_bit_eq_mask [of 3 n] take_bit_nat_less_exp [of 3 n] by (simp add: mask_eq_exp_minus_1)
  then have "channels ! (n AND 7) \<in> set channels" by (intro nth_mem) (simp add: channels_def)
  then show "port_channel n \<noteq> - 1 \<Longrightarrow> ?thesis" by (auto simp: port_channel_def channels_def)
qed

lemma status_bits:
  assumes "st AND 0x0f = (0 :: u8)"
  shows "(st OR bitmask (i + 4)) AND 0x0f = 0" "(st AND k) AND 0x0f = 0"
proof -
  have m: "(0x0f :: u8) = mask 4" by (simp add: mask_eq_exp_minus_1)
  have "\<not> bit st n" if "n < 4" for n
  proof -
    have "bit (st AND mask 4) n \<longleftrightarrow> bit st n" using that by (simp add: bit_simps)
    then show ?thesis using assms unfolding m by simp
  qed
  then show "(st OR bitmask (i + 4)) AND 0x0f = 0" "(st AND k) AND 0x0f = 0"
    unfolding m by (intro bit_word_eqI; auto simp: bit_simps)+
qed

datatype dma_event =
  Dma_write_page nat nat u8
| Dma_write_pageh nat nat u8
| Dma_write_chan nat nat u8
| Dma_read_chan nat nat
| Dma_write_cont nat nat u8
| Dma_read_cont nat nat
| Dma_hold nat
| Dma_release nat
| Dma_register nat
| Dma_write_memory nat "u8 list" int
| Dma_schedule nat
| Dma_run_bh
| Dma_reset nat

text \<open>The first argument of a port event is the controller.\<close>

fun dma_do :: "'w dma_handlers \<Rightarrow> dma_event \<Rightarrow> 'w dma_sys \<Rightarrow> 'w dma_sys" where
  "dma_do H (Dma_write_page c p v) s = set_cont c (write_page p v (conts s c)) s"
| "dma_do H (Dma_write_pageh c p v) s = set_cont c (write_pageh p v (conts s c)) s"
| "dma_do H (Dma_write_chan c p v) s = set_cont c (write_chan p v (conts s c)) s"
| "dma_do H (Dma_read_chan c p) s = set_cont c (snd (read_chan p (conts s c))) s"
| "dma_do H (Dma_write_cont c p v) s = write_cont H c p v s"
| "dma_do H (Dma_read_cont c p) s = set_cont c (snd (read_cont p (conts s c))) s"
| "dma_do H (Dma_hold n) s = DMA_hold_DREQ H n s"
| "dma_do H (Dma_release n) s = DMA_release_DREQ H n s"
| "dma_do H (Dma_register n) s = DMA_register_channel n s"
| "dma_do H (Dma_write_memory n buf pos) s = snd (DMA_write_memory n buf pos s)"
| "dma_do H (Dma_schedule n) s = DMA_schedule n s"
| "dma_do H Dma_run_bh s = DMA_run_bh H s"
| "dma_do H (Dma_reset c) s = dma_reset H c s"

fun dma_enabled :: "dma_event \<Rightarrow> bool" where
  "dma_enabled (Dma_write_page c p v) = (c < 2)"
| "dma_enabled (Dma_write_pageh c p v) = (c < 2)"
| "dma_enabled (Dma_write_chan c p v) = (c < 2)"
| "dma_enabled (Dma_read_chan c p) = (c < 2)"
| "dma_enabled (Dma_write_cont c p v) = (c < 2)"
| "dma_enabled (Dma_read_cont c p) = (c < 2)"
| "dma_enabled (Dma_reset c) = (c < 2)"
| "dma_enabled _ = True"

lemma page_inv:
  assumes "cont_inv c d"
  shows "cont_inv c (write_page p v d)" "cont_inv c (write_pageh p v d)"
  using assms cont_inv_reg [OF assms] port_channel_less [of p]
  by (auto simp: write_page_def write_pageh_def Let_def intro!: set_reg_inv)

lemma init_chan_inv:
  assumes "cont_inv c d" "c < 2"
  shows "cont_inv c (init_chan i d)"
proof -
  have "uint (base_addr (regs d ! i)) < 2 ^ 16" using uint_lt2p [of "base_addr (regs d ! i)"] by simp
  moreover have "c = 0 \<or> c = 1" using assms(2) by auto
  ultimately have "0 \<le> push_bit c (uint (base_addr (regs d ! i))) \<and> push_bit c (uint (base_addr (regs d ! i))) < 2 ^ 17"
    by (auto simp: push_bit_eq_mult)
  moreover have "dshift d = c" using assms(1) by (simp add: cont_inv_def)
  ultimately show ?thesis unfolding init_chan_def Let_def by (intro set_reg_inv assms(1)) simp
qed

lemma channel_ports_inv:
  assumes "cont_inv c d" "c < 2"
  shows "cont_inv c (write_chan p v d)" "cont_inv c (snd (read_chan p d))" "cont_inv c (snd (read_cont p d))"
proof -
  have f: "cont_inv c (d\<lparr>flip_flop := b\<rparr>)" for b using assms(1) by (simp add: cont_inv_update)
  have s: "cont_inv c (set_reg i ((regs d ! i)\<lparr>base_addr := x\<rparr>) (d\<lparr>flip_flop := b\<rparr>))"
      "cont_inv c (set_reg i ((regs d ! i)\<lparr>base_count := x\<rparr>) (d\<lparr>flip_flop := b\<rparr>))" for i x b
    using cont_inv_reg [OF assms(1)] f by (auto intro!: set_reg_inv)
  show "cont_inv c (write_chan p v d)"
    using s by (simp add: write_chan_def getff_def Let_def init_chan_inv [OF _ assms(2)])
  show "cont_inv c (snd (read_chan p d))" using f by (simp add: read_chan_def getff_def Let_def)
  show "cont_inv c (snd (read_cont p d))"
    using assms(1) status_bits(2) [of "dma_status d"] by (simp add: read_cont_def Let_def cont_inv_def)
qed

lemma status_inv: "cont_inv c d \<Longrightarrow> st AND 0x0f = 0 \<Longrightarrow> cont_inv c (d\<lparr>dma_status := st\<rparr>)"
  by (simp add: cont_inv_def)

lemma write_cont_inv:
  assumes "well_behaved H" "dma_inv s" "c < 2"
  shows "dma_inv (write_cont H c p v s)"
proof -
  have d: "cont_inv c (conts s c)" using dma_inv_cont assms by blast
  then have st: "dma_status (conts s c) AND 0x0f = 0" by (simp add: cont_inv_def)
  note run = DMA_run_inv [OF assms(1) set_cont_inv [OF assms(2,3)]]
  have "v AND 3 < 4" using word_and_le1 [of v 3] by (simp add: word_less_def word_le_def)
  then have i: "unat (v AND 3) < 4" by (simp add: word_less_nat_alt)
  show ?thesis
    using assms(2,3) d st i cont_inv_reg [OF d i]
    by (auto simp: write_cont_def Let_def cont_inv_update status_bits
        intro!: run set_cont_inv status_inv set_reg_inv)
qed

lemma dma_do_inv:
  assumes "well_behaved H" "dma_inv s" "dma_enabled e"
  shows "dma_inv (dma_do H e s)"
proof -
  note c = dma_inv_cont [OF assms(2)]
  have two: "cont_of n < 2" for n by simp
  have reg: "n AND 3 < 4" for n :: nat
    using take_bit_eq_mask [of 2 n] take_bit_nat_less_exp [of 2 n] by (simp add: mask_eq_exp_minus_1)
  have st: "dma_status (conts s (cont_of n)) AND 0x0f = 0" for n using c [OF two] by (auto simp: cont_inv_def)
  show ?thesis
  proof (cases e)
    case (Dma_hold n)
    have "cont_inv (cont_of n) ((conts s (cont_of n))\<lparr>dma_status := dma_status (conts s (cont_of n)) OR bitmask ((n AND 3) + 4)\<rparr>)"
      using c [OF two] st by (intro status_inv status_bits)
    then show ?thesis
      using DMA_run_inv [OF assms(1) set_cont_inv [OF assms(2) two]] Dma_hold by (simp only: dma_do.simps DMA_hold_DREQ_def Let_def)
  next
    case (Dma_release n)
    have "cont_inv (cont_of n) ((conts s (cont_of n))\<lparr>dma_status := dma_status (conts s (cont_of n)) AND NOT (bitmask ((n AND 3) + 4))\<rparr>)"
      using c [OF two] st by (intro status_inv status_bits)
    then show ?thesis
      using DMA_run_inv [OF assms(1) set_cont_inv [OF assms(2) two]] Dma_release by (simp only: dma_do.simps DMA_release_DREQ_def Let_def)
  next
    case (Dma_register n)
    have "cont_inv (cont_of n) (set_reg (n AND 3) ((regs (conts s (cont_of n)) ! (n AND 3))\<lparr>registered := True\<rparr>) (conts s (cont_of n)))"
      using c [OF two] cont_inv_reg [OF c [OF two] reg] by (intro set_reg_inv) simp_all
    then show ?thesis
      using set_cont_inv [OF assms(2) two] Dma_register by (simp only: dma_do.simps DMA_register_channel_def Let_def)
  qed (use assms c in \<open>auto simp: DMA_write_memory_def DMA_schedule_def DMA_run_bh_def dma_reset_def Let_def
      intro!: set_cont_inv page_inv channel_ports_inv write_cont_inv DMA_run_inv\<close>)
qed

lemma DMA_init_inv: "dma_inv (DMA_init H m w)"
proof -
  have "cont_inv c (dma_zero_cont\<lparr>flip_flop := False, dma_mask := k, dma_command := 0, dshift := c\<rparr>)" for c k
    by (simp add: cont_inv_def dma_zero_cont_def dma_zero_regs_def)
  then show ?thesis
    by (simp add: DMA_init_def dma_init2_def dma_reset_def write_cont_def Let_def dma_inv_def cont_inv_def
        dma_zero_cont_def dma_zero_regs_def)
qed

interpretation dma: device "\<lambda>s :: 'w dma_sys. \<exists>H m w. s = DMA_init H m w"
  "\<lambda>s t. \<exists>H e. well_behaved H \<and> dma_enabled e \<and> t = dma_do H e s" dma_inv
  by unfold_locales (auto intro: DMA_init_inv dma_do_inv)

abbreviation dma_reachable :: "'w dma_sys \<Rightarrow> bool" where
  "dma_reachable \<equiv> reach (\<lambda>s. \<exists>H m w. s = DMA_init H m w) (\<lambda>s t. \<exists>H e. well_behaved H \<and> dma_enabled e \<and> t = dma_do H e s)"

theorem dma_reachable_inv:
  assumes "dma_reachable s" "c < 2"
  shows "length (regs (conts s c)) = 4 \<and> dma_status (conts s c) AND 0x0f = 0 \<and>
    (\<forall>r \<in> set (regs (conts s c)). 0 \<le> dma_addr r \<and> dma_addr r < 2 ^ 31)"
  using dma_inv_cont [OF dma.reachable_inv [OF assms(1)] assms(2)] dma_addr_range
  by (auto simp: cont_inv_def)

section \<open>Witnesses\<close>

text \<open>Channel 1, programmed for four bytes at 0x100100, and a device that sends them three at a time.\<close>

definition sample_handlers :: "u8 list \<Rightarrow> nat \<Rightarrow> 'w dma_handlers" where
  "sample_handlers data k n pos len s =
    (let m = min (int k) (len - pos)
     in (pos + m, snd (DMA_write_memory n (take (nat m) (drop (nat pos) data)) pos s)))"

definition sample_cont :: dma_cont where
  "sample_cont = write_pair 3 3 0 (write_pair 2 0 1 (write_page 3 0x10
    (dma_zero_cont\<lparr>dma_status := 0x20, dma_mask := 0xfd, regs := replicate 4 (dma_zero_regs\<lparr>dma_mode := 0x45, registered := True\<rparr>)\<rparr>)))"

definition sample_dma :: "unit dma_sys" where
  "sample_dma = \<lparr>conts = (\<lambda>c. if c = 0 then sample_cont else dma_zero_cont\<lparr>dma_mask := 0xff, dshift := 1\<rparr>), ram = (\<lambda>x. 0),
    bh_scheduled = False, exit_pulses = 0, devices = ()\<rparr>"

lemma sample_hands_off: "hands_off (sample_handlers data k)"
  by (simp add: hands_off_def sample_handlers_def Let_def DMA_write_memory_def)

lemma sample_streams: "streams (sample_handlers data k) n data k"
  by (simp add: streams_def sample_handlers_def Let_def)

lemma sample_values:
  "length (regs (conts sample_dma 0)) = 4" "filter (dma_requested sample_dma) dma_channels = [(0, 1)]"
  "registered (regs (conts sample_dma 0) ! 1)" "dma_mode (regs (conts sample_dma 0) ! 1) AND 0x20 = 0"
  "now_addr (regs (conts sample_dma 0) ! 1) = 0x100" "base_count (regs (conts sample_dma 0) ! 1) = 3"
  "now_count (regs (conts sample_dma 0) ! 1) = 0" "dma_addr (regs (conts sample_dma 0) ! 1) = 0x100100"
  by code_simp+

theorem dma_program_channel_witness:
  "read_pair 2 (write_pair 3 0x34 0x12 (write_pair 2 0x78 0x56 dma_zero_cont)) = (0x78, 0x56)"
  using dma_program_channel [of dma_zero_cont 1 2 3 "0x34" "0x12" "0x78" "0x56"]
  by (simp add: dma_zero_cont_def)

theorem dma_runs_requested_witness:
  "hands_off (sample_handlers [1, 2, 3, 4] 3) \<and>
   DMA_run (sample_handlers [1, 2, 3, 4] 3) sample_dma =
     (channel_run (sample_handlers [1, 2, 3, 4] 3) 0 1 sample_dma)\<lparr>bh_scheduled := True\<rparr>"
  using dma_runs_requested [OF sample_hands_off, of "[1, 2, 3, 4]" 3 sample_dma] sample_hands_off
  by (simp add: sample_values(2))

theorem dma_transfer_completes_witness:
  "region (ram ((DMA_run_bh (sample_handlers [1, 2, 3, 4] 3) ^^ 2) sample_dma)) 0x100100 4 = [1, 2, 3, 4]"
proof -
  have four: "(4 :: nat) = Suc (Suc (Suc (Suc 0)))" by simp
  have "only_requested sample_dma 0 1" by (simp add: only_requested_def sample_values(2))
  then have "region (ram ((DMA_run_bh (sample_handlers [1, 2, 3, 4] 3) ^^ 2) sample_dma)) 0x100100 (Suc (Suc (Suc (Suc 0)))) = [1, 2, 3, 4]"
    using dma_transfer_completes [OF sample_hands_off sample_streams, of "[1, 2, 3, 4]" 2 3 0 1 sample_dma]
    by (simp add: sample_values [simplified])
  then show ?thesis unfolding four .
qed

theorem dma_reachable_inv_witness:
  "dma_reachable (DMA_init (\<lambda>_ pos _ s. (pos, s)) (\<lambda>_. 0) ()) \<and>
   (\<forall>r \<in> set (regs (conts (DMA_init (\<lambda>_ pos _ s. (pos, s)) (\<lambda>_. 0) ()) 1)). dma_addr r < 2 ^ 31)"
proof -
  have r: "dma_reachable (DMA_init (\<lambda>_ pos _ s. (pos, s)) (\<lambda>_. 0) ())" by (rule reach_init) blast
  then show ?thesis using dma_reachable_inv [OF r, of 1] by simp
qed

end
