(* ===== verification/Net_Queue.thy ===== *)
theory Net_Queue
  imports Prelude
begin

text \<open>
  Packet queues between network clients, \<open>qemu/net/queue.c\<close>.

  \<^item> \<open>NetPacket\<close> and \<open>NetQueue\<close> are the structs of the same names. A client is a number, a callback for sent
    packets a value of any type, and \<open>opaque\<close> is the state of whoever receives.
  \<^item> The delivery handler and the callbacks are parameters. They get the queue and may change it, because
    they may call back into it, and they may not return, in which case the result is \<open>None\<close>.
  \<^item> An I/O vector is given by the contents of its fragments.
  \<^item> The loop of \<open>qemu_net_queue_flush\<close> ends only if the receiver does not keep sending; not returning is the
    result \<open>None\<close>. For receivers whose answers get smaller it returns.
\<close>

section \<open>State\<close>

record 'cb NetPacket =
  sender :: nat
  flags :: u32
  pdata :: "u8 list"
  sent_cb :: "'cb option"

record ('cb, 'w) NetQueue =
  packets :: "'cb NetPacket list"
  delivering :: bool
  opaque :: 'w

type_synonym ('cb, 'w) deliver =
  "nat \<Rightarrow> u32 \<Rightarrow> u8 list \<Rightarrow> ('cb, 'w) NetQueue \<Rightarrow> (int \<times> ('cb, 'w) NetQueue) option"

type_synonym ('cb, 'w) sent = "'cb \<Rightarrow> nat \<Rightarrow> int \<Rightarrow> ('cb, 'w) NetQueue \<Rightarrow> ('cb, 'w) NetQueue option"

section \<open>Operations\<close>

definition qemu_new_net_queue :: "'w \<Rightarrow> ('cb, 'w) NetQueue" where
  "qemu_new_net_queue w = \<lparr>packets = [], delivering = False, opaque = w\<rparr>"

definition qemu_net_queue_append ::
  "nat \<Rightarrow> u32 \<Rightarrow> u8 list \<Rightarrow> 'cb option \<Rightarrow> ('cb, 'w) NetQueue \<Rightarrow> int \<times> ('cb, 'w) NetQueue" where
  "qemu_net_queue_append s f buf cb q =
    (int (length buf), q\<lparr>packets := packets q @ [\<lparr>sender = s, flags = f, pdata = buf, sent_cb = cb\<rparr>]\<rparr>)"

definition qemu_net_queue_append_iov ::
  "nat \<Rightarrow> u32 \<Rightarrow> u8 list list \<Rightarrow> 'cb option \<Rightarrow> ('cb, 'w) NetQueue \<Rightarrow> int \<times> ('cb, 'w) NetQueue" where
  "qemu_net_queue_append_iov s f iov cb q =
    (let buf = fold (\<lambda>fragment buf. buf @ fragment) iov []
     in (int (length buf), q\<lparr>packets := packets q @ [\<lparr>sender = s, flags = f, pdata = buf, sent_cb = cb\<rparr>]\<rparr>))"

definition qemu_net_queue_deliver :: "('cb, 'w) deliver \<Rightarrow> ('cb, 'w) deliver" where
  "qemu_net_queue_deliver D s f buf q =
    map_option (\<lambda>(ret, q). (ret, q\<lparr>delivering := False\<rparr>)) (D s f buf (q\<lparr>delivering := True\<rparr>))"

definition qemu_net_queue_deliver_iov ::
  "(nat \<Rightarrow> u32 \<Rightarrow> u8 list list \<Rightarrow> ('cb, 'w) NetQueue \<Rightarrow> (int \<times> ('cb, 'w) NetQueue) option) \<Rightarrow>
    nat \<Rightarrow> u32 \<Rightarrow> u8 list list \<Rightarrow> ('cb, 'w) NetQueue \<Rightarrow> (int \<times> ('cb, 'w) NetQueue) option" where
  "qemu_net_queue_deliver_iov D s f iov q =
    map_option (\<lambda>(ret, q). (ret, q\<lparr>delivering := False\<rparr>)) (D s f iov (q\<lparr>delivering := True\<rparr>))"

partial_function (option) qemu_net_queue_flush ::
  "('cb, 'w) deliver \<Rightarrow> ('cb, 'w) sent \<Rightarrow> ('cb, 'w) NetQueue \<Rightarrow> ('cb, 'w) NetQueue option" where
  "qemu_net_queue_flush D S q =
    (case packets q of [] \<Rightarrow> Some q
     | packet # ps \<Rightarrow>
         Option.bind (qemu_net_queue_deliver D (sender packet) (flags packet) (pdata packet) (q\<lparr>packets := ps\<rparr>))
           (\<lambda>(ret, q).
              if ret = 0 then Some (q\<lparr>packets := packet # packets q\<rparr>)
              else Option.bind (case sent_cb packet of None \<Rightarrow> Some q | Some cb \<Rightarrow> S cb (sender packet) ret q)
                     (\<lambda>q. qemu_net_queue_flush D S q)))"

definition qemu_net_queue_send ::
  "('cb, 'w) deliver \<Rightarrow> ('cb, 'w) sent \<Rightarrow> nat \<Rightarrow> u32 \<Rightarrow> u8 list \<Rightarrow> 'cb option \<Rightarrow> ('cb, 'w) NetQueue \<Rightarrow>
    (int \<times> ('cb, 'w) NetQueue) option" where
  "qemu_net_queue_send D S s f buf cb q =
    (if delivering q then Some (qemu_net_queue_append s f buf None q)
     else
       Option.bind (qemu_net_queue_deliver D s f buf q)
         (\<lambda>(ret, q).
            if ret = 0 then Some (0, snd (qemu_net_queue_append s f buf cb q))
            else map_option (\<lambda>q. (ret, q)) (qemu_net_queue_flush D S q)))"

definition qemu_net_queue_send_iov ::
  "(nat \<Rightarrow> u32 \<Rightarrow> u8 list list \<Rightarrow> ('cb, 'w) NetQueue \<Rightarrow> (int \<times> ('cb, 'w) NetQueue) option) \<Rightarrow>
    ('cb, 'w) deliver \<Rightarrow> ('cb, 'w) sent \<Rightarrow> nat \<Rightarrow> u32 \<Rightarrow> u8 list list \<Rightarrow> 'cb option \<Rightarrow> ('cb, 'w) NetQueue \<Rightarrow>
    (int \<times> ('cb, 'w) NetQueue) option" where
  "qemu_net_queue_send_iov Dv D S s f iov cb q =
    (if delivering q then Some (qemu_net_queue_append_iov s f iov None q)
     else
       Option.bind (qemu_net_queue_deliver_iov Dv s f iov q)
         (\<lambda>(ret, q).
            if ret = 0 then Some (0, snd (qemu_net_queue_append_iov s f iov cb q))
            else map_option (\<lambda>q. (ret, q)) (qemu_net_queue_flush D S q)))"

definition qemu_net_queue_purge :: "nat \<Rightarrow> ('cb, 'w) NetQueue \<Rightarrow> ('cb, 'w) NetQueue" where
  "qemu_net_queue_purge from q = q\<lparr>packets := filter (\<lambda>p. sender p \<noteq> from) (packets q)\<rparr>"

lemma append_iov_concat: "qemu_net_queue_append_iov s f iov cb = qemu_net_queue_append s f (concat iov) cb"
proof -
  have "fold (\<lambda>fragment buf. buf @ fragment) iov xs = xs @ concat iov" for xs :: "u8 list"
    by (induction iov arbitrary: xs) simp_all
  then show ?thesis by (simp add: fun_eq_iff qemu_net_queue_append_iov_def qemu_net_queue_append_def Let_def)
qed

lemma send_iov_is_send:
  assumes "\<And>q. Dv s f iov q = D s f (concat iov) q"
  shows "qemu_net_queue_send_iov Dv D S s f iov cb q = qemu_net_queue_send D S s f (concat iov) cb q"
  using assms
  by (simp add: qemu_net_queue_send_iov_def qemu_net_queue_send_def qemu_net_queue_deliver_iov_def qemu_net_queue_deliver_def
      append_iov_concat cong: if_cong)

section \<open>Receivers that may answer\<close>

text \<open>A receiver looks at a packet and gives its verdict and new state; while it does so it may send packets
  of its own, which only join the queue.\<close>

type_synonym 'w receiver = "nat \<Rightarrow> u32 \<Rightarrow> u8 list \<Rightarrow> 'w \<Rightarrow> int \<times> (nat \<times> u32 \<times> u8 list) list \<times> 'w"

definition reply_packet :: "nat \<times> u32 \<times> u8 list \<Rightarrow> 'cb NetPacket" where
  "reply_packet = (\<lambda>(s, f, buf). \<lparr>sender = s, flags = f, pdata = buf, sent_cb = None\<rparr>)"

definition answering :: "'w receiver \<Rightarrow> ('cb, 'w) deliver" where
  "answering R s f buf q =
    (let (ret, replies, w) = R s f buf (opaque q)
     in Some (ret, fold (\<lambda>(s, f, buf) q. snd (qemu_net_queue_append s f buf None q)) replies (q\<lparr>opaque := w\<rparr>)))"

lemma send_while_delivering:
  "delivering q \<Longrightarrow> qemu_net_queue_send D S s f buf cb q = Some (qemu_net_queue_append s f buf None q)"
  by (simp add: qemu_net_queue_send_def)

lemma append_replies:
  "fold (\<lambda>(s, f, buf) q. snd (qemu_net_queue_append s f buf None q)) replies q =
    q\<lparr>packets := packets q @ map reply_packet replies\<rparr>"
  by (induction replies arbitrary: q) (auto simp: qemu_net_queue_append_def reply_packet_def)

text \<open>Callbacks that only tell the sender.\<close>

definition telling :: "('cb \<Rightarrow> nat \<Rightarrow> int \<Rightarrow> 'w \<Rightarrow> 'w) \<Rightarrow> ('cb, 'w) sent" where
  "telling ntf cb s ret q = Some (q\<lparr>opaque := ntf cb s ret (opaque q)\<rparr>)"

definition notified :: "('cb \<Rightarrow> nat \<Rightarrow> int \<Rightarrow> 'w \<Rightarrow> 'w) \<Rightarrow> 'cb NetPacket \<Rightarrow> int \<Rightarrow> 'w \<Rightarrow> 'w" where
  "notified ntf p ret w = (case sent_cb p of None \<Rightarrow> w | Some cb \<Rightarrow> ntf cb (sender p) ret w)"

text \<open>The specification of the loop: packets and state of the receiver.\<close>

inductive drains :: "'w receiver \<Rightarrow> ('cb \<Rightarrow> nat \<Rightarrow> int \<Rightarrow> 'w \<Rightarrow> 'w) \<Rightarrow>
    'cb NetPacket list \<Rightarrow> 'w \<Rightarrow> 'cb NetPacket list \<Rightarrow> 'w \<Rightarrow> bool"
  for R :: "'w receiver" and ntf :: "'cb \<Rightarrow> nat \<Rightarrow> int \<Rightarrow> 'w \<Rightarrow> 'w" where
  drained: "drains R ntf [] w [] w"
| refused: "R (sender p) (flags p) (pdata p) w = (0, replies, w') \<Longrightarrow>
    drains R ntf (p # ps) w (p # ps @ map reply_packet replies) w'"
| accepted: "R (sender p) (flags p) (pdata p) w = (ret, replies, w') \<Longrightarrow> ret \<noteq> 0 \<Longrightarrow>
    drains R ntf (ps @ map reply_packet replies) (notified ntf p ret w') ps' v \<Longrightarrow> drains R ntf (p # ps) w ps' v"

text \<open>The loop stopped with nothing left, or at a packet that the receiver refused last.\<close>

definition stopped :: "'w receiver \<Rightarrow> 'cb NetPacket list \<Rightarrow> 'w \<Rightarrow> bool" where
  "stopped R ps w \<longleftrightarrow> ps = [] \<or> (\<exists>p ps' w' replies. ps = p # ps' \<and> R (sender p) (flags p) (pdata p) w' = (0, replies, w))"

lemma drains_stopped: "drains R ntf ps w ps' w' \<Longrightarrow> stopped R ps' w'"
  by (induction rule: drains.induct) (auto simp: stopped_def)

text \<open>What an accepted packet makes the receiver send weighs less than the packet.\<close>

definition weight :: "(nat \<times> u32 \<times> u8 list \<Rightarrow> nat) \<Rightarrow> 'cb NetPacket list \<Rightarrow> nat" where
  "weight W ps = sum_list (map (\<lambda>p. W (sender p, flags p, pdata p)) ps)"

definition answers_shrink :: "(nat \<times> u32 \<times> u8 list \<Rightarrow> nat) \<Rightarrow> 'w receiver \<Rightarrow> ('w \<Rightarrow> bool) \<Rightarrow> bool" where
  "answers_shrink W R ok \<longleftrightarrow>
    (\<forall>s f buf w ret replies w'. ok w \<longrightarrow> R s f buf w = (ret, replies, w') \<longrightarrow> ret \<noteq> 0 \<longrightarrow> sum_list (map W replies) < W (s, f, buf))"

lemma weight_simps [simp]:
  "weight W [] = 0" "weight W (p # ps) = W (sender p, flags p, pdata p) + weight W ps"
  "weight W (ps @ qs) = weight W ps + weight W qs"
  by (simp_all add: weight_def)

lemma weight_replies [simp]: "weight W (map reply_packet rs) = sum_list (map W rs)"
  by (induction rs) (auto simp: reply_packet_def)

section \<open>The interface of a queue\<close>

text \<open>A handler and callbacks that behave, as long as the state satisfies \<open>ok\<close>, like a receiver.\<close>

locale net_receiver =
  fixes D :: "('cb, 'w) deliver" and S :: "('cb, 'w) sent" and R :: "'w receiver"
    and ntf :: "'cb \<Rightarrow> nat \<Rightarrow> int \<Rightarrow> 'w \<Rightarrow> 'w" and ok :: "'w \<Rightarrow> bool"
  assumes deliver_law: "ok (opaque q) \<Longrightarrow> D s f buf q = answering R s f buf q"
    and sent_law: "ok (opaque q) \<Longrightarrow> S cb s ret q = telling ntf cb s ret q"
    and ok_receiver: "ok w \<Longrightarrow> R s f buf w = (ret, replies, w') \<Longrightarrow> ok w'"
    and ok_sent: "ok w \<Longrightarrow> ok (ntf cb s ret w)"
begin

lemma ok_notified: "ok w \<Longrightarrow> ok (notified ntf p ret w)"
  by (simp add: notified_def ok_sent split: option.split)

lemma deliver:
  assumes "ok (opaque q)" "\<not> delivering q" "R s f buf (opaque q) = (ret, replies, w)"
  shows "qemu_net_queue_deliver D s f buf q = Some (ret, q\<lparr>packets := packets q @ map reply_packet replies, opaque := w\<rparr>)"
  using assms by (cases q) (simp add: qemu_net_queue_deliver_def deliver_law answering_def append_replies)

lemma flush_step:
  assumes "R (sender p) (flags p) (pdata p) (opaque q) = (ret, replies, w)" "packets q = p # ps"
    and "\<not> delivering q" "ok (opaque q)"
  shows "qemu_net_queue_flush D S q =
    (if ret = 0 then Some (q\<lparr>packets := p # ps @ map reply_packet replies, opaque := w\<rparr>)
     else qemu_net_queue_flush D S (q\<lparr>packets := ps @ map reply_packet replies, opaque := notified ntf p ret w\<rparr>))"
proof -
  have "ok w" using ok_receiver assms by blast
  then show ?thesis
    using assms deliver [of "q\<lparr>packets := ps\<rparr>"] sent_law [of "q\<lparr>packets := ps @ map reply_packet replies, opaque := w\<rparr>"]
    by (subst qemu_net_queue_flush.simps) (simp add: telling_def notified_def split: option.split)
qed

lemma drains_ok: "drains R ntf ps w ps' w' \<Longrightarrow> ok w \<Longrightarrow> ok w'"
  by (induction rule: drains.induct) (auto intro: ok_receiver ok_notified)

lemma drains_flush:
  assumes "drains R ntf ps w ps' w'"
  shows "packets q = ps \<Longrightarrow> opaque q = w \<Longrightarrow> \<not> delivering q \<Longrightarrow> ok w \<Longrightarrow>
    qemu_net_queue_flush D S q = Some (q\<lparr>packets := ps', opaque := w'\<rparr>)"
  using assms
proof (induction arbitrary: q rule: drains.induct)
  case (drained w)
  then show ?case by (subst qemu_net_queue_flush.simps) (cases q, simp)
next
  case (refused p w replies w' ps)
  then show ?case using flush_step [of p q 0 replies w' ps] by simp
next
  case (accepted p w ret replies w' ps ps' v)
  then have "ok (notified ntf p ret w')" by (blast intro: ok_receiver ok_notified)
  with accepted show ?case using flush_step [of p q ret replies w' ps] by simp
qed

lemma drains_total:
  assumes "answers_shrink W R ok" "ok w"
  shows "\<exists>ps' w'. drains R ntf ps w ps' w'"
  using assms(2)
proof (induction "weight W ps" arbitrary: ps w rule: less_induct)
  case less
  show ?case
  proof (cases ps)
    case (Cons p qs)
    obtain ret replies v where r: "R (sender p) (flags p) (pdata p) w = (ret, replies, v)" by (metis prod_cases3)
    have v: "ok (notified ntf p ret v)" using less.prems r by (blast intro: ok_receiver ok_notified)
    show ?thesis
    proof (cases "ret = 0")
      case False
      then have "weight W (qs @ map reply_packet replies) < weight W ps"
        using assms(1) less.prems r Cons by (fastforce simp: answers_shrink_def)
      from less(1) [OF this v] r False Cons show ?thesis by (blast intro: accepted)
    qed (use r Cons in \<open>blast intro: refused\<close>)
  qed (blast intro: drained)
qed

lemma flush_returns:
  assumes "answers_shrink W R ok" "\<not> delivering q" "ok (opaque q)"
  shows "\<exists>ps w. qemu_net_queue_flush D S q = Some (q\<lparr>packets := ps, opaque := w\<rparr>) \<and>
    drains R ntf (packets q) (opaque q) ps w \<and> stopped R ps w \<and> ok w"
  using drains_total [OF assms(1,3)] drains_flush [OF _ refl refl assms(2,3)] drains_stopped drains_ok assms(3) by metis

end

interpretation any: net_receiver "answering R" "telling ntf" R ntf "\<lambda>_. True" for R ntf
  by unfold_locales simp_all

text \<open>C33: Flushing a packet queue returns, even when receivers answer with packets of their own, as
  long as the answers to an accepted packet weigh less than it and sent callbacks send nothing;
  it stops with an empty queue or at a packet just refused.\<close>

theorem net_queue_flush_returns:
  assumes "answers_shrink W R (\<lambda>_. True)" "\<not> delivering q"
  shows "\<exists>q'. qemu_net_queue_flush (answering R) (telling ntf) q = Some q' \<and> \<not> delivering q' \<and>
    stopped R (packets q') (opaque q')"
  using any.flush_returns [OF assms(1), of q] assms(2) by fastforce

section \<open>Order\<close>

text \<open>A receiver that sends nothing itself, with a log of what it accepted.\<close>

locale logged_receiver = net_receiver D S R ntf ok
  for D :: "('cb, 'w) deliver" and S :: "('cb, 'w) sent" and R :: "'w receiver" and ntf ok +
  fixes log :: "'w \<Rightarrow> 'k list" and key :: "u32 \<Rightarrow> u8 list \<Rightarrow> 'k"
  assumes log_law: "ok w \<Longrightarrow> R s f buf w = (ret, replies, w') \<Longrightarrow>
      replies = [] \<and> log w' = (if ret = 0 then log w else log w @ [key f buf])"
    and log_sent: "ok w \<Longrightarrow> log (ntf cb s ret w) = log w"
begin

definition key_of :: "'cb NetPacket \<Rightarrow> 'k" where
  "key_of p = key (flags p) (pdata p)"

text \<open>What was accepted, and what still waits.\<close>

definition accounted :: "('cb, 'w) NetQueue \<Rightarrow> 'k list" where
  "accounted q = log (opaque q) @ map key_of (packets q)"

lemma shrinks: "answers_shrink (\<lambda>_. 1) R ok"
  using log_law by (fastforce simp: answers_shrink_def)

lemma drains_log:
  assumes "drains R ntf ps w ps' w'"
  shows "ok w \<Longrightarrow> \<exists>ds. ps = ds @ ps' \<and> log w' = log w @ map key_of ds"
  using assms
proof (induction rule: drains.induct)
  case (refused p w replies w' ps)
  then show ?case using log_law [OF refused.prems refused.hyps] by simp
next
  case (accepted p w ret replies w' ps ps' v)
  have "ok w'" using accepted.prems accepted.hyps(1) by (blast intro: ok_receiver)
  then have "ok (notified ntf p ret w')" "log (notified ntf p ret w') = log w'"
    by (auto simp: notified_def log_sent ok_sent split: option.split)
  moreover have "replies = []" "log w' = log w @ [key_of p]"
    using log_law [OF accepted.prems accepted.hyps(1)] accepted.hyps(2) by (simp_all add: key_of_def)
  moreover obtain ds where "ps @ map reply_packet replies = ds @ ps'" "log v = log (notified ntf p ret w') @ map key_of ds"
    using accepted.IH calculation(1) by blast
  ultimately show ?case by (intro exI [of _ "p # ds"]) simp
qed simp

lemma flush_accounts:
  assumes "\<not> delivering q" "ok (opaque q)"
  shows "\<exists>ps w. qemu_net_queue_flush D S q = Some (q\<lparr>packets := ps, opaque := w\<rparr>) \<and> ok w \<and> stopped R ps w \<and>
    log w @ map key_of ps = accounted q"
proof -
  obtain ps w where f: "qemu_net_queue_flush D S q = Some (q\<lparr>packets := ps, opaque := w\<rparr>)"
      "drains R ntf (packets q) (opaque q) ps w" "stopped R ps w" "ok w"
    using flush_returns [OF shrinks assms] by blast
  obtain ds where "packets q = ds @ ps" "log w = log (opaque q) @ map key_of ds"
    using drains_log [OF f(2) assms(2)] by blast
  with f show ?thesis by (intro exI [of _ ps] exI [of _ w]) (simp add: accounted_def)
qed

lemma send_accounts:
  assumes "\<not> delivering q" "ok (opaque q)" "packets q = []"
  shows "\<exists>r ps w. qemu_net_queue_send D S s f buf cb q = Some (r, q\<lparr>packets := ps, opaque := w\<rparr>) \<and> ok w \<and>
    stopped R ps w \<and> log w @ map key_of ps = accounted q @ [key f buf]"
proof -
  obtain ret replies w where a: "R s f buf (opaque q) = (ret, replies, w)" by (metis prod_cases3)
  have w: "ok w" "replies = []" "log w = (if ret = 0 then log (opaque q) else log (opaque q) @ [key f buf])"
    using ok_receiver log_law a assms(2) by blast+
  have d: "qemu_net_queue_deliver D s f buf q = Some (ret, q\<lparr>opaque := w\<rparr>)"
    using deliver [OF assms(2,1) a] w(2) by (cases q) simp
  show ?thesis
  proof (cases "ret = 0")
    case True
    let ?p = "\<lparr>sender = s, flags = f, pdata = buf, sent_cb = cb\<rparr>"
    have "stopped R [?p] w" using a True by (auto simp: stopped_def)
    then show ?thesis
      using d w assms True
      by (intro exI [of _ 0] exI [of _ "[?p]"] exI [of _ w])
        (simp add: qemu_net_queue_send_def qemu_net_queue_append_def accounted_def key_of_def)
  next
    case False
    obtain ps v where f: "qemu_net_queue_flush D S (q\<lparr>opaque := w\<rparr>) = Some (q\<lparr>packets := ps, opaque := v\<rparr>)" "ok v"
        "stopped R ps v" "log v @ map key_of ps = accounted (q\<lparr>opaque := w\<rparr>)"
      using flush_accounts [of "q\<lparr>opaque := w\<rparr>"] assms(1) w(1) by auto
    then show ?thesis
      using d w(3) False assms by (auto simp: qemu_net_queue_send_def accounted_def)
  qed
qed

end

section \<open>Witness\<close>

text \<open>A receiver that accepts one packet more than its state says and answers a nonempty packet with its tail.\<close>

definition echo :: "nat receiver" where
  "echo s f buf w = (if w = 0 then (0, [], 0) else (1, if buf = [] then [] else [(s, f, tl buf)], w - 1))"

lemma echo_shrinks: "answers_shrink (\<lambda>(s, f, buf). Suc (length buf)) echo (\<lambda>_. True)"
  by (auto simp: answers_shrink_def echo_def split: if_splits)

theorem net_queue_flush_returns_witness:
  "\<exists>q'. qemu_net_queue_flush (answering echo) (telling (\<lambda>(cb :: unit) s ret w. w))
      \<lparr>packets = [\<lparr>sender = 1, flags = 0, pdata = [1, 2], sent_cb = None\<rparr>], delivering = False, opaque = 9\<rparr> = Some q' \<and>
    stopped echo (packets q') (opaque q')"
  using net_queue_flush_returns [OF echo_shrinks,
      of "\<lparr>packets = [\<lparr>sender = 1, flags = 0, pdata = [1, 2], sent_cb = None\<rparr>], delivering = False, opaque = 9\<rparr>"
        "\<lambda>(cb :: unit) s ret w. w"]
  by auto

end
