(* ===== verification/Net_Clients.thy ===== *)
theory Net_Clients
  imports Net_Queue
begin

text \<open>
  Network clients: peers and VLANs, \<open>qemu/net.c\<close>.

  \<^item> A client is a number. \<open>VLANClientState\<close> and \<open>NetClientInfo\<close> keep the fields that delivery uses; the
    handlers of \<open>NetClientInfo\<close> are a parameter of every operation, and the record says which are there.
  \<^item> Handlers get the whole network and may send and flush: the queue that is being worked on is put back into
    the network while a handler runs (\<open>leave\<close>) and taken out again (\<open>enter\<close>).
  \<^item> The clients of a VLAN are walked in the order they joined; a handler does not change that list meanwhile.
\<close>

unbundle bit_operations_syntax

section \<open>State\<close>

record NetClientInfo =
  has_receive_raw :: bool
  has_receive_iov :: bool
  has_can_receive :: bool

record VLANClientState =
  info :: NetClientInfo
  link_down :: bool
  vlan :: "nat option"
  peer :: "nat option"
  receive_disabled :: bool

datatype queue_id = Vlan_queue nat | Client_queue nat

record ('cb, 'd) net =
  clients :: "nat \<Rightarrow> VLANClientState"
  vlans :: "nat \<Rightarrow> nat list"
  queues :: "queue_id \<Rightarrow> 'cb NetPacket list \<times> bool"
  dev :: 'd

record ('cb, 'd) net_handlers =
  h_receive :: "nat \<Rightarrow> u8 list \<Rightarrow> ('cb, 'd) net \<Rightarrow> (int \<times> ('cb, 'd) net) option"
  h_receive_raw :: "nat \<Rightarrow> u8 list \<Rightarrow> ('cb, 'd) net \<Rightarrow> (int \<times> ('cb, 'd) net) option"
  h_receive_iov :: "nat \<Rightarrow> u8 list list \<Rightarrow> ('cb, 'd) net \<Rightarrow> (int \<times> ('cb, 'd) net) option"
  h_can_receive :: "nat \<Rightarrow> ('cb, 'd) net \<Rightarrow> bool"
  h_sent :: "'cb \<Rightarrow> nat \<Rightarrow> int \<Rightarrow> ('cb, 'd) net \<Rightarrow> ('cb, 'd) net option"

definition set_disabled :: "nat \<Rightarrow> bool \<Rightarrow> ('cb, 'd) net \<Rightarrow> ('cb, 'd) net" where
  "set_disabled c b N = N\<lparr>clients := (clients N)(c := (clients N c)\<lparr>receive_disabled := b\<rparr>)\<rparr>"

definition enter :: "queue_id \<Rightarrow> ('cb, 'd) net \<Rightarrow> ('cb, ('cb, 'd) net) NetQueue" where
  "enter i N = \<lparr>packets = fst (queues N i), delivering = snd (queues N i), opaque = N\<lparr>queues := (queues N)(i := ([], False))\<rparr>\<rparr>"

definition leave :: "queue_id \<Rightarrow> ('cb, ('cb, 'd) net) NetQueue \<Rightarrow> ('cb, 'd) net" where
  "leave i q = (opaque q)\<lparr>queues := (queues (opaque q))(i := (packets q, delivering q))\<rparr>"

section \<open>Delivery\<close>

definition QEMU_NET_PACKET_FLAG_NONE :: u32 where "QEMU_NET_PACKET_FLAG_NONE = 0"
definition QEMU_NET_PACKET_FLAG_RAW :: u32 where "QEMU_NET_PACKET_FLAG_RAW = 1"

definition client_receive :: "('cb, 'd) net_handlers \<Rightarrow> u32 \<Rightarrow> nat \<Rightarrow> u8 list \<Rightarrow> ('cb, 'd) net \<Rightarrow> (int \<times> ('cb, 'd) net) option" where
  "client_receive H f c data N =
    Option.bind ((if f AND QEMU_NET_PACKET_FLAG_RAW \<noteq> 0 \<and> has_receive_raw (info (clients N c)) then h_receive_raw H else h_receive H) c data N)
      (\<lambda>(ret, N). Some (ret, if ret = 0 then set_disabled c True N else N))"

definition qemu_deliver_packet ::
  "('cb, 'd) net_handlers \<Rightarrow> nat \<Rightarrow> nat \<Rightarrow> u32 \<Rightarrow> u8 list \<Rightarrow> ('cb, 'd) net \<Rightarrow> (int \<times> ('cb, 'd) net) option" where
  "qemu_deliver_packet H c s f data N =
    (if link_down (clients N c) then Some (int (length data), N)
     else if receive_disabled (clients N c) then Some (0, N)
     else client_receive H f c data N)"

fun vlan_deliver :: "('cb, 'd) net_handlers \<Rightarrow> nat \<Rightarrow> u32 \<Rightarrow> u8 list \<Rightarrow> nat list \<Rightarrow> int \<Rightarrow> ('cb, 'd) net \<Rightarrow>
    (int \<times> ('cb, 'd) net) option" where
  "vlan_deliver H s f buf [] ret N = Some (ret, N)"
| "vlan_deliver H s f buf (c # cs) ret N =
    (if c = s then vlan_deliver H s f buf cs ret N
     else if link_down (clients N c) then vlan_deliver H s f buf cs (int (length buf)) N
     else if receive_disabled (clients N c) then vlan_deliver H s f buf cs 0 N
     else Option.bind (client_receive H f c buf N)
            (\<lambda>(len, N). vlan_deliver H s f buf cs (if ret \<ge> 0 then ret else len) N))"

definition qemu_vlan_deliver_packet ::
  "('cb, 'd) net_handlers \<Rightarrow> nat \<Rightarrow> nat \<Rightarrow> u32 \<Rightarrow> u8 list \<Rightarrow> ('cb, 'd) net \<Rightarrow> (int \<times> ('cb, 'd) net) option" where
  "qemu_vlan_deliver_packet H v s f buf N = vlan_deliver H s f buf (vlans N v) (- 1) N"

definition vc_sendv_compat :: "('cb, 'd) net_handlers \<Rightarrow> nat \<Rightarrow> u8 list list \<Rightarrow> ('cb, 'd) net \<Rightarrow> (int \<times> ('cb, 'd) net) option" where
  "vc_sendv_compat H c iov N =
    h_receive H c (fold (\<lambda>fragment buffer. buffer @ take (min (4096 - length buffer) (length fragment)) fragment) iov []) N"

definition calc_iov_length :: "u8 list list \<Rightarrow> int" where
  "calc_iov_length iov = int (fold (\<lambda>fragment offset. offset + length fragment) iov 0)"

definition qemu_deliver_packet_iov ::
  "('cb, 'd) net_handlers \<Rightarrow> nat \<Rightarrow> nat \<Rightarrow> u32 \<Rightarrow> u8 list list \<Rightarrow> ('cb, 'd) net \<Rightarrow> (int \<times> ('cb, 'd) net) option" where
  "qemu_deliver_packet_iov H c s f iov N =
    (if link_down (clients N c) then Some (calc_iov_length iov, N)
     else if has_receive_iov (info (clients N c)) then h_receive_iov H c iov N
     else vc_sendv_compat H c iov N)"

text \<open>A failing assertion has no result.\<close>

fun vlan_deliver_iov :: "('cb, 'd) net_handlers \<Rightarrow> nat \<Rightarrow> u32 \<Rightarrow> u8 list list \<Rightarrow> nat list \<Rightarrow> int \<Rightarrow> ('cb, 'd) net \<Rightarrow>
    (int \<times> ('cb, 'd) net) option" where
  "vlan_deliver_iov H s f iov [] ret N = Some (ret, N)"
| "vlan_deliver_iov H s f iov (c # cs) ret N =
    (if c = s then vlan_deliver_iov H s f iov cs ret N
     else if link_down (clients N c) then vlan_deliver_iov H s f iov cs (calc_iov_length iov) N
     else if f AND QEMU_NET_PACKET_FLAG_RAW \<noteq> 0 then None
     else Option.bind (if has_receive_iov (info (clients N c)) then h_receive_iov H c iov N else vc_sendv_compat H c iov N)
            (\<lambda>(len, N). vlan_deliver_iov H s f iov cs (if ret \<ge> 0 then ret else len) N))"

definition qemu_vlan_deliver_packet_iov ::
  "('cb, 'd) net_handlers \<Rightarrow> nat \<Rightarrow> nat \<Rightarrow> u32 \<Rightarrow> u8 list list \<Rightarrow> ('cb, 'd) net \<Rightarrow> (int \<times> ('cb, 'd) net) option" where
  "qemu_vlan_deliver_packet_iov H v s f iov N = vlan_deliver_iov H s f iov (vlans N v) (- 1) N"

text \<open>The handlers of the queues.\<close>

definition queue_deliver :: "('cb, 'd) net_handlers \<Rightarrow> queue_id \<Rightarrow> ('cb, ('cb, 'd) net) deliver" where
  "queue_deliver H i s f buf q =
    map_option (\<lambda>(ret, N). (ret, enter i N))
      ((case i of Vlan_queue v \<Rightarrow> qemu_vlan_deliver_packet H v | Client_queue c \<Rightarrow> qemu_deliver_packet H c) s f buf (leave i q))"

definition queue_deliver_iov :: "('cb, 'd) net_handlers \<Rightarrow> queue_id \<Rightarrow>
    nat \<Rightarrow> u32 \<Rightarrow> u8 list list \<Rightarrow> ('cb, ('cb, 'd) net) NetQueue \<Rightarrow> (int \<times> ('cb, ('cb, 'd) net) NetQueue) option" where
  "queue_deliver_iov H i s f iov q =
    map_option (\<lambda>(ret, N). (ret, enter i N))
      ((case i of Vlan_queue v \<Rightarrow> qemu_vlan_deliver_packet_iov H v | Client_queue c \<Rightarrow> qemu_deliver_packet_iov H c) s f iov (leave i q))"

definition queue_sent :: "('cb, 'd) net_handlers \<Rightarrow> queue_id \<Rightarrow> ('cb, ('cb, 'd) net) sent" where
  "queue_sent H i cb s ret q = map_option (enter i) (h_sent H cb s ret (leave i q))"

section \<open>Operations of a client\<close>

definition qemu_can_send_packet :: "('cb, 'd) net_handlers \<Rightarrow> nat \<Rightarrow> ('cb, 'd) net \<Rightarrow> bool" where
  "qemu_can_send_packet H s N =
    (case peer (clients N s) of
       Some p \<Rightarrow>
         if receive_disabled (clients N p) then False
         else if has_can_receive (info (clients N p)) \<and> \<not> h_can_receive H p N then False
         else True
     | None \<Rightarrow>
         (case vlan (clients N s) of None \<Rightarrow> True
          | Some v \<Rightarrow>
              list_ex (\<lambda>c. c \<noteq> s \<and> (\<not> has_can_receive (info (clients N c)) \<or> h_can_receive H c N)) (vlans N v)))"

definition send_queue :: "nat \<Rightarrow> ('cb, 'd) net \<Rightarrow> queue_id option" where
  "send_queue c N =
    (case peer (clients N c) of Some p \<Rightarrow> Some (Client_queue p) | None \<Rightarrow> map_option Vlan_queue (vlan (clients N c)))"

definition qemu_purge_queued_packets :: "nat \<Rightarrow> ('cb, 'd) net \<Rightarrow> ('cb, 'd) net" where
  "qemu_purge_queued_packets c N =
    (case send_queue c N of None \<Rightarrow> N | Some i \<Rightarrow> leave i (qemu_net_queue_purge c (enter i N)))"

definition qemu_flush_queued_packets :: "('cb, 'd) net_handlers \<Rightarrow> nat \<Rightarrow> ('cb, 'd) net \<Rightarrow> ('cb, 'd) net option" where
  "qemu_flush_queued_packets H c N =
    (let N = set_disabled c False N;
         i = (case vlan (clients N c) of Some v \<Rightarrow> Vlan_queue v | None \<Rightarrow> Client_queue c)
     in map_option (leave i) (qemu_net_queue_flush (queue_deliver H i) (queue_sent H i) (enter i N)))"

definition qemu_send_packet_async_with_flags ::
  "('cb, 'd) net_handlers \<Rightarrow> nat \<Rightarrow> u32 \<Rightarrow> u8 list \<Rightarrow> 'cb option \<Rightarrow> ('cb, 'd) net \<Rightarrow> (int \<times> ('cb, 'd) net) option" where
  "qemu_send_packet_async_with_flags H s f buf cb N =
    (if link_down (clients N s) then Some (int (length buf), N)
     else case send_queue s N of None \<Rightarrow> Some (int (length buf), N)
     | Some i \<Rightarrow>
         map_option (\<lambda>(ret, q). (ret, leave i q))
           (qemu_net_queue_send (queue_deliver H i) (queue_sent H i) s f buf cb (enter i N)))"

definition qemu_send_packet_async ::
  "('cb, 'd) net_handlers \<Rightarrow> nat \<Rightarrow> u8 list \<Rightarrow> 'cb option \<Rightarrow> ('cb, 'd) net \<Rightarrow> (int \<times> ('cb, 'd) net) option" where
  "qemu_send_packet_async H s buf cb N = qemu_send_packet_async_with_flags H s QEMU_NET_PACKET_FLAG_NONE buf cb N"

definition qemu_send_packet :: "('cb, 'd) net_handlers \<Rightarrow> nat \<Rightarrow> u8 list \<Rightarrow> ('cb, 'd) net \<Rightarrow> ('cb, 'd) net option" where
  "qemu_send_packet H s buf N = map_option snd (qemu_send_packet_async H s buf None N)"

definition qemu_send_packet_raw :: "('cb, 'd) net_handlers \<Rightarrow> nat \<Rightarrow> u8 list \<Rightarrow> ('cb, 'd) net \<Rightarrow> (int \<times> ('cb, 'd) net) option" where
  "qemu_send_packet_raw H s buf N = qemu_send_packet_async_with_flags H s QEMU_NET_PACKET_FLAG_RAW buf None N"

definition qemu_sendv_packet_async ::
  "('cb, 'd) net_handlers \<Rightarrow> nat \<Rightarrow> u8 list list \<Rightarrow> 'cb option \<Rightarrow> ('cb, 'd) net \<Rightarrow> (int \<times> ('cb, 'd) net) option" where
  "qemu_sendv_packet_async H s iov cb N =
    (if link_down (clients N s) then Some (calc_iov_length iov, N)
     else case send_queue s N of None \<Rightarrow> Some (calc_iov_length iov, N)
     | Some i \<Rightarrow>
         map_option (\<lambda>(ret, q). (ret, leave i q))
           (qemu_net_queue_send_iov (queue_deliver_iov H i) (queue_deliver H i) (queue_sent H i) s
              QEMU_NET_PACKET_FLAG_NONE iov cb (enter i N)))"

definition qemu_sendv_packet :: "('cb, 'd) net_handlers \<Rightarrow> nat \<Rightarrow> u8 list list \<Rightarrow> ('cb, 'd) net \<Rightarrow> (int \<times> ('cb, 'd) net) option" where
  "qemu_sendv_packet H s iov N = qemu_sendv_packet_async H s iov None N"

text \<open>Joining: a client without a VLAN gets a queue of its own and, if it has a peer, becomes its peer. \<open>c\<close> is the
  new client.\<close>

definition qemu_new_net_client :: "nat \<Rightarrow> NetClientInfo \<Rightarrow> nat option \<Rightarrow> nat option \<Rightarrow> ('cb, 'd) net \<Rightarrow> ('cb, 'd) net option" where
  "qemu_new_net_client c i v p N =
    (let vc = \<lparr>info = i, link_down = False, vlan = None, peer = None, receive_disabled = False\<rparr>
     in case v of
          Some v \<Rightarrow>
            if p \<noteq> None then None
            else Some (N\<lparr>clients := (clients N)(c := vc\<lparr>vlan := Some v\<rparr>), vlans := (vlans N)(v := vlans N v @ [c])\<rparr>)
        | None \<Rightarrow>
            let N' = N\<lparr>queues := (queues N)(Client_queue c := ([], False))\<rparr>
            in (case p of
                  None \<Rightarrow> Some (N'\<lparr>clients := (clients N)(c := vc)\<rparr>)
                | Some p' \<Rightarrow>
                    if peer (clients N p') \<noteq> None then None
                    else Some (N'\<lparr>clients := (clients N)(c := vc\<lparr>peer := p\<rparr>, p' := (clients N p')\<lparr>peer := Some c\<rparr>)\<rparr>)))"

section \<open>Fragments\<close>

lemma calc_iov_length_concat: "calc_iov_length iov = int (length (concat iov))"
proof -
  have "fold (\<lambda>fragment offset. offset + length fragment) iov n = n + length (concat iov)" for n and iov :: "u8 list list"
    by (induction iov arbitrary: n) simp_all
  then show ?thesis by (simp add: calc_iov_length_def)
qed

text \<open>A client without an I/O-vector handler sees at most 4096 bytes.\<close>

lemma vc_sendv_compat_truncates: "vc_sendv_compat H c iov N = h_receive H c (take 4096 (concat iov)) N"
proof -
  have "fold (\<lambda>fragment buffer. buffer @ take (min (4096 - length buffer) (length fragment)) fragment) iov xs = take 4096 (xs @ concat iov)"
    if "length xs \<le> 4096" for xs and iov :: "u8 list list"
    using that
  proof (induction iov arbitrary: xs)
    case (Cons x iov)
    let ?f = "fold (\<lambda>fragment buffer. buffer @ take (min (4096 - length buffer) (length fragment)) fragment)"
    have "xs @ take (min (4096 - length xs) (length x)) x = take 4096 (xs @ x)" using Cons.prems by (simp add: min_def)
    then have "?f (x # iov) xs = ?f iov (take 4096 (xs @ x))" by simp
    also have "\<dots> = take 4096 (take 4096 (xs @ x) @ concat iov)" by (rule Cons.IH) simp
    also have "\<dots> = take 4096 (xs @ concat (x # iov))" using Cons.prems by (cases "length (xs @ x) \<le> 4096") (simp_all add: min_def)
    finally show ?case .
  qed simp
  then show ?thesis by (simp add: vc_sendv_compat_def)
qed

section \<open>A link between two peers\<close>

text \<open>Devices that send nothing while they receive: what the handler does is a function of what it sees and of
  the devices' state, next to which every client has a log of what it accepted.\<close>

type_synonym 'v logged = "(nat \<Rightarrow> (bool \<times> u8 list) list) \<times> 'v"

definition log_receive :: "(nat \<Rightarrow> bool \<Rightarrow> u8 list \<Rightarrow> 'v \<Rightarrow> int \<times> 'v) \<Rightarrow> bool \<Rightarrow> nat \<Rightarrow> u8 list \<Rightarrow>
    ('cb, 'v logged) net \<Rightarrow> int \<times> ('cb, 'v logged) net" where
  "log_receive A raw c buf N =
    (let (ret, v) = A c raw buf (snd (dev N)); l = fst (dev N)
     in (ret, N\<lparr>dev := (if ret = 0 then l else l(c := l c @ [(raw, buf)]), v)\<rparr>))"

definition logging_handlers :: "(nat \<Rightarrow> bool \<Rightarrow> u8 list \<Rightarrow> 'v \<Rightarrow> int \<times> 'v) \<Rightarrow> ('cb \<Rightarrow> nat \<Rightarrow> int \<Rightarrow> 'v \<Rightarrow> 'v) \<Rightarrow>
    ('cb, 'v logged) net_handlers" where
  "logging_handlers A G =
    \<lparr>h_receive = (\<lambda>c buf N. Some (log_receive A False c buf N)),
     h_receive_raw = (\<lambda>c buf N. Some (log_receive A True c buf N)),
     h_receive_iov = (\<lambda>c iov N. Some (log_receive A False c (concat iov) N)),
     h_can_receive = (\<lambda>c N. True),
     h_sent = (\<lambda>cb s ret N. Some (N\<lparr>dev := (fst (dev N), G cb s ret (snd (dev N)))\<rparr>))\<rparr>"

lemma log_receive_frame:
  assumes "log_receive A raw c buf N = (ret, N')"
  shows "clients N' = clients N" "queues N' = queues N" "vlans N' = vlans N"
    "fst (dev N') = (if ret = 0 then fst (dev N) else (fst (dev N))(c := fst (dev N) c @ [(raw, buf)]))"
  using assms by (auto simp: log_receive_def Let_def split_beta)

definition is_raw :: "bool \<Rightarrow> u32 \<Rightarrow> bool" where
  "is_raw rw f \<longleftrightarrow> f AND QEMU_NET_PACKET_FLAG_RAW \<noteq> 0 \<and> rw"

text \<open>The receiving end of the link, client \<open>b\<close>.\<close>

definition link_receiver :: "(nat \<Rightarrow> bool \<Rightarrow> u8 list \<Rightarrow> 'v \<Rightarrow> int \<times> 'v) \<Rightarrow> nat \<Rightarrow> ('cb, 'v logged) net receiver" where
  "link_receiver A b s f buf N =
    (if receive_disabled (clients N b) then (0, [], N)
     else let (ret, N) = log_receive A (is_raw (has_receive_raw (info (clients N b))) f) b buf N
          in (ret, [], if ret = 0 then set_disabled b True N else N))"

definition link_sent :: "('cb \<Rightarrow> nat \<Rightarrow> int \<Rightarrow> 'v \<Rightarrow> 'v) \<Rightarrow> 'cb \<Rightarrow> nat \<Rightarrow> int \<Rightarrow> ('cb, 'v logged) net \<Rightarrow> ('cb, 'v logged) net" where
  "link_sent G cb s ret N = N\<lparr>dev := (fst (dev N), G cb s ret (snd (dev N)))\<rparr>"

definition link_state :: "nat \<Rightarrow> nat \<Rightarrow> bool \<Rightarrow> ('cb, 'd) net \<Rightarrow> bool" where
  "link_state a b rw N \<longleftrightarrow>
    (\<not> link_down (clients N a) \<and> peer (clients N a) = Some b) \<and>
    (\<not> link_down (clients N b) \<and> vlan (clients N b) = None \<and> has_receive_raw (info (clients N b)) = rw)"

definition taken_out :: "nat \<Rightarrow> nat \<Rightarrow> bool \<Rightarrow> ('cb, 'd) net \<Rightarrow> bool" where
  "taken_out a b rw N \<longleftrightarrow> link_state a b rw N \<and> queues N (Client_queue b) = ([], False)"

lemma set_disabled_frame [simp]:
  "queues (set_disabled c d N) = queues N" "dev (set_disabled c d N) = dev N" "vlans (set_disabled c d N) = vlans N"
  "clients (set_disabled c d N) = (clients N)(c := (clients N c)\<lparr>receive_disabled := d\<rparr>)"
  by (simp_all add: set_disabled_def)

lemma link_state_set_disabled [simp]: "link_state a b rw (set_disabled c d N) = link_state a b rw N"
  by (auto simp: link_state_def)

lemma link_state_cong: "clients N' = clients N \<Longrightarrow> link_state a b rw N' = link_state a b rw N"
  by (simp add: link_state_def)

lemma enter_leave: "queues (opaque q) i = ([], False) \<Longrightarrow> enter i (leave i q) = q"
  by (cases q) (simp add: enter_def leave_def fun_upd_idem)

lemma leave_enter [simp]: "leave i (enter i N) = N"
  by (cases N) (simp add: enter_def leave_def)

interpretation link: logged_receiver
  "queue_deliver (logging_handlers A G) (Client_queue b)" "queue_sent (logging_handlers A G) (Client_queue b)"
  "link_receiver A b" "link_sent G" "taken_out a b rw" "\<lambda>N. fst (dev N) b" "\<lambda>f buf. (is_raw rw f, buf)"
  for A :: "nat \<Rightarrow> bool \<Rightarrow> u8 list \<Rightarrow> 'v \<Rightarrow> int \<times> 'v" and G :: "'cb \<Rightarrow> nat \<Rightarrow> int \<Rightarrow> 'v \<Rightarrow> 'v" and a b rw
proof unfold_locales
  fix q :: "('cb, ('cb, 'v logged) net) NetQueue" and s f buf
  assume ok: "taken_out a b rw (opaque q)"
  let ?i = "Client_queue b" and ?N = "leave (Client_queue b) q"
  have e: "enter ?i ?N = q" using ok by (simp add: taken_out_def enter_leave)
  have c: "clients ?N = clients (opaque q)" by (simp add: leave_def)
  obtain ret v where A: "A b (is_raw rw f) buf (snd (dev (opaque q))) = (ret, v)" by fastforce
  show "queue_deliver (logging_handlers A G) ?i s f buf q = answering (link_receiver A b) s f buf q"
    using ok A e c
    by (cases q) (auto simp: queue_deliver_def qemu_deliver_packet_def client_receive_def answering_def link_receiver_def
        logging_handlers_def log_receive_def taken_out_def link_state_def is_raw_def enter_def leave_def set_disabled_def fun_upd_idem Let_def)
next
  fix q :: "('cb, ('cb, 'v logged) net) NetQueue" and cb s ret
  assume ok: "taken_out a b rw (opaque q)"
  then show "queue_sent (logging_handlers A G) (Client_queue b) cb s ret q = telling (link_sent G) cb s ret q"
    by (cases q) (auto simp: queue_sent_def telling_def link_sent_def logging_handlers_def taken_out_def enter_def leave_def fun_upd_idem)
next
  fix w w' :: "('cb, 'v logged) net" and s f buf ret replies
  assume ok: "taken_out a b rw w" and r: "link_receiver A b s f buf w = (ret, replies, w')"
  from ok r log_receive_frame [of A "is_raw rw f" b buf w] show "taken_out a b rw w'"
    by (auto simp: link_receiver_def taken_out_def link_state_def split: if_splits prod.splits)
  from ok r log_receive_frame [of A "is_raw rw f" b buf w]
  show "replies = [] \<and> fst (dev w') b = (if ret = 0 then fst (dev w) b else fst (dev w) b @ [(is_raw rw f, buf)])"
    by (auto simp: link_receiver_def taken_out_def link_state_def split: if_splits prod.splits)
next
  fix w :: "('cb, 'v logged) net" and cb s ret
  assume "taken_out a b rw w"
  then show "taken_out a b rw (link_sent G cb s ret w)" "fst (dev (link_sent G cb s ret w)) b = fst (dev w) b"
    by (auto simp: link_sent_def taken_out_def link_state_def)
qed

text \<open>What happens on the link: \<open>a\<close> sends, \<open>b\<close> announces that it can take packets again, the devices change.\<close>

datatype ('cb, 'v) link_event = Link_send u32 "u8 list" "'cb option" | Link_ready | Link_device "'v \<Rightarrow> 'v"

fun link_step :: "(nat \<Rightarrow> bool \<Rightarrow> u8 list \<Rightarrow> 'v \<Rightarrow> int \<times> 'v) \<Rightarrow> ('cb \<Rightarrow> nat \<Rightarrow> int \<Rightarrow> 'v \<Rightarrow> 'v) \<Rightarrow> nat \<Rightarrow> nat \<Rightarrow>
    ('cb, 'v) link_event \<Rightarrow> ('cb, 'v logged) net \<Rightarrow> ('cb, 'v logged) net option" where
  "link_step A G a b (Link_send f buf cb) N =
    map_option snd (qemu_send_packet_async_with_flags (logging_handlers A G) a f buf cb N)"
| "link_step A G a b Link_ready N = qemu_flush_queued_packets (logging_handlers A G) b N"
| "link_step A G a b (Link_device g) N = Some (N\<lparr>dev := (fst (dev N), g (snd (dev N)))\<rparr>)"

fun link_run where
  "link_run A G a b [] N = Some N"
| "link_run A G a b (e # es) N = Option.bind (link_step A G a b e N) (link_run A G a b es)"

abbreviation (input) waiting :: "nat \<Rightarrow> ('cb, 'd) net \<Rightarrow> 'cb NetPacket list" where
  "waiting b N \<equiv> fst (queues N (Client_queue b))"

text \<open>
  The rule of \<open>net/queue.c\<close>: every send has a sent callback, and whoever was answered zero sends nothing more until
  told that the packet left.
\<close>

fun link_rule where
  "link_rule A G a b [] N \<longleftrightarrow> True"
| "link_rule A G a b (e # es) N \<longleftrightarrow>
    (case e of Link_send f buf cb \<Rightarrow> cb \<noteq> None \<and> waiting b N = [] | _ \<Rightarrow> True) \<and>
    (case link_step A G a b e N of None \<Rightarrow> True | Some N' \<Rightarrow> link_rule A G a b es N')"

definition packets_sent :: "bool \<Rightarrow> ('cb, 'v) link_event list \<Rightarrow> (bool \<times> u8 list) list" where
  "packets_sent rw es = concat (map (\<lambda>e. case e of Link_send f buf cb \<Rightarrow> [(is_raw rw f, buf)] | _ \<Rightarrow> []) es)"

definition packets_waiting :: "bool \<Rightarrow> nat \<Rightarrow> ('cb, 'd) net \<Rightarrow> (bool \<times> u8 list) list" where
  "packets_waiting rw b N = map (\<lambda>p. (is_raw rw (flags p), pdata p)) (waiting b N)"

text \<open>A working link: packets wait only while the receiver is disabled.\<close>

definition link_ok :: "nat \<Rightarrow> nat \<Rightarrow> bool \<Rightarrow> ('cb, 'd) net \<Rightarrow> bool" where
  "link_ok a b rw N \<longleftrightarrow> link_state a b rw N \<and> \<not> snd (queues N (Client_queue b)) \<and>
    (waiting b N \<noteq> [] \<longrightarrow> receive_disabled (clients N b))"

lemma enter_simps [simp]:
  "packets (enter i N) = fst (queues N i)" "delivering (enter i N) = snd (queues N i)"
  "clients (opaque (enter i N)) = clients N" "dev (opaque (enter i N)) = dev N"
  "queues (opaque (enter i N)) i = ([], False)"
  by (simp_all add: enter_def)

lemma leave_simps [simp]:
  "clients (leave i q) = clients (opaque q)" "dev (leave i q) = dev (opaque q)"
  "queues (leave i q) i = (packets q, delivering q)"
  by (simp_all add: leave_def)

lemma taken_out_enter: "taken_out a b rw (opaque (enter (Client_queue b) N)) = link_state a b rw N"
  by (simp add: taken_out_def link_state_def)

lemma stopped_disabled:
  assumes "stopped (link_receiver A b) ps w" "ps \<noteq> []"
  shows "receive_disabled (clients w b)"
  using assms by (auto simp: stopped_def link_receiver_def split: if_splits prod.splits)

lemma link_ok_leave:
  assumes "taken_out a b rw w" "stopped (link_receiver A b) ps w" "\<not> delivering q"
  shows "link_ok a b rw (leave (Client_queue b) (q\<lparr>packets := ps, opaque := w\<rparr>))"
  using assms stopped_disabled [OF assms(2)] by (simp add: link_ok_def taken_out_def link_state_def)

lemma link_ready:
  assumes "link_ok a b rw N"
  shows "\<exists>N'. link_step A G a b Link_ready N = Some N' \<and> link_ok a b rw N' \<and>
    fst (dev N') b @ packets_waiting rw b N' = fst (dev N) b @ packets_waiting rw b N"
proof -
  let ?q = "enter (Client_queue b) (set_disabled b False N)"
  have q: "\<not> delivering ?q" "taken_out a b rw (opaque ?q)"
    using assms unfolding taken_out_enter by (simp_all add: link_ok_def)
  obtain ps w where f: "qemu_net_queue_flush (queue_deliver (logging_handlers A G) (Client_queue b))
        (queue_sent (logging_handlers A G) (Client_queue b)) ?q = Some (?q\<lparr>packets := ps, opaque := w\<rparr>)"
      "taken_out a b rw w" "stopped (link_receiver A b) ps w"
      "fst (dev w) b @ map (link.key_of rw) ps = link.accounted b rw ?q"
    using link.flush_accounts [OF q] by blast
  have "vlan (clients N b) = None" using assms by (simp add: link_ok_def link_state_def)
  with f q(1) link_ok_leave [OF f(2,3) q(1)] show ?thesis
    by (simp add: qemu_flush_queued_packets_def Let_def packets_waiting_def link.accounted_def link.key_of_def [abs_def])
qed

lemma link_send:
  assumes "link_ok a b rw N" "waiting b N = []"
  shows "\<exists>N'. link_step A G a b (Link_send f buf cb) N = Some N' \<and> link_ok a b rw N' \<and>
    fst (dev N') b @ packets_waiting rw b N' = fst (dev N) b @ packets_waiting rw b N @ [(is_raw rw f, buf)]"
proof -
  let ?q = "enter (Client_queue b) N"
  have q: "\<not> delivering ?q" "taken_out a b rw (opaque ?q)" "packets ?q = []"
    using assms unfolding taken_out_enter by (simp_all add: link_ok_def)
  obtain r ps w where f: "qemu_net_queue_send (queue_deliver (logging_handlers A G) (Client_queue b))
        (queue_sent (logging_handlers A G) (Client_queue b)) a f buf cb ?q = Some (r, ?q\<lparr>packets := ps, opaque := w\<rparr>)"
      "taken_out a b rw w" "stopped (link_receiver A b) ps w"
      "fst (dev w) b @ map (link.key_of rw) ps = link.accounted b rw ?q @ [(is_raw rw f, buf)]"
    using link.send_accounts [OF q] by blast
  have "send_queue a N = Some (Client_queue b)" "\<not> link_down (clients N a)"
    using assms(1) by (simp_all add: link_ok_def link_state_def send_queue_def)
  with f q(1) link_ok_leave [OF f(2,3) q(1)] show ?thesis
    by (simp add: qemu_send_packet_async_with_flags_def packets_waiting_def link.accounted_def link.key_of_def [abs_def])
qed

text \<open>C17: Between two network peers, a sender that keeps the rule of the queue (a sent callback
  with every packet, and none sent while one waits) loses nothing: in every run of such sends,
  flushes and device changes, what the receiver accepted followed by what waits is what was
  sent, in order, and packets wait only while the receiver is disabled.\<close>

theorem net_link_in_order:
  assumes "link_rule A G a b es N" "link_ok a b rw N"
  shows "\<exists>N'. link_run A G a b es N = Some N' \<and>
    fst (dev N') b @ packets_waiting rw b N' = fst (dev N) b @ packets_waiting rw b N @ packets_sent rw es \<and>
    (packets_waiting rw b N' \<noteq> [] \<longrightarrow> receive_disabled (clients N' b))"
  using assms
proof (induction es arbitrary: N)
  case Nil
  then show ?case by (simp add: packets_sent_def link_ok_def packets_waiting_def)
next
  case (Cons e es)
  have "\<exists>N'. link_step A G a b e N = Some N' \<and> link_ok a b rw N' \<and>
      fst (dev N') b @ packets_waiting rw b N' = fst (dev N) b @ packets_waiting rw b N @ packets_sent rw [e]"
  proof (cases e)
    case (Link_send f buf cb)
    then show ?thesis using link_send [of a b rw N A G f buf cb] Cons.prems by (simp add: packets_sent_def)
  next
    case Link_ready
    then show ?thesis using link_ready [of a b rw N A G] Cons.prems by (simp add: packets_sent_def)
  next
    case (Link_device g)
    then show ?thesis using Cons.prems by (simp add: packets_sent_def packets_waiting_def link_ok_def link_state_def)
  qed
  then obtain N' where N': "link_step A G a b e N = Some N'" "link_ok a b rw N'"
      "fst (dev N') b @ packets_waiting rw b N' = fst (dev N) b @ packets_waiting rw b N @ packets_sent rw [e]" by blast
  moreover have "packets_sent rw (e # es) = packets_sent rw [e] @ packets_sent rw es" by (simp add: packets_sent_def)
  ultimately show ?case using Cons.IH [of N'] Cons.prems by (auto simp flip: append_assoc)
qed

section \<open>A broadcast on a VLAN\<close>

definition can_take :: "nat \<Rightarrow> nat \<Rightarrow> ('cb, 'd) net \<Rightarrow> bool" where
  "can_take s c N \<longleftrightarrow> c \<noteq> s \<and> \<not> link_down (clients N c) \<and> \<not> receive_disabled (clients N c)"

text \<open>A client accepted a packet, or refused it and is disabled until it flushes.\<close>

definition took_or_disabled :: "u32 \<Rightarrow> u8 list \<Rightarrow> nat \<Rightarrow> ('cb, 'v logged) net \<Rightarrow> ('cb, 'v logged) net \<Rightarrow> bool" where
  "took_or_disabled f buf c N N' \<longleftrightarrow>
    (if receive_disabled (clients N' c) then fst (dev N') c = fst (dev N) c
     else fst (dev N') c = fst (dev N) c @ [(is_raw (has_receive_raw (info (clients N c))) f, buf)])"

definition untouched :: "nat \<Rightarrow> ('cb, 'v logged) net \<Rightarrow> ('cb, 'v logged) net \<Rightarrow> bool" where
  "untouched c N N' \<longleftrightarrow> fst (dev N') c = fst (dev N) c \<and> clients N' c = clients N c"

lemma client_receive_logging:
  assumes "\<not> receive_disabled (clients N c)"
  shows "\<exists>len N'. client_receive (logging_handlers A G) f c buf N = Some (len, N') \<and> took_or_disabled f buf c N N' \<and>
    (\<forall>d. d \<noteq> c \<longrightarrow> untouched d N N') \<and> (\<forall>d. link_down (clients N' d) = link_down (clients N d))"
proof -
  let ?raw = "is_raw (has_receive_raw (info (clients N c))) f"
  obtain len M where r: "log_receive A ?raw c buf N = (len, M)" by fastforce
  have "client_receive (logging_handlers A G) f c buf N = Some (len, if len = 0 then set_disabled c True M else M)"
    using r by (auto simp: client_receive_def logging_handlers_def is_raw_def)
  with assms log_receive_frame [OF r] show ?thesis by (auto simp: took_or_disabled_def untouched_def)
qed

lemma untouched_trans: "untouched c N M \<Longrightarrow> untouched c M K \<Longrightarrow> untouched c N K"
  by (simp add: untouched_def)

lemma took_untouched:
  "took_or_disabled f buf c N M \<Longrightarrow> untouched c M K \<Longrightarrow> took_or_disabled f buf c N K"
  "untouched c N M \<Longrightarrow> took_or_disabled f buf c M K \<Longrightarrow> took_or_disabled f buf c N K"
  by (simp_all add: took_or_disabled_def untouched_def)

lemma vlan_deliver_logging:
  assumes "distinct cs"
  shows "\<exists>r N'. vlan_deliver (logging_handlers A G) s f buf cs ret N = Some (r, N') \<and>
    (\<forall>c. if c \<in> set cs \<and> can_take s c N then took_or_disabled f buf c N N' else untouched c N N')"
  using assms
proof (induction cs arbitrary: ret N)
  case (Cons c cs)
  show ?case
  proof (cases "can_take s c N")
    case True
    obtain len M where m: "client_receive (logging_handlers A G) f c buf N = Some (len, M)" "took_or_disabled f buf c N M"
        "\<And>d. d \<noteq> c \<Longrightarrow> untouched d N M"
      using client_receive_logging [of N c A G f buf] True by (auto simp: can_take_def)
    obtain r K where k: "vlan_deliver (logging_handlers A G) s f buf cs (if ret \<ge> 0 then ret else len) M = Some (r, K)"
        "\<And>d. if d \<in> set cs \<and> can_take s d M then took_or_disabled f buf d M K else untouched d M K"
      using Cons.IH [of "if ret \<ge> 0 then ret else len" M] Cons.prems by auto
    have same: "can_take s d M = can_take s d N" if "d \<noteq> c" for d
      using m(3) [OF that] by (simp add: can_take_def untouched_def)
    have "if d \<in> set (c # cs) \<and> can_take s d N then took_or_disabled f buf d N K else untouched d N K" for d
    proof (cases "d = c")
      case True
      then show ?thesis using k(2) [of c] Cons.prems m(2) \<open>can_take s c N\<close> by (auto intro: took_untouched)
    next
      case False
      then show ?thesis using k(2) [of d] m(3) [OF False] same [OF False]
        by (auto split: if_splits intro: took_untouched untouched_trans)
    qed
    with True m(1) k(1) show ?thesis by (auto simp: can_take_def)
  next
    case False
    have "\<exists>ret'. vlan_deliver (logging_handlers A G) s f buf (c # cs) ret N = vlan_deliver (logging_handlers A G) s f buf cs ret' N"
      using False by (auto simp: can_take_def)
    then obtain ret' where "vlan_deliver (logging_handlers A G) s f buf (c # cs) ret N =
        vlan_deliver (logging_handlers A G) s f buf cs ret' N" by blast
    then show ?thesis using Cons.IH [of ret' N] Cons.prems False by fastforce
  qed
qed (simp add: untouched_def)

theorem net_vlan_broadcast:
  assumes "distinct (vlans N v)"
  shows "\<exists>r N'. qemu_vlan_deliver_packet (logging_handlers A G) v s f buf N = Some (r, N') \<and>
    (\<forall>c. if c \<in> set (vlans N v) \<and> can_take s c N then took_or_disabled f buf c N N' else untouched c N N')"
  using vlan_deliver_logging [OF assms, of A G s f buf "- 1" N] unfolding qemu_vlan_deliver_packet_def .

section \<open>Witnesses\<close>

definition sample_client :: "nat option \<Rightarrow> nat option \<Rightarrow> bool \<Rightarrow> VLANClientState" where
  "sample_client v p d = \<lparr>info = \<lparr>has_receive_raw = False, has_receive_iov = False, has_can_receive = False\<rparr>,
     link_down = False, vlan = v, peer = p, receive_disabled = d\<rparr>"

text \<open>Devices that take a packet when their state is true.\<close>

definition sample_accept :: "nat \<Rightarrow> bool \<Rightarrow> u8 list \<Rightarrow> bool \<Rightarrow> int \<times> bool" where
  "sample_accept c raw buf v = (if v then int (length buf) else 0, v)"

abbreviation "sample_net_handlers \<equiv> logging_handlers sample_accept (\<lambda>(cb :: unit) s ret v. v)"

text \<open>A VLAN of three clients, client 1 not ready: the packet is queued and delivered twice to client 2.\<close>

definition sample_vlan :: "(unit, bool logged) net" where
  "sample_vlan = \<lparr>clients = (\<lambda>c. sample_client (Some 0) None (c = 1)), vlans = (\<lambda>_. [0, 1, 2]),
     queues = (\<lambda>_. ([], False)), dev = (\<lambda>_. [], True)\<rparr>"

lemma vlan_delivers_twice:
  "\<exists>N N'. qemu_send_packet_async sample_net_handlers 0 [7] None sample_vlan = Some (0, N) \<and>
    qemu_flush_queued_packets sample_net_handlers 1 N = Some N' \<and>
    fst (dev N') 1 = [(False, [7])] \<and> fst (dev N') 2 = [(False, [7]), (False, [7])]"
  by (simp add: sample_vlan_def sample_client_def sample_accept_def qemu_send_packet_async_def qemu_send_packet_async_with_flags_def
      send_queue_def enter_def leave_def qemu_net_queue_send_def qemu_net_queue_deliver_def queue_deliver_def
      qemu_vlan_deliver_packet_def client_receive_def logging_handlers_def log_receive_def set_disabled_def
      qemu_net_queue_append_def qemu_flush_queued_packets_def qemu_net_queue_flush.simps QEMU_NET_PACKET_FLAG_NONE_def
      QEMU_NET_PACKET_FLAG_RAW_def queue_sent_def)

theorem net_vlan_broadcast_witness:
  "\<exists>r N'. qemu_vlan_deliver_packet sample_net_handlers 0 0 0 [7] sample_vlan = Some (r, N') \<and> took_or_disabled 0 [7] 2 sample_vlan N'"
proof -
  have "distinct (vlans sample_vlan 0)" "2 \<in> set (vlans sample_vlan 0) \<and> can_take 0 2 sample_vlan"
    by (simp_all add: sample_vlan_def can_take_def sample_client_def)
  then show ?thesis
    using net_vlan_broadcast [of sample_vlan 0 sample_accept "\<lambda>(cb :: unit) s ret v. v" 0 0 "[7]"] by metis
qed

text \<open>A link whose receiver refuses the first packet and takes it once it is ready.\<close>

definition sample_link :: "(unit, bool logged) net" where
  "sample_link = \<lparr>clients = (\<lambda>c. sample_client None (Some (1 - c)) False), vlans = (\<lambda>_. []),
     queues = (\<lambda>_. ([], False)), dev = (\<lambda>_. [], False)\<rparr>"

definition sample_link_events :: "(unit, bool) link_event list" where
  "sample_link_events = [Link_send 0 [7, 8] (Some ()), Link_device (\<lambda>_. True), Link_ready, Link_send 0 [9] (Some ())]"

lemma sample_link_rule: "link_rule sample_accept (\<lambda>(cb :: unit) s ret v. v) 0 1 sample_link_events sample_link"
  by (simp add: sample_link_def sample_link_events_def sample_client_def sample_accept_def qemu_send_packet_async_with_flags_def
      send_queue_def enter_def leave_def qemu_net_queue_send_def qemu_net_queue_deliver_def queue_deliver_def
      qemu_deliver_packet_def client_receive_def logging_handlers_def log_receive_def set_disabled_def
      qemu_net_queue_append_def qemu_flush_queued_packets_def qemu_net_queue_flush.simps queue_sent_def)

text \<open>
  A refused packet without a callback waits as well, where the comment at the head of \<open>net/queue.c\<close> says that it is
  dropped.
\<close>

lemma refused_without_callback_waits:
  "\<exists>N. link_run sample_accept (\<lambda>(cb :: unit) s ret v. v) 0 1 [Link_send 0 [7, 8] None] sample_link = Some N \<and>
    packets_waiting False 1 N = [(False, [7, 8])]"
  by (simp add: sample_link_def sample_client_def sample_accept_def qemu_send_packet_async_with_flags_def
      send_queue_def enter_def leave_def qemu_net_queue_send_def qemu_net_queue_deliver_def queue_deliver_def
      qemu_deliver_packet_def client_receive_def logging_handlers_def log_receive_def set_disabled_def
      qemu_net_queue_append_def packets_waiting_def is_raw_def)

theorem net_link_in_order_witness:
  "\<exists>N'. link_run sample_accept (\<lambda>(cb :: unit) s ret v. v) 0 1 sample_link_events sample_link = Some N' \<and>
    fst (dev N') 1 @ packets_waiting False 1 N' = [(False, [7, 8]), (False, [9])]"
proof -
  have "link_ok 0 1 False sample_link" by (simp add: link_ok_def link_state_def sample_link_def sample_client_def)
  from net_link_in_order [OF sample_link_rule this] show ?thesis
    by (auto simp: sample_link_def packets_waiting_def packets_sent_def sample_link_events_def is_raw_def)
qed

end
