(* ===== verification/Qemu_Clock.thy ===== *)
theory Qemu_Clock
  imports Prelude
begin

text \<open>
  The clocks of the machine, \<open>qemu/qemu-timer.c\<close> and \<open>cpu_get_icount\<close> of \<open>qemu/cpus.c\<close>.

  \<^item> \<open>TimersState\<close> is the struct of the same name without its unused field. \<open>clocks\<close> adds the globals the
    clocks are computed from.
  \<^item> \<open>host\<close> holds what the host and the simulator answer at a moment: its clocks, its cycle counter, the
    simulated cycle, and the simulated time in nanoseconds that \<open>cpu_get_sim_clock\<close> computes from it in
    floating point. Whoever lets time pass changes it.
  \<^item> \<open>icount_left\<close> is what the processor that is executing has not done yet of its budget (0 if none is).
  \<^item> Times are 64-bit in the code and integers here.
\<close>

section \<open>State\<close>

record host =
  get_clock :: int
  get_clock_realtime :: int
  cpu_get_real_ticks :: int
  sim_cycle :: int
  sim_ns :: int

record TimersState =
  cpu_ticks_prev :: int
  cpu_ticks_offset :: int
  cpu_clock_offset :: int
  cpu_ticks_enabled :: bool
  cpu_sim_ticks_offset :: int
  cpu_sim_clock_offset :: int

record clocks =
  host :: host
  timers_state :: TimersState
  use_icount :: int
  icount_time_shift :: nat
  qemu_icount_bias :: int
  qemu_icount :: int
  icount_left :: int
  last_delta :: int
  vm_running :: bool
  in_simulation :: bool
  sim_update_clock_offset :: int

section \<open>Cycle counter and clocks\<close>

definition cpu_get_icount :: "'a clocks_scheme \<Rightarrow> int" where
  "cpu_get_icount c = qemu_icount_bias c + push_bit (icount_time_shift c) (qemu_icount c - icount_left c)"

definition cpu_get_ticks :: "'a clocks_scheme \<Rightarrow> int \<times> 'a clocks_scheme" where
  "cpu_get_ticks c =
    (let t = timers_state c
     in if in_simulation c then (cpu_sim_ticks_offset t + sim_cycle (host c), c)
        else if use_icount c \<noteq> 0 then (cpu_get_icount c, c)
        else if \<not> cpu_ticks_enabled t then (cpu_ticks_offset t, c)
        else
          let ticks = cpu_get_real_ticks (host c);
              t = (if cpu_ticks_prev t > ticks then t\<lparr>cpu_ticks_offset := cpu_ticks_offset t + (cpu_ticks_prev t - ticks)\<rparr> else t);
              t = t\<lparr>cpu_ticks_prev := ticks\<rparr>
          in (ticks + cpu_ticks_offset t, c\<lparr>timers_state := t\<rparr>))"

definition cpu_get_clock :: "'a clocks_scheme \<Rightarrow> int" where
  "cpu_get_clock c =
    (let t = timers_state c
     in if \<not> cpu_ticks_enabled t then cpu_clock_offset t else get_clock (host c) + cpu_clock_offset t)"

definition qemu_icount_delta :: "'a clocks_scheme \<Rightarrow> int" where
  "qemu_icount_delta c =
    (if use_icount c = 0 then 5000 * 1000000 else if use_icount c = 1 then 0 else cpu_get_icount c - cpu_get_clock c)"

definition cpu_enable_ticks :: "'a clocks_scheme \<Rightarrow> 'a clocks_scheme" where
  "cpu_enable_ticks c =
    (let t = timers_state c
     in if \<not> cpu_ticks_enabled t
        then c\<lparr>timers_state := t\<lparr>cpu_ticks_offset := cpu_ticks_offset t - cpu_get_real_ticks (host c),
                                 cpu_clock_offset := cpu_clock_offset t - get_clock (host c), cpu_ticks_enabled := True\<rparr>\<rparr>
        else c)"

definition cpu_disable_ticks :: "'a clocks_scheme \<Rightarrow> 'a clocks_scheme" where
  "cpu_disable_ticks c =
    (if cpu_ticks_enabled (timers_state c)
     then
       let (ticks, c) = cpu_get_ticks c;
           c = c\<lparr>timers_state := (timers_state c)\<lparr>cpu_ticks_offset := ticks\<rparr>\<rparr>
       in c\<lparr>timers_state := (timers_state c)\<lparr>cpu_clock_offset := cpu_get_clock c, cpu_ticks_enabled := False\<rparr>\<rparr>
     else c)"

definition cpu_set_sim_ticks :: "'a clocks_scheme \<Rightarrow> 'a clocks_scheme" where
  "cpu_set_sim_ticks c =
    (let t = timers_state c
     in if sim_update_clock_offset c = 1
        then c\<lparr>timers_state :=
                 (if cpu_ticks_enabled t
                  then t\<lparr>cpu_sim_ticks_offset := cpu_ticks_offset t + cpu_get_real_ticks (host c),
                         cpu_sim_clock_offset := cpu_clock_offset t + get_clock (host c)\<rparr>
                  else t\<lparr>cpu_sim_ticks_offset := cpu_ticks_offset t, cpu_sim_clock_offset := cpu_clock_offset t\<rparr>),
               sim_update_clock_offset := 0\<rparr>
        else c)"

definition cpu_get_sim_clock :: "'a clocks_scheme \<Rightarrow> int" where
  "cpu_get_sim_clock c = cpu_sim_clock_offset (timers_state c) + sim_ns (host c)"

definition QEMU_CLOCK_REALTIME :: nat where "QEMU_CLOCK_REALTIME = 0"
definition QEMU_CLOCK_VIRTUAL :: nat where "QEMU_CLOCK_VIRTUAL = 1"
definition QEMU_CLOCK_HOST :: nat where "QEMU_CLOCK_HOST = 2"

definition qemu_get_clock :: "nat \<Rightarrow> 'a clocks_scheme \<Rightarrow> int" where
  "qemu_get_clock type c =
    (if type = QEMU_CLOCK_REALTIME then get_clock (host c) div 1000000
     else if type = QEMU_CLOCK_HOST then get_clock_realtime (host c)
     else if in_simulation c then cpu_get_sim_clock c
     else if use_icount c \<noteq> 0 then cpu_get_icount c
     else cpu_get_clock c)"

definition qemu_get_clock_ns :: "nat \<Rightarrow> 'a clocks_scheme \<Rightarrow> int" where
  "qemu_get_clock_ns type c =
    (if type = QEMU_CLOCK_REALTIME then get_clock (host c)
     else if type = QEMU_CLOCK_HOST then get_clock_realtime (host c)
     else if use_icount c \<noteq> 0 then cpu_get_icount c
     else cpu_get_clock c)"

section \<open>Instruction counting\<close>

definition get_ticks_per_sec :: int where "get_ticks_per_sec = 1000000000"
definition MAX_ICOUNT_SHIFT :: nat where "MAX_ICOUNT_SHIFT = 10"
definition ICOUNT_WOBBLE :: int where "ICOUNT_WOBBLE = get_ticks_per_sec div 10"

definition icount_adjust :: "'a clocks_scheme \<Rightarrow> 'a clocks_scheme" where
  "icount_adjust c =
    (if \<not> vm_running c then c
     else
       let cur_time = cpu_get_clock c;
           cur_icount = qemu_get_clock QEMU_CLOCK_VIRTUAL c;
           delta = cur_icount - cur_time;
           shift = icount_time_shift c;
           shift = (if delta > 0 \<and> last_delta c + ICOUNT_WOBBLE < delta * 2 \<and> shift > 0 then shift - 1 else shift);
           shift = (if delta < 0 \<and> last_delta c - ICOUNT_WOBBLE > delta * 2 \<and> shift < MAX_ICOUNT_SHIFT then shift + 1 else shift)
       in c\<lparr>icount_time_shift := shift, last_delta := delta, qemu_icount_bias := cur_icount - push_bit shift (qemu_icount c)\<rparr>)"

definition qemu_icount_round :: "int \<Rightarrow> 'a clocks_scheme \<Rightarrow> int" where
  "qemu_icount_round count c = drop_bit (icount_time_shift c) (count + push_bit (icount_time_shift c) 1 - 1)"

lemma qemu_icount_round_least:
  "count \<le> push_bit (icount_time_shift c) (qemu_icount_round count c) \<and>
   push_bit (icount_time_shift c) (qemu_icount_round count c) < count + 2 ^ icount_time_shift c"
proof -
  let ?k = "2 ^ icount_time_shift c :: int"
  have "(count + ?k - 1) div ?k * ?k + (count + ?k - 1) mod ?k = count + ?k - 1" by (rule div_mult_mod_eq)
  moreover have "0 \<le> (count + ?k - 1) mod ?k" "(count + ?k - 1) mod ?k < ?k" by simp_all
  ultimately show ?thesis unfolding qemu_icount_round_def push_bit_eq_mult drop_bit_eq_div mult_1 by linarith
qed

text \<open>Adjusting the speed does not move the virtual clock.\<close>

theorem icount_adjust_continuous:
  assumes "use_icount c \<noteq> 0" "\<not> in_simulation c" "icount_left c = 0" "icount_time_shift c \<le> MAX_ICOUNT_SHIFT"
  shows "qemu_get_clock QEMU_CLOCK_VIRTUAL (icount_adjust c) = qemu_get_clock QEMU_CLOCK_VIRTUAL c \<and>
    icount_time_shift (icount_adjust c) \<le> MAX_ICOUNT_SHIFT"
  using assms
  by (simp add: icount_adjust_def qemu_get_clock_def cpu_get_icount_def QEMU_CLOCK_VIRTUAL_def QEMU_CLOCK_REALTIME_def
      QEMU_CLOCK_HOST_def Let_def) linarith

section \<open>The cycle counter does not run backwards\<close>

text \<open>The counter is read, started and stopped, each time at some value of the host's counter.\<close>

datatype tick_op = Read_ticks | Enable_ticks | Disable_ticks

definition at_ticks :: "int \<Rightarrow> 'a clocks_scheme \<Rightarrow> 'a clocks_scheme" where
  "at_ticks t c = c\<lparr>host := (host c)\<lparr>cpu_get_real_ticks := t\<rparr>\<rparr>"

fun ticks_read :: "(tick_op \<times> int) list \<Rightarrow> 'a clocks_scheme \<Rightarrow> int list" where
  "ticks_read [] c = []"
| "ticks_read ((Read_ticks, t) # es) c = (let (v, c) = cpu_get_ticks (at_ticks t c) in v # ticks_read es c)"
| "ticks_read ((Enable_ticks, t) # es) c = ticks_read es (cpu_enable_ticks (at_ticks t c))"
| "ticks_read ((Disable_ticks, t) # es) c = ticks_read es (cpu_disable_ticks (at_ticks t c))"

text \<open>While the counter runs, the host's counter does not fall below its value \<open>r\<close> when it was started. Apart from
  that it may jump, forwards and backwards.\<close>

fun above_start :: "int option \<Rightarrow> (tick_op \<times> int) list \<Rightarrow> bool" where
  "above_start r [] \<longleftrightarrow> True"
| "above_start r ((e, t) # es) \<longleftrightarrow>
    (case r of None \<Rightarrow> True | Some r \<Rightarrow> r \<le> t) \<and>
    above_start (case e of Read_ticks \<Rightarrow> r | Enable_ticks \<Rightarrow> if r = None then Some t else r | Disable_ticks \<Rightarrow> None) es"

definition no_simulation :: "'a clocks_scheme \<Rightarrow> bool" where
  "no_simulation c \<longleftrightarrow> \<not> in_simulation c \<and> use_icount c = 0"

text \<open>A lower bound of the next value.\<close>

definition next_tick :: "int option \<Rightarrow> 'a clocks_scheme \<Rightarrow> int" where
  "next_tick r c =
    (let t = timers_state c
     in case r of None \<Rightarrow> cpu_ticks_offset t | Some r \<Rightarrow> max (cpu_ticks_prev t) r + cpu_ticks_offset t)"

lemma sorted_ticks:
  assumes "above_start r es" "no_simulation c" "cpu_ticks_enabled (timers_state c) \<longleftrightarrow> r \<noteq> None" "v \<le> next_tick r c"
  shows "sorted (v # ticks_read es c)"
  using assms
proof (induction es arbitrary: r c v)
  case (Cons x es)
  obtain e t where x: "x = (e, t)" by fastforce
  let ?t = "timers_state c"
  show ?case
  proof (cases r)
    case None
    then show ?thesis
      using Cons.prems Cons.IH [of None "at_ticks t c" v] Cons.IH [of None "at_ticks t c" "cpu_ticks_offset ?t"]
        Cons.IH [of "Some t" "cpu_enable_ticks (at_ticks t c)" v]
      by (cases e) (auto simp: x at_ticks_def cpu_get_ticks_def cpu_enable_ticks_def cpu_disable_ticks_def next_tick_def
          no_simulation_def Let_def)
  next
    case (Some a)
    let ?c = "snd (cpu_get_ticks (at_ticks t c))" and ?v = "fst (cpu_get_ticks (at_ticks t c))"
    have at: "a \<le> t" using Cons.prems(1) by (simp add: x Some)
    have g: "cpu_get_ticks (at_ticks t c) = (?v, ?c)" by simp
    have v: "v \<le> ?v" "?v \<le> next_tick r ?c" "no_simulation ?c" "cpu_ticks_enabled (timers_state ?c)"
      using Cons.prems at by (auto simp: Some cpu_get_ticks_def at_ticks_def next_tick_def no_simulation_def Let_def)
    have d: "next_tick None (cpu_disable_ticks (at_ticks t c)) = ?v" "no_simulation (cpu_disable_ticks (at_ticks t c))"
        "\<not> cpu_ticks_enabled (timers_state (cpu_disable_ticks (at_ticks t c)))"
      using Cons.prems Some v(3) by (auto simp: cpu_disable_ticks_def at_ticks_def next_tick_def no_simulation_def Let_def split_beta)
    have e: "cpu_enable_ticks (at_ticks t c) = at_ticks t c" "next_tick r (at_ticks t c) = next_tick r c"
        "no_simulation (at_ticks t c)" "timers_state (at_ticks t c) = timers_state c"
      using Cons.prems Some by (auto simp: cpu_enable_ticks_def at_ticks_def next_tick_def no_simulation_def Let_def)
    show ?thesis
    proof (cases e)
      case Read_ticks
      have "sorted (?v # ticks_read es ?c)" using Cons.prems(1) v by (intro Cons.IH [of r]) (simp_all add: x Some Read_ticks)
      with v(1) show ?thesis by (auto simp: x Read_ticks split_beta)
    next
      case Enable_ticks
      have "sorted (v # ticks_read es (at_ticks t c))"
        using Cons.prems e by (intro Cons.IH [of r]) (simp_all add: x Some Enable_ticks)
      then show ?thesis by (simp add: x Enable_ticks e)
    next
      case Disable_ticks
      have "sorted (v # ticks_read es (cpu_disable_ticks (at_ticks t c)))"
        using Cons.prems(1) v d by (intro Cons.IH [of None]) (simp_all add: x Some Disable_ticks)
      then show ?thesis by (simp add: x Disable_ticks)
    qed
  qed
qed simp

text \<open>C34: Outside simulation and instruction counting, from a stopped machine on, the cycle counter
  never runs backwards through reading, starting and stopping it, even when the counter of the
  host jumps back, as long as that stays above its value at the last start.\<close>

theorem cpu_ticks_monotone:
  assumes "no_simulation c" "\<not> cpu_ticks_enabled (timers_state c)" "above_start None es"
  shows "sorted (ticks_read es c)"
  using sorted_ticks [OF assms(3,1), of "next_tick None c"] assms(2) by simp

text \<open>The bound of the host's counter is needed: the last value seen before a stop is kept across it, so a host
  counter that falls between starting and the first reading takes the machine's counter back.\<close>

definition sample_clocks :: clocks where
  "sample_clocks =
    \<lparr>host = \<lparr>get_clock = 0, get_clock_realtime = 0, cpu_get_real_ticks = 0, sim_cycle = 0, sim_ns = 0\<rparr>,
     timers_state = \<lparr>cpu_ticks_prev = 0, cpu_ticks_offset = 0, cpu_clock_offset = 0, cpu_ticks_enabled = False,
       cpu_sim_ticks_offset = 0, cpu_sim_clock_offset = 0\<rparr>,
     use_icount = 0, icount_time_shift = 3, qemu_icount_bias = 0, qemu_icount = 0, icount_left = 0, last_delta = 0,
     vm_running = True, in_simulation = False, sim_update_clock_offset = 1\<rparr>"

lemma cpu_ticks_go_back:
  "ticks_read [(Enable_ticks, 100), (Read_ticks, 150), (Disable_ticks, 160), (Enable_ticks, 500), (Read_ticks, 200)] sample_clocks = [50, - 240]"
  by (simp add: sample_clocks_def cpu_get_ticks_def cpu_enable_ticks_def cpu_disable_ticks_def at_ticks_def Let_def)

text \<open>While the simulator runs, the two readings of the virtual clock disagree.\<close>

lemma clock_ns_not_simulated:
  "qemu_get_clock_ns QEMU_CLOCK_VIRTUAL (c\<lparr>in_simulation := b\<rparr>) = qemu_get_clock_ns QEMU_CLOCK_VIRTUAL c"
  by (simp add: qemu_get_clock_ns_def QEMU_CLOCK_VIRTUAL_def QEMU_CLOCK_REALTIME_def QEMU_CLOCK_HOST_def cpu_get_icount_def
      cpu_get_clock_def Let_def)

section \<open>Witnesses\<close>

theorem cpu_ticks_monotone_witness:
  "sorted (ticks_read [(Enable_ticks, 100), (Read_ticks, 150), (Read_ticks, 120), (Disable_ticks, 130), (Read_ticks, 5)] sample_clocks)"
  by (rule cpu_ticks_monotone) (simp_all add: sample_clocks_def no_simulation_def)

theorem icount_adjust_continuous_witness:
  "qemu_get_clock QEMU_CLOCK_VIRTUAL (icount_adjust (sample_clocks\<lparr>use_icount := 2, qemu_icount := 1000000000\<rparr>)) =
    qemu_get_clock QEMU_CLOCK_VIRTUAL (sample_clocks\<lparr>use_icount := 2, qemu_icount := 1000000000\<rparr>)"
  using icount_adjust_continuous [of "sample_clocks\<lparr>use_icount := 2, qemu_icount := 1000000000\<rparr>"]
  by (simp add: sample_clocks_def MAX_ICOUNT_SHIFT_def)

end
