(* ===== verification/Qemu_Timer.thy ===== *)
theory Qemu_Timer
  imports Qemu_Clock Machine "HOL-Library.Sublist"
begin

text \<open>
  The timers of the machine and the alarm that wakes the emulator for them, \<open>qemu/qemu-timer.c\<close>.

  \<^item> A timer is a number; \<open>QEMUTimer\<close> has the fields \<open>clock\<close> and \<open>expire_time\<close>, its callback is a parameter of the
    functions that run timers. The chains of the field \<open>next\<close> are lists of numbers, one for each clock.
  \<^item> The alarm is the one with dynamic ticks: a one-shot timer of the host, of which the state keeps the
    nanoseconds left, 0 when it does not run. The state is the machine between \<open>init_timer_alarm\<close> and
    \<open>quit_timers\<close>; the other alarms only wrap host calls.
  \<^item> The loop of \<open>qemu_run_timers\<close> need not end, because a callback may arm its timer again at once: not
    returning is the result \<open>None\<close>.
\<close>

section \<open>State\<close>

record QEMUTimer =
  clock :: nat
  expire_time :: int

record 'w timer_sys = clocks +
  timers :: "nat \<Rightarrow> QEMUTimer"
  active_timers :: "nat \<Rightarrow> nat list"
  clock_enabled :: "nat \<Rightarrow> bool"
  has_dynticks :: bool
  alarm_expired :: bool
  alarm_pending :: bool
  host_timer :: int
  notified_events :: nat
  user :: 'w

abbreviation (input) expiry :: "'w timer_sys \<Rightarrow> nat \<Rightarrow> int" where
  "expiry s t \<equiv> expire_time (timers s t)"

definition set_active :: "nat \<Rightarrow> nat list \<Rightarrow> 'w timer_sys \<Rightarrow> 'w timer_sys" where
  "set_active c l s = s\<lparr>active_timers := (active_timers s)(c := l)\<rparr>"

definition qemu_notify_event :: "'w timer_sys \<Rightarrow> 'w timer_sys" where
  "qemu_notify_event s = s\<lparr>notified_events := notified_events s + 1\<rparr>"

section \<open>Deadlines and the alarm\<close>

definition INT32_MAX :: int where "INT32_MAX = 2147483647"

definition qemu_next_deadline :: "'w timer_sys \<Rightarrow> int" where
  "qemu_next_deadline s =
    (let delta = INT32_MAX;
         delta = (case active_timers s QEMU_CLOCK_VIRTUAL of [] \<Rightarrow> delta
                  | t # _ \<Rightarrow> expiry s t - qemu_get_clock_ns QEMU_CLOCK_VIRTUAL s);
         delta = (case active_timers s QEMU_CLOCK_HOST of [] \<Rightarrow> delta
                  | t # _ \<Rightarrow> let hdelta = expiry s t - qemu_get_clock_ns QEMU_CLOCK_HOST s
                             in if hdelta < delta then hdelta else delta)
     in if delta < 0 then 0 else delta)"

definition qemu_next_alarm_deadline :: "'w timer_sys \<Rightarrow> int" where
  "qemu_next_alarm_deadline s =
    (let delta = (case active_timers s QEMU_CLOCK_VIRTUAL of [] \<Rightarrow> INT32_MAX
                  | t # _ \<Rightarrow> if use_icount s = 0 then expiry s t - qemu_get_clock QEMU_CLOCK_VIRTUAL s else INT32_MAX);
         delta = (case active_timers s QEMU_CLOCK_HOST of [] \<Rightarrow> delta
                  | t # _ \<Rightarrow> let hdelta = expiry s t - qemu_get_clock_ns QEMU_CLOCK_HOST s
                             in if hdelta < delta then hdelta else delta)
     in case active_timers s QEMU_CLOCK_REALTIME of [] \<Rightarrow> delta
        | t # _ \<Rightarrow> let rtdelta = expiry s t * 1000000 - qemu_get_clock_ns QEMU_CLOCK_REALTIME s
                   in if rtdelta < delta then rtdelta else delta)"

definition MIN_TIMER_REARM_NS :: int where "MIN_TIMER_REARM_NS = 250000"
definition SIM_MIN_TIMER_REARM_NS :: int where "SIM_MIN_TIMER_REARM_NS = MIN_TIMER_REARM_NS * 4"

definition dynticks_rearm_timer :: "'w timer_sys \<Rightarrow> 'w timer_sys" where
  "dynticks_rearm_timer s =
    (if active_timers s QEMU_CLOCK_REALTIME = [] \<and> active_timers s QEMU_CLOCK_VIRTUAL = [] \<and> active_timers s QEMU_CLOCK_HOST = []
     then s
     else
       let nearest_delta_ns = qemu_next_alarm_deadline s;
           nearest_delta_ns = (if nearest_delta_ns < MIN_TIMER_REARM_NS then MIN_TIMER_REARM_NS else nearest_delta_ns);
           nearest_delta_ns = (if in_simulation s \<and> nearest_delta_ns < SIM_MIN_TIMER_REARM_NS then SIM_MIN_TIMER_REARM_NS
                               else nearest_delta_ns);
           current_ns = host_timer s
       in if current_ns \<noteq> 0 \<and> current_ns \<le> nearest_delta_ns then s else s\<lparr>host_timer := nearest_delta_ns\<rparr>)"

definition qemu_rearm_alarm_timer :: "'w timer_sys \<Rightarrow> 'w timer_sys" where
  "qemu_rearm_alarm_timer s = (if \<not> has_dynticks s then s else dynticks_rearm_timer s)"

definition host_alarm_handler :: "'w timer_sys \<Rightarrow> 'w timer_sys" where
  "host_alarm_handler s =
    (if has_dynticks s \<or> qemu_next_alarm_deadline s \<le> 0
     then qemu_notify_event (s\<lparr>alarm_expired := has_dynticks s, alarm_pending := True\<rparr>)
     else s)"

definition alarm_timer_on_change_state_rearm :: "bool \<Rightarrow> 'w timer_sys \<Rightarrow> 'w timer_sys" where
  "alarm_timer_on_change_state_rearm running s = (if running then qemu_rearm_alarm_timer s else s)"

section \<open>Timers\<close>

definition qemu_clock_enable :: "nat \<Rightarrow> bool \<Rightarrow> 'w timer_sys \<Rightarrow> 'w timer_sys" where
  "qemu_clock_enable c b s = s\<lparr>clock_enabled := (clock_enabled s)(c := b)\<rparr>"

definition qemu_new_timer :: "nat \<Rightarrow> nat \<Rightarrow> 'w timer_sys \<Rightarrow> 'w timer_sys" where
  "qemu_new_timer ts c s = s\<lparr>timers := (timers s)(ts := \<lparr>clock = c, expire_time = 0\<rparr>)\<rparr>"

fun unlink_timer :: "nat \<Rightarrow> nat list \<Rightarrow> nat list" where
  "unlink_timer ts [] = []"
| "unlink_timer ts (t # l) = (if t = ts then l else t # unlink_timer ts l)"

definition qemu_del_timer :: "nat \<Rightarrow> 'w timer_sys \<Rightarrow> 'w timer_sys" where
  "qemu_del_timer ts s = (let c = clock (timers s ts) in set_active c (unlink_timer ts (active_timers s c)) s)"

text \<open>The place in the list: after the timers that do not expire later.\<close>

fun link_timer :: "(nat \<Rightarrow> int) \<Rightarrow> nat \<Rightarrow> int \<Rightarrow> nat list \<Rightarrow> nat list" where
  "link_timer ex ts x [] = [ts]"
| "link_timer ex ts x (t # l) = (if ex t > x then ts # t # l else t # link_timer ex ts x l)"

definition qemu_mod_timer :: "nat \<Rightarrow> int \<Rightarrow> 'w timer_sys \<Rightarrow> 'w timer_sys" where
  "qemu_mod_timer ts x s =
    (let s = qemu_del_timer ts s;
         c = clock (timers s ts);
         l = active_timers s c;
         first = (case l of [] \<Rightarrow> True | t # _ \<Rightarrow> expiry s t > x);
         s = set_active c (link_timer (expiry s) ts x l) (s\<lparr>timers := (timers s)(ts := (timers s ts)\<lparr>expire_time := x\<rparr>)\<rparr>)
     in if first
        then let s = (if \<not> alarm_pending s then qemu_rearm_alarm_timer s else s)
             in if use_icount s \<noteq> 0 then qemu_notify_event s else s
        else s)"

definition qemu_timer_pending :: "nat \<Rightarrow> 'w timer_sys \<Rightarrow> bool" where
  "qemu_timer_pending ts s = list_ex (\<lambda>t. t = ts) (active_timers s (clock (timers s ts)))"

definition qemu_timer_expired :: "nat option \<Rightarrow> int \<Rightarrow> 'w timer_sys \<Rightarrow> bool" where
  "qemu_timer_expired timer_head current_time s = (case timer_head of None \<Rightarrow> False | Some t \<Rightarrow> expiry s t \<le> current_time)"

type_synonym 'w callbacks = "nat \<Rightarrow> 'w timer_sys \<Rightarrow> 'w timer_sys option"

partial_function (option) run_expired :: "'w callbacks \<Rightarrow> nat \<Rightarrow> int \<Rightarrow> 'w timer_sys \<Rightarrow> 'w timer_sys option" where
  "run_expired CB c current_time s =
    (case active_timers s c of [] \<Rightarrow> Some s
     | ts # l \<Rightarrow>
         if expiry s ts > current_time then Some s
         else Option.bind (CB ts (set_active c l s)) (run_expired CB c current_time))"

definition qemu_run_timers :: "'w callbacks \<Rightarrow> nat \<Rightarrow> 'w timer_sys \<Rightarrow> 'w timer_sys option" where
  "qemu_run_timers CB c s = (if \<not> clock_enabled s c then Some s else run_expired CB c (qemu_get_clock c s) s)"

definition qemu_run_all_timers :: "'w callbacks \<Rightarrow> 'w timer_sys \<Rightarrow> 'w timer_sys option" where
  "qemu_run_all_timers CB s =
    (let s = s\<lparr>alarm_pending := False\<rparr>;
         s = (if alarm_expired s then qemu_rearm_alarm_timer (s\<lparr>alarm_expired := False\<rparr>) else s)
     in Option.bind (if vm_running s then qemu_run_timers CB QEMU_CLOCK_VIRTUAL s else Some s)
          (\<lambda>s. Option.bind (qemu_run_timers CB QEMU_CLOCK_REALTIME s) (qemu_run_timers CB QEMU_CLOCK_HOST)))"

definition qemu_put_timer :: "nat \<Rightarrow> 'w timer_sys \<Rightarrow> u64" where
  "qemu_put_timer ts s = (if qemu_timer_pending ts s then word_of_int (expiry s ts) else - 1)"

definition qemu_get_timer :: "u64 \<Rightarrow> nat \<Rightarrow> 'w timer_sys \<Rightarrow> 'w timer_sys" where
  "qemu_get_timer v ts s = (if v \<noteq> - 1 then qemu_mod_timer ts (sint v) s else qemu_del_timer ts s)"

section \<open>Instruction counting\<close>

text \<open>\<open>rt\<close> and \<open>vm\<close> are the timers \<open>icount_rt_timer\<close> and \<open>icount_vm_timer\<close>.\<close>

definition icount_adjust_rt :: "nat \<Rightarrow> 'w timer_sys \<Rightarrow> 'w timer_sys" where
  "icount_adjust_rt rt s = icount_adjust (qemu_mod_timer rt (qemu_get_clock QEMU_CLOCK_REALTIME s + 1000) s)"

definition icount_adjust_vm :: "nat \<Rightarrow> 'w timer_sys \<Rightarrow> 'w timer_sys" where
  "icount_adjust_vm vm s = icount_adjust (qemu_mod_timer vm (qemu_get_clock QEMU_CLOCK_VIRTUAL s + get_ticks_per_sec div 10) s)"

definition configure_icount :: "(string \<Rightarrow> int) \<Rightarrow> nat \<Rightarrow> nat \<Rightarrow> string option \<Rightarrow> 'w timer_sys \<Rightarrow> 'w timer_sys" where
  "configure_icount strtol rt vm opt s =
    (case opt of None \<Rightarrow> s
     | Some option \<Rightarrow>
         if option \<noteq> ''auto'' then s\<lparr>icount_time_shift := nat (strtol option), use_icount := 1\<rparr>
         else
           let s = qemu_new_timer rt QEMU_CLOCK_REALTIME (s\<lparr>use_icount := 2, icount_time_shift := 3\<rparr>);
               s = qemu_mod_timer rt (qemu_get_clock QEMU_CLOCK_REALTIME s + 1000) s;
               s = qemu_new_timer vm QEMU_CLOCK_VIRTUAL s
           in qemu_mod_timer vm (qemu_get_clock QEMU_CLOCK_VIRTUAL s + get_ticks_per_sec div 10) s)"

text \<open>
  The timeout of the main loop without \<open>CONFIG_IOTHREAD\<close>; a build with it returns 1000 at once when the machine does
  not count instructions.
\<close>

definition qemu_calculate_timeout :: "'w timer_sys \<Rightarrow> int \<times> 'w timer_sys" where
  "qemu_calculate_timeout s =
    (if \<not> vm_running s then (5000, s)
     else
       let delta = qemu_icount_delta s
       in if delta > 0 then ((delta + 999999) div 1000000, s)
          else
            let add = qemu_next_deadline s;
                add = (if add > 10000000 then 10000000 else add);
                delta = delta + add;
                s = s\<lparr>qemu_icount := qemu_icount s + qemu_icount_round add s\<rparr>
            in (if delta < 0 then 0 else delta div 1000000, s))"

section \<open>Lists of timers\<close>

definition timer_inv :: "'w timer_sys \<Rightarrow> bool" where
  "timer_inv s \<longleftrightarrow>
    (\<forall>c. sorted (map (expiry s) (active_timers s c)) \<and> distinct (active_timers s c) \<and>
      (\<forall>t \<in> set (active_timers s c). clock (timers s t) = c))"

lemma unlink_timer_remove1: "unlink_timer ts l = remove1 ts l"
  by (induction l) auto

lemma set_link_timer [simp]: "set (link_timer ex ts x l) = insert ts (set l)"
  by (induction l) auto

lemma distinct_link_timer: "distinct l \<Longrightarrow> ts \<notin> set l \<Longrightarrow> distinct (link_timer ex ts x l)"
  by (induction l) auto

lemma sorted_link_timer:
  assumes "sorted (map ex l)" "ts \<notin> set l"
  shows "sorted (map (ex(ts := x)) (link_timer ex ts x l))"
  using assms
proof (induction l)
  case (Cons t l)
  have m: "map (ex(ts := x)) (t # l) = map ex (t # l)" using Cons.prems(2) by auto
  show ?case
  proof (cases "ex t > x")
    case True
    then have "map (ex(ts := x)) (link_timer ex ts x (t # l)) = x # map ex (t # l)" using m by simp
    moreover have "sorted (x # map ex (t # l))" using Cons.prems(1) True by auto
    ultimately show ?thesis by metis
  next
    case False
    then show ?thesis using Cons by auto
  qed
qed simp

lemma filter_link_timer:
  assumes "\<not> P ts"
  shows "filter P (link_timer ex ts x l) = filter P l"
  using assms by (induction l) auto

lemma active_set_active [simp]: "active_timers (set_active c l s) = (active_timers s)(c := l)"
  by (simp add: set_active_def)

lemma set_active_frame [simp]:
  "timers (set_active c l s) = timers s" "user (set_active c l s) = user s"
  "clock_enabled (set_active c l s) = clock_enabled s" "alarm_pending (set_active c l s) = alarm_pending s"
  "host_timer (set_active c l s) = host_timer s" "has_dynticks (set_active c l s) = has_dynticks s"
  by (simp_all add: set_active_def)

lemma truncate_frame [simp]:
  "clocks.truncate (set_active c l s) = clocks.truncate s" "clocks.truncate (s\<lparr>timers := f\<rparr>) = clocks.truncate s"
  "clocks.truncate (s\<lparr>user := w\<rparr>) = clocks.truncate s" "clocks.truncate (s\<lparr>alarm_pending := b\<rparr>) = clocks.truncate s"
  "clocks.truncate (s\<lparr>alarm_expired := b\<rparr>) = clocks.truncate s"
  by (simp_all add: set_active_def clocks.truncate_def)

lemma rearm_frame [simp]:
  "timers (qemu_rearm_alarm_timer s) = timers s" "active_timers (qemu_rearm_alarm_timer s) = active_timers s"
  "user (qemu_rearm_alarm_timer s) = user s" "clock_enabled (qemu_rearm_alarm_timer s) = clock_enabled s"
  "alarm_pending (qemu_rearm_alarm_timer s) = alarm_pending s" "clocks.truncate (qemu_rearm_alarm_timer s) = clocks.truncate s"
  by (simp_all add: qemu_rearm_alarm_timer_def dynticks_rearm_timer_def Let_def clocks.truncate_def)

lemma notify_frame [simp]:
  "timers (qemu_notify_event s) = timers s" "active_timers (qemu_notify_event s) = active_timers s"
  "user (qemu_notify_event s) = user s" "clock_enabled (qemu_notify_event s) = clock_enabled s"
  "alarm_pending (qemu_notify_event s) = alarm_pending s" "clocks.truncate (qemu_notify_event s) = clocks.truncate s"
  by (simp_all add: qemu_notify_event_def clocks.truncate_def)

lemma del_timer_frame [simp]:
  "active_timers (qemu_del_timer ts s) =
    (active_timers s)(clock (timers s ts) := remove1 ts (active_timers s (clock (timers s ts))))"
  "timers (qemu_del_timer ts s) = timers s" "user (qemu_del_timer ts s) = user s"
  "clock_enabled (qemu_del_timer ts s) = clock_enabled s" "clocks.truncate (qemu_del_timer ts s) = clocks.truncate s"
  by (simp_all add: qemu_del_timer_def unlink_timer_remove1 Let_def)

lemma mod_timer_frame [simp]:
  "active_timers (qemu_mod_timer ts x s) =
    (active_timers s)(clock (timers s ts) := link_timer (expiry s) ts x (remove1 ts (active_timers s (clock (timers s ts)))))"
  "timers (qemu_mod_timer ts x s) = (timers s)(ts := (timers s ts)\<lparr>expire_time := x\<rparr>)"
  "user (qemu_mod_timer ts x s) = user s" "clock_enabled (qemu_mod_timer ts x s) = clock_enabled s"
  "clocks.truncate (qemu_mod_timer ts x s) = clocks.truncate s"
  by (simp_all add: qemu_mod_timer_def Let_def)

lemma get_clock_truncate:
  "qemu_get_clock c s = qemu_get_clock c (clocks.truncate s)" "qemu_get_clock_ns c s = qemu_get_clock_ns c (clocks.truncate s)"
  by (simp_all add: qemu_get_clock_def qemu_get_clock_ns_def cpu_get_icount_def cpu_get_clock_def cpu_get_sim_clock_def
      clocks.truncate_def Let_def)

lemma same_clocks:
  assumes "clocks.truncate s = clocks.truncate t"
  shows "qemu_get_clock c s = qemu_get_clock c t" "qemu_get_clock_ns c s = qemu_get_clock_ns c t"
    "use_icount s = use_icount t" "in_simulation s = in_simulation t"
proof -
  show "qemu_get_clock c s = qemu_get_clock c t" "qemu_get_clock_ns c s = qemu_get_clock_ns c t"
    by (metis assms get_clock_truncate)+
  from assms show "use_icount s = use_icount t" "in_simulation s = in_simulation t"
    by (simp_all add: clocks.truncate_def)
qed

lemma timer_inv_del:
  assumes "timer_inv s"
  shows "timer_inv (qemu_del_timer ts s)"
proof -
  have "sorted (map f (remove1 ts l))" if "sorted (map f l)" for f :: "nat \<Rightarrow> int" and l
    using that by (simp add: sorted_map_remove1)
  then show ?thesis using assms by (auto simp: timer_inv_def dest: subsetD [OF set_remove1_subset])
qed

lemma timer_inv_mod:
  assumes "timer_inv s"
  shows "timer_inv (qemu_mod_timer ts x s)"
proof -
  let ?c = "clock (timers s ts)" and ?l = "remove1 ts (active_timers s (clock (timers s ts)))"
  have "sorted (map (expiry s) (active_timers s ?c))" "distinct (active_timers s ?c)"
      "\<forall>t \<in> set (active_timers s ?c). clock (timers s t) = ?c"
    using assms by (simp_all add: timer_inv_def)
  then have l: "sorted (map (expiry s) ?l)" "distinct ?l" "ts \<notin> set ?l" "\<forall>t \<in> set ?l. clock (timers s t) = ?c"
    by (simp_all add: sorted_map_remove1 distinct_remove1)
  have ex: "expiry (qemu_mod_timer ts x s) = (expiry s)(ts := x)" by (auto simp: fun_eq_iff)
  have other: "ts \<notin> set (active_timers s c)" if "c \<noteq> ?c" for c using assms that by (auto simp: timer_inv_def)
  have m: "map ((expiry s)(ts := x)) (active_timers s c) = map (expiry s) (active_timers s c)" if "c \<noteq> ?c" for c
    using other [OF that] by auto
  show ?thesis unfolding timer_inv_def ex
  proof (intro allI conjI)
    fix c
    show "sorted (map ((expiry s)(ts := x)) (active_timers (qemu_mod_timer ts x s) c))"
      unfolding mod_timer_frame
      using sorted_link_timer [OF l(1,3), of x] assms by (cases "c = ?c") (simp_all add: timer_inv_def m fun_upd_same fun_upd_other del: fun_upd_apply)
    show "distinct (active_timers (qemu_mod_timer ts x s) c)"
      using distinct_link_timer [OF l(2,3)] assms by (cases "c = ?c") (simp_all add: timer_inv_def)
    show "\<forall>t \<in> set (active_timers (qemu_mod_timer ts x s) c). clock (timers (qemu_mod_timer ts x s) t) = c"
    proof -
      have k: "clock (timers (qemu_mod_timer ts x s) t) = clock (timers s t)" for t by simp
      have "set (active_timers (qemu_mod_timer ts x s) c) \<subseteq> (if c = ?c then insert ts (set ?l) else set (active_timers s c))" by simp
      then have "set (active_timers (qemu_mod_timer ts x s) c) \<subseteq> insert ts (set ?l) \<and> c = ?c \<or>
          set (active_timers (qemu_mod_timer ts x s) c) \<subseteq> set (active_timers s c)" by presburger
      moreover have "clock (timers s t) = c" if "t \<in> set (active_timers s c)" for t
        using assms that unfolding timer_inv_def by blast
      moreover have "clock (timers s t) = ?c" if "t \<in> insert ts (set ?l)" for t using l(4) that by blast
      ultimately show ?thesis unfolding k by blast
    qed
  qed
qed

section \<open>Callbacks that are programs\<close>

text \<open>A callback notes that it ran and then arms and stops timers and changes the devices.\<close>

datatype 'v timer_action = Arm nat int | Stop nat | Change "'v \<Rightarrow> 'v"

fun do_action :: "'v timer_action \<Rightarrow> (nat list \<times> 'v) timer_sys \<Rightarrow> (nat list \<times> 'v) timer_sys" where
  "do_action (Arm t x) s = qemu_mod_timer t x s"
| "do_action (Stop t) s = qemu_del_timer t s"
| "do_action (Change f) s = s\<lparr>user := (fst (user s), f (snd (user s)))\<rparr>"

type_synonym 'v programs = "nat \<Rightarrow> (nat list \<times> 'v) timer_sys \<Rightarrow> 'v timer_action list"

definition program :: "'v programs \<Rightarrow> (nat list \<times> 'v) callbacks" where
  "program P t s = (let s = s\<lparr>user := (fst (user s) @ [t], snd (user s))\<rparr> in Some (fold do_action (P t s) s))"

lemma timer_inv_action: "timer_inv s \<Longrightarrow> timer_inv (do_action a s)"
  by (cases a) (simp_all add: timer_inv_mod timer_inv_del, simp add: timer_inv_def)

lemma timer_inv_actions: "timer_inv s \<Longrightarrow> timer_inv (fold do_action as s)"
  by (induction as arbitrary: s) (simp_all add: timer_inv_action)

lemma action_frame [simp]:
  "fst (user (do_action a s)) = fst (user s)" "clock (timers (do_action a s) u) = clock (timers s u)"
  "clocks.truncate (do_action a s) = clocks.truncate s" "clock_enabled (do_action a s) = clock_enabled s"
  by (cases a; simp)+

lemma actions_frame [simp]:
  "fst (user (fold do_action as s)) = fst (user s)" "clock (timers (fold do_action as s) u) = clock (timers s u)"
  "clocks.truncate (fold do_action as s) = clocks.truncate s" "clock_enabled (fold do_action as s) = clock_enabled s"
  by (induction as arbitrary: s) simp_all

lemma timer_inv_tail:
  assumes "timer_inv s" "active_timers s c = t # l"
  shows "timer_inv (set_active c l s)" "t \<notin> set l" "clock (timers s t) = c"
proof -
  from assms have "sorted (map (expiry s) (t # l))" "distinct (t # l)" "\<forall>u \<in> set (t # l). clock (timers s u) = c"
    unfolding timer_inv_def by metis+
  with assms(1) show "timer_inv (set_active c l s)" "t \<notin> set l" "clock (timers s t) = c"
    by (simp_all add: timer_inv_def)
qed

section \<open>Running the timers\<close>

definition expired_timers :: "int \<Rightarrow> nat \<Rightarrow> 'w timer_sys \<Rightarrow> nat list" where
  "expired_timers now c s = filter (\<lambda>t. expiry s t \<le> now) (active_timers s c)"

text \<open>No callback arms a timer of the clock for a time that has passed.\<close>

definition arms_later :: "nat \<Rightarrow> int \<Rightarrow> 'v programs \<Rightarrow> bool" where
  "arms_later c now P \<longleftrightarrow>
    (\<forall>t s u x. qemu_get_clock c s = now \<longrightarrow> Arm u x \<in> set (P t s) \<longrightarrow> clock (timers s u) = c \<longrightarrow> now < x)"

text \<open>Callbacks arm and stop only the timer they belong to.\<close>

definition own_timer :: "'v programs \<Rightarrow> bool" where
  "own_timer P \<longleftrightarrow> (\<forall>t s. \<forall>a \<in> set (P t s). case a of Arm u x \<Rightarrow> u = t | Stop u \<Rightarrow> u = t | Change f \<Rightarrow> True)"

lemma filter_remove1: "filter P (remove1 x l) = (if P x then remove1 x (filter P l) else filter P l)"
  by (induction l) auto

lemma subseq_remove1: "subseq (remove1 x l) l"
  by (induction l) auto

lemma expired_action:
  assumes "case a of Arm u x \<Rightarrow> clock (timers s u) = c \<longrightarrow> now < x | _ \<Rightarrow> True" "timer_inv s"
  shows "subseq (expired_timers now c (do_action a s)) (expired_timers now c s)"
proof (cases a)
  case (Arm u x)
  show ?thesis
  proof (cases "clock (timers s u) = c")
    case True
    have "u \<notin> set (remove1 u (active_timers s c))" using assms(2) by (simp add: timer_inv_def)
    then have "filter (\<lambda>t. expire_time (if t = u then (timers s u)\<lparr>expire_time := x\<rparr> else timers s t) \<le> now) (remove1 u (active_timers s c)) =
        filter (\<lambda>t. expiry s t \<le> now) (remove1 u (active_timers s c))"
      by (intro filter_cong) auto
    with True assms(1) show ?thesis
      by (simp add: Arm expired_timers_def filter_link_timer filter_remove1 subseq_remove1)
  next
    case False
    then have "u \<notin> set (active_timers s c)" using assms(2) by (auto simp: timer_inv_def)
    then have "filter (\<lambda>t. expire_time (if t = u then (timers s u)\<lparr>expire_time := x\<rparr> else timers s t) \<le> now) (active_timers s c) =
        filter (\<lambda>t. expiry s t \<le> now) (active_timers s c)"
      by (intro filter_cong) auto
    with False show ?thesis by (simp add: Arm expired_timers_def)
  qed
next
  case (Stop u)
  then show ?thesis by (simp add: expired_timers_def filter_remove1 subseq_remove1)
qed (simp add: expired_timers_def)

lemma expired_actions:
  assumes "\<forall>u x. Arm u x \<in> set as \<longrightarrow> clock (timers s u) = c \<longrightarrow> now < x" "timer_inv s"
  shows "subseq (expired_timers now c (fold do_action as s)) (expired_timers now c s)"
  using assms
proof (induction as arbitrary: s)
  case (Cons a as)
  have "subseq (expired_timers now c (do_action a s)) (expired_timers now c s)"
    using Cons.prems by (intro expired_action) (auto split: timer_action.split)
  moreover have "subseq (expired_timers now c (fold do_action as (do_action a s))) (expired_timers now c (do_action a s))"
    using Cons.prems by (intro Cons.IH) (auto intro: timer_inv_action)
  ultimately show ?case by (simp add: subseq_order.trans)
qed simp

lemma expired_own_action:
  assumes "case a of Arm u x \<Rightarrow> u = t \<and> now < x | Stop u \<Rightarrow> u = t | Change f \<Rightarrow> True" "t \<notin> set (expired_timers now c s)"
    "timer_inv s" "clock (timers s t) = c"
  shows "expired_timers now c (do_action a s) = expired_timers now c s"
proof (cases a)
  case (Arm u x)
  have "t \<notin> set (remove1 t (active_timers s c))" using assms(3) by (simp add: timer_inv_def)
  then have "filter (\<lambda>u. expire_time (if u = t then (timers s t)\<lparr>expire_time := x\<rparr> else timers s u) \<le> now) (remove1 t (active_timers s c)) =
      filter (\<lambda>u. expiry s u \<le> now) (remove1 t (active_timers s c))"
    by (intro filter_cong) auto
  with Arm assms(1,2,4) show ?thesis
    by (auto simp: expired_timers_def filter_link_timer filter_remove1 remove1_idem)
next
  case (Stop u)
  with assms(1,2,4) show ?thesis by (auto simp: expired_timers_def filter_remove1 remove1_idem)
qed (simp add: expired_timers_def)

lemma expired_own_actions:
  assumes "\<forall>a \<in> set as. case a of Arm u x \<Rightarrow> u = t \<and> now < x | Stop u \<Rightarrow> u = t | Change f \<Rightarrow> True"
    "t \<notin> set (expired_timers now c s)" "timer_inv s" "clock (timers s t) = c"
  shows "expired_timers now c (fold do_action as s) = expired_timers now c s"
  using assms
proof (induction as arbitrary: s)
  case (Cons a as)
  have "expired_timers now c (do_action a s) = expired_timers now c s"
    using Cons.prems by (intro expired_own_action) auto
  with Cons show ?case by (simp add: timer_inv_action)
qed simp

lemma expired_head:
  assumes "timer_inv s" "active_timers s c = t # l" "expiry s t \<le> now"
  shows "expired_timers now c s = t # expired_timers now c (set_active c l s)"
  using assms by (simp add: expired_timers_def)

lemma expired_none:
  assumes "timer_inv s" "active_timers s c = t # l" "now < expiry s t"
  shows "expired_timers now c s = []"
proof -
  have "sorted (map (expiry s) (t # l))" using assms(1,2) unfolding timer_inv_def by metis
  with assms(2,3) show ?thesis by (fastforce simp: expired_timers_def filter_empty_conv)
qed

text \<open>One round of the loop.\<close>

lemma run_expired_round:
  assumes "timer_inv s" "active_timers s c = t # l" "expiry s t \<le> now" "arms_later c now P" "qemu_get_clock c s = now"
  obtains s' where "run_expired (program P) c now s = run_expired (program P) c now s'" "timer_inv s'" "qemu_get_clock c s' = now"
    "fst (user s') = fst (user s) @ [t]" "subseq (expired_timers now c s') (expired_timers now c (set_active c l s))"
    "own_timer P \<Longrightarrow> expired_timers now c s' = expired_timers now c (set_active c l s)"
proof -
  define v where "v = (set_active c l s)\<lparr>user := (fst (user s) @ [t], snd (user s))\<rparr>"
  define s' where "s' = fold do_action (P t v) v"
  note tail = timer_inv_tail [OF assms(1,2)]
  have v: "timer_inv v" "expired_timers now c v = expired_timers now c (set_active c l s)" "clock (timers v t) = c"
    using tail(1,3) by (simp_all add: v_def timer_inv_def expired_timers_def)
  have time: "qemu_get_clock c v = now" "qemu_get_clock c s' = now"
    using assms(5) same_clocks(1) [of v s c] same_clocks(1) [of s' v c] by (simp_all add: v_def s'_def)
  have later: "\<forall>u x. Arm u x \<in> set (P t v) \<longrightarrow> clock (timers v u) = c \<longrightarrow> now < x"
    using assms(4) time(1) by (auto simp: arms_later_def)
  show thesis
  proof
    have "program P t (set_active c l s) = Some s'" by (simp add: program_def s'_def v_def Let_def)
    then show "run_expired (program P) c now s = run_expired (program P) c now s'"
      using assms(2,3) by (subst run_expired.simps) simp
    show "timer_inv s'" using v(1) by (simp add: s'_def timer_inv_actions)
    show "qemu_get_clock c s' = now" by (rule time)
    show "fst (user s') = fst (user s) @ [t]" by (simp add: s'_def v_def)
    show "subseq (expired_timers now c s') (expired_timers now c (set_active c l s))"
      using expired_actions [OF later v(1)] v(2) by (simp add: s'_def)
    show "expired_timers now c s' = expired_timers now c (set_active c l s)" if own: "own_timer P"
    proof -
      have "\<forall>a \<in> set (P t v). case a of Arm u x \<Rightarrow> u = t \<and> now < x | Stop u \<Rightarrow> u = t | Change f \<Rightarrow> True"
        using own later v(3) by (fastforce simp: own_timer_def split: timer_action.splits)
      moreover have "t \<notin> set (expired_timers now c v)" using tail(2) by (simp add: expired_timers_def v_def)
      ultimately show ?thesis using expired_own_actions v by (metis s'_def)
    qed
  qed
qed

lemma run_expired_stops:
  assumes "timer_inv s" "expired_timers now c s = []"
  shows "run_expired CB c now s = Some s"
  using assms by (subst run_expired.simps) (auto simp: expired_timers_def split: list.split if_splits)

lemma run_expired_spec:
  assumes "timer_inv s" "arms_later c now P" "qemu_get_clock c s = now"
  shows "\<exists>s' ran. run_expired (program P) c now s = Some s' \<and> timer_inv s' \<and> qemu_get_clock c s' = now \<and>
    fst (user s') = fst (user s) @ ran \<and> subseq ran (expired_timers now c s) \<and> expired_timers now c s' = [] \<and>
    (own_timer P \<longrightarrow> ran = expired_timers now c s)"
  using assms(1,3)
proof (induction "length (expired_timers now c s)" arbitrary: s rule: less_induct)
  case less
  show ?case
  proof (cases "expired_timers now c s = []")
    case True
    then show ?thesis using less.prems run_expired_stops [OF less.prems(1) True] by simp
  next
    case False
    then obtain t l where a: "active_timers s c = t # l" "expiry s t \<le> now"
      using expired_none [OF less.prems(1)] by (cases "active_timers s c") (force simp: expired_timers_def not_le)+
    note h = expired_head [OF less.prems(1) a]
    obtain s' where s': "run_expired (program P) c now s = run_expired (program P) c now s'" "timer_inv s'" "qemu_get_clock c s' = now"
        "fst (user s') = fst (user s) @ [t]" "subseq (expired_timers now c s') (expired_timers now c (set_active c l s))"
        "own_timer P \<Longrightarrow> expired_timers now c s' = expired_timers now c (set_active c l s)"
      using run_expired_round [OF less.prems(1) a assms(2) less.prems(2)] by metis
    have "length (expired_timers now c s') < length (expired_timers now c s)"
      using list_emb_length [OF s'(5)] h by simp
    from less.hyps [OF this s'(2,3)] obtain s'' ran where
        r: "run_expired (program P) c now s' = Some s''" "timer_inv s''" "qemu_get_clock c s'' = now"
          "fst (user s'') = fst (user s') @ ran" "subseq ran (expired_timers now c s')" "expired_timers now c s'' = []"
          "own_timer P \<longrightarrow> ran = expired_timers now c s'"
      by blast
    have "subseq (t # ran) (expired_timers now c s)"
      using r(5) s'(5) h by (simp add: subseq_order.trans)
    moreover have "own_timer P \<longrightarrow> t # ran = expired_timers now c s" using r(7) s'(6) h by simp
    ultimately show ?thesis using r s'(1,4) by (intro exI [of _ s''] exI [of _ "t # ran"]) simp
  qed
qed

text \<open>The timers that expired run, each once, in the order of their times, and then none is left.\<close>

text \<open>C15: Running the timers of an enabled clock ends: when callbacks arm only their own timer, and
  only for later, exactly the expired timers run, each once and in the order of their times, and
  none that expired is left.\<close>

theorem timers_run_in_order:
  assumes "timer_inv s" "clock_enabled s c" "arms_later c (qemu_get_clock c s) P" "own_timer P"
  defines "now \<equiv> qemu_get_clock c s"
  shows "\<exists>s'. qemu_run_timers (program P) c s = Some s' \<and>
    fst (user s') = fst (user s) @ expired_timers now c s \<and>
    sorted (map (expiry s) (expired_timers now c s)) \<and> distinct (expired_timers now c s) \<and> expired_timers now c s' = []"
proof -
  have "sorted (map (expiry s) (expired_timers now c s))" "distinct (expired_timers now c s)"
    using assms(1) sorted_filter [of "expiry s" "active_timers s c"] by (simp_all add: expired_timers_def timer_inv_def)
  then show ?thesis
    using run_expired_spec [OF assms(1,3)] assms(2,4) unfolding qemu_run_timers_def now_def by auto
qed

text \<open>Callbacks that stop and arm any timers: no timer runs twice, and the loop ends with none expired.\<close>

theorem timers_run_once:
  assumes "timer_inv s" "arms_later c (qemu_get_clock c s) P" "clock_enabled s c"
  shows "\<exists>s' ran. qemu_run_timers (program P) c s = Some s' \<and> timer_inv s' \<and> fst (user s') = fst (user s) @ ran \<and>
    subseq ran (expired_timers (qemu_get_clock c s) c s) \<and> distinct ran \<and>
    (\<forall>t \<in> set (active_timers s' c). qemu_get_clock c s' < expiry s' t)"
proof -
  obtain s' ran where r: "run_expired (program P) c (qemu_get_clock c s) s = Some s'" "timer_inv s'"
      "qemu_get_clock c s' = qemu_get_clock c s" "fst (user s') = fst (user s) @ ran"
      "subseq ran (expired_timers (qemu_get_clock c s) c s)" "expired_timers (qemu_get_clock c s) c s' = []"
    using run_expired_spec [OF assms(1,2) refl] by blast
  have "distinct ran" using r(5) assms(1) by (auto simp: expired_timers_def timer_inv_def subseq_conv_nths intro: distinct_nthsI)
  moreover have "\<forall>t \<in> set (active_timers s' c). qemu_get_clock c s' < expiry s' t"
    using r(3,6) by (auto simp: expired_timers_def filter_empty_conv)
  ultimately show ?thesis using r assms(3) by (auto simp: qemu_run_timers_def)
qed

section \<open>Every reachable state\<close>

definition keeps_inv :: "'w callbacks \<Rightarrow> bool" where
  "keeps_inv CB \<longleftrightarrow> (\<forall>t s s'. timer_inv s \<longrightarrow> CB t s = Some s' \<longrightarrow> timer_inv s')"

lemma keeps_inv_program: "keeps_inv (program P)"
proof -
  have "timer_inv (fold do_action as (s\<lparr>user := w\<rparr>))" if "timer_inv s" for as w and s :: "(nat list \<times> 'a) timer_sys"
    using that by (intro timer_inv_actions) (simp add: timer_inv_def)
  then show ?thesis by (auto simp: keeps_inv_def program_def Let_def)
qed

lemma run_expired_inv: "run_expired CB c now s = Some s' \<Longrightarrow> keeps_inv CB \<Longrightarrow> timer_inv s \<Longrightarrow> timer_inv s'"
proof -
  have step: "keeps_inv CB \<longrightarrow> timer_inv s \<longrightarrow> timer_inv s'"
    if IH: "\<And>CB c now s s'. run CB c now s = Some s' \<Longrightarrow> keeps_inv CB \<longrightarrow> timer_inv s \<longrightarrow> timer_inv s'"
      and r: "(case active_timers s c of [] \<Rightarrow> Some s
        | ts # l \<Rightarrow> if now < expiry s ts then Some s else Option.bind (CB ts (set_active c l s)) (run CB c now)) = Some s'"
    for run and CB :: "'a callbacks" and c now s s'
  proof (intro impI)
    assume k: "keeps_inv CB" and s: "timer_inv s"
    show "timer_inv s'"
    proof (cases "active_timers s c")
      case (Cons ts l)
      show ?thesis
      proof (cases "now < expiry s ts")
        case False
        then obtain v where v: "CB ts (set_active c l s) = Some v" "run CB c now v = Some s'"
          using r Cons by (auto simp: bind_eq_Some_conv)
        have "timer_inv v" using k v(1) timer_inv_tail(1) [OF s Cons] by (auto simp: keeps_inv_def)
        then show ?thesis using IH [OF v(2)] k by blast
      qed (use r s Cons in simp)
    qed (use r s in simp)
  qed
  have "run_expired CB c now s = Some s' \<Longrightarrow> keeps_inv CB \<longrightarrow> timer_inv s \<longrightarrow> timer_inv s'"
    by (rule run_expired.raw_induct [where P = "\<lambda>CB c now s s'. keeps_inv CB \<longrightarrow> timer_inv s \<longrightarrow> timer_inv s'"])
      (rule step, assumption+)
  then show "run_expired CB c now s = Some s' \<Longrightarrow> keeps_inv CB \<Longrightarrow> timer_inv s \<Longrightarrow> timer_inv s'" by blast
qed

lemma timer_inv_cong: "active_timers t = active_timers s \<Longrightarrow> timers t = timers s \<Longrightarrow> timer_inv t = timer_inv s"
  by (simp add: timer_inv_def)

lemma timer_inv_rearm [simp]: "timer_inv (qemu_rearm_alarm_timer s) = timer_inv s"
  by (rule timer_inv_cong) simp_all

lemma timer_inv_fields [simp]:
  "timer_inv (s\<lparr>alarm_pending := b\<rparr>) = timer_inv s" "timer_inv (s\<lparr>alarm_expired := b\<rparr>) = timer_inv s"
  "timer_inv (s\<lparr>host_timer := h\<rparr>) = timer_inv s"
  by (simp_all add: timer_inv_def)

lemma run_timers_inv: "qemu_run_timers CB c s = Some s' \<Longrightarrow> keeps_inv CB \<Longrightarrow> timer_inv s \<Longrightarrow> timer_inv s'"
  using run_expired_inv [of CB c "qemu_get_clock c s" s s'] by (auto simp: qemu_run_timers_def split: if_splits)

lemma run_all_timers_inv:
  assumes "qemu_run_all_timers CB s = Some s'" "keeps_inv CB" "timer_inv s"
  shows "timer_inv s'"
proof -
  define v where "v = (if alarm_expired s then qemu_rearm_alarm_timer (s\<lparr>alarm_pending := False, alarm_expired := False\<rparr>)
    else s\<lparr>alarm_pending := False\<rparr>)"
  obtain a b where r: "(if vm_running v then qemu_run_timers CB QEMU_CLOCK_VIRTUAL v else Some v) = Some a"
      "qemu_run_timers CB QEMU_CLOCK_REALTIME a = Some b" "qemu_run_timers CB QEMU_CLOCK_HOST b = Some s'"
    using assms(1) by (auto simp: qemu_run_all_timers_def v_def Let_def bind_eq_Some_conv split: if_splits)
  have "timer_inv v" using assms(3) by (simp add: v_def)
  then have "timer_inv a" using r(1) run_timers_inv [OF _ assms(2)] by (auto split: if_splits)
  then show ?thesis using r(2,3) run_timers_inv [OF _ assms(2)] by blast
qed

text \<open>The operations on timers, whatever the callbacks do, and everything else that changes the machine but the
  lists of timers.\<close>

inductive timer_step :: "'v programs \<Rightarrow> (nat list \<times> 'v) timer_sys \<Rightarrow> (nat list \<times> 'v) timer_sys \<Rightarrow> bool" for P where
  step_new: "(\<forall>d. ts \<notin> set (active_timers s d)) \<Longrightarrow> timer_step P s (qemu_new_timer ts c s)"
| step_mod: "timer_step P s (qemu_mod_timer ts x s)"
| step_del: "timer_step P s (qemu_del_timer ts s)"
| step_load: "timer_step P s (qemu_get_timer v ts s)"
| step_run: "qemu_run_all_timers (program P) s = Some t \<Longrightarrow> timer_step P s t"
| step_alarm: "timer_step P s (host_alarm_handler s)"
| step_rearm: "timer_step P s (alarm_timer_on_change_state_rearm b s)"
| step_other: "active_timers t = active_timers s \<Longrightarrow> timers t = timers s \<Longrightarrow> timer_step P s t"

definition no_timers :: "'w timer_sys \<Rightarrow> bool" where
  "no_timers s \<longleftrightarrow> (\<forall>c. active_timers s c = [])"

interpretation timer: device no_timers "timer_step P" timer_inv for P :: "'v programs"
proof
  fix s :: "(nat list \<times> 'v) timer_sys"
  show "no_timers s \<Longrightarrow> timer_inv s" by (simp add: no_timers_def timer_inv_def)
next
  fix s t :: "(nat list \<times> 'v) timer_sys"
  assume "timer_step P s t" "timer_inv s"
  then show "timer_inv t"
  proof (cases rule: timer_step.cases)
    case (step_new ts c)
    have "clock (timers t u) = clock (timers s u) \<and> expiry t u = expiry s u" if "u \<in> set (active_timers s d)" for u d
      using step_new that by (auto simp: qemu_new_timer_def)
    moreover have "active_timers t = active_timers s" using step_new by (simp add: qemu_new_timer_def)
    ultimately show ?thesis using \<open>timer_inv s\<close> unfolding timer_inv_def by (metis (no_types, lifting) map_cong)
  next
    case (step_load v ts)
    then show ?thesis using \<open>timer_inv s\<close> by (simp add: qemu_get_timer_def timer_inv_mod timer_inv_del)
  next
    case step_run
    then show ?thesis using \<open>timer_inv s\<close> run_all_timers_inv keeps_inv_program by blast
  next
    case step_alarm
    then show ?thesis using \<open>timer_inv s\<close> by (simp add: host_alarm_handler_def timer_inv_def)
  next
    case (step_rearm b)
    then show ?thesis using \<open>timer_inv s\<close> by (simp add: alarm_timer_on_change_state_rearm_def)
  next
    case step_other
    then show ?thesis using \<open>timer_inv s\<close> timer_inv_cong by blast
  qed (simp_all only: timer_inv_mod timer_inv_del \<open>timer_inv s\<close>)
qed

abbreviation timers_reachable :: "'v programs \<Rightarrow> (nat list \<times> 'v) timer_sys \<Rightarrow> bool" where
  "timers_reachable P \<equiv> reach no_timers (timer_step P)"

theorem timer_lists_sorted:
  assumes "timers_reachable P s"
  shows "sorted (map (expiry s) (active_timers s c)) \<and> distinct (active_timers s c) \<and>
    (\<forall>t \<in> set (active_timers s c). clock (timers s t) = c)"
  using timer.reachable_inv [OF assms] unfolding timer_inv_def by blast

section \<open>Witnesses\<close>

definition sample_timers :: "(nat list \<times> nat) timer_sys" where
  "sample_timers = clocks.extend sample_clocks
    \<lparr>timers = (\<lambda>_. \<lparr>clock = 1, expire_time = 0\<rparr>), active_timers = (\<lambda>_. []), clock_enabled = (\<lambda>_. True), has_dynticks = True,
     alarm_expired = False, alarm_pending = False, host_timer = 0, notified_events = 0, user = ([], 0)\<rparr>"

text \<open>Timers 1 and 2 of the virtual clock have expired, timer 3 has not; each arms itself again.\<close>

definition sample_armed :: "(nat list \<times> nat) timer_sys" where
  "sample_armed = qemu_mod_timer 3 70 (qemu_mod_timer 1 (- 5) (qemu_mod_timer 2 (- 9) sample_timers))"

definition sample_programs :: "nat programs" where
  "sample_programs t s = [Arm t (qemu_get_clock 1 s + 10), Change Suc]"

lemma sample_reachable: "timers_reachable P sample_armed"
proof -
  have "timers_reachable P sample_timers" by (rule reach_init) (simp add: no_timers_def sample_timers_def clocks.extend_def)
  then show ?thesis unfolding sample_armed_def by (blast intro: reach_step step_mod)
qed

lemma sample_armed_values:
  "clock_enabled sample_armed 1" "arms_later 1 (qemu_get_clock 1 sample_armed) sample_programs" "own_timer sample_programs"
  "qemu_get_clock 1 sample_armed = 0" "expired_timers 0 1 sample_armed = [2, 1]" "user sample_armed = ([], 0)"
proof -
  show "clock_enabled sample_armed 1" "user sample_armed = ([], 0)" by (simp_all add: sample_armed_def sample_timers_def clocks.extend_def)
  show "arms_later 1 (qemu_get_clock 1 sample_armed) sample_programs" "own_timer sample_programs"
    by (auto simp: arms_later_def own_timer_def sample_programs_def)
  have "clocks.truncate sample_armed = clocks.truncate sample_timers" unfolding sample_armed_def by simp
  also have "\<dots> = sample_clocks" by (simp add: sample_timers_def clocks.extend_def clocks.truncate_def)
  finally have "qemu_get_clock 1 sample_armed = qemu_get_clock 1 sample_clocks" using get_clock_truncate(1) by metis
  then show "qemu_get_clock 1 sample_armed = 0"
    by (simp add: qemu_get_clock_def QEMU_CLOCK_REALTIME_def QEMU_CLOCK_HOST_def sample_clocks_def cpu_get_clock_def Let_def)
  show "expired_timers 0 1 sample_armed = [2, 1]"
    by (simp add: expired_timers_def sample_armed_def sample_timers_def clocks.extend_def)
qed

theorem timer_lists_sorted_witness: "sorted (map (expiry sample_armed) (active_timers sample_armed 1))"
  using timer_lists_sorted [OF sample_reachable, of 1] by blast

theorem timers_run_in_order_witness:
  "\<exists>s. qemu_run_timers (program sample_programs) 1 sample_armed = Some s \<and> fst (user s) = [2, 1]"
  using timers_run_in_order [OF timer.reachable_inv [OF sample_reachable] sample_armed_values(1-3)]
  unfolding sample_armed_values(4,5,6) by auto

theorem timers_run_once_witness:
  "\<exists>s ran. qemu_run_timers (program sample_programs) 1 sample_armed = Some s \<and> subseq ran [2, 1]"
  using timers_run_once [OF timer.reachable_inv [OF sample_reachable] sample_armed_values(2,1)]
  unfolding sample_armed_values(4,5) by blast

end
