(* ===== verification/Qemu_Alarm.thy ===== *)
theory Qemu_Alarm
  imports Qemu_Timer
begin

text \<open>
  What the deadlines of \<open>qemu/qemu-timer.c\<close> are for: the alarm of the host is set early enough for every timer,
  an idle machine that counts instructions moves its clock to the next timer, and saved timers are restored.
\<close>

section \<open>Deadlines\<close>

text \<open>The nanoseconds until a timer expires, by the clock readings that \<open>qemu_next_alarm_deadline\<close> uses.\<close>

definition remaining :: "nat \<Rightarrow> nat \<Rightarrow> 'w timer_sys \<Rightarrow> int" where
  "remaining c t s =
    (if c = QEMU_CLOCK_VIRTUAL then expiry s t - qemu_get_clock QEMU_CLOCK_VIRTUAL s
     else if c = QEMU_CLOCK_HOST then expiry s t - qemu_get_clock_ns QEMU_CLOCK_HOST s
     else expiry s t * 1000000 - qemu_get_clock_ns QEMU_CLOCK_REALTIME s)"

text \<open>The clocks whose timers wake the emulator: the virtual one does not if it counts instructions.\<close>

definition wakes :: "nat \<Rightarrow> 'w timer_sys \<Rightarrow> bool" where
  "wakes c s \<longleftrightarrow> c = QEMU_CLOCK_REALTIME \<or> c = QEMU_CLOCK_HOST \<or> c = QEMU_CLOCK_VIRTUAL \<and> use_icount s = 0"

lemmas clock_numbers = QEMU_CLOCK_REALTIME_def QEMU_CLOCK_VIRTUAL_def QEMU_CLOCK_HOST_def

lemma head_least:
  assumes "timer_inv s" "active_timers s c = h # l" "t \<in> set (h # l)"
  shows "expiry s h \<le> expiry s t"
proof -
  have "sorted (map (expiry s) (h # l))" using assms(1,2) unfolding timer_inv_def by metis
  then show ?thesis using assms(3) by auto
qed

lemma next_alarm_deadline_le:
  assumes "timer_inv s" "t \<in> set (active_timers s c)" "wakes c s"
  shows "qemu_next_alarm_deadline s \<le> remaining c t s"
proof -
  obtain h l where h: "active_timers s c = h # l" using assms(2) by (cases "active_timers s c") auto
  have "expiry s h \<le> expiry s t" using head_least [OF assms(1) h] assms(2) h by simp
  then have "remaining c h s \<le> remaining c t s" by (simp add: remaining_def)
  moreover have "qemu_next_alarm_deadline s \<le> remaining c h s"
    using h assms(3)
    by (auto simp: qemu_next_alarm_deadline_def remaining_def wakes_def clock_numbers Let_def split: list.split)
  ultimately show ?thesis by linarith
qed

lemma next_deadline_le:
  assumes "timer_inv s" "t \<in> set (active_timers s c)" "c = QEMU_CLOCK_VIRTUAL \<or> c = QEMU_CLOCK_HOST"
  shows "qemu_next_deadline s \<le> max 0 (expiry s t - qemu_get_clock_ns c s)"
proof -
  obtain h l where h: "active_timers s c = h # l" using assms(2) by (cases "active_timers s c") auto
  have "expiry s h \<le> expiry s t" using head_least [OF assms(1) h] assms(2) h by simp
  moreover have "qemu_next_deadline s \<le> max 0 (expiry s h - qemu_get_clock_ns c s)"
    using h assms(3) by (auto simp: qemu_next_deadline_def Let_def split: list.split)
  ultimately show ?thesis by linarith
qed

lemma next_deadline_nonneg: "0 \<le> qemu_next_deadline s"
  by (simp add: qemu_next_deadline_def Let_def)

section \<open>The alarm\<close>

definition rearm_floor :: "'w timer_sys \<Rightarrow> int" where
  "rearm_floor s = (if in_simulation s then SIM_MIN_TIMER_REARM_NS else MIN_TIMER_REARM_NS)"

text \<open>The host's timer runs and expires no later than any timer, up to the shortest time it is set to.\<close>

definition alarm_covers :: "'w timer_sys \<Rightarrow> bool" where
  "alarm_covers s \<longleftrightarrow>
    (\<forall>c t. wakes c s \<longrightarrow> t \<in> set (active_timers s c) \<longrightarrow> 0 < host_timer s \<and> host_timer s \<le> max (rearm_floor s) (remaining c t s))"

lemma dynticks_rearm_host_timer:
  assumes "wakes c s" "active_timers s c \<noteq> []" "0 \<le> host_timer s"
  shows "0 < host_timer (dynticks_rearm_timer s) \<and>
    host_timer (dynticks_rearm_timer s) \<le> max (rearm_floor s) (qemu_next_alarm_deadline s)"
  using assms
  by (auto simp: dynticks_rearm_timer_def wakes_def rearm_floor_def MIN_TIMER_REARM_NS_def SIM_MIN_TIMER_REARM_NS_def Let_def)

lemma same_clocks_deadlines:
  assumes "clocks.truncate t = clocks.truncate s" "timers t u = timers s u"
  shows "remaining c u t = remaining c u s" "wakes c t = wakes c s" "rearm_floor t = rearm_floor s"
  using same_clocks [OF assms(1)] assms(2) by (simp_all add: remaining_def wakes_def rearm_floor_def)

lemma rearm_covers:
  assumes "timer_inv s" "0 \<le> host_timer s" "has_dynticks s"
  shows "alarm_covers (qemu_rearm_alarm_timer s)"
proof -
  let ?s = "qemu_rearm_alarm_timer s"
  note same = same_clocks_deadlines [of ?s s]
  show ?thesis unfolding alarm_covers_def
  proof (intro allI impI)
    fix c t
    assume t: "wakes c ?s" "t \<in> set (active_timers ?s c)"
    then have w: "wakes c s" "t \<in> set (active_timers s c)" using same by simp_all
    have "host_timer ?s = host_timer (dynticks_rearm_timer s)" using assms(3) by (simp add: qemu_rearm_alarm_timer_def)
    moreover have "active_timers s c \<noteq> []" using w(2) by auto
    ultimately have "0 < host_timer ?s" "host_timer ?s \<le> max (rearm_floor s) (qemu_next_alarm_deadline s)"
      using dynticks_rearm_host_timer [OF w(1) _ assms(2)] by simp_all
    moreover have "qemu_next_alarm_deadline s \<le> remaining c t s" using next_alarm_deadline_le assms(1) w by blast
    moreover have "remaining c t ?s = remaining c t s" "rearm_floor ?s = rearm_floor s" using same by simp_all
    ultimately show "0 < host_timer ?s \<and> host_timer ?s \<le> max (rearm_floor ?s) (remaining c t ?s)" by linarith
  qed
qed

lemma covers_del:
  assumes "alarm_covers s"
  shows "alarm_covers (qemu_del_timer ts s)"
proof -
  have "host_timer (qemu_del_timer ts s) = host_timer s" by (simp add: qemu_del_timer_def Let_def)
  moreover have "set (active_timers (qemu_del_timer ts s) c) \<subseteq> set (active_timers s c)" for c
    by (simp add: set_remove1_subset)
  moreover note same_clocks_deadlines [of "qemu_del_timer ts s" s]
  ultimately show ?thesis using assms unfolding alarm_covers_def by (metis del_timer_frame(2,5) subsetD)
qed

text \<open>The state after the new place in the list, before the alarm.\<close>

definition relinked :: "nat \<Rightarrow> int \<Rightarrow> 'w timer_sys \<Rightarrow> 'w timer_sys" where
  "relinked ts x s =
    (let s = qemu_del_timer ts s; c = clock (timers s ts)
     in set_active c (link_timer (expiry s) ts x (active_timers s c)) (s\<lparr>timers := (timers s)(ts := (timers s ts)\<lparr>expire_time := x\<rparr>)\<rparr>))"

definition goes_first :: "nat \<Rightarrow> int \<Rightarrow> 'w timer_sys \<Rightarrow> bool" where
  "goes_first ts x s = (case remove1 ts (active_timers s (clock (timers s ts))) of [] \<Rightarrow> True | t # _ \<Rightarrow> expiry s t > x)"

lemma relinked_frame [simp]:
  "timers (relinked ts x s) = timers (qemu_mod_timer ts x s)"
  "active_timers (relinked ts x s) = active_timers (qemu_mod_timer ts x s)"
  "clocks.truncate (relinked ts x s) = clocks.truncate s" "host_timer (relinked ts x s) = host_timer s"
  "has_dynticks (relinked ts x s) = has_dynticks s" "alarm_pending (relinked ts x s) = alarm_pending s"
proof -
  have "alarm_pending (qemu_del_timer ts s) = alarm_pending s" "host_timer (qemu_del_timer ts s) = host_timer s"
      "has_dynticks (qemu_del_timer ts s) = has_dynticks s"
    by (simp_all add: qemu_del_timer_def Let_def)
  then show
    "timers (relinked ts x s) = timers (qemu_mod_timer ts x s)"
    "active_timers (relinked ts x s) = active_timers (qemu_mod_timer ts x s)"
    "clocks.truncate (relinked ts x s) = clocks.truncate s" "host_timer (relinked ts x s) = host_timer s"
    "has_dynticks (relinked ts x s) = has_dynticks s" "alarm_pending (relinked ts x s) = alarm_pending s"
    by (simp_all add: relinked_def Let_def)
qed

lemma mod_timer_relinked:
  "qemu_mod_timer ts x s =
    (if goes_first ts x s
     then let s = (if \<not> alarm_pending (relinked ts x s) then qemu_rearm_alarm_timer (relinked ts x s) else relinked ts x s)
          in if use_icount s \<noteq> 0 then qemu_notify_event s else s
     else relinked ts x s)"
  by (simp only: qemu_mod_timer_def relinked_def goes_first_def Let_def del_timer_frame fun_upd_same)

lemma covers_notify: "alarm_covers (qemu_notify_event s) = alarm_covers s"
proof -
  have "host_timer (qemu_notify_event s) = host_timer s" by (simp add: qemu_notify_event_def)
  then show ?thesis using same_clocks_deadlines [of "qemu_notify_event s" s] by (simp add: alarm_covers_def)
qed

lemma covers_relinked:
  assumes "timer_inv s" "alarm_covers s" "\<not> goes_first ts x s"
  shows "alarm_covers (relinked ts x s)"
proof -
  let ?c = "clock (timers s ts)" and ?v = "relinked ts x s"
  obtain h l where h: "remove1 ts (active_timers s ?c) = h # l" "expiry s h \<le> x"
    using assms(3) by (auto simp: goes_first_def not_less split: list.splits)
  have hs: "h \<in> set (active_timers s ?c)" using h(1) set_remove1_subset [of ts "active_timers s ?c"] by auto
  have same: "wakes c ?v = wakes c s" "rearm_floor ?v = rearm_floor s" for c
    using same_clocks [of ?v s] by (simp_all add: wakes_def rearm_floor_def)
  show ?thesis unfolding alarm_covers_def same
  proof (intro allI impI)
    fix c t
    assume t: "wakes c s" "t \<in> set (active_timers ?v c)"
    show "0 < host_timer ?v \<and> host_timer ?v \<le> max (rearm_floor s) (remaining c t ?v)"
    proof (cases "t = ts")
      case True
      have "clock (timers (qemu_mod_timer ts x s) t) = c"
        using timer_inv_mod [OF assms(1), of ts x] t(2) unfolding timer_inv_def relinked_frame by blast
      then have "c = ?c" using True by simp
      then have "0 < host_timer s" "host_timer s \<le> max (rearm_floor s) (remaining c h s)"
        using assms(2) t(1) hs unfolding alarm_covers_def by blast+
      moreover have "remaining c h s \<le> remaining c t ?v"
        using h(2) True same_clocks [of ?v s] by (simp add: remaining_def)
      ultimately show ?thesis by simp
    next
      case False
      have "set (active_timers ?v c) \<subseteq> insert ts (set (active_timers s c))"
        using set_remove1_subset [of ts "active_timers s ?c"] by auto
      then have "t \<in> set (active_timers s c)" using t(2) False by blast
      moreover have "remaining c t ?v = remaining c t s" 
        by (rule same_clocks_deadlines) (use False in simp_all)
      ultimately show ?thesis using assms(2) t(1) by (simp add: alarm_covers_def)
    qed
  qed
qed

text \<open>Arming and stopping timers keeps the alarm early enough for every one of them.\<close>

text \<open>C16: With dynamic ticks and no alarm pending, arming and stopping timers keeps the host alarm
  early enough: if it was so before, it runs and expires no later than any timer that wakes the
  emulator, up to the shortest time it can be set to.\<close>

theorem alarm_never_late:
  assumes "timer_inv s" "alarm_covers s" "0 \<le> host_timer s" "has_dynticks s" "\<not> alarm_pending s"
  shows "alarm_covers (qemu_mod_timer ts x s) \<and> alarm_covers (qemu_del_timer ts s)"
proof
  have "timer_inv (relinked ts x s)"
    using timer_inv_mod [OF assms(1)] timer_inv_cong [of "relinked ts x s" "qemu_mod_timer ts x s"] relinked_frame(1,2) by metis
  then have "alarm_covers (qemu_rearm_alarm_timer (relinked ts x s))" using assms(3,4) by (simp add: rearm_covers)
  then show "alarm_covers (qemu_mod_timer ts x s)"
    using assms(5) covers_relinked [OF assms(1,2)] by (simp add: mod_timer_relinked Let_def covers_notify)
qed (rule covers_del [OF assms(2)])

section \<open>Saved timers\<close>

theorem timer_save_restore:
  assumes "timer_inv t" "clock (timers t ts) = clock (timers s ts)"
    and "- (2 ^ 63) \<le> expiry s ts" "expiry s ts < 2 ^ 63"
  defines "t' \<equiv> qemu_get_timer (qemu_put_timer ts s) ts t"
  shows "qemu_timer_pending ts t' = (qemu_timer_pending ts s \<and> expiry s ts \<noteq> - 1) \<and>
    (qemu_timer_pending ts t' \<longrightarrow> expiry t' ts = expiry s ts) \<and>
    (\<forall>u. u \<noteq> ts \<longrightarrow> expiry t' u = expiry t u \<and> (\<forall>c. u \<in> set (active_timers t' c) \<longleftrightarrow> u \<in> set (active_timers t c)))"
proof (cases "qemu_timer_pending ts s \<and> expiry s ts \<noteq> - 1")
  case True
  let ?w = "word_of_int (expiry s ts) :: u64"
  have s: "sint ?w = expiry s ts" using assms(3,4) by (simp add: signed_take_bit_int_eq_self sint_sbintrunc')
  have "sint (- 1 :: u64) = - 1" by simp
  then have "?w \<noteq> - 1" using True s by metis
  then have "t' = qemu_mod_timer ts (expiry s ts) t"
    using True s by (simp add: t'_def qemu_get_timer_def qemu_put_timer_def)
  then show ?thesis using True by (auto simp: qemu_timer_pending_def list_ex_iff)
next
  case False
  then have "t' = qemu_del_timer ts t" by (auto simp: t'_def qemu_get_timer_def qemu_put_timer_def)
  moreover have "distinct (active_timers t (clock (timers t ts)))" using assms(1) by (simp add: timer_inv_def)
  ultimately show ?thesis using False by (auto simp: qemu_timer_pending_def list_ex_iff)
qed

text \<open>A timer that waits for the time -1 is saved as one that is not pending.\<close>

lemma timer_at_minus_one_lost: "expiry s ts = - 1 \<Longrightarrow> qemu_put_timer ts s = - 1"
  by (simp add: qemu_put_timer_def)

section \<open>An idle machine that counts instructions\<close>

text \<open>The virtual clock goes to the next timer, at most ten milliseconds and never further than one instruction past
  a timer that has not expired.\<close>

lemma next_deadline_cases:
  obtains "qemu_next_deadline s = INT32_MAX"
  | t where "t \<in> set (active_timers s QEMU_CLOCK_VIRTUAL)"
      "qemu_next_deadline s = max 0 (expiry s t - qemu_get_clock_ns QEMU_CLOCK_VIRTUAL s)"
  | t where "t \<in> set (active_timers s QEMU_CLOCK_HOST)"
      "qemu_next_deadline s = max 0 (expiry s t - qemu_get_clock_ns QEMU_CLOCK_HOST s)"
proof -
  let ?d = "\<lambda>t c. max 0 (expiry s t - qemu_get_clock_ns c s)"
  have "qemu_next_deadline s = INT32_MAX \<or>
      (\<exists>t l. active_timers s QEMU_CLOCK_VIRTUAL = t # l \<and> qemu_next_deadline s = ?d t QEMU_CLOCK_VIRTUAL) \<or>
      (\<exists>t l. active_timers s QEMU_CLOCK_HOST = t # l \<and> qemu_next_deadline s = ?d t QEMU_CLOCK_HOST)"
    by (auto simp: qemu_next_deadline_def INT32_MAX_def Let_def max_def split: list.split)
  then show thesis
  proof (elim disjE exE conjE)
    fix t l
    assume "active_timers s QEMU_CLOCK_VIRTUAL = t # l" "qemu_next_deadline s = ?d t QEMU_CLOCK_VIRTUAL"
    then show thesis using that(2) [of t] by simp
  next
    fix t l
    assume "active_timers s QEMU_CLOCK_HOST = t # l" "qemu_next_deadline s = ?d t QEMU_CLOCK_HOST"
    then show thesis using that(3) [of t] by simp
  qed (rule that(1))
qed

theorem icount_idle_advance:
  assumes "timer_inv s" "vm_running s" "use_icount s \<noteq> 0" "icount_left s = 0" "\<not> in_simulation s"
  defines "s' \<equiv> snd (qemu_calculate_timeout s)"
  defines "V \<equiv> qemu_get_clock QEMU_CLOCK_VIRTUAL s" and "V' \<equiv> qemu_get_clock QEMU_CLOCK_VIRTUAL s'"
    and "H \<equiv> qemu_get_clock_ns QEMU_CLOCK_HOST s"
  shows "if 0 < qemu_icount_delta s then V' = V
    else V \<le> V' \<and> V' < V + 10000000 + 2 ^ icount_time_shift s \<and>
      (\<forall>t \<in> set (active_timers s QEMU_CLOCK_VIRTUAL). V' < max V (expiry s t) + 2 ^ icount_time_shift s) \<and>
      (V + 10000000 \<le> V' \<or> (\<exists>t \<in> set (active_timers s QEMU_CLOCK_VIRTUAL). expiry s t \<le> V') \<or>
        (\<exists>t \<in> set (active_timers s QEMU_CLOCK_HOST). expiry s t \<le> H + (V' - V)))"
proof (cases "0 < qemu_icount_delta s")
  case True
  then have "s' = s" using assms(2) by (simp add: s'_def qemu_calculate_timeout_def)
  then show ?thesis using True by (simp add: V_def V'_def)
next
  case False
  define add where "add = (if qemu_next_deadline s > 10000000 then 10000000 else qemu_next_deadline s)"
  have s': "s' = s\<lparr>qemu_icount := qemu_icount s + qemu_icount_round add s\<rparr>"
    using assms(2) False by (simp add: s'_def qemu_calculate_timeout_def add_def Let_def)
  have "push_bit k (a + b) = push_bit k a + push_bit k b" for k and a b :: int
    by (simp add: push_bit_eq_mult distrib_right)
  then have V': "V' = V + push_bit (icount_time_shift s) (qemu_icount_round add s)"
    using assms(3-5) by (simp add: V_def V'_def s' qemu_get_clock_def cpu_get_icount_def clock_numbers)
  have V: "qemu_get_clock_ns QEMU_CLOCK_VIRTUAL s = V"
    using assms(3,5) by (simp add: V_def qemu_get_clock_def qemu_get_clock_ns_def clock_numbers)
  have r: "V + add \<le> V'" "V' < V + add + 2 ^ icount_time_shift s"
    using qemu_icount_round_least [of add s] unfolding V' by linarith+
  have a: "0 \<le> add" "add \<le> 10000000" "add \<le> qemu_next_deadline s" using next_deadline_nonneg [of s] by (simp_all add: add_def)
  have "V' < max V (expiry s t) + 2 ^ icount_time_shift s" if "t \<in> set (active_timers s QEMU_CLOCK_VIRTUAL)" for t
    using next_deadline_le [OF assms(1) that] V r(2) a(3) by linarith
  moreover have "V + 10000000 \<le> V' \<or> (\<exists>t \<in> set (active_timers s QEMU_CLOCK_VIRTUAL). expiry s t \<le> V') \<or>
      (\<exists>t \<in> set (active_timers s QEMU_CLOCK_HOST). expiry s t \<le> H + (V' - V))"
  proof (cases "add = 10000000")
    case True
    then show ?thesis using r(1) by linarith
  next
    case no: False
    then have add: "add = qemu_next_deadline s" "qemu_next_deadline s \<noteq> INT32_MAX"
      by (auto simp: add_def INT32_MAX_def split: if_splits)
    show ?thesis
    proof (rule next_deadline_cases [of s])
      assume "qemu_next_deadline s = INT32_MAX"
      with add(2) show ?thesis ..
    next
      fix t
      assume "t \<in> set (active_timers s QEMU_CLOCK_VIRTUAL)"
        "qemu_next_deadline s = max 0 (expiry s t - qemu_get_clock_ns QEMU_CLOCK_VIRTUAL s)"
      moreover from this have "expiry s t \<le> V'" using r(1) add(1) V by linarith
      ultimately show ?thesis by blast
    next
      fix t
      assume "t \<in> set (active_timers s QEMU_CLOCK_HOST)"
        "qemu_next_deadline s = max 0 (expiry s t - qemu_get_clock_ns QEMU_CLOCK_HOST s)"
      moreover from this have "expiry s t \<le> H + (V' - V)" using r(1) add(1) unfolding H_def by linarith
      ultimately show ?thesis by blast
    qed
  qed
  ultimately show ?thesis using False r a by (simp only: if_False) (intro conjI; (linarith | blast))
qed

section \<open>Witnesses\<close>

theorem alarm_never_late_witness:
  "alarm_covers (qemu_mod_timer 3 70 sample_timers)"
proof -
  have "timer_inv sample_timers" "alarm_covers sample_timers" "0 \<le> host_timer sample_timers" "has_dynticks sample_timers"
      "\<not> alarm_pending sample_timers"
    by (simp_all add: timer_inv_def alarm_covers_def sample_timers_def clocks.extend_def)
  from alarm_never_late [OF this, of 3 70] show ?thesis by blast
qed

theorem timer_save_restore_witness:
  "qemu_timer_pending 3 (qemu_get_timer (qemu_put_timer 3 sample_armed) 3 sample_timers)"
proof -
  have i: "timer_inv sample_timers" by (simp add: timer_inv_def sample_timers_def clocks.extend_def)
  have "clock (timers sample_timers 3) = clock (timers sample_armed 3)" "expiry sample_armed 3 = 70"
      "qemu_timer_pending 3 sample_armed"
    by (simp_all add: sample_armed_def sample_timers_def clocks.extend_def qemu_timer_pending_def)
  then show ?thesis using timer_save_restore [OF i, of 3 sample_armed] by simp
qed

theorem icount_idle_advance_witness:
  "qemu_get_clock QEMU_CLOCK_VIRTUAL (snd (qemu_calculate_timeout (sample_timers\<lparr>use_icount := 1\<rparr>))) < 10000000 + 8"
proof -
  let ?s = "sample_timers\<lparr>use_icount := 1\<rparr>"
  have "timer_inv ?s" "vm_running ?s" "use_icount ?s = 1" "qemu_icount_delta ?s = 0" "icount_left ?s = 0" "\<not> in_simulation ?s"
      "qemu_get_clock QEMU_CLOCK_VIRTUAL ?s = 0" "icount_time_shift ?s = 3"
    by (simp_all add: timer_inv_def sample_timers_def sample_clocks_def clocks.extend_def qemu_get_clock_def cpu_get_icount_def qemu_icount_delta_def clock_numbers)
  with icount_idle_advance [of ?s] show ?thesis by simp
qed

end
