(* ===== verification/X86_Flags.thy ===== *)
theory X86_Flags
  imports Prelude
begin

text \<open>
  The arithmetic flags of the x86 processor, \<open>qemu/target-i386/helper_template.h\<close>, and their use in
  \<open>op_helper.c\<close> and \<open>exec.h\<close>. An instruction leaves its operation in \<open>CC_OP\<close>, an operand in \<open>CC_SRC\<close> and its
  result in \<open>CC_DST\<close>; the flags are computed from these when they are needed.

  \<^item> \<open>target_ulong\<close> has 64 bits. The template is instantiated for four sizes: \<open>size\<close> is the size of the
    operation and every function of the template takes it as an argument. The bits above the size of an
    operand may hold anything, as in the code.
  \<^item> \<open>cc_op\<close> has the constructors of the C enumeration with the size as an argument.
\<close>

unbundle bit_operations_syntax

section \<open>State\<close>

datatype size = SzB | SzW | SzL | SzQ

definition data_bits :: "size \<Rightarrow> nat" where
  "data_bits sz = (case sz of SzB \<Rightarrow> 8 | SzW \<Rightarrow> 16 | SzL \<Rightarrow> 32 | SzQ \<Rightarrow> 64)"

datatype cc_op =
  CC_OP_DYNAMIC | CC_OP_EFLAGS | CC_OP_MUL size | CC_OP_ADD size | CC_OP_ADC size | CC_OP_SUB size | CC_OP_SBB size
| CC_OP_LOGIC size | CC_OP_INC size | CC_OP_DEC size | CC_OP_SHL size | CC_OP_SAR size

record x86 =
  EAX :: u64
  EDX :: u64
  CC_OP :: cc_op
  CC_SRC :: u64
  CC_DST :: u64
  cc_tmp :: u64
  eflags :: u32
  DF :: int

definition CC_C :: "'a :: len word" where "CC_C = 0x0001"
definition CC_P :: "'a :: len word" where "CC_P = 0x0004"
definition CC_A :: "'a :: len word" where "CC_A = 0x0010"
definition CC_Z :: "'a :: len word" where "CC_Z = 0x0040"
definition CC_S :: "'a :: len word" where "CC_S = 0x0080"
definition CC_O :: "'a :: len word" where "CC_O = 0x0800"

text \<open>The table of 256 entries, in rows of eight.\<close>

definition parity_table :: "u32 list" where
  "parity_table =
    (let a = [CC_P, 0, 0, CC_P, 0, CC_P, CC_P, 0]; b = [0, CC_P, CC_P, 0, CC_P, 0, 0, CC_P]
     in concat [a, b, b, a, b, a, a, b, b, a, a, b, a, b, b, a, b, a, a, b, a, b, b, a, a, b, b, a, b, a, a, b])"

definition parity_of :: "u64 \<Rightarrow> u32" where
  "parity_of x = parity_table ! unat (x AND 0xff)"

definition lshift :: "u64 \<Rightarrow> int \<Rightarrow> u64" where
  "lshift x n = (if n \<ge> 0 then push_bit (nat n) x else signed_drop_bit (nat (- n)) x)"

text \<open>\<open>(DATA_TYPE)\<close>.\<close>

definition data_type :: "size \<Rightarrow> u64 \<Rightarrow> u64" where
  "data_type sz x = take_bit (data_bits sz) x"

definition sign_mask :: "size \<Rightarrow> u64" where
  "sign_mask sz = push_bit (data_bits sz - 1) 1"

definition zf_of :: "size \<Rightarrow> u64 \<Rightarrow> u32" where
  "zf_of sz dst = push_bit 6 (of_bool (data_type sz dst = 0))"

definition sf_of :: "size \<Rightarrow> u64 \<Rightarrow> u32" where
  "sf_of sz dst = ucast (lshift dst (8 - int (data_bits sz)) AND 0x80)"

section \<open>The template\<close>

definition compute_all_add :: "size \<Rightarrow> u64 \<Rightarrow> u64 \<Rightarrow> u32" where
  "compute_all_add sz src dst =
    (let src1 = src; src2 = dst - src;
         cf = of_bool (data_type sz dst < data_type sz src1);
         pf = parity_of dst;
         af = ucast ((dst XOR src1 XOR src2) AND 0x10);
         zf = zf_of sz dst; sf = sf_of sz dst;
         ovf = ucast (lshift ((src1 XOR src2 XOR - 1) AND (src1 XOR dst)) (12 - int (data_bits sz)) AND CC_O)
     in cf OR pf OR af OR zf OR sf OR ovf)"

definition compute_c_add :: "size \<Rightarrow> u64 \<Rightarrow> u64 \<Rightarrow> u32" where
  "compute_c_add sz src dst = of_bool (data_type sz dst < data_type sz src)"

definition compute_all_adc :: "size \<Rightarrow> u64 \<Rightarrow> u64 \<Rightarrow> u32" where
  "compute_all_adc sz src dst =
    (let src1 = src; src2 = dst - src - 1;
         cf = of_bool (data_type sz dst \<le> data_type sz src1);
         pf = parity_of dst;
         af = ucast ((dst XOR src1 XOR src2) AND 0x10);
         zf = zf_of sz dst; sf = sf_of sz dst;
         ovf = ucast (lshift ((src1 XOR src2 XOR - 1) AND (src1 XOR dst)) (12 - int (data_bits sz)) AND CC_O)
     in cf OR pf OR af OR zf OR sf OR ovf)"

definition compute_c_adc :: "size \<Rightarrow> u64 \<Rightarrow> u64 \<Rightarrow> u32" where
  "compute_c_adc sz src dst = of_bool (data_type sz dst \<le> data_type sz src)"

definition compute_all_sub :: "size \<Rightarrow> u64 \<Rightarrow> u64 \<Rightarrow> u32" where
  "compute_all_sub sz src dst =
    (let src1 = dst + src; src2 = src;
         cf = of_bool (data_type sz src1 < data_type sz src2);
         pf = parity_of dst;
         af = ucast ((dst XOR src1 XOR src2) AND 0x10);
         zf = zf_of sz dst; sf = sf_of sz dst;
         ovf = ucast (lshift ((src1 XOR src2) AND (src1 XOR dst)) (12 - int (data_bits sz)) AND CC_O)
     in cf OR pf OR af OR zf OR sf OR ovf)"

definition compute_c_sub :: "size \<Rightarrow> u64 \<Rightarrow> u64 \<Rightarrow> u32" where
  "compute_c_sub sz src dst = of_bool (data_type sz (dst + src) < data_type sz src)"

definition compute_all_sbb :: "size \<Rightarrow> u64 \<Rightarrow> u64 \<Rightarrow> u32" where
  "compute_all_sbb sz src dst =
    (let src1 = dst + src + 1; src2 = src;
         cf = of_bool (data_type sz src1 \<le> data_type sz src2);
         pf = parity_of dst;
         af = ucast ((dst XOR src1 XOR src2) AND 0x10);
         zf = zf_of sz dst; sf = sf_of sz dst;
         ovf = ucast (lshift ((src1 XOR src2) AND (src1 XOR dst)) (12 - int (data_bits sz)) AND CC_O)
     in cf OR pf OR af OR zf OR sf OR ovf)"

definition compute_c_sbb :: "size \<Rightarrow> u64 \<Rightarrow> u64 \<Rightarrow> u32" where
  "compute_c_sbb sz src dst = of_bool (data_type sz (dst + src + 1) \<le> data_type sz src)"

definition compute_all_logic :: "size \<Rightarrow> u64 \<Rightarrow> u64 \<Rightarrow> u32" where
  "compute_all_logic sz src dst = parity_of dst OR zf_of sz dst OR sf_of sz dst"

definition compute_c_logic :: u32 where
  "compute_c_logic = 0"

definition compute_all_inc :: "size \<Rightarrow> u64 \<Rightarrow> u64 \<Rightarrow> u32" where
  "compute_all_inc sz src dst =
    (let src1 = dst - 1; src2 = 1;
         cf = ucast src;
         pf = parity_of dst;
         af = ucast ((dst XOR src1 XOR src2) AND 0x10);
         zf = zf_of sz dst; sf = sf_of sz dst;
         ovf = push_bit 11 (of_bool (dst AND mask (data_bits sz) = sign_mask sz))
     in cf OR pf OR af OR zf OR sf OR ovf)"

definition compute_c_inc :: "u64 \<Rightarrow> u32" where
  "compute_c_inc src = ucast src"

definition compute_all_dec :: "size \<Rightarrow> u64 \<Rightarrow> u64 \<Rightarrow> u32" where
  "compute_all_dec sz src dst =
    (let src1 = dst + 1; src2 = 1;
         cf = ucast src;
         pf = parity_of dst;
         af = ucast ((dst XOR src1 XOR src2) AND 0x10);
         zf = zf_of sz dst; sf = sf_of sz dst;
         ovf = push_bit 11 (of_bool (dst AND mask (data_bits sz) = sign_mask sz - 1))
     in cf OR pf OR af OR zf OR sf OR ovf)"

definition compute_all_shl :: "size \<Rightarrow> u64 \<Rightarrow> u64 \<Rightarrow> u32" where
  "compute_all_shl sz src dst =
    (let cf = ucast (drop_bit (data_bits sz - 1) src) AND CC_C;
         pf = parity_of dst;
         zf = zf_of sz dst; sf = sf_of sz dst;
         ovf = ucast (lshift (src XOR dst) (12 - int (data_bits sz)) AND CC_O)
     in cf OR pf OR zf OR sf OR ovf)"

definition compute_c_shl :: "size \<Rightarrow> u64 \<Rightarrow> u32" where
  "compute_c_shl sz src = ucast (drop_bit (data_bits sz - 1) src) AND CC_C"

definition compute_c_sar :: "u64 \<Rightarrow> u32" where
  "compute_c_sar src = ucast (src AND 1)"

definition compute_all_sar :: "size \<Rightarrow> u64 \<Rightarrow> u64 \<Rightarrow> u32" where
  "compute_all_sar sz src dst =
    (let cf = ucast (src AND 1);
         pf = parity_of dst;
         zf = zf_of sz dst; sf = sf_of sz dst;
         ovf = ucast (lshift (src XOR dst) (12 - int (data_bits sz)) AND CC_O)
     in cf OR pf OR zf OR sf OR ovf)"

definition compute_c_mul :: "u64 \<Rightarrow> u32" where
  "compute_c_mul src = of_bool (src \<noteq> 0)"

definition compute_all_mul :: "size \<Rightarrow> u64 \<Rightarrow> u64 \<Rightarrow> u32" where
  "compute_all_mul sz src dst =
    (let cf = of_bool (src \<noteq> 0);
         pf = parity_of dst;
         zf = zf_of sz dst; sf = sf_of sz dst;
         ovf = push_bit 11 cf
     in cf OR pf OR zf OR sf OR ovf)"

definition compute_all_eflags :: "u64 \<Rightarrow> u32" where
  "compute_all_eflags src = ucast src"

definition compute_c_eflags :: "u64 \<Rightarrow> u32" where
  "compute_c_eflags src = ucast src AND CC_C"

section \<open>Flags of the processor\<close>

definition helper_cc_compute_all :: "cc_op \<Rightarrow> 'a x86_scheme \<Rightarrow> u32" where
  "helper_cc_compute_all op e =
    (case op of
       CC_OP_DYNAMIC \<Rightarrow> 0
     | CC_OP_EFLAGS \<Rightarrow> compute_all_eflags (CC_SRC e)
     | CC_OP_MUL sz \<Rightarrow> compute_all_mul sz (CC_SRC e) (CC_DST e)
     | CC_OP_ADD sz \<Rightarrow> compute_all_add sz (CC_SRC e) (CC_DST e)
     | CC_OP_ADC sz \<Rightarrow> compute_all_adc sz (CC_SRC e) (CC_DST e)
     | CC_OP_SUB sz \<Rightarrow> compute_all_sub sz (CC_SRC e) (CC_DST e)
     | CC_OP_SBB sz \<Rightarrow> compute_all_sbb sz (CC_SRC e) (CC_DST e)
     | CC_OP_LOGIC sz \<Rightarrow> compute_all_logic sz (CC_SRC e) (CC_DST e)
     | CC_OP_INC sz \<Rightarrow> compute_all_inc sz (CC_SRC e) (CC_DST e)
     | CC_OP_DEC sz \<Rightarrow> compute_all_dec sz (CC_SRC e) (CC_DST e)
     | CC_OP_SHL sz \<Rightarrow> compute_all_shl sz (CC_SRC e) (CC_DST e)
     | CC_OP_SAR sz \<Rightarrow> compute_all_sar sz (CC_SRC e) (CC_DST e))"

definition helper_cc_compute_c :: "cc_op \<Rightarrow> 'a x86_scheme \<Rightarrow> u32" where
  "helper_cc_compute_c op e =
    (case op of
       CC_OP_DYNAMIC \<Rightarrow> 0
     | CC_OP_EFLAGS \<Rightarrow> compute_c_eflags (CC_SRC e)
     | CC_OP_MUL sz \<Rightarrow> compute_c_mul (CC_SRC e)
     | CC_OP_ADD sz \<Rightarrow> compute_c_add sz (CC_SRC e) (CC_DST e)
     | CC_OP_ADC sz \<Rightarrow> compute_c_adc sz (CC_SRC e) (CC_DST e)
     | CC_OP_SUB sz \<Rightarrow> compute_c_sub sz (CC_SRC e) (CC_DST e)
     | CC_OP_SBB sz \<Rightarrow> compute_c_sbb sz (CC_SRC e) (CC_DST e)
     | CC_OP_LOGIC sz \<Rightarrow> compute_c_logic
     | CC_OP_INC sz \<Rightarrow> compute_c_inc (CC_SRC e)
     | CC_OP_DEC sz \<Rightarrow> compute_c_inc (CC_SRC e)
     | CC_OP_SHL sz \<Rightarrow> compute_c_shl sz (CC_SRC e)
     | CC_OP_SAR sz \<Rightarrow> compute_c_sar (CC_SRC e))"

definition DF_MASK :: u32 where "DF_MASK = 0x00000400"

definition RF_MASK :: u32 where "RF_MASK = 0x00010000"
definition VM_MASK :: u32 where "VM_MASK = 0x00020000"

definition helper_read_eflags :: "'a x86_scheme \<Rightarrow> u64" where
  "helper_read_eflags e =
    ucast (helper_cc_compute_all (CC_OP e) e OR (word_of_int (DF e) AND DF_MASK) OR (eflags e AND NOT (VM_MASK OR RF_MASK)))"

definition compute_eflags :: "'a x86_scheme \<Rightarrow> u32" where
  "compute_eflags e = eflags e OR helper_cc_compute_all (CC_OP e) e OR (word_of_int (DF e) AND DF_MASK)"

definition load_eflags :: "u32 \<Rightarrow> u32 \<Rightarrow> 'a x86_scheme \<Rightarrow> 'a x86_scheme" where
  "load_eflags f update_mask e =
    e\<lparr>CC_SRC := ucast (f AND (CC_O OR CC_S OR CC_Z OR CC_A OR CC_P OR CC_C)),
      DF := 1 - (2 * uint (drop_bit 10 f AND 1)),
      eflags := (eflags e AND NOT update_mask) OR (f AND update_mask) OR 0x2\<rparr>"

definition helper_write_eflags :: "u64 \<Rightarrow> u32 \<Rightarrow> 'a x86_scheme \<Rightarrow> 'a x86_scheme" where
  "helper_write_eflags t0 update_mask e = load_eflags (ucast t0) update_mask e"

section \<open>Reference: the flags of a sum and of a difference\<close>

definition flag_word :: "bool \<Rightarrow> bool \<Rightarrow> bool \<Rightarrow> bool \<Rightarrow> bool \<Rightarrow> bool \<Rightarrow> u32" where
  "flag_word c p a z s v =
    of_bool c OR push_bit 2 (of_bool p) OR push_bit 4 (of_bool a) OR push_bit 6 (of_bool z) OR push_bit 7 (of_bool s) OR
    push_bit 11 (of_bool v)"

text \<open>An operand as an unsigned and as a signed number of its size.\<close>

definition unsigned_of :: "size \<Rightarrow> u64 \<Rightarrow> int" where
  "unsigned_of sz x = take_bit (data_bits sz) (uint x)"

definition signed_of :: "size \<Rightarrow> u64 \<Rightarrow> int" where
  "signed_of sz x = signed_take_bit (data_bits sz - 1) (uint x)"

definition even_parity :: "u64 \<Rightarrow> bool" where
  "even_parity x \<longleftrightarrow> even (length (filter (bit x) [0..<8]))"

definition in_signed_range :: "size \<Rightarrow> int \<Rightarrow> bool" where
  "in_signed_range sz i \<longleftrightarrow> - (2 ^ (data_bits sz - 1)) \<le> i \<and> i < 2 ^ (data_bits sz - 1)"

text \<open>\<open>r\<close> is the result, \<open>c\<close> the carry that goes in.\<close>

definition sum_flags :: "size \<Rightarrow> u64 \<Rightarrow> u64 \<Rightarrow> int \<Rightarrow> u64 \<Rightarrow> u32" where
  "sum_flags sz a b c r =
    flag_word (2 ^ data_bits sz \<le> unsigned_of sz a + unsigned_of sz b + c) (even_parity r)
      (16 \<le> uint a mod 16 + uint b mod 16 + c) (unsigned_of sz r = 0) (signed_of sz r < 0)
      (\<not> in_signed_range sz (signed_of sz a + signed_of sz b + c))"

definition difference_flags :: "size \<Rightarrow> u64 \<Rightarrow> u64 \<Rightarrow> int \<Rightarrow> u64 \<Rightarrow> u32" where
  "difference_flags sz a b c r =
    flag_word (unsigned_of sz a < unsigned_of sz b + c) (even_parity r)
      (uint a mod 16 < uint b mod 16 + c) (unsigned_of sz r = 0) (signed_of sz r < 0)
      (\<not> in_signed_range sz (signed_of sz a - signed_of sz b - c))"

section \<open>Single flags\<close>

lemma data_bits_bounds: "8 \<le> data_bits sz" "data_bits sz \<le> 64"
  by (cases sz; simp add: data_bits_def)+

lemma sign_index [simp]: "data_bits sz - Suc 0 < 64" "data_bits sz \<noteq> 0"
  by (cases sz; simp add: data_bits_def)+

lemma flag_masks:
  "CC_C = (bitmask 0 :: 'a :: len word)" "CC_P = (bitmask 2 :: 'a word)" "CC_A = (bitmask 4 :: 'a word)"
  "CC_Z = (bitmask 6 :: 'a word)" "CC_S = (bitmask 7 :: 'a word)" "CC_O = (bitmask 11 :: 'a word)"
  by (simp_all add: CC_C_def CC_P_def CC_A_def CC_Z_def CC_S_def CC_O_def push_bit_eq_mult)

lemma and_bitmask_ucast:
  assumes "k < 32"
  shows "(ucast ((x :: u64) AND bitmask k) :: u32) = push_bit k (of_bool (bit x k))"
  by (rule bit_word_eqI) (use assms in \<open>auto simp: bit_simps\<close>)

text \<open>Bit 7 of the flags from the sign bit, and bit 11 from it.\<close>

lemma bit_lshift_sign:
  "bit (lshift x (8 - int (data_bits sz))) 7 = bit x (data_bits sz - 1)"
  "bit (lshift x (12 - int (data_bits sz))) 11 = bit x (data_bits sz - 1)"
  by (cases sz; simp add: lshift_def data_bits_def bit_signed_drop_bit_iff bit_push_bit_iff)+

lemma sf_of_eq: "sf_of sz x = push_bit 7 (of_bool (bit x (data_bits sz - 1)))"
proof -
  have "(0x80 :: u64) = bitmask 7" by simp
  then show ?thesis by (simp only: sf_of_def and_bitmask_ucast bit_lshift_sign)
qed

lemma of_eq: "ucast (lshift x (12 - int (data_bits sz)) AND CC_O) = (push_bit 11 (of_bool (bit x (data_bits sz - 1))) :: u32)"
  by (simp only: flag_masks and_bitmask_ucast bit_lshift_sign)

lemma af_eq: "ucast ((x :: u64) AND 0x10) = (push_bit 4 (of_bool (bit x 4)) :: u32)"
proof -
  have "(0x10 :: u64) = bitmask 4" by simp
  then show ?thesis by (simp only: and_bitmask_ucast)
qed

definition parity8 :: "int \<Rightarrow> bool" where
  "parity8 i \<longleftrightarrow> even (i + i div 2 + i div 4 + i div 8 + i div 16 + i div 32 + i div 64 + i div 128)"

lemma parity_table_bytes: "parity_table = map (\<lambda>i. if parity8 i then CC_P else 0) [0..255]"
  by (simp add: parity_table_def Let_def upto_rec_numeral upto.simps [of 0 255] upto.simps [of 1 255] parity8_def)

lemma parity_table_nth: "0 \<le> j \<Longrightarrow> j < 256 \<Longrightarrow> parity_table ! nat j = (if parity8 j then CC_P else 0)"
  by (simp add: parity_table_bytes nth_upto)

lemma even_filter_Cons: "even (length (filter P (x # xs))) \<longleftrightarrow> (P x \<longleftrightarrow> odd (length (filter P xs)))"
  by simp

lemma parity8_bits: "parity8 i = even (length (filter (bit i) [0..<8]))"
proof -
  have l: "[0..<8] = [0, 1, 2, 3, 4, 5, 6, 7 :: nat]" by code_simp
  have e: "even (length (filter (bit i) [0..<8])) =
      (bit i 0 \<longleftrightarrow> \<not> (bit i 1 \<longleftrightarrow> \<not> (bit i 2 \<longleftrightarrow> \<not> (bit i 3 \<longleftrightarrow> \<not> (bit i 4 \<longleftrightarrow> \<not> (bit i 5 \<longleftrightarrow> \<not> (bit i 6 \<longleftrightarrow> bit i 7)))))))"
    unfolding l even_filter_Cons by simp
  show ?thesis unfolding e parity8_def even_add bit_iff_odd by simp argo
qed

lemma parity_of_eq: "parity_of x = push_bit 2 (of_bool (even_parity x))"
proof -
  let ?k = "uint (x AND 0xff)"
  have m: "(0xff :: u64) = mask 8" by (simp add: mask_eq_exp_minus_1)
  have "?k = take_bit 8 (uint x)" unfolding m by (simp add: unsigned_take_bit_eq flip: take_bit_eq_mask)
  then have k: "0 \<le> ?k" "?k < 256" by (simp_all add: take_bit_eq_mod)
  have "parity_of x = (if parity8 ?k then CC_P else 0)"
    using parity_table_nth [OF k] by (simp add: parity_of_def)
  moreover have "parity8 ?k = even_parity x"
  proof -
    have "filter (bit ?k) [0..<8] = filter (bit x) [0..<8]"
      unfolding m by (intro filter_cong) (auto simp: bit_unsigned_iff bit_simps)
    moreover have "parity8 ?k = even (length (filter (bit ?k) [0..<8]))"
      by (rule parity8_bits)
    ultimately show ?thesis by (simp add: even_parity_def)
  qed
  ultimately show ?thesis by (simp add: CC_P_def)
qed

section \<open>Numbers of a size\<close>

lemma uint_data_type: "uint (data_type sz x) = unsigned_of sz x"
  using data_bits_bounds(2) [of sz] by (simp add: data_type_def unsigned_of_def unsigned_take_bit_eq)

lemma data_type_less: "data_type sz x < data_type sz y \<longleftrightarrow> unsigned_of sz x < unsigned_of sz y"
  "data_type sz x \<le> data_type sz y \<longleftrightarrow> unsigned_of sz x \<le> unsigned_of sz y"
  by (simp_all add: word_less_def word_le_def uint_data_type)

lemma zf_of_eq: "zf_of sz x = push_bit 6 (of_bool (unsigned_of sz x = 0))"
  by (simp add: zf_of_def uint_0_iff flip: uint_data_type)

lemma unsigned_range: "0 \<le> unsigned_of sz x" "unsigned_of sz x < 2 ^ data_bits sz"
  by (simp_all add: unsigned_of_def)

lemma unsigned_of_mod: "unsigned_of sz x = uint x mod 2 ^ data_bits sz"
  by (simp add: unsigned_of_def take_bit_eq_mod)

lemma mod_64_size: "(i mod 2 ^ 64) mod 2 ^ data_bits sz = i mod (2 :: int) ^ data_bits sz"
proof -
  have "(2 :: int) ^ data_bits sz dvd 2 ^ 64" using data_bits_bounds(2) by (rule le_imp_power_dvd)
  then show ?thesis by (rule mod_mod_cancel)
qed

lemma unsigned_of_int: "unsigned_of sz (word_of_int i) = i mod 2 ^ data_bits sz"
  using mod_64_size [of i sz] by (simp add: unsigned_of_mod uint_word_of_int)

lemma power_size: "(2 :: int) ^ data_bits sz = 2 * 2 ^ (data_bits sz - 1)"
  using data_bits_bounds(1) [of sz] by (cases "data_bits sz") simp_all

lemma sign_bit: "bit x (data_bits sz - 1) \<longleftrightarrow> 2 ^ (data_bits sz - 1) \<le> unsigned_of sz x"
proof -
  let ?n = "data_bits sz - 1"
  have n: "data_bits sz = Suc ?n" using data_bits_bounds(1) [of sz] by simp
  have "bit x ?n = bit (unsigned_of sz x) ?n"
    using data_bits_bounds [of sz] by (simp add: unsigned_of_def bit_take_bit_iff bit_uint_iff)
  also have "\<dots> = odd (unsigned_of sz x div 2 ^ ?n)" by (rule bit_iff_odd)
  also have "\<dots> \<longleftrightarrow> 2 ^ ?n \<le> unsigned_of sz x"
  proof -
    have u: "0 \<le> unsigned_of sz x" "unsigned_of sz x < 2 * 2 ^ ?n"
      using unsigned_range [of sz x] unfolding power_size by simp_all
    show ?thesis
    proof (cases "2 ^ ?n \<le> unsigned_of sz x")
      case True
      then have "unsigned_of sz x div 2 ^ ?n = 1" using u by (intro div_pos_geq [THEN trans]) auto
      then show ?thesis using True by simp
    next
      case False
      then have "unsigned_of sz x div 2 ^ ?n = 0" using u by simp
      then show ?thesis using False by simp
    qed
  qed
  finally show ?thesis .
qed

lemma signed_of_eq:
  "signed_of sz x = (if bit x (data_bits sz - 1) then unsigned_of sz x - 2 ^ data_bits sz else unsigned_of sz x)"
proof -
  have n: "Suc (data_bits sz - 1) = data_bits sz" using data_bits_bounds(1) [of sz] by simp
  have "bit (uint x) (data_bits sz - 1) = bit x (data_bits sz - 1)"
    using data_bits_bounds [of sz] by (simp add: bit_uint_iff)
  then show ?thesis
    using signed_take_bit_eq_take_bit_minus [of "data_bits sz - 1" "uint x"]
    by (simp only: signed_of_def unsigned_of_def n) simp
qed

section \<open>Sums and differences\<close>

lemma div_16_sum: "(16 * z + w) div 16 = z + w div (16 :: int)"
  by simp

lemma bit4_sum:
  fixes x y c :: int
  assumes "c = 0 \<or> c = 1"
  shows "(bit (x + y + c) 4 \<noteq> (bit x 4 \<noteq> bit y 4)) \<longleftrightarrow> 16 \<le> x mod 16 + y mod 16 + c"
proof -
  define k where "k = (x mod 16 + y mod 16 + c) div 16"
  have k: "k = (if 16 \<le> x mod 16 + y mod 16 + c then 1 else 0)" using assms unfolding k_def by auto
  have "x + y + c = 16 * (x div 16 + y div 16) + (x mod 16 + y mod 16 + c)" by simp
  then have "(x + y + c) div 16 = x div 16 + y div 16 + k" unfolding k_def by (metis div_16_sum)
  then show ?thesis unfolding bit_iff_odd using k by simp
qed

lemma bit4_difference:
  fixes x y c :: int
  assumes "c = 0 \<or> c = 1"
  shows "(bit (x - y - c) 4 \<noteq> (bit x 4 \<noteq> bit y 4)) \<longleftrightarrow> x mod 16 < y mod 16 + c"
proof -
  define k where "k = (x mod 16 - y mod 16 - c) div 16"
  have k: "k = (if x mod 16 < y mod 16 + c then - 1 else 0)" using assms unfolding k_def by auto
  have "x - y - c = 16 * (x div 16 - y div 16) + (x mod 16 - y mod 16 - c)"
    by (simp add: right_diff_distrib minus_mod_eq_mult_div [symmetric])
  then have "(x - y - c) div 16 = x div 16 - y div 16 + k" unfolding k_def by (metis div_16_sum)
  then show ?thesis unfolding bit_iff_odd using k by simp
qed

lemma bit4_uint: "bit (x :: u64) 4 = bit (uint x) 4"
  by (simp add: bit_uint_iff)

lemma uint_sum_bit4: "bit (word_of_int i :: u64) 4 = bit i 4"
  by (simp add: bit_word_of_int_iff)

text \<open>One size of operands: \<open>H\<close> is the weight of the sign.\<close>

lemma sum_mod_cases:
  fixes A :: int
  assumes "0 \<le> A" "A < 2 * H" "0 \<le> B" "B < 2 * H" "c = 0 \<or> c = 1"
  shows "(A + B + c) mod (2 * H) = (if 2 * H \<le> A + B + c then A + B + c - 2 * H else A + B + c)"
proof (cases "2 * H \<le> A + B + c")
  case True
  have "(A + B + c) mod (2 * H) = (A + B + c - 2 * H) mod (2 * H)" by simp
  also have "\<dots> = A + B + c - 2 * H" using assms True by (intro mod_pos_pos_trivial) auto
  finally show ?thesis using True by simp
qed (use assms in auto)

lemma difference_mod_cases:
  fixes A :: int
  assumes "0 \<le> A" "A < 2 * H" "0 \<le> B" "B < 2 * H" "c = 0 \<or> c = 1"
  shows "(A - B - c) mod (2 * H) = (if A < B + c then A - B - c + 2 * H else A - B - c)"
proof (cases "A < B + c")
  case True
  have "(A - B - c) mod (2 * H) = (A - B - c + 2 * H) mod (2 * H)" by simp
  also have "\<dots> = A - B - c + 2 * H" using assms True by (intro mod_pos_pos_trivial) auto
  finally show ?thesis using True by simp
qed (use assms in auto)

lemma mod_sum_terms:
  "(x mod m + y mod m + c) mod m = (x + y + c) mod (m :: int)"
  "(x mod m - y mod m - c) mod m = (x - y - c) mod m"
proof -
  have "(x mod m + y mod m + c) mod m = ((x mod m + y mod m) mod m + c) mod m" by (rule mod_add_left_eq [symmetric])
  also have "\<dots> = ((x + y) mod m + c) mod m" by (simp only: mod_add_eq)
  also have "\<dots> = (x + y + c) mod m" by (rule mod_add_left_eq)
  finally show "(x mod m + y mod m + c) mod m = (x + y + c) mod m" .
  have "(x mod m - y mod m - c) mod m = ((x mod m - y mod m) mod m - c) mod m" by (rule mod_diff_left_eq [symmetric])
  also have "\<dots> = ((x - y) mod m - c) mod m" by (simp only: mod_diff_eq)
  also have "\<dots> = (x - y - c) mod m" by (rule mod_diff_left_eq)
  finally show "(x mod m - y mod m - c) mod m = (x - y - c) mod m" .
qed

lemma bit_overflow:
  fixes a b r :: u64
  assumes "k < 64"
  shows "bit ((b XOR a XOR - 1) AND (b XOR r)) k \<longleftrightarrow> (bit a k \<longleftrightarrow> bit b k) \<and> (bit b k \<noteq> bit r k)"
    "bit ((a XOR b) AND (a XOR r)) k \<longleftrightarrow> (bit a k \<noteq> bit b k) \<and> (bit a k \<noteq> bit r k)"
  using assms by (auto simp: bit_simps)

locale sum_of_size =
  fixes sz :: size and a b r :: u64 and c :: int
  assumes c: "c = 0 \<or> c = 1" and r: "r = word_of_int (uint a + uint b + c)"
begin

lemma result: "unsigned_of sz r = (unsigned_of sz a + unsigned_of sz b + c) mod 2 ^ data_bits sz"
  unfolding r unsigned_of_int unfolding unsigned_of_mod mod_sum_terms ..

lemmas cases = sum_mod_cases [OF unsigned_range(1) [of sz a] unsigned_range(2) [of sz a, unfolded power_size]
  unsigned_range(1) [of sz b] unsigned_range(2) [of sz b, unfolded power_size] c, folded power_size, folded result]

lemma carry: "(if c = 0 then unsigned_of sz r < unsigned_of sz b else unsigned_of sz r \<le> unsigned_of sz b) \<longleftrightarrow>
    2 ^ data_bits sz \<le> unsigned_of sz a + unsigned_of sz b + c"
  using cases unsigned_range [of sz a] unsigned_range [of sz b] c by auto

lemma half_carry: "bit (r XOR b XOR a) 4 \<longleftrightarrow> 16 \<le> uint a mod 16 + uint b mod 16 + c"
proof -
  have "bit r 4 = bit (uint a + uint b + c) 4" unfolding r by (rule uint_sum_bit4)
  then show ?thesis
    using bit4_sum [OF c, of "uint a" "uint b"] unfolding bit_xor_iff bit4_uint [of a] bit4_uint [of b] by blast
qed

lemma overflow:
  "bit ((b XOR a XOR - 1) AND (b XOR r)) (data_bits sz - 1) \<longleftrightarrow>
    \<not> in_signed_range sz (signed_of sz a + signed_of sz b + c)"
proof -
  define H :: int where "H = 2 ^ (data_bits sz - 1)"
  show ?thesis
    unfolding bit_overflow(1) [OF sign_index(1) [folded One_nat_def]]
    using cases c unsigned_range [of sz a] unsigned_range [of sz b]
    unfolding in_signed_range_def signed_of_eq sign_bit power_size H_def [symmetric]
    by (auto split: if_splits)
qed

end

locale difference_of_size =
  fixes sz :: size and a b r :: u64 and c :: int
  assumes c: "c = 0 \<or> c = 1" and r: "r = word_of_int (uint a - uint b - c)"
begin

lemma result: "unsigned_of sz r = (unsigned_of sz a - unsigned_of sz b - c) mod 2 ^ data_bits sz"
  unfolding r unsigned_of_int unfolding unsigned_of_mod mod_sum_terms ..

lemmas cases = difference_mod_cases [OF unsigned_range(1) [of sz a] unsigned_range(2) [of sz a, unfolded power_size]
  unsigned_range(1) [of sz b] unsigned_range(2) [of sz b, unfolded power_size] c, folded power_size, folded result]

lemma borrow: "(if c = 0 then unsigned_of sz a < unsigned_of sz b else unsigned_of sz a \<le> unsigned_of sz b) \<longleftrightarrow>
    unsigned_of sz a < unsigned_of sz b + c"
  using c by auto

lemma half_borrow: "bit (r XOR a XOR b) 4 \<longleftrightarrow> uint a mod 16 < uint b mod 16 + c"
proof -
  have "bit r 4 = bit (uint a - uint b - c) 4" unfolding r by (rule uint_sum_bit4)
  then show ?thesis
    using bit4_difference [OF c, of "uint a" "uint b"] unfolding bit_xor_iff bit4_uint [of a] bit4_uint [of b] by blast
qed

lemma overflow:
  "bit ((a XOR b) AND (a XOR r)) (data_bits sz - 1) \<longleftrightarrow> \<not> in_signed_range sz (signed_of sz a - signed_of sz b - c)"
proof -
  define H :: int where "H = 2 ^ (data_bits sz - 1)"
  show ?thesis
    unfolding bit_overflow(2) [OF sign_index(1) [folded One_nat_def]]
    using cases c unsigned_range [of sz a] unsigned_range [of sz b]
    unfolding in_signed_range_def signed_of_eq sign_bit power_size H_def [symmetric]
    by (auto split: if_splits)
qed

end

text \<open>The four instructions that add and subtract.\<close>

interpretation add: sum_of_size sz a b "a + b" 0 for sz a b
  by unfold_locales (simp_all add: wi_hom_syms)

interpretation adc: sum_of_size sz a b "a + b + 1" 1 for sz a b
  by unfold_locales (simp_all add: wi_hom_syms)

interpretation sub: difference_of_size sz a b "a - b" 0 for sz a b
  by unfold_locales (simp_all add: wi_hom_syms)

interpretation sbb: difference_of_size sz a b "a - b - 1" 1 for sz a b
  by unfold_locales (simp_all add: wi_hom_syms)

lemma signed_negative: "signed_of sz x < 0 \<longleftrightarrow> bit x (data_bits sz - 1)"
  using unsigned_range [of sz x] by (auto simp: signed_of_eq)

lemmas single_flags = parity_of_eq zf_of_eq sf_of_eq of_eq af_eq data_type_less

lemma compute_all_add_flags: "compute_all_add sz b (a + b) = sum_flags sz a b 0 (a + b)"
proof -
  have "a + b - b = a" by simp
  then show ?thesis
    using add.carry [of sz a b] add.half_carry [of a b] add.overflow [of b a sz]
    by (simp only: compute_all_add_def Let_def single_flags sum_flags_def flag_word_def signed_negative or.assoc simp_thms if_True)
qed

lemma compute_all_adc_flags: "compute_all_adc sz b (a + b + 1) = sum_flags sz a b 1 (a + b + 1)"
proof -
  have "a + b + 1 - b - 1 = a" by simp
  then show ?thesis
    using adc.carry [of sz a b] adc.half_carry [of a b] adc.overflow [of b a sz]
    by (simp only: compute_all_adc_def Let_def single_flags sum_flags_def flag_word_def signed_negative or.assoc one_neq_zero if_False)
qed

lemma compute_all_sub_flags: "compute_all_sub sz b (a - b) = difference_flags sz a b 0 (a - b)"
proof -
  have "a - b + b = a" by simp
  then show ?thesis
    using sub.borrow [of sz a b] sub.half_borrow [of a b] sub.overflow [of a b sz]
    by (simp only: compute_all_sub_def Let_def single_flags difference_flags_def flag_word_def signed_negative or.assoc simp_thms if_True)
qed

lemma compute_all_sbb_flags: "compute_all_sbb sz b (a - b - 1) = difference_flags sz a b 1 (a - b - 1)"
proof -
  have "a - b - 1 + b + 1 = a" by simp
  then show ?thesis
    using sbb.borrow [of sz a b] sbb.half_borrow [of a b] sbb.overflow [of a b sz]
    by (simp only: compute_all_sbb_def Let_def single_flags difference_flags_def flag_word_def signed_negative or.assoc
        one_neq_zero if_False)
qed

lemma x86_sum_flags:
  "helper_cc_compute_all (CC_OP_ADD sz) (e\<lparr>CC_SRC := b, CC_DST := a + b\<rparr>) = sum_flags sz a b 0 (a + b) \<and>
   helper_cc_compute_all (CC_OP_ADC sz) (e\<lparr>CC_SRC := b, CC_DST := a + b + 1\<rparr>) = sum_flags sz a b 1 (a + b + 1)"
  by (simp add: helper_cc_compute_all_def compute_all_add_flags compute_all_adc_flags)

lemma x86_difference_flags:
  "helper_cc_compute_all (CC_OP_SUB sz) (e\<lparr>CC_SRC := b, CC_DST := a - b\<rparr>) = difference_flags sz a b 0 (a - b) \<and>
   helper_cc_compute_all (CC_OP_SBB sz) (e\<lparr>CC_SRC := b, CC_DST := a - b - 1\<rparr>) = difference_flags sz a b 1 (a - b - 1)"
  by (simp add: helper_cc_compute_all_def compute_all_sub_flags compute_all_sbb_flags)

text \<open>C19: The flags computed after ADD, ADC, SUB and SBB from the second operand and the result
  alone, for every operand size and whatever the bits above it: carry, parity, auxiliary carry,
  zero, sign and overflow are those of the exact sum or difference.\<close>

theorem x86_flags_exact:
  "helper_cc_compute_all (CC_OP_ADD sz) (e\<lparr>CC_SRC := b, CC_DST := a + b\<rparr>) = sum_flags sz a b 0 (a + b) \<and>
   helper_cc_compute_all (CC_OP_ADC sz) (e\<lparr>CC_SRC := b, CC_DST := a + b + 1\<rparr>) = sum_flags sz a b 1 (a + b + 1) \<and>
   helper_cc_compute_all (CC_OP_SUB sz) (e\<lparr>CC_SRC := b, CC_DST := a - b\<rparr>) = difference_flags sz a b 0 (a - b) \<and>
   helper_cc_compute_all (CC_OP_SBB sz) (e\<lparr>CC_SRC := b, CC_DST := a - b - 1\<rparr>) = difference_flags sz a b 1 (a - b - 1)"
  using x86_sum_flags x86_difference_flags by blast

section \<open>The carry alone\<close>

text \<open>The instructions that leave the carry as it is keep it in \<open>CC_SRC\<close>.\<close>

definition carry_kept :: "cc_op \<Rightarrow> u64 \<Rightarrow> bool" where
  "carry_kept op src \<longleftrightarrow> (case op of CC_OP_INC sz \<Rightarrow> src = 0 \<or> src = 1 | CC_OP_DEC sz \<Rightarrow> src = 0 \<or> src = 1 | _ \<Rightarrow> True)"

lemma and_CC_C: "(w :: u32) AND CC_C = of_bool (bit w 0)"
  by (simp add: CC_C_def and_one_eq bit_0 mod_2_eq_odd)

lemma flag_bit_0 [simp]:
  "0 < k \<Longrightarrow> \<not> bit (push_bit k v :: u32) 0" "bit (of_bool c :: u32) 0 = c" "bit (parity_of x) 0 = False"
  "bit (zf_of sz x) 0 = False" "bit (sf_of sz x) 0 = False"
  "bit (ucast (y AND 0x10) :: u32) 0 = False" "bit (ucast (lshift y (12 - int (data_bits sz)) AND CC_O) :: u32) 0 = False"
  by (simp_all add: parity_of_eq zf_of_eq sf_of_eq af_eq of_eq bit_push_bit_iff)

theorem x86_carry_agrees:
  assumes "carry_kept op (CC_SRC e)"
  shows "helper_cc_compute_c op e = helper_cc_compute_all op e AND CC_C"
proof -
  have b: "bit (ucast (x AND 1) :: u32) 0 = bit x 0" "(ucast (x AND 1) :: u32) = of_bool (bit x 0)" for x :: u64
    by (simp_all add: and_one_eq bit_0 mod_2_eq_odd)
  show ?thesis using assms unfolding and_CC_C helper_cc_compute_c_def helper_cc_compute_all_def carry_kept_def
    by (cases op)
      (auto simp: Let_def bit_or_iff b compute_c_add_def compute_c_adc_def compute_c_sub_def compute_c_sbb_def compute_c_logic_def
        compute_c_inc_def compute_c_shl_def compute_c_sar_def compute_c_mul_def compute_c_eflags_def compute_all_add_def
        compute_all_adc_def compute_all_sub_def compute_all_sbb_def compute_all_logic_def compute_all_inc_def
        compute_all_dec_def compute_all_shl_def compute_all_sar_def compute_all_mul_def compute_all_eflags_def and_CC_C)
qed

end
