(* ===== verification/X86_Alu.thy ===== *)
theory X86_Alu
  imports X86_Flags
begin

text \<open>
  Rotation through the carry, \<open>qemu/target-i386/helper_template.h\<close>, and the bit scans of \<open>op_helper.c\<close>. A helper
  gets the processor and returns its result and the processor changed.
\<close>

section \<open>Rotation through the carry\<close>

definition rclw_table :: "nat list" where
  "rclw_table = [0, 1, 2, 3, 4, 5, 6, 7, 8, 9, 10, 11, 12, 13, 14, 15, 16, 0, 1, 2, 3, 4, 5, 6, 7, 8, 9, 10, 11, 12, 13, 14]"

definition rclb_table :: "nat list" where
  "rclb_table = [0, 1, 2, 3, 4, 5, 6, 7, 8, 0, 1, 2, 3, 4, 5, 6, 7, 8, 0, 1, 2, 3, 4, 5, 6, 7, 8, 0, 1, 2, 3, 4]"

definition rotate_count :: "size \<Rightarrow> u64 \<Rightarrow> nat" where
  "rotate_count sz t1 =
    (let count = unat (t1 AND (if data_bits sz \<le> 32 then 0x1f else 0x3f))
     in case sz of SzB \<Rightarrow> rclb_table ! count | SzW \<Rightarrow> rclw_table ! count | _ \<Rightarrow> count)"

definition helper_rcl :: "size \<Rightarrow> u64 \<Rightarrow> u64 \<Rightarrow> 'a x86_scheme \<Rightarrow> u64 \<times> 'a x86_scheme" where
  "helper_rcl sz t0 t1 e =
    (let count = rotate_count sz t1; n = data_bits sz
     in if count \<noteq> 0
        then
          let f = helper_cc_compute_all (CC_OP e) e;
              src = t0 AND mask n;
              res = push_bit count src OR push_bit (count - 1) (ucast (f AND CC_C));
              res = (if count > 1 then res OR drop_bit (n + 1 - count) src else res)
          in (res, e\<lparr>cc_tmp := ucast (f AND NOT (CC_C OR CC_O)) OR (lshift (src XOR res) (11 - (int n - 1)) AND CC_O) OR
                                (drop_bit (n - count) src AND CC_C)\<rparr>)
        else (t0, e\<lparr>cc_tmp := - 1\<rparr>))"

definition helper_rcr :: "size \<Rightarrow> u64 \<Rightarrow> u64 \<Rightarrow> 'a x86_scheme \<Rightarrow> u64 \<times> 'a x86_scheme" where
  "helper_rcr sz t0 t1 e =
    (let count = rotate_count sz t1; n = data_bits sz
     in if count \<noteq> 0
        then
          let f = helper_cc_compute_all (CC_OP e) e;
              src = t0 AND mask n;
              res = drop_bit count src OR push_bit (n - count) (ucast (f AND CC_C));
              res = (if count > 1 then res OR push_bit (n + 1 - count) src else res)
          in (res, e\<lparr>cc_tmp := ucast (f AND NOT (CC_C OR CC_O)) OR (lshift (src XOR res) (11 - (int n - 1)) AND CC_O) OR
                                (drop_bit (count - 1) src AND CC_C)\<rparr>)
        else (t0, e\<lparr>cc_tmp := - 1\<rparr>))"

text \<open>The operand with the carry above it, as the bits of one number; the carry after the rotation, which is the
  old one if the flags are left alone.\<close>

definition with_carry :: "size \<Rightarrow> u64 \<Rightarrow> bool \<Rightarrow> nat \<Rightarrow> bool" where
  "with_carry sz t0 c j = (if j = data_bits sz then c else bit t0 j)"

definition carry_flag :: "'a x86_scheme \<Rightarrow> bool" where
  "carry_flag e = bit (helper_cc_compute_all (CC_OP e) e) 0"

definition carry_after :: "'a x86_scheme \<Rightarrow> 'a x86_scheme \<Rightarrow> bool" where
  "carry_after e e' = (if cc_tmp e' = - 1 then carry_flag e else bit (cc_tmp e') 0)"

lemma rotate_count_le: "rotate_count sz t1 \<le> data_bits sz"
proof -
  have w: "list_all (\<lambda>i. i \<le> 16) rclw_table" "length rclw_table = 32" "list_all (\<lambda>i. i \<le> 8) rclb_table" "length rclb_table = 32"
    by (simp_all add: rclw_table_def rclb_table_def)
  have m: "(0x1f :: u64) = mask 5" "(0x3f :: u64) = mask 6" by (simp_all add: mask_eq_exp_minus_1)
  have "unat (t1 AND 0x1f) < 32" "unat (t1 AND 0x3f) < 64" unfolding m by (simp_all add: unat_and_mask)
  with w show ?thesis
    by (cases sz) (auto simp: rotate_count_def data_bits_def list_all_length Let_def)
qed

lemma rotate_count_mod:
  "rotate_count sz t1 = unat (t1 AND (if data_bits sz \<le> 32 then 0x1f else 0x3f)) mod (data_bits sz + 1)"
proof -
  have t: "\<forall>i < 32. rclw_table ! i = i mod 17" "\<forall>i < 32. rclb_table ! i = i mod 9"
    unfolding rclw_table_def rclb_table_def by code_simp+
  have m: "(0x1f :: u64) = mask 5" "(0x3f :: u64) = mask 6" by (simp_all add: mask_eq_exp_minus_1)
  have "unat (t1 AND 0x1f) < 32" "unat (t1 AND 0x3f) < 64" unfolding m by (simp_all add: unat_and_mask)
  with t show ?thesis by (cases sz) (simp_all add: rotate_count_def data_bits_def Let_def)
qed

lemma carry_bit: "bit (ucast (f AND CC_C) :: u64) j \<longleftrightarrow> j = 0 \<and> bit (f :: u32) 0"
  unfolding flag_masks by (auto simp: bit_simps)

lemma of_mask_bit0 [simp]: "\<not> bit (x AND CC_O :: u64) 0"
  unfolding flag_masks by (simp add: bit_simps)

lemma carry_mask_bit0: "bit (x AND CC_C :: u64) 0 = bit x 0" "\<not> bit (ucast (f AND NOT CC_C AND y) :: u64) 0" for f y :: u32
  unfolding flag_masks by (auto simp: bit_simps)

lemma rotated_index:
  fixes j k n :: nat
  assumes "k \<le> n" "j \<le> n"
  shows "(j + (n + 1) - k) mod (n + 1) = (if k \<le> j then j - k else j + (n + 1) - k)"
    "(j + k) mod (n + 1) = (if j + k \<le> n then j + k else j + k - (n + 1))"
proof -
  have "(j + (n + 1) - k) mod (n + 1) = (j - k) mod (n + 1)" if "k \<le> j"
  proof -
    have "j + (n + 1) - k = (j - k) + (n + 1)" using that by simp
    then show ?thesis by (simp only: mod_add_self2)
  qed
  then show "(j + (n + 1) - k) mod (n + 1) = (if k \<le> j then j - k else j + (n + 1) - k)" using assms by simp
  show "(j + k) mod (n + 1) = (if j + k \<le> n then j + k else j + k - (n + 1))"
    using assms by (simp add: le_mod_geq)
qed

theorem x86_rotate_through_carry:
  fixes t0 t1 :: u64 and e :: "'a x86_scheme"
  assumes "j < data_bits sz"
  defines "n \<equiv> data_bits sz" and "k \<equiv> unat (t1 AND (if data_bits sz \<le> 32 then 0x1f else 0x3f)) mod (data_bits sz + 1)"
  defines "l \<equiv> helper_rcl sz t0 t1 e" and "r \<equiv> helper_rcr sz t0 t1 e" and "x \<equiv> with_carry sz t0 (carry_flag e)"
  shows "bit (fst l) j = x ((j + (n + 1) - k) mod (n + 1)) \<and> carry_after e (snd l) = x ((n + (n + 1) - k) mod (n + 1)) \<and>
    bit (fst r) j = x ((j + k) mod (n + 1)) \<and> carry_after e (snd r) = x ((n + k) mod (n + 1))"
proof -
  have k: "rotate_count sz t1 = k" "k \<le> n" using rotate_count_mod [of sz t1] rotate_count_le [of sz t1] by (simp_all add: k_def n_def)
  have n: "0 < n" "n \<le> 64" using data_bits_bounds [of sz] by (simp_all add: n_def)
  have j: "j < n" "j < 64" using assms(1) n by (simp_all add: n_def)
  show ?thesis
  proof (cases "k = 0")
    case True
    then have "l = (t0, e\<lparr>cc_tmp := - 1\<rparr>)" "r = (t0, e\<lparr>cc_tmp := - 1\<rparr>)"
      by (simp_all add: l_def r_def helper_rcl_def helper_rcr_def k)
    then show ?thesis unfolding rotated_index [OF k(2) less_imp_le [OF j(1)]] rotated_index [OF k(2) order_refl]
      using True j by (simp add: x_def with_carry_def carry_after_def carry_flag_def n_def)
  next
    case False
    let ?f = "helper_cc_compute_all (CC_OP e) e" and ?src = "t0 AND mask n"
    have s: "bit ?src i \<longleftrightarrow> i < n \<and> bit t0 i" for i using n by (auto simp: bit_simps)
    have "k - 1 < n" using False k(2) by simp
    then have cl: "bit (cc_tmp (snd l)) 0 = bit t0 (n - k)" "bit (cc_tmp (snd r)) 0 = bit t0 (k - 1)"
      using False k n \<open>k - 1 < n\<close> by (simp_all add: l_def r_def helper_rcl_def helper_rcr_def Let_def n_def [symmetric] bit_or_iff carry_mask_bit0
          bit_drop_bit_eq s del: drop_bit_and)
    have hi: "\<not> bit (cc_tmp (snd l)) 63" "\<not> bit (cc_tmp (snd r)) 63"
      using False by (simp_all add: l_def r_def helper_rcl_def helper_rcr_def Let_def k bit_or_iff flag_masks bit_simps)
    then have nt: "cc_tmp (snd l) \<noteq> - 1" "cc_tmp (snd r) \<noteq> - 1" by (auto simp: bit_minus_1_iff)
    have bl: "bit (fst l) j = (if k \<le> j then bit t0 (j - k) else if j = k - 1 then carry_flag e else bit t0 (j + (n + 1) - k))"
      using False k(2) j n
      by (auto simp: l_def helper_rcl_def Let_def k(1) n_def [symmetric] bit_or_iff bit_push_bit_iff bit_drop_bit_eq s carry_bit
          carry_flag_def add.commute [of j n] simp del: push_bit_and drop_bit_and)
    have br: "bit (fst r) j = (if j + k < n then bit t0 (j + k) else if j + k = n then carry_flag e else bit t0 (j + k - (n + 1)))"
      using False k(2) j n
      by (auto simp: r_def helper_rcr_def Let_def k(1) n_def [symmetric] bit_or_iff bit_push_bit_iff bit_drop_bit_eq s carry_bit
          carry_flag_def add.commute [of k j] simp del: push_bit_and drop_bit_and)
    note i = rotated_index [OF k(2) less_imp_le [OF j(1)]] rotated_index [OF k(2) order_refl]
    have "bit (fst l) j = x ((j + (n + 1) - k) mod (n + 1))"
      unfolding bl i x_def with_carry_def n_def [symmetric] using False k(2) j(1) by auto
    moreover have "bit (fst r) j = x ((j + k) mod (n + 1))"
      unfolding br i x_def with_carry_def n_def [symmetric] using False k(2) j(1) by auto
    moreover have "carry_after e (snd l) = x ((n + (n + 1) - k) mod (n + 1))" "carry_after e (snd r) = x ((n + k) mod (n + 1))"
      unfolding i x_def with_carry_def n_def [symmetric] carry_after_def using nt cl False k(2) by auto
    ultimately show ?thesis by blast
  qed
qed

theorem x86_rotate_through_carry_witness:
  "\<forall>e :: x86. fst (helper_rcl SzB 0x81 1 (e\<lparr>CC_OP := CC_OP_EFLAGS, CC_SRC := 1\<rparr>)) AND 1 = 1"
proof
  fix e :: x86
  let ?e = "e\<lparr>CC_OP := CC_OP_EFLAGS, CC_SRC := 1\<rparr>"
  have "bit (fst (helper_rcl SzB 0x81 1 ?e)) 0 = carry_flag ?e"
    using x86_rotate_through_carry [of 0 SzB "0x81" 1 ?e] by (simp add: data_bits_def with_carry_def)
  moreover have "carry_flag ?e" by (simp add: carry_flag_def helper_cc_compute_all_def compute_all_eflags_def)
  ultimately show "fst (helper_rcl SzB 0x81 1 ?e) AND 1 = 1" by (simp add: and_one_eq bit_0 mod_2_eq_odd)
qed

section \<open>Bit scans\<close>

text \<open>The loops over the bits end if the operand is not 0, which the translated code tests before.\<close>

partial_function (option) bsf_loop :: "nat \<Rightarrow> u64 \<Rightarrow> nat option" where
  "bsf_loop count res = (if res AND 1 = 0 then bsf_loop (count + 1) (drop_bit 1 res) else Some count)"

definition helper_bsf :: "u64 \<Rightarrow> nat option" where
  "helper_bsf t0 = bsf_loop 0 t0"

partial_function (option) lzcnt_loop :: "int \<Rightarrow> u64 \<Rightarrow> int option" where
  "lzcnt_loop count res = (if res AND push_bit 63 1 = 0 then lzcnt_loop (count - 1) (push_bit 1 res) else Some count)"

definition helper_lzcnt :: "u64 \<Rightarrow> int \<Rightarrow> int option" where
  "helper_lzcnt t0 wordsize =
    (if wordsize > 0 \<and> t0 = 0 then Some wordsize
     else map_option (\<lambda>count. if wordsize > 0 then wordsize - 1 - count else count) (lzcnt_loop 63 t0))"

definition helper_bsr :: "u64 \<Rightarrow> int option" where
  "helper_bsr t0 = helper_lzcnt t0 0"

lemma and_one_zero: "(w :: u64) AND 1 = 0 \<longleftrightarrow> \<not> bit w 0"
  by (simp add: and_one_eq bit_0 mod_2_eq_odd)

lemma bsf_loop_finds:
  assumes "bit res k" "\<forall>i < k. \<not> bit res i"
  shows "bsf_loop count res = Some (count + k)"
  using assms
proof (induction k arbitrary: count res)
  case (Suc k)
  have "bit (drop_bit 1 res) k" "\<forall>i < k. \<not> bit (drop_bit 1 res) i" using Suc.prems by (simp_all add: bit_drop_bit_eq)
  from Suc.IH [OF this] Suc.prems(2) show ?case by (subst bsf_loop.simps) (simp add: and_one_zero)
qed (subst bsf_loop.simps, simp add: and_one_zero)

lemma and_top_zero: "(w :: u64) AND push_bit 63 1 = 0 \<longleftrightarrow> \<not> bit w 63"
  using masked_bit [of w 63] by (simp add: push_bit_eq_mult)

lemma lzcnt_loop_finds:
  assumes "bit res (63 - k)" "k \<le> 63" "\<forall>i. 63 - k < i \<longrightarrow> i < 64 \<longrightarrow> \<not> bit res i"
  shows "lzcnt_loop count res = Some (count - int k)"
  using assms
proof (induction k arbitrary: count res)
  case (Suc k)
  have p: "bit (push_bit 1 res) i \<longleftrightarrow> 0 < i \<and> i < 64 \<and> bit res (i - 1)" for i by (auto simp only: bit_push_bit_iff) auto
  have "63 - Suc k = 63 - k - 1" by simp
  then have "bit (push_bit 1 res) (63 - k)" unfolding p using Suc.prems by auto
  moreover have "\<forall>i. 63 - k < i \<longrightarrow> i < 64 \<longrightarrow> \<not> bit (push_bit 1 res) i"
    unfolding p using Suc.prems by auto
  moreover have "\<not> bit res 63" using Suc.prems by auto
  ultimately show ?case using Suc.IH [of "push_bit 1 res" "count - 1"] Suc.prems(2)
    by (subst lzcnt_loop.simps) (simp add: and_top_zero [simplified])
qed (subst lzcnt_loop.simps, simp add: and_top_zero [simplified])

theorem x86_bit_scans:
  assumes "t0 \<noteq> 0"
  shows "\<exists>f r. helper_bsf t0 = Some f \<and> helper_bsr t0 = Some (int r) \<and> bit t0 f \<and> bit t0 r \<and> (\<forall>i. bit t0 i \<longrightarrow> f \<le> i \<and> i \<le> r) \<and>
    (\<forall>n. 0 < n \<longrightarrow> helper_lzcnt t0 n = Some (n - 1 - int r))"
proof -
  obtain i where i: "bit t0 i" using assms by (auto simp: bit_eq_iff)
  define f where "f = (LEAST i. bit t0 i)"
  have f: "bit t0 f" "\<forall>i < f. \<not> bit t0 i" using LeastI [of "bit t0", OF i] not_less_Least by (auto simp: f_def)
  have b: "\<forall>i. bit t0 i \<longrightarrow> i \<le> 63" using bit_imp_le_length [of t0] by fastforce
  define r where "r = (GREATEST i. bit t0 i)"
  have r: "bit t0 r" "\<forall>i. bit t0 i \<longrightarrow> i \<le> r"
    using GreatestI_nat [of "bit t0" i 63] Greatest_le_nat [of "bit t0" _ 63] b i by (auto simp: r_def)
  have "r \<le> 63" using b r(1) by blast
  then have "lzcnt_loop 63 t0 = Some (63 - int (63 - r))" using r by (intro lzcnt_loop_finds) (auto dest: leD)
  then have l: "lzcnt_loop 63 t0 = Some (int r)" using \<open>r \<le> 63\<close> by simp
  have "\<forall>i. bit t0 i \<longrightarrow> f \<le> i" using f(2) not_le by blast
  then show ?thesis
    using f r l bsf_loop_finds [OF f, of 0] assms by (intro exI [of _ f] exI [of _ r]) (simp add: helper_bsf_def helper_bsr_def helper_lzcnt_def)
qed

theorem x86_bit_scans_witness: "helper_bsr 0x50 \<noteq> None"
  using x86_bit_scans [of "0x50"] by auto

end
