(* ===== verification/X86_Div.thy ===== *)
theory X86_Div
  imports X86_Flags Host_Utils
begin

text \<open>
  Division and wide multiplication of the x86 processor, \<open>qemu/target-i386/op_helper.c\<close>. A division ends in one
  of three ways, \<open>outcome\<close>: it is done, it raises the exception of the guest, or the division of the host traps,
  because the quotient of the smallest number and -1 does not exist in C.
\<close>

section \<open>Up to 32 bits\<close>

datatype 'a outcome = Done 'a | Divide_error | Host_trap

text \<open>Division in C rounds towards zero.\<close>

definition c_div :: "int \<Rightarrow> int \<Rightarrow> int" where
  "c_div a b = sgn a * sgn b * (\<bar>a\<bar> div \<bar>b\<bar>)"

definition c_rem :: "int \<Rightarrow> int \<Rightarrow> int" where
  "c_rem a b = sgn a * (\<bar>a\<bar> mod \<bar>b\<bar>)"

definition helper_divb_AL :: "u64 \<Rightarrow> 'a x86_scheme \<Rightarrow> 'a x86_scheme outcome" where
  "helper_divb_AL t0 e =
    (let num = uint (EAX e AND 0xffff); den = uint (t0 AND 0xff)
     in if den = 0 then Divide_error
        else
          let q = num div den
          in if q > 0xff then Divide_error
             else
               let q = q AND 0xff; r = (num mod den) AND 0xff
               in Done (e\<lparr>EAX := (EAX e AND NOT 0xffff) OR word_of_int (push_bit 8 r) OR word_of_int q\<rparr>))"

definition helper_idivb_AL :: "u64 \<Rightarrow> 'a x86_scheme \<Rightarrow> 'a x86_scheme outcome" where
  "helper_idivb_AL t0 e =
    (let num = signed_take_bit 15 (uint (EAX e)); den = signed_take_bit 7 (uint t0)
     in if den = 0 then Divide_error
        else
          let q = c_div num den
          in if q \<noteq> signed_take_bit 7 q then Divide_error
             else
               let q = q AND 0xff; r = (c_rem num den) AND 0xff
               in Done (e\<lparr>EAX := (EAX e AND NOT 0xffff) OR word_of_int (push_bit 8 r) OR word_of_int q\<rparr>))"

definition helper_divw_AX :: "u64 \<Rightarrow> 'a x86_scheme \<Rightarrow> 'a x86_scheme outcome" where
  "helper_divw_AX t0 e =
    (let num = uint ((EAX e AND 0xffff) OR push_bit 16 (EDX e AND 0xffff)); den = uint (t0 AND 0xffff)
     in if den = 0 then Divide_error
        else
          let q = num div den
          in if q > 0xffff then Divide_error
             else
               let q = q AND 0xffff; r = (num mod den) AND 0xffff
               in Done (e\<lparr>EAX := (EAX e AND NOT 0xffff) OR word_of_int q, EDX := (EDX e AND NOT 0xffff) OR word_of_int r\<rparr>))"

definition helper_idivw_AX :: "u64 \<Rightarrow> 'a x86_scheme \<Rightarrow> 'a x86_scheme outcome" where
  "helper_idivw_AX t0 e =
    (let num = signed_take_bit 31 (uint ((EAX e AND 0xffff) OR push_bit 16 (EDX e AND 0xffff)));
         den = signed_take_bit 15 (uint t0)
     in if den = 0 then Divide_error
        else if num = - (2 ^ 31) \<and> den = - 1 then Host_trap
        else
          let q = c_div num den
          in if q \<noteq> signed_take_bit 15 q then Divide_error
             else
               let q = q AND 0xffff; r = (c_rem num den) AND 0xffff
               in Done (e\<lparr>EAX := (EAX e AND NOT 0xffff) OR word_of_int q, EDX := (EDX e AND NOT 0xffff) OR word_of_int r\<rparr>))"

definition helper_divl_EAX :: "u64 \<Rightarrow> 'a x86_scheme \<Rightarrow> 'a x86_scheme outcome" where
  "helper_divl_EAX t0 e =
    (let num = uint (take_bit 32 (EAX e) OR push_bit 32 (take_bit 32 (EDX e))); den = uint (take_bit 32 t0)
     in if den = 0 then Divide_error
        else
          let q = num div den; r = num mod den
          in if q > 0xffffffff then Divide_error
             else Done (e\<lparr>EAX := take_bit 32 (word_of_int q), EDX := take_bit 32 (word_of_int r)\<rparr>))"

definition helper_idivl_EAX :: "u64 \<Rightarrow> 'a x86_scheme \<Rightarrow> 'a x86_scheme outcome" where
  "helper_idivl_EAX t0 e =
    (let num = sint (take_bit 32 (EAX e) OR push_bit 32 (take_bit 32 (EDX e))); den = signed_take_bit 31 (uint t0)
     in if den = 0 then Divide_error
        else if num = - (2 ^ 63) \<and> den = - 1 then Host_trap
        else
          let q = c_div num den; r = c_rem num den
          in if q \<noteq> signed_take_bit 31 q then Divide_error
             else Done (e\<lparr>EAX := take_bit 32 (word_of_int q), EDX := take_bit 32 (word_of_int r)\<rparr>))"

section \<open>64 bits\<close>

text \<open>One round of the loop, on the upper and the lower word.\<close>

definition div64_round :: "u64 \<Rightarrow> u64 \<times> u64 \<Rightarrow> u64 \<times> u64" where
  "div64_round b a =
    (let (a1, a0) = a;
         ab = drop_bit 63 a1;
         a1 = push_bit 1 a1 OR drop_bit 63 a0;
         (a1, qb) = (if ab \<noteq> 0 \<or> a1 \<ge> b then (a1 - b, 1) else (a1, 0))
     in (a1, push_bit 1 a0 OR qb))"

text \<open>The arguments \<open>*plow\<close> and \<open>*phigh\<close>; \<open>None\<close> is the return value 1.\<close>

definition div64 :: "u64 \<times> u64 \<Rightarrow> u64 \<Rightarrow> (u64 \<times> u64) option" where
  "div64 p b =
    (let (a0, a1) = p
     in if a1 = 0 then Some (a0 div b, a0 mod b)
        else if a1 \<ge> b then None
        else let (a1, a0) = (div64_round b ^^ 64) (a1, a0) in Some (a0, a1))"

definition idiv64 :: "u64 \<times> u64 \<Rightarrow> u64 \<Rightarrow> (u64 \<times> u64) option" where
  "idiv64 p b =
    (let sa = (sint (snd p) < 0);
         p = (if sa then neg128 p else p);
         sb = (sint b < 0);
         b = (if sb then - b else b)
     in case div64 p b of None \<Rightarrow> None
        | Some (low, high) \<Rightarrow>
            if sa \<noteq> sb
            then if low > push_bit 63 1 then None else Some (- low, if sa then - high else high)
            else if low \<ge> push_bit 63 1 then None else Some (low, if sa then - high else high))"

definition helper_mulq_EAX_T0 :: "u64 \<Rightarrow> 'a x86_scheme \<Rightarrow> 'a x86_scheme" where
  "helper_mulq_EAX_T0 t0 e =
    (let (r0, r1) = mulu64 (EAX e) t0 in e\<lparr>EAX := r0, EDX := r1, CC_DST := r0, CC_SRC := r1\<rparr>)"

definition helper_imulq_EAX_T0 :: "u64 \<Rightarrow> 'a x86_scheme \<Rightarrow> 'a x86_scheme" where
  "helper_imulq_EAX_T0 t0 e =
    (let (r0, r1) = muls64 (EAX e) t0
     in e\<lparr>EAX := r0, EDX := r1, CC_DST := r0, CC_SRC := of_bool (sint r1 \<noteq> drop_bit 63 (sint r0))\<rparr>)"

definition helper_imulq_T0_T1 :: "u64 \<Rightarrow> u64 \<Rightarrow> 'a x86_scheme \<Rightarrow> u64 \<times> 'a x86_scheme" where
  "helper_imulq_T0_T1 t0 t1 e =
    (let (r0, r1) = muls64 t0 t1
     in (r0, e\<lparr>CC_DST := r0, CC_SRC := of_bool (sint r1 \<noteq> drop_bit 63 (sint r0))\<rparr>))"

definition helper_divq_EAX :: "u64 \<Rightarrow> 'a x86_scheme \<Rightarrow> 'a x86_scheme outcome" where
  "helper_divq_EAX t0 e =
    (if t0 = 0 then Divide_error
     else case div64 (EAX e, EDX e) t0 of None \<Rightarrow> Divide_error
          | Some (r0, r1) \<Rightarrow> Done (e\<lparr>EAX := r0, EDX := r1\<rparr>))"

definition helper_idivq_EAX :: "u64 \<Rightarrow> 'a x86_scheme \<Rightarrow> 'a x86_scheme outcome" where
  "helper_idivq_EAX t0 e =
    (if t0 = 0 then Divide_error
     else case idiv64 (EAX e, EDX e) t0 of None \<Rightarrow> Divide_error
          | Some (r0, r1) \<Rightarrow> Done (e\<lparr>EAX := r0, EDX := r1\<rparr>))"

text \<open>The helper of each size, as the translator chooses it.\<close>

definition div_helper :: "size \<Rightarrow> u64 \<Rightarrow> 'a x86_scheme \<Rightarrow> 'a x86_scheme outcome" where
  "div_helper sz =
    (case sz of SzB \<Rightarrow> helper_divb_AL | SzW \<Rightarrow> helper_divw_AX | SzL \<Rightarrow> helper_divl_EAX | SzQ \<Rightarrow> helper_divq_EAX)"

definition idiv_helper :: "size \<Rightarrow> u64 \<Rightarrow> 'a x86_scheme \<Rightarrow> 'a x86_scheme outcome" where
  "idiv_helper sz =
    (case sz of SzB \<Rightarrow> helper_idivb_AL | SzW \<Rightarrow> helper_idivw_AX | SzL \<Rightarrow> helper_idivl_EAX | SzQ \<Rightarrow> helper_idivq_EAX)"

section \<open>What a division leaves\<close>

text \<open>The registers as numbers: the dividend before, quotient and remainder after a division.\<close>

definition dividend :: "size \<Rightarrow> 'a x86_scheme \<Rightarrow> int" where
  "dividend sz e =
    (if sz = SzB then unsigned_of SzW (EAX e)
     else unsigned_of sz (EDX e) * 2 ^ data_bits sz + unsigned_of sz (EAX e))"

definition signed_dividend :: "size \<Rightarrow> 'a x86_scheme \<Rightarrow> int" where
  "signed_dividend sz e =
    (if sz = SzB then signed_of SzW (EAX e)
     else signed_of sz (EDX e) * 2 ^ data_bits sz + unsigned_of sz (EAX e))"

definition remainder_reg :: "size \<Rightarrow> 'a x86_scheme \<Rightarrow> u64" where
  "remainder_reg sz e = (if sz = SzB then drop_bit 8 (EAX e) else EDX e)"

lemma c_div_rem:
  "a = c_div a b * b + c_rem a b" "b \<noteq> 0 \<Longrightarrow> \<bar>c_rem a b\<bar> < \<bar>b\<bar>" "0 \<le> a * c_rem a b"
proof -
  have "c_div a b * b + c_rem a b = sgn a * (\<bar>a\<bar> div \<bar>b\<bar> * \<bar>b\<bar> + \<bar>a\<bar> mod \<bar>b\<bar>)"
    by (simp add: c_div_def c_rem_def algebra_simps abs_sgn)
  then show "a = c_div a b * b + c_rem a b" by (simp add: sgn_mult_abs)
  show "b \<noteq> 0 \<Longrightarrow> \<bar>c_rem a b\<bar> < \<bar>b\<bar>" by (simp add: c_rem_def abs_mult abs_sgn_eq)
  show "0 \<le> a * c_rem a b" by (cases "b = 0") (simp_all add: c_rem_def mult.assoc [symmetric] abs_sgn [symmetric])
qed

text \<open>A partial register is written by clearing its bits and setting the new ones.\<close>

definition put_bytes :: "u64 \<Rightarrow> int \<Rightarrow> int \<Rightarrow> u64" where
  "put_bytes x q r = (x AND NOT 0xffff) OR word_of_int (push_bit 8 (r AND 0xff)) OR word_of_int (q AND 0xff)"

definition put_word :: "u64 \<Rightarrow> int \<Rightarrow> u64" where
  "put_word x q = (x AND NOT 0xffff) OR word_of_int (q AND 0xffff)"

definition put_long :: "int \<Rightarrow> u64" where
  "put_long q = take_bit 32 (word_of_int q)"

lemma put_bytes [simp]:
  "take_bit 8 (uint (put_bytes x q r)) = take_bit 8 q" "take_bit 8 (uint (drop_bit 8 (put_bytes x q r))) = take_bit 8 r"
proof -
  have m: "0xff = (mask 8 :: int)" "0xffff = (mask 16 :: u64)" by (simp_all add: mask_eq_exp_minus_1)
  show "take_bit 8 (uint (put_bytes x q r)) = take_bit 8 q"
    unfolding put_bytes_def m by (rule bit_eqI) (auto simp: bit_simps)
  show "take_bit 8 (uint (drop_bit 8 (put_bytes x q r))) = take_bit 8 r"
    unfolding put_bytes_def m by (rule bit_eqI) (auto simp: bit_simps)
qed

lemma put_word [simp]: "take_bit 16 (uint (put_word x q)) = take_bit 16 q"
proof -
  have m: "0xffff = (mask 16 :: int)" "0xffff = (mask 16 :: u64)" by (simp_all add: mask_eq_exp_minus_1)
  show ?thesis unfolding put_word_def m by (rule bit_eqI) (auto simp: bit_simps)
qed

lemma put_long [simp]: "take_bit 32 (uint (put_long q)) = take_bit 32 q"
  unfolding put_long_def by (rule bit_eqI) (auto simp: bit_simps)

lemmas put_fold = put_bytes_def [symmetric] put_word_def [symmetric] put_long_def [symmetric]

section \<open>The loop divides\<close>

lemma or_low_bit:
  fixes w c :: u64
  assumes "unat c \<le> 1"
  shows "unat (push_bit 1 w OR c) = 2 * unat w mod 2 ^ 64 + unat c"
proof -
  have p: "unat (push_bit 1 w) = 2 * unat w mod 2 ^ 64" by (simp only: unat_push_bit_mod) (simp add: mult.commute)
  have e: "even (2 * unat w mod 2 ^ 64)" by (rule dvd_mod) simp_all
  then obtain k where k: "2 * unat w mod 2 ^ 64 = 2 * k" by (elim evenE)
  have "2 * k < 2 ^ 64" unfolding k [symmetric] by simp
  then have "2 * unat w mod 2 ^ 64 + 1 < 2 ^ 64" unfolding k by simp
  then have "unat (push_bit 1 w + 1) = 2 * unat w mod 2 ^ 64 + 1" by (simp only: unat_add_u64 p) simp
  moreover have "push_bit 1 w AND 1 = 0"
    by (rule bit_word_eqI) (simp only: bit_and_iff bit_push_bit_iff bit_1_iff bit_0_eq bot_apply bot_bool_def, simp)
  then have "push_bit 1 w OR 1 = push_bit 1 w + 1" by (rule disjunctive_add_eq_or [symmetric])
  moreover have "unat c = 0 \<or> unat c = 1" using assms by auto
  then have "c = 0 \<or> c = 1" by (metis unat_0 unsigned_1 word_unat_eq_iff)
  ultimately show ?thesis using p by auto
qed

text \<open>The remainder so far in the upper word; in the lower one the rest of the dividend above the quotient so far.\<close>

definition div64_inv :: "nat \<Rightarrow> u64 \<Rightarrow> nat \<Rightarrow> u64 \<times> u64 \<Rightarrow> bool" where
  "div64_inv N b i a \<longleftrightarrow>
    (\<exists>rest q. N = (q * unat b + unat (fst a)) * 2 ^ (64 - i) + rest \<and> unat (snd a) = rest * 2 ^ i + q \<and>
      rest < 2 ^ (64 - i) \<and> q < 2 ^ i \<and> unat (fst a) < unat b)"

lemma div64_round_values:
  fixes a1 a0 b :: u64
  assumes "unat a1 < unat b"
  defines "t \<equiv> 2 * unat a1 + unat a0 div 2 ^ 63" and "a \<equiv> div64_round b (a1, a0)"
  shows "unat (fst a) = (if unat b \<le> t then t - unat b else t)"
    "unat (snd a) = 2 * unat a0 mod 2 ^ 64 + (if unat b \<le> t then 1 else 0)"
proof -
  have top: "unat (drop_bit 63 a0) = unat a0 div 2 ^ 63" "unat (drop_bit 63 a1) = unat a1 div 2 ^ 63"
    by (simp_all only: unat_drop_bit_div)
  have small: "unat a0 div 2 ^ 63 \<le> 1" "unat a0 < 2 ^ 64" "unat a1 < 2 ^ 64" "unat b < 2 ^ 64"
    using unat_bounds(4) [of a0] unat_bounds(4) [of a1] unat_bounds(4) [of b] by (simp_all add: less_mult_imp_div_less)
  let ?s = "push_bit 1 a1 OR drop_bit 63 a0"
  have s: "unat ?s = 2 * unat a1 mod 2 ^ 64 + unat a0 div 2 ^ 63" using or_low_bit [of "drop_bit 63 a0" a1] top(1) small(1) by simp
  have z: "drop_bit 63 a1 \<noteq> 0 \<longleftrightarrow> 2 ^ 63 \<le> unat a1" using top(2) small(3) by (simp add: unat_eq_0 [symmetric] div_eq_0_iff not_less)
  have ge: "drop_bit 63 a1 \<noteq> 0 \<or> ?s \<ge> b \<longleftrightarrow> unat b \<le> t"
  proof (cases "2 ^ 63 \<le> unat a1")
    case True
    then show ?thesis using z assms(1) small by (simp add: t_def)
  next
    case False
    then have "2 * unat a1 mod 2 ^ 64 = 2 * unat a1" by simp
    then show ?thesis using z False s by (simp add: word_le_nat_alt t_def)
  qed
  have t: "t < 2 * unat b" using assms(1) small(1) by (simp add: t_def)
  have st: "int (unat ?s) = int t mod 2 ^ 64"
  proof -
    have "t mod 2 ^ 64 = 2 * unat a1 mod 2 ^ 64 + unat a0 div 2 ^ 63"
    proof (cases "2 ^ 63 \<le> unat a1")
      case True
      then have "2 * unat a1 mod 2 ^ 64 = 2 * unat a1 - 2 ^ 64" using small(3) by (simp add: le_mod_geq)
      moreover have "t mod 2 ^ 64 = t - 2 ^ 64" using True t small(4) by (simp add: le_mod_geq t_def)
      ultimately show ?thesis using True by (simp add: t_def)
    next
      case False
      then have "2 * unat a1 \<le> 2 ^ 64 - 2" by simp
      then show ?thesis using small(1) by (simp add: t_def)
    qed
    then show ?thesis using s by (metis of_nat_mod of_nat_numeral of_nat_power)
  qed
  show "unat (fst a) = (if unat b \<le> t then t - unat b else t)"
  proof (cases "unat b \<le> t")
    case True
    have "fst a = ?s - b" using ge True by (simp add: a_def div64_round_def Let_def)
    then have "uint (fst a) = (int (unat ?s) - int (unat b)) mod 2 ^ 64" by (simp add: uint_word_ariths)
    also have "\<dots> = (int t - int (unat b)) mod 2 ^ 64" unfolding st by (rule mod_diff_left_eq)
    also have "\<dots> = int (t - unat b)" using True t small(4) by (subst mod_pos_pos_trivial) (simp_all add: of_nat_diff del: of_nat_unat)
    finally have "int (unat (fst a)) = int (t - unat b)" by simp
    then show ?thesis using True by (simp only: of_nat_eq_iff if_True)
  next
    case False
    then have "fst a = ?s" using ge by (simp add: a_def div64_round_def Let_def)
    moreover have "int t mod 2 ^ 64 = int t" using False small(4) by simp
    ultimately show ?thesis using False st by (simp del: of_nat_unat)
  qed
  show "unat (snd a) = 2 * unat a0 mod 2 ^ 64 + (if unat b \<le> t then 1 else 0)"
    using ge or_low_bit [of 1 a0] or_low_bit [of 0 a0] by (auto simp: a_def div64_round_def Let_def)
qed

lemma div64_round_inv:
  assumes "div64_inv N b i a" "i < 64"
  shows "div64_inv N b (Suc i) (div64_round b a)"
proof -
  obtain a1 a0 where a: "a = (a1, a0)" by fastforce
  obtain rest q where I: "N = (q * unat b + unat a1) * 2 ^ (64 - i) + rest" "unat a0 = rest * 2 ^ i + q"
      "rest < 2 ^ (64 - i)" "q < 2 ^ i" "unat a1 < unat b"
    using assms(1) by (auto simp: div64_inv_def a)
  define m where "m = 63 - i"
  have m: "64 - i = Suc m" "63 = m + i" "64 = Suc m + i" "64 - Suc i = m" using assms(2) by (simp_all add: m_def)
  have top: "unat a0 div 2 ^ 63 = rest div 2 ^ m"
    unfolding m(2) power_add mult.commute [of "2 ^ m"] I(2) using I(4) by (simp add: div_mult2_eq)
  have low: "2 * unat a0 mod 2 ^ 64 = (rest mod 2 ^ m) * 2 ^ Suc i + 2 * q"
  proof -
    obtain d r where dr: "rest = d * 2 ^ m + r" "rest mod 2 ^ m = r" by (metis div_mult_mod_eq)
    have "2 * unat a0 = d * 2 ^ 64 + ((rest mod 2 ^ m) * 2 ^ Suc i + 2 * q)"
      unfolding I(2) m(3) dr(2) unfolding dr(1) by (simp add: power_add algebra_simps)
    moreover have "(rest mod 2 ^ m) * 2 ^ Suc i + 2 * q < 2 ^ 64"
    proof -
      have "rest mod 2 ^ m + 1 \<le> 2 ^ m" by (simp add: Suc_leI)
      then have "(rest mod 2 ^ m + 1) * 2 ^ Suc i \<le> 2 ^ m * 2 ^ Suc i" by (rule mult_right_mono) simp
      also have "\<dots> = 2 ^ 64" unfolding m(3) by (simp add: power_add)
      finally show ?thesis using I(4) by (simp add: algebra_simps)
    qed
    ultimately show ?thesis by simp
  qed
  define t where "t = 2 * unat a1 + rest div 2 ^ m"
  have N: "N = (2 * q * unat b + t) * 2 ^ m + rest mod 2 ^ m"
    unfolding I(1) m(1) t_def by (simp add: algebra_simps)
  have tb: "t < 2 * unat b"
  proof -
    have "rest div 2 ^ m < 2" using I(3) unfolding m(1) by (simp add: less_mult_imp_div_less)
    then show ?thesis using I(5) by (simp add: t_def)
  qed
  let ?d = "if unat b \<le> t then 1 else 0 :: nat"
  note v = div64_round_values [OF I(5), of a0, unfolded top, folded t_def]
  have "N = ((2 * q + ?d) * unat b + unat (fst (div64_round b a))) * 2 ^ m + rest mod 2 ^ m"
    unfolding a v N by (simp add: algebra_simps)
  moreover have "unat (snd (div64_round b a)) = (rest mod 2 ^ m) * 2 ^ Suc i + (2 * q + ?d)"
    unfolding a v low by simp
  moreover have "2 * q + ?d < 2 ^ Suc i" using I(4) by simp
  moreover have "unat (fst (div64_round b a)) < unat b" unfolding a v using tb by (simp add: less_diff_conv2)
  ultimately show ?thesis unfolding div64_inv_def m(4) by (intro exI [of _ "rest mod 2 ^ m"] exI [of _ "2 * q + ?d"]) simp
qed

lemma div64_rounds_inv:
  assumes "div64_inv N b 0 a" "k \<le> 64"
  shows "div64_inv N b k ((div64_round b ^^ k) a)"
  using assms(2)
proof (induction k)
  case (Suc k)
  then show ?case using div64_round_inv [of N b k] by simp
qed (simp add: assms(1))

lemma div64_spec:
  assumes "b \<noteq> 0"
  shows "div64 p b = None \<longleftrightarrow> 2 ^ 64 \<le> val128 p div unat b"
    "div64 p b = Some (q, r) \<Longrightarrow> unat q = val128 p div unat b \<and> unat r = val128 p mod unat b"
proof -
  obtain a0 a1 where p: "p = (a0, a1)" by fastforce
  have b: "0 < unat b" using assms by (simp add: unat_gt_0)
  have N: "val128 p = unat a1 * 2 ^ 64 + unat a0" by (simp add: val128_def p)
  have a0: "unat a0 < 2 ^ 64" using unat_bounds(4) [of a0] by simp
  show "div64 p b = None \<longleftrightarrow> 2 ^ 64 \<le> val128 p div unat b"
  proof -
    have "2 ^ 64 \<le> val128 p div unat b \<longleftrightarrow> unat b * 2 ^ 64 \<le> unat a1 * 2 ^ 64 + unat a0"
      using b unfolding N by (simp add: less_eq_div_iff_mult_less_eq mult.commute)
    also have "\<dots> \<longleftrightarrow> unat b \<le> unat a1" using a0 by auto
    finally show ?thesis using b by (auto simp: div64_def p word_le_nat_alt split_beta)
  qed
  assume d: "div64 p b = Some (q, r)"
  show "unat q = val128 p div unat b \<and> unat r = val128 p mod unat b"
  proof (cases "a1 = 0")
    case True
    then show ?thesis using d N by (simp add: div64_def p unat_div unat_mod) (metis unat_div unat_mod)
  next
    case False
    then have lt: "unat a1 < unat b" using d by (auto simp: div64_def p word_le_nat_alt not_le split: if_splits)
    have "div64_inv (val128 p) b 0 (a1, a0)" using N a0 lt by (auto simp: div64_inv_def)
    then have "div64_inv (val128 p) b 64 ((div64_round b ^^ 64) (a1, a0))" by (rule div64_rounds_inv) simp
    moreover have "(div64_round b ^^ 64) (a1, a0) = (r, q)"
      using d False lt by (simp add: div64_def p word_le_nat_alt split_beta del: funpow.simps) (metis prod.collapse)
    ultimately have "val128 p = unat q * unat b + unat r" "unat r < unat b" by (auto simp: div64_inv_def)
    then show ?thesis using b by simp
  qed
qed

section \<open>Unsigned division\<close>

lemma and_masks:
  "x AND 0xff = take_bit 8 (x :: u64)" "x AND 0xffff = take_bit 16 (x :: u64)"
  "i AND 0xff = take_bit 8 (i :: int)" "i AND 0xffff = take_bit 16 (i :: int)"
  by (simp_all add: take_bit_eq_mask mask_eq_exp_minus_1)

lemma uint_pair:
  fixes a b :: u64
  assumes "2 * n \<le> 64"
  shows "uint (take_bit n a OR push_bit n (take_bit n b)) = take_bit n (uint b) * 2 ^ n + take_bit n (uint a)"
proof -
  have "uint (take_bit n a OR push_bit n (take_bit n b)) = take_bit n (uint a) OR push_bit n (take_bit n (uint b))"
    using assms by (intro bit_eqI) (auto simp: bit_simps)
  also have "\<dots> = take_bit n (uint a) + push_bit n (take_bit n (uint b))"
    by (rule disjunctive_add_eq_or [symmetric]) (auto simp: bit_eq_iff bit_simps)
  finally show ?thesis by (simp add: push_bit_eq_mult)
qed

lemma dividend_range: "0 \<le> dividend sz e" "dividend sz e < 2 ^ data_bits sz * 2 ^ data_bits sz"
proof -
  show "0 \<le> dividend sz e" using unsigned_range(1) by (simp add: dividend_def)
  show "dividend sz e < 2 ^ data_bits sz * 2 ^ data_bits sz"
  proof (cases "sz = SzB")
    case True
    then show ?thesis using unsigned_range(2) [of SzW "EAX e"] by (simp add: dividend_def data_bits_def)
  next
    case False
    have "unsigned_of sz (EDX e) + 1 \<le> 2 ^ data_bits sz" using unsigned_range(2) [of sz "EDX e"] by simp
    then have "(unsigned_of sz (EDX e) + 1) * 2 ^ data_bits sz \<le> 2 ^ data_bits sz * 2 ^ data_bits sz"
      by (rule mult_right_mono) simp
    then show ?thesis using False unsigned_range(2) [of sz "EAX e"] by (simp add: dividend_def algebra_simps)
  qed
qed

lemma div_bounds:
  fixes n d m :: int
  assumes "0 \<le> n" "0 \<le> d" "d < m"
  shows "0 \<le> n div d" "d \<noteq> 0 \<Longrightarrow> 0 \<le> n mod d \<and> n mod d < m"
proof -
  show "0 \<le> n div d" using assms by (simp add: div_int_pos_iff)
  assume "d \<noteq> 0"
  then have "0 < d" using assms(2) by simp
  then show "0 \<le> n mod d \<and> n mod d < m" using assms(3) pos_mod_bound [of d n] pos_mod_sign [of d n] by linarith
qed

text \<open>What the documentation of the processor says of DIV.\<close>

definition div_correct :: "size \<Rightarrow> u64 \<Rightarrow> 'a x86_scheme \<Rightarrow> 'a x86_scheme outcome \<Rightarrow> bool" where
  "div_correct sz t e res \<longleftrightarrow>
    (let n = dividend sz e; d = unsigned_of sz t
     in case res of
          Done e' \<Rightarrow> d \<noteq> 0 \<and> n div d < 2 ^ data_bits sz \<and>
            unsigned_of sz (EAX e') = n div d \<and> unsigned_of sz (remainder_reg sz e') = n mod d
        | Divide_error \<Rightarrow> d = 0 \<or> 2 ^ data_bits sz \<le> n div d
        | Host_trap \<Rightarrow> False)"

lemma dividend_div:
  fixes e :: "'a x86_scheme"
  shows "0 \<le> dividend sz e div unsigned_of sz t"
    "unsigned_of sz t \<noteq> 0 \<Longrightarrow> 0 \<le> dividend sz e mod unsigned_of sz t \<and> dividend sz e mod unsigned_of sz t < 2 ^ data_bits sz"
  using div_bounds [OF dividend_range(1) unsigned_range] by blast+

lemma divb_correct: "div_correct SzB t e (helper_divb_AL t e)"
proof -
  have v: "uint (EAX e AND 0xffff) = dividend SzB e" "uint (t AND 0xff) = unsigned_of SzB t"
    by (simp_all add: and_masks uint_pair dividend_def unsigned_of_def data_bits_def unsigned_take_bit_eq)
  have fields: "unsigned_of SzB x = take_bit 8 (uint x)" for x by (simp add: unsigned_of_def data_bits_def)
  have b: "data_bits SzB = 8" by (simp add: data_bits_def)
  have "helper_divb_AL t e = (let n = dividend SzB e; d = unsigned_of SzB t in
      if d = 0 then Divide_error else if 2 ^ 8 \<le> n div d then Divide_error else Done (e\<lparr>EAX := put_bytes (EAX e) (n div d) (n mod d)\<rparr>))"
    unfolding helper_divb_AL_def Let_def v put_fold by auto
  then show ?thesis
    using dividend_div [where sz = SzB and e = e and t = t] unfolding b
    by (auto simp: div_correct_def Let_def b remainder_reg_def fields [of "put_bytes _ _ _"] fields [of "put_word _ _"]
        fields [of "put_long _"] fields [of "drop_bit _ _"] take_bit_int_eq_self_iff)
qed

lemma divw_correct: "div_correct SzW t e (helper_divw_AX t e)"
proof -
  have v: "uint ((EAX e AND 0xffff) OR push_bit 16 (EDX e AND 0xffff)) = dividend SzW e" "uint (t AND 0xffff) = unsigned_of SzW t"
    by (simp_all add: and_masks uint_pair dividend_def unsigned_of_def data_bits_def unsigned_take_bit_eq)
  have fields: "unsigned_of SzW x = take_bit 16 (uint x)" for x by (simp add: unsigned_of_def data_bits_def)
  have b: "data_bits SzW = 16" by (simp add: data_bits_def)
  have "helper_divw_AX t e = (let n = dividend SzW e; d = unsigned_of SzW t in
      if d = 0 then Divide_error else if 2 ^ 16 \<le> n div d then Divide_error else Done (e\<lparr>EAX := put_word (EAX e) (n div d), EDX := put_word (EDX e) (n mod d)\<rparr>))"
    unfolding helper_divw_AX_def Let_def v put_fold by auto
  then show ?thesis
    using dividend_div [where sz = SzW and e = e and t = t] unfolding b
    by (auto simp: div_correct_def Let_def b remainder_reg_def fields [of "put_bytes _ _ _"] fields [of "put_word _ _"]
        fields [of "put_long _"] fields [of "drop_bit _ _"] take_bit_int_eq_self_iff)
qed

lemma divl_correct: "div_correct SzL t e (helper_divl_EAX t e)"
proof -
  have v: "uint (take_bit 32 (EAX e) OR push_bit 32 (take_bit 32 (EDX e))) = dividend SzL e" "uint (take_bit 32 t) = unsigned_of SzL t"
    by (simp_all add: and_masks uint_pair dividend_def unsigned_of_def data_bits_def unsigned_take_bit_eq)
  have fields: "unsigned_of SzL x = take_bit 32 (uint x)" for x by (simp add: unsigned_of_def data_bits_def)
  have b: "data_bits SzL = 32" by (simp add: data_bits_def)
  have "helper_divl_EAX t e = (let n = dividend SzL e; d = unsigned_of SzL t in
      if d = 0 then Divide_error else if 2 ^ 32 \<le> n div d then Divide_error else Done (e\<lparr>EAX := put_long (n div d), EDX := put_long (n mod d)\<rparr>))"
    unfolding helper_divl_EAX_def Let_def v put_fold by auto
  then show ?thesis
    using dividend_div [where sz = SzL and e = e and t = t] unfolding b
    by (auto simp: div_correct_def Let_def b remainder_reg_def fields [of "put_bytes _ _ _"] fields [of "put_word _ _"]
        fields [of "put_long _"] fields [of "drop_bit _ _"] take_bit_int_eq_self_iff)
qed

lemma unsigned_of_Q: "unsigned_of SzQ x = int (unat x)"
  using unsigned_range [of SzQ x] uint_lt2p [of x] by (simp add: unsigned_of_def data_bits_def take_bit_int_eq_self_iff)

lemma divq_correct: "div_correct SzQ t e (helper_divq_EAX t e)"
proof -
  have v: "dividend SzQ e = int (val128 (EAX e, EDX e))"
    by (simp add: dividend_def unsigned_of_Q val128_def data_bits_def del: of_nat_unat)
  have z: "t = 0 \<longleftrightarrow> unat t = 0" by (simp add: unat_eq_0)
  show ?thesis
  proof (cases "t = 0")
    case True
    then show ?thesis by (simp add: div_correct_def helper_divq_EAX_def unsigned_of_Q)
  next
    case t: False
    show ?thesis
    proof (cases "div64 (EAX e, EDX e) t")
      case None
      then have "2 ^ 64 \<le> val128 (EAX e, EDX e) div unat t" using div64_spec(1) [OF t] by simp
      then have "(2 :: int) ^ 64 \<le> int (val128 (EAX e, EDX e)) div int (unat t)"
        by (metis zdiv_int of_nat_le_iff of_nat_power of_nat_numeral)
      then show ?thesis using None t
        by (simp add: div_correct_def helper_divq_EAX_def v unsigned_of_Q data_bits_def del: of_nat_unat)
    next
      case (Some p)
      obtain q r where p: "p = (q, r)" by fastforce
      have "unat q = val128 (EAX e, EDX e) div unat t" "unat r = val128 (EAX e, EDX e) mod unat t"
        using div64_spec(2) [OF t, of _ q r] Some p by auto
      then have "int (unat q) = int (val128 (EAX e, EDX e)) div int (unat t)" "int (unat r) = int (val128 (EAX e, EDX e)) mod int (unat t)"
        by (simp_all only: of_nat_div of_nat_mod)
      moreover have "int (unat q) < 2 ^ 64" using unat_bounds(4) [of q] by (simp del: of_nat_unat)
      ultimately show ?thesis using Some t z
        by (simp add: div_correct_def helper_divq_EAX_def v unsigned_of_Q data_bits_def remainder_reg_def p
            del: of_nat_unat)
    qed
  qed
qed

section \<open>Signed division\<close>

text \<open>
  What the documentation says of IDIV, but for one dividend and divisor with 16 and 32 bits, where the division
  of the host traps instead of the exception of the guest.
\<close>

definition idiv_traps :: "size \<Rightarrow> int \<Rightarrow> int \<Rightarrow> bool" where
  "idiv_traps sz n d \<longleftrightarrow> (sz = SzW \<or> sz = SzL) \<and> n = - (2 ^ (2 * data_bits sz - 1)) \<and> d = - 1"

definition idiv_correct :: "size \<Rightarrow> u64 \<Rightarrow> 'a x86_scheme \<Rightarrow> 'a x86_scheme outcome \<Rightarrow> bool" where
  "idiv_correct sz t e res \<longleftrightarrow>
    (let n = signed_dividend sz e; d = signed_of sz t
     in case res of
          Done e' \<Rightarrow> d \<noteq> 0 \<and> in_signed_range sz (c_div n d) \<and>
            signed_of sz (EAX e') = c_div n d \<and> signed_of sz (remainder_reg sz e') = c_rem n d
        | Divide_error \<Rightarrow> (d = 0 \<or> \<not> in_signed_range sz (c_div n d)) \<and> \<not> idiv_traps sz n d
        | Host_trap \<Rightarrow> idiv_traps sz n d)"

lemma signed_range: "in_signed_range sz (signed_of sz x)"
  by (simp add: in_signed_range_def signed_of_def signed_take_bit_int_greater_eq_minus_exp signed_take_bit_int_less_exp)

lemma c_rem_in_range:
  assumes "signed_of sz t \<noteq> 0"
  shows "in_signed_range sz (c_rem n (signed_of sz t))"
proof -
  have "\<bar>c_rem n (signed_of sz t)\<bar> < \<bar>signed_of sz t\<bar>" by (rule c_div_rem(2) [OF assms])
  moreover have "\<bar>signed_of sz t\<bar> \<le> 2 ^ (data_bits sz - 1)" using signed_range [of sz t] by (auto simp: in_signed_range_def)
  ultimately show ?thesis by (auto simp: in_signed_range_def)
qed

lemma signed_fits: "signed_take_bit (data_bits sz - 1) i = i \<longleftrightarrow> in_signed_range sz i"
  by (simp add: in_signed_range_def signed_take_bit_int_eq_self_iff)

lemma signed_pair:
  fixes a b :: u64
  assumes "0 < n" "2 * n \<le> 64"
  shows "signed_take_bit (2 * n - 1) (uint (take_bit n a OR push_bit n (take_bit n b))) =
    signed_take_bit (n - 1) (uint b) * 2 ^ n + take_bit n (uint a)"
proof -
  have "signed_take_bit (2 * n - 1) (uint (take_bit n a OR push_bit n (take_bit n b))) =
      take_bit n (uint a) OR push_bit n (signed_take_bit (n - 1) (uint b))"
    using assms by (intro bit_eqI) (auto simp: bit_simps min_def)
  also have "\<dots> = take_bit n (uint a) + push_bit n (signed_take_bit (n - 1) (uint b))"
    by (rule disjunctive_add_eq_or [symmetric]) (auto simp: bit_eq_iff bit_simps)
  finally show ?thesis by (simp add: push_bit_eq_mult)
qed

lemma signed_of_low:
  assumes "n = data_bits sz" "take_bit n (uint x) = take_bit n q"
  shows "signed_of sz x = signed_take_bit (n - 1) q"
proof -
  have "signed_take_bit (n - 1) (take_bit n i) = signed_take_bit (n - 1) i" for i :: int
    using data_bits_bounds(1) [of sz] by (cases "data_bits sz") (simp_all add: signed_take_bit_take_bit assms(1))
  then show ?thesis using assms(2) unfolding signed_of_def assms(1) [symmetric] by metis
qed

lemma idivb_correct: "idiv_correct SzB t e (helper_idivb_AL t e)"
proof -
  have v: "signed_take_bit 15 (uint (EAX e)) = signed_dividend SzB e" "signed_take_bit 7 (uint t) = signed_of SzB t"
    using signed_pair [of 8 "EAX e" "EDX e"]
    by (simp_all add: and_masks signed_dividend_def signed_of_def unsigned_of_def data_bits_def unsigned_take_bit_eq sint_uint)
  have b: "data_bits SzB = 8" by (simp add: data_bits_def)
  note fields = signed_of_low [OF b [symmetric]]
  have fit: "q \<noteq> signed_take_bit 7 q \<longleftrightarrow> \<not> in_signed_range SzB q" for q
    using signed_fits [of SzB q] by (simp add: b eq_commute)
  have same: "in_signed_range SzB q \<Longrightarrow> signed_take_bit 7 q = q" for q
    using signed_fits [of SzB q] by (simp add: b)
  have "helper_idivb_AL t e = (let n = signed_dividend SzB e; d = signed_of SzB t in
      if d = 0 then Divide_error else 
        if \<not> in_signed_range SzB (c_div n d) then Divide_error else Done (e\<lparr>EAX := put_bytes (EAX e) (c_div n d) (c_rem n d)\<rparr>))"
    unfolding helper_idivb_AL_def Let_def v put_fold fit ..
  then show ?thesis
    using c_rem_in_range [of SzB t "signed_dividend SzB e"]
    by (auto simp: idiv_correct_def idiv_traps_def Let_def b remainder_reg_def fields [OF put_bytes(1)] fields [OF put_bytes(2)] same)
qed

lemma idivw_correct: "idiv_correct SzW t e (helper_idivw_AX t e)"
proof -
  have v: "signed_take_bit 31 (uint ((EAX e AND 0xffff) OR push_bit 16 (EDX e AND 0xffff))) = signed_dividend SzW e" "signed_take_bit 15 (uint t) = signed_of SzW t"
    using signed_pair [of 16 "EAX e" "EDX e"]
    by (simp_all add: and_masks signed_dividend_def signed_of_def unsigned_of_def data_bits_def unsigned_take_bit_eq sint_uint)
  have b: "data_bits SzW = 16" by (simp add: data_bits_def)
  note fields = signed_of_low [OF b [symmetric]]
  have fit: "q \<noteq> signed_take_bit 15 q \<longleftrightarrow> \<not> in_signed_range SzW q" for q
    using signed_fits [of SzW q] by (simp add: b eq_commute)
  have same: "in_signed_range SzW q \<Longrightarrow> signed_take_bit 15 q = q" for q
    using signed_fits [of SzW q] by (simp add: b)
  have "helper_idivw_AX t e = (let n = signed_dividend SzW e; d = signed_of SzW t in
      if d = 0 then Divide_error else if n = - (2 ^ 31) \<and> d = - 1 then Host_trap else 
        if \<not> in_signed_range SzW (c_div n d) then Divide_error else Done (e\<lparr>EAX := put_word (EAX e) (c_div n d), EDX := put_word (EDX e) (c_rem n d)\<rparr>))"
    unfolding helper_idivw_AX_def Let_def v put_fold fit ..
  then show ?thesis
    using c_rem_in_range [of SzW t "signed_dividend SzW e"]
    by (auto simp: idiv_correct_def idiv_traps_def Let_def b remainder_reg_def fields [OF put_word] same)
qed

lemma idivl_correct: "idiv_correct SzL t e (helper_idivl_EAX t e)"
proof -
  have v: "sint (take_bit 32 (EAX e) OR push_bit 32 (take_bit 32 (EDX e))) = signed_dividend SzL e" "signed_take_bit 31 (uint t) = signed_of SzL t"
    using signed_pair [of 32 "EAX e" "EDX e"]
    by (simp_all add: and_masks signed_dividend_def signed_of_def unsigned_of_def data_bits_def unsigned_take_bit_eq sint_uint)
  have b: "data_bits SzL = 32" by (simp add: data_bits_def)
  note fields = signed_of_low [OF b [symmetric]]
  have fit: "q \<noteq> signed_take_bit 31 q \<longleftrightarrow> \<not> in_signed_range SzL q" for q
    using signed_fits [of SzL q] by (simp add: b eq_commute)
  have same: "in_signed_range SzL q \<Longrightarrow> signed_take_bit 31 q = q" for q
    using signed_fits [of SzL q] by (simp add: b)
  have "helper_idivl_EAX t e = (let n = signed_dividend SzL e; d = signed_of SzL t in
      if d = 0 then Divide_error else if n = - (2 ^ 63) \<and> d = - 1 then Host_trap else 
        if \<not> in_signed_range SzL (c_div n d) then Divide_error else Done (e\<lparr>EAX := put_long (c_div n d), EDX := put_long (c_rem n d)\<rparr>))"
    unfolding helper_idivl_EAX_def Let_def v put_fold fit ..
  then show ?thesis
    using c_rem_in_range [of SzL t "signed_dividend SzL e"]
    by (auto simp: idiv_correct_def idiv_traps_def Let_def b remainder_reg_def fields [OF put_long] same)
qed

lemma c_div_cases: "b \<noteq> 0 \<Longrightarrow> c_div a b = (if (a < 0) \<noteq> (b < 0) then - (\<bar>a\<bar> div \<bar>b\<bar>) else \<bar>a\<bar> div \<bar>b\<bar>)"
  "c_rem a b = (if a < 0 then - (\<bar>a\<bar> mod \<bar>b\<bar>) else \<bar>a\<bar> mod \<bar>b\<bar>)"
  by (cases "a = 0"; simp add: c_div_def c_rem_def sgn_if)+

lemma sint_nonneg: "unat (w :: u64) < 2 ^ 63 \<Longrightarrow> sint w = int (unat w)"
  by (simp add: sint_u64)

lemma sint_neg_small:
  assumes "unat (w :: u64) \<le> 2 ^ 63"
  shows "sint (- w) = - int (unat w)"
proof (cases "w = 0")
  case False
  then have u: "int (unat (- w)) = 2 ^ 64 - int (unat w)" using uint_neg_u64 by simp
  then have "int (unat (- w) + unat w) = int (2 ^ 64)" by (simp del: of_nat_unat)
  then have "unat (- w) + unat w = 2 ^ 64" by (simp only: of_nat_eq_iff)
  then have "\<not> unat (- w) < 2 ^ 63" using assms by simp
  then show ?thesis using u by (simp only: sint_u64 if_False)
qed simp

lemma sval128_neg: "sint (snd p) < 0 \<longleftrightarrow> sval128 p < 0"
proof -
  have "0 \<le> uint (fst p)" "uint (fst p) < 2 ^ 64" using uint_lt2p [of "fst p"] by simp_all
  moreover have "x < 0 \<longleftrightarrow> y + 2 ^ 64 * x < 0" if "0 \<le> y" "y < 2 ^ 64" for x y :: int using that by auto
  ultimately show ?thesis unfolding sval128_def by blast
qed

lemma abs_sval128: "int (val128 (if sint (snd p) < 0 then neg128 p else p)) = \<bar>sval128 p\<bar>"
proof -
  note neg = sval128_neg [of p]
  show ?thesis
  proof (cases "sval128 p < 0")
    case True
    then have v: "- sval128 p = 2 ^ 128 - int (val128 p)" "2 ^ 127 \<le> val128 p"
      by (auto simp: sval128_val128 split: if_splits)
    then have "- int (val128 p) mod (2 * 2 ^ 127) = 2 ^ 128 - int (val128 p)"
      using val128_less [of p] by (subst zmod_zminus1_eq_if) (simp add: mod_pos_pos_trivial)
    moreover have "int (val128 (neg128 p)) mod (2 * 2 ^ 127) = int (val128 (neg128 p))"
      using val128_less [of "neg128 p"] by simp
    ultimately show ?thesis using True neg v val128_neg128 [of p] by simp
  next
    case False
    then show ?thesis using neg val128_less [of p] by (auto simp: sval128_val128 split: if_splits)
  qed
qed

lemma idiv64_spec:
  assumes "b \<noteq> 0"
  shows "case idiv64 p b of None \<Rightarrow> \<not> in_signed_range SzQ (c_div (sval128 p) (sint b))
    | Some (low, high) \<Rightarrow> in_signed_range SzQ (c_div (sval128 p) (sint b)) \<and>
        sint low = c_div (sval128 p) (sint b) \<and> sint high = c_rem (sval128 p) (sint b)"
proof -
  define P where "P = (if sint (snd p) < 0 then neg128 p else p)"
  define B where "B = (if sint b < 0 then - b else b)"
  define n d where "n = sval128 p" and "d = sint b"
  have P: "int (val128 P) = \<bar>n\<bar>" using abs_sval128 [of p] by (simp add: P_def n_def)
  have sa: "sint (snd p) < 0 \<longleftrightarrow> n < 0" unfolding n_def by (rule sval128_neg)
  have B: "int (unat B) = \<bar>d\<bar>" unfolding B_def d_def by (rule sint_abs_u64)
  have d: "d \<noteq> 0" using assms by (simp add: d_def signed_eq_0_iff)
  then have B0: "B \<noteq> 0" using B by auto
  have db: "\<bar>d\<bar> \<le> 2 ^ 63" using sint_greater_eq [of b] sint_less [of b] by (simp add: d_def abs_if)
  have eq: "idiv64 p b = (case div64 P B of None \<Rightarrow> None | Some (low, high) \<Rightarrow>
      if (n < 0) \<noteq> (d < 0) then if low > push_bit 63 1 then None else Some (- low, if n < 0 then - high else high)
      else if low \<ge> push_bit 63 1 then None else Some (low, if n < 0 then - high else high))"
    unfolding idiv64_def Let_def unfolding P_def [symmetric] B_def [symmetric] unfolding sa d_def ..
  show ?thesis
  proof (cases "div64 P B")
    case None
    then have "2 ^ 64 \<le> val128 P div unat B" using div64_spec(1) [OF B0] by simp
    then have "int (2 ^ 64) \<le> int (val128 P div unat B)" by (simp only: of_nat_le_iff)
    then have "2 ^ 64 \<le> \<bar>n\<bar> div \<bar>d\<bar>" by (simp add: of_nat_div P B del: of_nat_unat)
    then show ?thesis using None d
      by (simp add: eq c_div_cases in_signed_range_def data_bits_def flip: n_def d_def)
  next
    case (Some lh)
    obtain low high where lh: "lh = (low, high)" by fastforce
    have v: "unat low = val128 P div unat B" "unat high = val128 P mod unat B"
      using div64_spec(2) [OF B0] Some lh by auto
    then have q: "int (unat low) = \<bar>n\<bar> div \<bar>d\<bar>" and r: "int (unat high) = \<bar>n\<bar> mod \<bar>d\<bar>"
      by (simp_all only: of_nat_div of_nat_mod P B)
    have "\<bar>n\<bar> mod \<bar>d\<bar> < \<bar>d\<bar>" using d by simp
    then have "int (unat high) < int (2 ^ 63)" using db unfolding r by simp
    then have h: "unat high < 2 ^ 63" by (simp only: of_nat_less_iff)
    have cmp: "low > push_bit 63 1 \<longleftrightarrow> \<not> unat low \<le> 2 ^ 63" "low \<ge> push_bit 63 1 \<longleftrightarrow> \<not> unat low < 2 ^ 63"
      by (simp_all add: word_less_nat_alt word_le_nat_alt not_le not_less)
    have range: "in_signed_range SzQ (- int (unat low)) \<longleftrightarrow> unat low \<le> 2 ^ 63" "in_signed_range SzQ (int (unat low)) \<longleftrightarrow> unat low < 2 ^ 63"
      by (simp_all add: in_signed_range_def data_bits_def del: of_nat_unat)
    have cd: "c_div n d = (if (n < 0) \<noteq> (d < 0) then - int (unat low) else int (unat low))"
      "c_rem n d = (if n < 0 then - int (unat high) else int (unat high))"
      by (simp_all only: q r c_div_cases(1) [OF d] c_div_cases(2))
    have hs: "sint (if n < 0 then - high else high) = c_rem n d" using h by (simp add: cd sint_nonneg sint_neg_small)
    have "idiv64 p b = (if (n < 0) \<noteq> (d < 0)
        then if unat low \<le> 2 ^ 63 then Some (- low, if n < 0 then - high else high) else None
        else if unat low < 2 ^ 63 then Some (low, if n < 0 then - high else high) else None)"
      unfolding eq Some lh option.case prod.case cmp by simp
    then show ?thesis
      using hs cd(1) range sint_nonneg [of low] sint_neg_small [of low] unfolding n_def [symmetric] d_def [symmetric]
      by (auto simp del: of_nat_unat)
  qed
qed

lemma idivq_correct: "idiv_correct SzQ t e (helper_idivq_EAX t e)"
proof -
  have n: "signed_dividend SzQ e = sval128 (EAX e, EDX e)"
    by (simp add: signed_dividend_def sval128_def data_bits_def unsigned_of_Q signed_of_def sint_uint)
  have s: "signed_of SzQ x = sint x" for x by (simp add: signed_of_def data_bits_def sint_uint)
  show ?thesis
    using idiv64_spec [of t "(EAX e, EDX e)"]
    by (auto simp: idiv_correct_def helper_idivq_EAX_def n s idiv_traps_def remainder_reg_def signed_eq_0_iff
        split: option.splits if_splits)
qed

section \<open>Main facts\<close>

text \<open>C18: DIV and IDIV of the emulated processor in all four operand sizes, the bitwise 128-bit
  division included: the quotient and the remainder are exact (unsigned, or rounded towards
  zero), and the divide error is raised exactly when the divisor is 0 or the quotient does not
  fit; but for IDIV with 16 and 32 bits the smallest dividend and divisor -1 trap in the
  division of the host instead.\<close>

theorem x86_division_exact:
  "div_correct sz t e (div_helper sz t e) \<and> idiv_correct sz t e (idiv_helper sz t e)"
  by (cases sz; simp add: div_helper_def idiv_helper_def divb_correct divw_correct divl_correct divq_correct
      idivb_correct idivw_correct idivl_correct idivq_correct)

lemma drop_sign:
  fixes i :: int
  assumes "- (2 ^ 63) \<le> i" "i < 2 ^ 63"
  shows "drop_bit 63 i = (if i < 0 then - 1 else 0)"
proof (cases "i < 0")
  case True
  have "i div 2 ^ 63 = - 1" by (rule int_div_pos_eq [where r = "i + 2 ^ 63"]) (use True assms in simp_all)
  then show ?thesis using True by (simp add: drop_bit_eq_div)
next
  case False
  then show ?thesis using assms by (simp add: drop_bit_eq_div)
qed

lemma sign_uint: "sint (w :: u64) < 0 \<longleftrightarrow> 2 ^ 63 \<le> uint w"
proof (cases "unat w < 2 ^ 63")
  case True
  then have "int (unat w) < int (2 ^ 63)" by (simp only: of_nat_less_iff)
  then show ?thesis using True by (simp add: sint_u64)
next
  case False
  then have "int (2 ^ 63) \<le> int (unat w)" by (simp only: of_nat_le_iff not_less)
  then show ?thesis using False uint_lt2p [of w] by (simp add: sint_u64)
qed

text \<open>The flag after a multiplication says that the upper half is not the sign of the lower.\<close>

theorem x86_multiply_64:
  "val128 (EAX (helper_mulq_EAX_T0 t e), EDX (helper_mulq_EAX_T0 t e)) = unat (EAX e) * unat t \<and>
   sval128 (EAX (helper_imulq_EAX_T0 t e), EDX (helper_imulq_EAX_T0 t e)) = sint (EAX e) * sint t \<and>
   (CC_SRC (helper_mulq_EAX_T0 t e) \<noteq> 0 \<longleftrightarrow> 2 ^ 64 \<le> unat (EAX e) * unat t) \<and>
   (CC_SRC (helper_imulq_EAX_T0 t e) \<noteq> 0 \<longleftrightarrow> \<not> in_signed_range SzQ (sint (EAX e) * sint t))"
proof -
  obtain l h where m: "mulu64 (EAX e) t = (l, h)" by fastforce
  obtain sl sh where s: "muls64 (EAX e) t = (sl, sh)" by fastforce
  have v: "val128 (l, h) = unat (EAX e) * unat t" using mulu64_exact [of "EAX e" t] m by simp
  have sv: "sval128 (sl, sh) = sint (EAX e) * sint t" using muls64_exact [of "EAX e" t] s by simp
  have "h \<noteq> 0 \<longleftrightarrow> 2 ^ 64 \<le> val128 (l, h)"
  proof -
    have "unat l < 2 ^ 64" using unat_bounds(4) [of l] by simp
    moreover have "h = 0 \<longleftrightarrow> unat h = 0" by (simp add: unat_eq_0)
    moreover have "b \<noteq> 0 \<longleftrightarrow> 2 ^ 64 \<le> a + 2 ^ 64 * b" if "a < 2 ^ 64" for a b :: nat using that by (cases b) auto
    ultimately show ?thesis by (simp add: val128_def)
  qed
  moreover have "sint sh \<noteq> drop_bit 63 (sint sl) \<longleftrightarrow> \<not> in_signed_range SzQ (sval128 (sl, sh))"
  proof -
    have "drop_bit 63 (sint sl) = (if sint sl < 0 then - 1 else 0)"
      using sint_greater_eq [of sl] sint_less [of sl] by (intro drop_sign) simp_all
    then have d: "drop_bit 63 (sint sl) = (if 2 ^ 63 \<le> uint sl then - 1 else 0)" unfolding sign_uint .
    have "b \<noteq> (if 2 ^ 63 \<le> a then - 1 else 0) \<longleftrightarrow> \<not> in_signed_range SzQ (a + 2 ^ 64 * b)"
      if "0 \<le> a" "a < 2 ^ 64" for a b :: int using that by (auto simp: in_signed_range_def data_bits_def)
    from this [of "uint sl" "sint sh"] show ?thesis
      using uint_lt2p [of sl] unfolding d sval128_def by simp
  qed
  ultimately show ?thesis using v sv by (simp add: helper_mulq_EAX_T0_def helper_imulq_EAX_T0_def m s)
qed

end
