(* ===== verification/X86_Bcd.thy ===== *)
theory X86_Bcd
  imports X86_Div
begin

text \<open>
  Decimal arithmetic of the x86 processor, \<open>qemu/target-i386/op_helper.c\<close>: the adjustments of unpacked and of packed
  decimal numbers after the binary instructions. The locals of type \<open>int\<close> are integers; \<open>eflags\<close> is a word.
\<close>

section \<open>Unpacked numbers\<close>

text \<open>\<open>None\<close> is the trap of the host; the translator raises the exception of the guest for a base of 0 before.\<close>

definition helper_aam :: "int \<Rightarrow> 'a x86_scheme \<Rightarrow> 'a x86_scheme option" where
  "helper_aam base e =
    (if base = 0 then None
     else
       let al = uint (EAX e AND 0xff);
           ah = c_div al base;
           al = c_rem al base
       in Some (e\<lparr>EAX := (EAX e AND NOT 0xffff) OR word_of_int al OR word_of_int (push_bit 8 ah), CC_DST := word_of_int al\<rparr>))"

definition helper_aad :: "int \<Rightarrow> 'a x86_scheme \<Rightarrow> 'a x86_scheme" where
  "helper_aad base e =
    (let al = uint (EAX e AND 0xff);
         ah = uint (drop_bit 8 (EAX e) AND 0xff);
         al = (ah * base + al) AND 0xff
     in e\<lparr>EAX := (EAX e AND NOT 0xffff) OR word_of_int al, CC_DST := word_of_int al\<rparr>)"

definition helper_aaa :: "'a x86_scheme \<Rightarrow> 'a x86_scheme" where
  "helper_aaa e =
    (let eflags = helper_cc_compute_all (CC_OP e) e;
         af = eflags AND CC_A;
         al = uint (EAX e AND 0xff);
         ah = uint (drop_bit 8 (EAX e) AND 0xff);
         icarry = of_bool (al > 0xf9);
         (al, ah, eflags) =
           (if al AND 0x0f > 9 \<or> af \<noteq> 0
            then ((al + 6) AND 0x0f, (ah + 1 + icarry) AND 0xff, eflags OR (CC_C OR CC_A))
            else (al AND 0x0f, ah, eflags AND NOT (CC_C OR CC_A)))
     in e\<lparr>EAX := (EAX e AND NOT 0xffff) OR word_of_int al OR word_of_int (push_bit 8 ah), CC_SRC := ucast eflags\<rparr>)"

definition helper_aas :: "'a x86_scheme \<Rightarrow> 'a x86_scheme" where
  "helper_aas e =
    (let eflags = helper_cc_compute_all (CC_OP e) e;
         af = eflags AND CC_A;
         al = uint (EAX e AND 0xff);
         ah = uint (drop_bit 8 (EAX e) AND 0xff);
         icarry = of_bool (al < 6);
         (al, ah, eflags) =
           (if al AND 0x0f > 9 \<or> af \<noteq> 0
            then ((al - 6) AND 0x0f, (ah - 1 - icarry) AND 0xff, eflags OR (CC_C OR CC_A))
            else (al AND 0x0f, ah, eflags AND NOT (CC_C OR CC_A)))
     in e\<lparr>EAX := (EAX e AND NOT 0xffff) OR word_of_int al OR word_of_int (push_bit 8 ah), CC_SRC := ucast eflags\<rparr>)"

section \<open>Packed numbers\<close>

text \<open>The two adjustments of each instruction: the new byte with the auxiliary carry and the carry.\<close>

definition daa_adjust :: "int \<Rightarrow> bool \<Rightarrow> bool \<Rightarrow> int \<times> bool \<times> bool" where
  "daa_adjust al af cf =
    (let (al, a) = (if al AND 0x0f > 9 \<or> af then ((al + 6) AND 0xff, True) else (al, False));
         (al, c) = (if al > 0x9f \<or> cf then ((al + 0x60) AND 0xff, True) else (al, False))
     in (al, a, c))"

definition das_adjust :: "int \<Rightarrow> bool \<Rightarrow> bool \<Rightarrow> int \<times> bool \<times> bool" where
  "das_adjust al af cf =
    (let al1 = al;
         (al, a, c) = (if al AND 0x0f > 9 \<or> af then ((al - 6) AND 0xff, True, al < 6 \<or> cf) else (al, False, False));
         (al, c) = (if al1 > 0x99 \<or> cf then ((al - 0x60) AND 0xff, True) else (al, c))
     in (al, a, c))"

text \<open>The flags both compute by hand.\<close>

definition bcd_flags :: "int \<Rightarrow> bool \<Rightarrow> bool \<Rightarrow> u32" where
  "bcd_flags al a c =
    (let eflags = 0;
         eflags = (if a then eflags OR CC_A else eflags);
         eflags = (if c then eflags OR CC_C else eflags);
         eflags = eflags OR push_bit 6 (of_bool (al = 0));
         eflags = eflags OR parity_table ! nat al
     in eflags OR word_of_int (al AND 0x80))"

definition helper_daa :: "'a x86_scheme \<Rightarrow> 'a x86_scheme" where
  "helper_daa e =
    (let eflags = helper_cc_compute_all (CC_OP e) e;
         cf = eflags AND CC_C;
         af = eflags AND CC_A;
         (al, a, c) = daa_adjust (uint (EAX e AND 0xff)) (af \<noteq> 0) (cf \<noteq> 0)
     in e\<lparr>EAX := (EAX e AND NOT 0xff) OR word_of_int al, CC_SRC := ucast (bcd_flags al a c)\<rparr>)"

definition helper_das :: "'a x86_scheme \<Rightarrow> 'a x86_scheme" where
  "helper_das e =
    (let eflags = helper_cc_compute_all (CC_OP e) e;
         cf = eflags AND CC_C;
         af = eflags AND CC_A;
         (al, a, c) = das_adjust (uint (EAX e AND 0xff)) (af \<noteq> 0) (cf \<noteq> 0)
     in e\<lparr>EAX := (EAX e AND NOT 0xff) OR word_of_int al, CC_SRC := ucast (bcd_flags al a c)\<rparr>)"

section \<open>The adjustments\<close>

text \<open>
  \<open>l\<close> is the sum or difference of the units with the carry that comes in, \<open>h\<close> that of the tens; the binary
  instruction left \<open>16 * h + l\<close>, and the decimal result is \<open>10 * h + l\<close>.
\<close>

definition packed :: "int \<Rightarrow> int" where
  "packed n = 16 * (n div 10 mod 10) + n mod 10"

text \<open>The sums whose carry the code loses.\<close>

definition daa_loses :: "int \<Rightarrow> int \<Rightarrow> bool" where
  "daa_loses h l \<longleftrightarrow> h = 15 \<and> 10 \<le> l \<and> l < 16"

definition daa_case :: "int \<Rightarrow> int \<Rightarrow> bool" where
  "daa_case h l \<longleftrightarrow>
    (let (al, a, c) = daa_adjust ((16 * h + l) mod 256) (16 \<le> l) (256 \<le> 16 * h + l)
     in if daa_loses h l then al = l - 10 \<and> \<not> c else al = packed (10 * h + l) \<and> (c \<longleftrightarrow> 100 \<le> 10 * h + l))"

definition das_case :: "int \<Rightarrow> int \<Rightarrow> bool" where
  "das_case h l \<longleftrightarrow>
    (let (al, a, c) = das_adjust ((16 * h + l) mod 256) (l < 0) (16 * h + l < 0)
     in al = packed (10 * h + l) \<and> (c \<longleftrightarrow> 10 * h + l < 0))"

lemma daa_cases: "list_all (\<lambda>h. list_all (daa_case h) [0..19]) [0..18]"
  by code_simp

lemma das_cases: "list_all (\<lambda>h. list_all (das_case h) [-10..9]) [-9..9]"
  by code_simp

lemma daa_case_all:
  assumes "0 \<le> h" "h \<le> 18" "0 \<le> l" "l \<le> 19"
  shows "daa_case h l"
proof -
  have "h \<in> set [0..18]" "l \<in> set [0..19]" using assms by simp_all
  then show ?thesis using daa_cases unfolding list_all_iff by blast
qed

lemma das_case_all:
  assumes "- 9 \<le> h" "h \<le> 9" "- 10 \<le> l" "l \<le> 9"
  shows "das_case h l"
proof -
  have "h \<in> set [-9..9]" "l \<in> set [-10..9]" unfolding set_upto using assms by (simp_all only: atLeastAtMost_iff)
  then show ?thesis using das_cases unfolding list_all_iff by blast
qed

section \<open>Adding and subtracting packed numbers\<close>

text \<open>What the translated ADD, ADC, SUB and SBB on AL leave.\<close>

definition after_add :: "u64 \<Rightarrow> u64 \<Rightarrow> bool \<Rightarrow> 'a x86_scheme \<Rightarrow> 'a x86_scheme" where
  "after_add a b c e =
    (let r = a + b + of_bool c
     in e\<lparr>EAX := (EAX e AND NOT 0xff) OR (r AND 0xff), CC_OP := (if c then CC_OP_ADC SzB else CC_OP_ADD SzB),
          CC_SRC := b, CC_DST := r\<rparr>)"

definition after_sub :: "u64 \<Rightarrow> u64 \<Rightarrow> bool \<Rightarrow> 'a x86_scheme \<Rightarrow> 'a x86_scheme" where
  "after_sub a b c e =
    (let r = a - b - of_bool c
     in e\<lparr>EAX := (EAX e AND NOT 0xff) OR (r AND 0xff), CC_OP := (if c then CC_OP_SBB SzB else CC_OP_SUB SzB),
          CC_SRC := b, CC_DST := r\<rparr>)"

definition AL :: "'a x86_scheme \<Rightarrow> int" where
  "AL e = uint (EAX e AND 0xff)"

definition carry :: "'a x86_scheme \<Rightarrow> bool" where
  "carry e \<longleftrightarrow> CC_SRC e AND CC_C \<noteq> 0"

lemma flag_word_carries:
  "flag_word c p a z s v AND CC_C \<noteq> 0 \<longleftrightarrow> c" "flag_word c p a z s v AND CC_A \<noteq> 0 \<longleftrightarrow> a"
proof -
  have m: "(CC_C :: u32) = bitmask 0" "(CC_A :: u32) = bitmask 4" by (simp_all add: flag_masks)
  show "flag_word c p a z s v AND CC_C \<noteq> 0 \<longleftrightarrow> c" "flag_word c p a z s v AND CC_A \<noteq> 0 \<longleftrightarrow> a"
    unfolding m masked_bit by (simp_all add: flag_word_def bit_or_iff bit_push_bit_iff bit_of_bool_iff)
qed

lemma low_byte: "uint (((x :: u64) AND NOT 0xff) OR (y AND 0xff)) mod 256 = uint y mod 256"
proof -
  have m: "0xff = (mask 8 :: u64)" by (simp add: mask_eq_exp_minus_1)
  have "take_bit 8 ((x AND NOT (mask 8)) OR (y AND mask 8)) = take_bit 8 y" by (rule bit_word_eqI) (auto simp: bit_simps)
  then have "take_bit 8 (uint ((x AND NOT (mask 8)) OR (y AND mask 8))) = take_bit 8 (uint y)"
    by (simp flip: unsigned_take_bit_eq)
  then show ?thesis unfolding m by (simp add: take_bit_eq_mod)
qed

lemma AL_mod: "AL e = uint (EAX e) mod 256"
proof -
  have "EAX e AND 0xff = take_bit 8 (EAX e)" by (simp add: take_bit_eq_mask mask_eq_exp_minus_1)
  then have "AL e = uint (take_bit 8 (EAX e))" by (simp only: AL_def)
  also have "\<dots> = take_bit 8 (uint (EAX e))" by (rule unsigned_take_bit_eq)
  finally show ?thesis by (simp add: take_bit_eq_mod)
qed

lemma byte_mod: "0 \<le> al \<Longrightarrow> al < 256 \<Longrightarrow> uint (((x :: u64) AND NOT 0xff) OR word_of_int al) mod 256 = al"
proof -
  assume al: "0 \<le> al" "al < 256"
  then have u: "uint (word_of_int al :: u64) = al" by (simp add: uint_word_of_int)
  then have "take_bit 8 (word_of_int al :: u64) = word_of_int al" using al by (simp add: word_uint_eq_iff unsigned_take_bit_eq take_bit_int_eq_self)
  then have "word_of_int al = (word_of_int al :: u64) AND 0xff" by (simp add: take_bit_eq_mask mask_eq_exp_minus_1)
  then show ?thesis using low_byte [of x "word_of_int al"] u al by simp
qed

lemma bcd_carry:
  assumes "0 \<le> al" "al < 256"
  shows "(ucast (bcd_flags al a c) :: u64) AND CC_C \<noteq> 0 \<longleftrightarrow> c"
proof -
  have m: "(CC_C :: u64) = bitmask 0" "(CC_C :: u32) = bitmask 0" "(CC_A :: u32) = bitmask 4" "(CC_P :: u32) = bitmask 2"
    by (simp_all add: flag_masks)
  have "\<not> bit (parity_table ! nat al) 0" using parity_table_nth [OF assms] by (simp add: m(4))
  moreover have "\<not> bit (al AND 0x80) 0" by (simp only: bit_and_iff) (simp add: bit_0)
  ultimately have "bit (bcd_flags al a c) 0 = c"
    by (cases a; cases c)
      (simp_all add: bcd_flags_def m bit_or_iff bit_push_bit_iff bit_word_of_int_iff del: push_bit_and)
  then show ?thesis unfolding m masked_bit by (simp add: bit_ucast_iff)
qed

lemma packed_range: "0 \<le> packed n" "packed n < 256"
proof -
  have "0 \<le> n div 10 mod 10" "n div 10 mod 10 < 10" "0 \<le> n mod 10" "n mod 10 < 10" by simp_all
  then show "0 \<le> packed n" "packed n < 256" unfolding packed_def by linarith+
qed

lemma uint_byte:
  assumes "0 \<le> n" "n < 256"
  shows "uint (word_of_int n :: u64) = n" "unsigned_of SzB (word_of_int n) = n"
  using assms by (simp_all add: uint_word_of_int unsigned_of_int data_bits_def)

lemma after_add_flags:
  "helper_cc_compute_all (CC_OP (after_add a b c e)) (after_add a b c e) = sum_flags SzB a b (of_bool c) (a + b + of_bool c)"
  using x86_sum_flags [where sz = SzB and e = "e\<lparr>EAX := x, CC_OP := y\<rparr>" and b = b and a = a for x y]
  by (cases c) (simp_all add: after_add_def Let_def)

lemma after_sub_flags:
  "helper_cc_compute_all (CC_OP (after_sub a b c e)) (after_sub a b c e) = difference_flags SzB a b (of_bool c) (a - b - of_bool c)"
  using x86_difference_flags [where sz = SzB and e = "e\<lparr>EAX := x, CC_OP := y\<rparr>" and b = b and a = a for x y]
  by (cases c) (simp_all add: after_sub_def Let_def)

lemma AL_after:
  "AL (after_add a b c e) = (uint a + uint b + of_bool c) mod 256"
  "AL (after_sub a b c e) = (uint a - uint b - of_bool c) mod 256"
proof -
  have m: "i mod 18446744073709551616 mod 256 = i mod (256 :: int)" for i by (rule mod_mod_cancel) simp
  have o: "of_bool c = (word_of_int (of_bool c) :: u64)" by (cases c) simp_all
  have "a + b + of_bool c = word_of_int (uint a + uint b + of_bool c)" "a - b - of_bool c = word_of_int (uint a - uint b - of_bool c)"
    unfolding o by (simp_all only: of_int_add of_int_diff word_of_int_uint flip: o)
  then show "AL (after_add a b c e) = (uint a + uint b + of_bool c) mod 256"
    "AL (after_sub a b c e) = (uint a - uint b - of_bool c) mod 256"
    by (simp_all add: AL_mod after_add_def after_sub_def Let_def low_byte [where x = "EAX e", simplified] uint_word_of_int m
        del: of_int_add of_int_diff)
qed

lemma daa_result:
  assumes "daa_adjust (AL s) (helper_cc_compute_all (CC_OP s) s AND CC_A \<noteq> 0) (helper_cc_compute_all (CC_OP s) s AND CC_C \<noteq> 0) = (al, x, y)"
    and "0 \<le> al" "al < 256"
  shows "AL (helper_daa s) = al" "carry (helper_daa s) = y"
  using assms by (simp_all add: helper_daa_def Let_def AL_def [symmetric] AL_mod [of "s\<lparr>EAX := r, CC_SRC := q\<rparr>" for r q] byte_mod [where x = "EAX s", simplified]
      carry_def bcd_carry)

lemma das_result:
  assumes "das_adjust (AL s) (helper_cc_compute_all (CC_OP s) s AND CC_A \<noteq> 0) (helper_cc_compute_all (CC_OP s) s AND CC_C \<noteq> 0) = (al, x, y)"
    and "0 \<le> al" "al < 256"
  shows "AL (helper_das s) = al" "carry (helper_das s) = y"
  using assms by (simp_all add: helper_das_def Let_def AL_def [symmetric] AL_mod [of "s\<lparr>EAX := r, CC_SRC := q\<rparr>" for r q] byte_mod [where x = "EAX s", simplified]
      carry_def bcd_carry)

text \<open>The two bytes as pairs of digits.\<close>

definition digits :: "int \<Rightarrow> int \<Rightarrow> u64 \<Rightarrow> bool" where
  "digits x1 x0 a \<longleftrightarrow> x1 \<in> {0..9} \<and> x0 \<in> {0..9} \<and> uint a = 16 * x1 + x0"

lemma digits_byte:
  assumes "digits x1 x0 a"
  shows "uint a = 16 * x1 + x0" "uint a mod 16 = x0" "unsigned_of SzB a = 16 * x1 + x0" "0 \<le> x1" "x1 \<le> 9" "0 \<le> x0" "x0 \<le> 9"
proof -
  show a: "uint a = 16 * x1 + x0" and "0 \<le> x1" "x1 \<le> 9" "0 \<le> x0" "x0 \<le> 9" using assms by (auto simp: digits_def)
  then show "uint a mod 16 = x0" "unsigned_of SzB a = 16 * x1 + x0" by (simp_all add: unsigned_of_mod data_bits_def)
qed

lemma daa_decimal:
  fixes c :: bool and e :: "'a x86_scheme"
  assumes "digits x1 x0 a" "digits y1 y0 b"
  defines "h \<equiv> x1 + y1" and "l \<equiv> x0 + y0 + of_bool c" and "s \<equiv> helper_daa (after_add a b c e)"
  shows "if daa_loses h l then AL s = l - 10 \<and> \<not> carry s
    else AL s = packed (10 * h + l) \<and> (carry s \<longleftrightarrow> 100 \<le> 10 * h + l)"
proof -
  note A = digits_byte [OF assms(1)] and B = digits_byte [OF assms(2)]
  have k: "0 \<le> (of_bool c :: int)" "of_bool c \<le> (1 :: int)" by simp_all
  have f: "sum_flags SzB a b (of_bool c) (a + b + of_bool c) AND CC_C \<noteq> 0 \<longleftrightarrow> 256 \<le> 16 * h + l"
    "sum_flags SzB a b (of_bool c) (a + b + of_bool c) AND CC_A \<noteq> 0 \<longleftrightarrow> 16 \<le> l"
    unfolding sum_flags_def flag_word_carries A(2,3) B(2,3) by (auto simp: h_def l_def data_bits_def)
  have al: "AL (after_add a b c e) = (16 * h + l) mod 256"
    unfolding AL_after A(1) B(1) h_def l_def by (simp add: algebra_simps)
  obtain r x y where adj: "daa_adjust ((16 * h + l) mod 256) (16 \<le> l) (256 \<le> 16 * h + l) = (r, x, y)"
    by (metis prod_cases3)
  have "0 \<le> h" "h \<le> 18" "0 \<le> l" "l \<le> 19" unfolding h_def l_def using A(4-7) B(4-7) k by linarith+
  then have "daa_case h l" by (rule daa_case_all)
  then have r: "if daa_loses h l then r = l - 10 \<and> \<not> y else r = packed (10 * h + l) \<and> (y \<longleftrightarrow> 100 \<le> 10 * h + l)"
    by (simp add: daa_case_def adj)
  then have "0 \<le> r" "r < 256" using packed_range by (auto simp: daa_loses_def split: if_splits)
  then have "AL s = r" "carry s = y"
    unfolding s_def by (intro daa_result [where x = x and y = y]; simp add: after_add_flags f al adj)+
  with r show ?thesis by simp
qed

lemma das_decimal:
  fixes c :: bool and e :: "'a x86_scheme"
  assumes "digits x1 x0 a" "digits y1 y0 b"
  defines "h \<equiv> x1 - y1" and "l \<equiv> x0 - y0 - of_bool c" and "s \<equiv> helper_das (after_sub a b c e)"
  shows "AL s = packed (10 * h + l) \<and> (carry s \<longleftrightarrow> 10 * h + l < 0)"
proof -
  note A = digits_byte [OF assms(1)] and B = digits_byte [OF assms(2)]
  have k: "0 \<le> (of_bool c :: int)" "of_bool c \<le> (1 :: int)" by simp_all
  have f: "difference_flags SzB a b (of_bool c) (a - b - of_bool c) AND CC_C \<noteq> 0 \<longleftrightarrow> 16 * h + l < 0"
    "difference_flags SzB a b (of_bool c) (a - b - of_bool c) AND CC_A \<noteq> 0 \<longleftrightarrow> l < 0"
    unfolding difference_flags_def flag_word_carries A(2,3) B(2,3) by (auto simp: h_def l_def data_bits_def)
  have al: "AL (after_sub a b c e) = (16 * h + l) mod 256"
    unfolding AL_after A(1) B(1) h_def l_def by (simp add: algebra_simps)
  obtain r x y where adj: "das_adjust ((16 * h + l) mod 256) (l < 0) (16 * h + l < 0) = (r, x, y)"
    by (metis prod_cases3)
  have "- 9 \<le> h" "h \<le> 9" "- 10 \<le> l" "l \<le> 9" unfolding h_def l_def using A(4-7) B(4-7) k by linarith+
  then have "das_case h l" by (rule das_case_all)
  then have r: "r = packed (10 * h + l)" "y \<longleftrightarrow> 10 * h + l < 0" by (simp_all add: das_case_def adj)
  then have "AL s = r" "carry s = y"
    unfolding s_def using packed_range [of "10 * h + l"]
    by (intro das_result [where x = x and y = y]; simp add: after_sub_flags f al adj)+
  with r show ?thesis by simp
qed

section \<open>Main fact\<close>

text \<open>
  Numbers of two decimal digits: addition with DAA and subtraction with DAS are decimal, modulo 100 and with the decimal
  carry, except for sums whose tens add up to 15 and whose units, with the carry, to 10 to 15.
\<close>

text \<open>C20: On bytes of two decimal digits, DAA after ADD or ADC and DAS after SUB or SBB give the
  decimal sum and difference modulo 100 with the decimal carry; exactly the sums whose tens add
  up to 15 and whose units with the carry give 10 to 15 come out wrong, with the tens and the
  carry lost.\<close>

theorem x86_packed_decimal:
  fixes c :: bool and e :: "'a x86_scheme"
  assumes "digits x1 x0 a" "digits y1 y0 b"
  defines "X \<equiv> 10 * x1 + x0" and "Y \<equiv> 10 * y1 + y0" and "u \<equiv> x0 + y0 + of_bool c"
  defines "s \<equiv> helper_daa (after_add a b c e)" and "d \<equiv> helper_das (after_sub a b c e)"
  shows "(if x1 + y1 = 15 \<and> 10 \<le> u \<and> u < 16 then AL s = u - 10 \<and> \<not> carry s
      else AL s = packed (X + Y + of_bool c) \<and> (carry s \<longleftrightarrow> 100 \<le> X + Y + of_bool c)) \<and>
    AL d = packed (X - Y - of_bool c) \<and> (carry d \<longleftrightarrow> X < Y + of_bool c)"
proof -
  have "10 * (x1 + y1) + (x0 + y0 + of_bool c) = X + Y + of_bool c" "10 * (x1 - y1) + (x0 - y0 - of_bool c) = X - Y - of_bool c"
    "X - Y - of_bool c < 0 \<longleftrightarrow> X < Y + of_bool c" by (simp_all add: X_def Y_def diff_less_eq add.commute)
  then show ?thesis
    using daa_decimal [OF assms(1,2), of c e] das_decimal [OF assms(1,2), of c e]
    by (simp only: daa_loses_def u_def s_def d_def)
qed

theorem x86_packed_decimal_witness:
  "\<forall>e :: x86. AL (helper_daa (after_add 0x75 0x85 False e)) = 0 \<and> \<not> carry (helper_daa (after_add 0x75 0x85 False e)) \<and>
     AL (helper_daa (after_add 0x38 0x45 False e)) = 0x83"
proof
  fix e :: x86
  have "digits 7 5 0x75" "digits 8 5 0x85" "digits 3 8 0x38" "digits 4 5 0x45" by (simp_all add: digits_def)
  then show "AL (helper_daa (after_add 0x75 0x85 False e)) = 0 \<and> \<not> carry (helper_daa (after_add 0x75 0x85 False e)) \<and>
     AL (helper_daa (after_add 0x38 0x45 False e)) = 0x83"
    using x86_packed_decimal [of 7 5 "0x75" 8 5 "0x85" False e] x86_packed_decimal [of 3 8 "0x38" 4 5 "0x45" False e]
    by (simp add: packed_def)
qed

end
