(* ===== verification/Spec2Isabelle.thy ===== *)
theory Spec2Isabelle
  imports Cutils Iov Net_Checksum I8259 Mc146818rtc I8254 Ps2 Serial Irq_Delivery Json_Types Json_Roundtrip Key_Path Dma Net_Clients Qemu_Alarm X86_Alu X86_Bcd
begin

text \<open>
  A verification library for the machine emulator in the RACER artifacts. The repository compares a
  memory-side accelerator with a processor by running programs on a full-system simulator: the emulator
  QEMU (C, \<open>src/marss-cpu/marss.dramsim/qemu\<close>, with an identical copy under \<open>src/marss-emram\<close>) provides
  the devices of a PC, ptlsim and DRAMSim2 (C++) the timing of cores and memory, McPAT (C++) the power, and
  a short Python script the costs of the accelerator. The library models the devices of the PC, the
  utilities they are built on, and the arithmetic of the emulated processor that is written as C helpers. All
  file names below are relative to the first of the two copies.

  \<^bold>\<open>Theories.\<close>

  \<^item> \<open>Prelude\<close>: C's integer types as words, flags and bits of registers, arithmetic shared by the others.
    \<open>Memory\<close>: byte regions and \<open>memcpy\<close>, \<open>memset\<close>. \<open>Machine\<close>: reachable states and runs, and the locale
    \<open>device\<close>, the interface through which every device proves its invariant. \<open>Byte_Fifo\<close>: the locales
    \<open>byte_fifo\<close> and \<open>dropping_fifo\<close>, the contract of a bounded queue, and rings as its implementation.
  \<^item> \<open>Host_Utils\<close> (\<open>host-utils.c\<close>, \<open>host-utils.h\<close>, \<open>qemu-common.h\<close>): products of 64-bit numbers from 32-bit
    ones, the scaled division \<open>muldiv64\<close>, leading zeros. \<open>Cutils\<close> (\<open>cutils.c\<close>): bounded strings,
    \<open>mktimegm\<close>. \<open>Iov\<close> (\<open>cutils.c\<close>, \<open>iov.c\<close>): scatter/gather vectors. \<open>Net_Checksum\<close> (\<open>net/checksum.c\<close>).
  \<^item> \<open>I8259\<close> (\<open>hw/i8259.c\<close>): the two interrupt controllers. \<open>Mc146818rtc\<close> (\<open>hw/mc146818rtc.c\<close>): the
    real-time clock. \<open>I8254\<close> (\<open>hw/i8254.c\<close>): the interval timer. \<open>Ps2\<close> (\<open>hw/ps2.c\<close>): keyboard and mouse.
    \<open>Pckbd\<close> (\<open>hw/pckbd.c\<close>): the keyboard controller they are attached to, through the locale \<open>irq_source\<close>;
    \<open>Key_Path\<close>: its wiring to the interrupt controllers. \<open>Serial\<close> (\<open>hw/serial.c\<close>): the serial port.
  \<^item> \<open>Apic\<close> and \<open>Apic_Mem\<close> (\<open>hw/apic.c\<close>): the local APICs; \<open>Ioapic\<close> (\<open>hw/ioapic.c\<close>): the I/O APIC and the
    interrupt wiring of \<open>hw/pc.c\<close>; \<open>Irq_Delivery\<close>: the interrupt hardware as a whole.
  \<^item> \<open>Qdict\<close> (\<open>qdict.c\<close>): the hash table of dictionaries, an interpretation of the locale \<open>dictionary\<close>.
    \<open>Qstring\<close> (\<open>qstring.c\<close>): growing strings. \<open>Qobject\<close> (\<open>qobject.h\<close>, \<open>qlist.c\<close>, \<open>qint.c\<close>, \<open>qbool.c\<close>): the
    objects of the monitor. \<open>Json_Lexer\<close> (\<open>json-lexer.c\<close>), \<open>Json_Parser\<close> (\<open>json-streamer.c\<close>,
    \<open>json-parser.c\<close>) and \<open>Qjson\<close> (\<open>qjson.c\<close>): reading and writing objects as JSON; \<open>Json_Types\<close> and
    \<open>Json_Roundtrip\<close>: what reading can give, and that it undoes writing.
  \<^item> \<open>Qemu_Clock\<close>, \<open>Qemu_Timer\<close> and \<open>Qemu_Alarm\<close> (\<open>qemu-timer.c\<close>, \<open>cpu_get_icount\<close> of \<open>cpus.c\<close>): cycle counter,
    clocks and instruction counting; the lists of timers and running them; the deadlines and the host's alarm.
  \<^item> \<open>Dma\<close> (\<open>hw/dma.c\<close>): the DMA controllers. \<open>Net_Queue\<close> (\<open>net/queue.c\<close>): packet queues, through the locales
    \<open>net_receiver\<close> and \<open>logged_receiver\<close>. \<open>Net_Clients\<close> (\<open>net.c\<close>): peers and VLANs, which provide the receivers.
  \<^item> \<open>X86_Flags\<close> (\<open>target-i386/helper_template.h\<close>, \<open>target-i386/op_helper.c\<close>): the lazily computed flags of
    the processor at each operand size, and the conditions of jumps. \<open>X86_Alu\<close> (the same files): rotations through
    the carry and bit scans. \<open>X86_Div\<close>: multiplication and division, up to 128 by 64 bits. \<open>X86_Bcd\<close>: decimal
    adjustment.

  \<^bold>\<open>How the code is rendered.\<close> A struct is a record with the fields of the source; a C function is a
  function of the same name on that record, every branch and early return included. A \<open>switch\<close> over
  registers is split into one definition per register where it is long. Registers are words of their
  width, so that truncation and wrap-around are those of C; an \<open>int\<close> that stays small is an integer. What a
  device does to its surroundings (levels of an interrupt line, calls of a character device) is a list in
  its state, newest first; what the surroundings answer (the clock, the host's modem lines) is an argument.
  A timer of a device is the time it is armed for; \<open>Qemu_Timer\<close>
  models the lists behind it. Where C would divide by zero or overflow, the operation has no
  result (\<open>None\<close>), and that this does not happen is proved. Loops are structural recursions, folds over the
  range of the C loop, or functions with a termination proof; no fuel is used. The two loops that call back
  into code that may keep them busy, running timers and flushing packets, are partial functions into an
  option, and that they return is proved for callbacks that make progress.

  \<^bold>\<open>What is shown.\<close>

  \<^item> The interrupt path: priority resolution of the 8259 controllers, delivery of a request to its vector,
    no edge lost, the initialisation sequence; for the APICs, that bitmaps implement sets of vectors, that
    the highest unblocked vector is accepted, that a pin reaches exactly the addressed processors, that a
    request is signalled in every reachable state, and the whole level-triggered cycle from pin to end of
    interrupt and back.
  \<^item> Time: the clock's calendar agrees with the civil calendar and with \<open>mktimegm\<close>, its registers with the
    date in every format, its interrupt line with its flags in every reachable state; the interval timer
    and the timers of the clock and of the APIC are armed for the right time, strictly ahead.
  \<^item> Queues: keyboard, mouse and serial port refine a bounded FIFO; interrupt lines agree with what is
    queued and enabled in every reachable state; motion is conserved, key codes and loopback round-trip,
    flow control prevents overruns. The keyboard controller delivers the bytes of both devices in order, each
    with an interrupt of its own, and a key press is followed from the key to the vector and the data port.
  \<^item> The core of the emulator: the cycle counter does not run backwards; expired timers run once each and in
    order, and the alarm of the host never comes late for one; an idle machine goes to its next timer; a DMA
    transfer fills exactly its region; packets between peers are neither lost, repeated nor reordered.
  \<^item> Utilities: exact wide arithmetic, round trips of scatter and gather, bounds of string operations,
    checksums that verify at the receiver.
  \<^item> The processor: the flags of additions, subtractions, increments and logic agree with arithmetic on integers
    at every operand size; division traps exactly where it must and is exact otherwise; packed decimal numbers
    of two digits add and subtract; rotations and bit scans do what their definitions say.
  \<^item> Objects and JSON: dictionaries refine finite maps and are enumerated completely, strings stay inside
    their allocation; reading any text neither crashes nor builds an ill-formed object, and what is
    written, plain or pretty, is read back with the same value.

  \<^bold>\<open>Not modelled.\<close> Device registration and the tables that save and restore state, monitor printouts, host
  system calls, threads and the main loop. The network cards, disks, display and block layer, which are bound to
  files, displays and asynchronous I/O of the host; dynamic translation, which generates host code; user-mode
  emulation; SoftFloat, DRAMSim2 and McPAT, which are third-party; ptlsim, C++ templates around an event
  simulation; the Python script, a sum of floating-point energies. The handlers of devices on a DMA channel or
  a network and the callbacks of timers are parameters. In the model of
  the interrupt hardware the ports of the 8259 controllers are events, except the first word of their
  initialisation (ICW1): it lowers the output, which can hide a request of the APIC
  (\<open>pic_line_drop_hides_request\<close>). A PC without APIC, and a build with \<open>CONFIG_IOTHREAD\<close>, are left out;
  restoring a saved state is not an event of a device, except where a lemma says so. Of \<open>op_helper.c\<close>,
  segments, exceptions, the x87 and the vector instructions are left out. The virtual
  clock is read once per event. Reference counts of objects are not modelled; \<open>strtod\<close> and \<open>snprintf\<close> of a
  double are parameters.
\<close>

end
